(* ===== verification/ZT_Prelude.thy ===== *)
theory ZT_Prelude
  imports Main "HOL-Library.Word"
begin

text \<open>
  Shared ground of the development: the machine types of the ESP32 target (ILP32, little
  endian), the exceptions and undefined behaviour a routine of the node core can end in, C
  strings, the byte codecs that \<^verbatim>\<open>Utils.hpp\<close>, \<^verbatim>\<open>Buffer.hpp\<close>, \<^verbatim>\<open>Address.hpp\<close> and
  \<^verbatim>\<open>MAC.hpp\<close> repeat, and the generic lemmas on words, bytes and lists that the component
  theories share. \<open>zt_bits\<close> collects facts that turn the masks of the source into
  \<^term>\<open>take_bit\<close>, \<open>zt_codec\<close> the round trips of the codecs.
\<close>

unbundle bit_operations_syntax

named_theorems zt_bits
named_theorems zt_codec
named_theorems zt_result

type_synonym u8 = "8 word"
type_synonym u16 = "16 word"
type_synonym u32 = "32 word"
type_synonym u64 = "64 word"
type_synonym bytes = "u8 list"

section \<open>Exceptions and results\<close>

datatype zt_exception =
    ZT_EXCEPTION_OUT_OF_BOUNDS
  | ZT_EXCEPTION_OUT_OF_MEMORY
  | ZT_EXCEPTION_PRIVATE_KEY_REQUIRED
  | ZT_EXCEPTION_INVALID_ARGUMENT
  | ZT_EXCEPTION_INVALID_IDENTITY
  | ZT_EXCEPTION_INVALID_SERIALIZED_DATA_INVALID_TYPE
  | ZT_EXCEPTION_INVALID_SERIALIZED_DATA_OVERFLOW
  | ZT_EXCEPTION_INVALID_SERIALIZED_DATA_INVALID_CRYPTOGRAPHIC_TOKEN
  | ZT_EXCEPTION_INVALID_SERIALIZED_DATA_BAD_ENCODING

text \<open>
  A routine either returns, throws one of the exceptions above, or performs an access outside
  the object it works on. The last is not an outcome the language defines; it is a value of its
  own here so that its absence can be proved.
\<close>

datatype fault = Throw zt_exception | UndefinedBehaviour

type_synonym 'a result = "fault + 'a"

definition bindE :: "'a result \<Rightarrow> ('a \<Rightarrow> 'b result) \<Rightarrow> 'b result" where
  "bindE m f = (case m of Inl e \<Rightarrow> Inl e | Inr x \<Rightarrow> f x)"

definition guardE :: "bool \<Rightarrow> fault \<Rightarrow> unit result" where
  "guardE b e = (if b then Inr () else Inl e)"

text \<open>\<open>unsigned int\<close>, \<open>unsigned long\<close> and \<open>size_t\<close> are 32 bits wide on the target; sums of
  them are taken modulo \<^term>\<open>2 ^ 32 :: nat\<close>.\<close>

definition uadd :: "nat \<Rightarrow> nat \<Rightarrow> nat" where
  "uadd a b = (a + b) mod 2 ^ 32"

definition usub :: "nat \<Rightarrow> nat \<Rightarrow> nat" where
  "usub a b = (a + (2 ^ 32 - b mod 2 ^ 32)) mod 2 ^ 32"

text \<open>Memory accesses through a pointer into an object of bytes: writing or reading a run of bytes that
  does not lie in the object is undefined.\<close>

definition mem_write :: "bytes \<Rightarrow> nat \<Rightarrow> bytes \<Rightarrow> bytes result" where
  "mem_write m i bs =
    (if i + length bs > length m then Inl UndefinedBehaviour
     else Inr (take i m @ bs @ drop (i + length bs) m))"

definition mem_read :: "bytes \<Rightarrow> nat \<Rightarrow> nat \<Rightarrow> bytes result" where
  "mem_read m i n = (if i + n > length m then Inl UndefinedBehaviour else Inr (take n (drop i m)))"

section \<open>C strings\<close>

text \<open>A C string is read from memory up to the first zero byte.\<close>

definition cstr :: "bytes \<Rightarrow> bytes" where
  "cstr m = takeWhile (\<lambda>c. c \<noteq> 0) m"

definition terminated :: "bytes \<Rightarrow> bool" where
  "terminated m \<longleftrightarrow> 0 \<in> set m"

section \<open>Big- and little-endian codecs\<close>

text \<open>\<open>be_bytes n v\<close> is the loop that stores the bytes of \<open>v\<close> from the most significant one;
  \<open>be_word\<close> the loop \<open>v <<= 8; v |= *p++\<close> that reads them back.\<close>

fun be_bytes :: "nat \<Rightarrow> 'a::len word \<Rightarrow> bytes" where
  "be_bytes 0 v = []"
| "be_bytes (Suc n) v = ucast (drop_bit (8 * n) v) # be_bytes n v"

definition be_step :: "'a::len word \<Rightarrow> u8 \<Rightarrow> 'a word" where
  "be_step v b = push_bit 8 v OR ucast b"

definition be_word :: "bytes \<Rightarrow> 'a::len word" where
  "be_word bs = foldl be_step 0 bs"

definition le_bytes :: "nat \<Rightarrow> 'a::len word \<Rightarrow> bytes" where
  "le_bytes n v = rev (be_bytes n v)"

section \<open>Results\<close>

lemma bindE_Inl [simp, zt_result]: "bindE (Inl e) f = Inl e"
  by (simp add: bindE_def)

lemma bindE_Inr [simp, zt_result]: "bindE (Inr x) f = f x"
  by (simp add: bindE_def)

lemma bindE_eq_Inr [zt_result]: "bindE m f = Inr y \<longleftrightarrow> (\<exists>x. m = Inr x \<and> f x = Inr y)"
  by (cases m) auto

lemma bindE_eq_Inl [zt_result]:
  "bindE m f = Inl e \<longleftrightarrow> m = Inl e \<or> (\<exists>x. m = Inr x \<and> f x = Inl e)"
  by (cases m) auto

lemma guardE_simps [simp, zt_result]: "guardE True e = Inr ()" "guardE False e = Inl e"
  by (simp_all add: guardE_def)

lemma guardE_eq_Inr [zt_result]: "guardE b e = Inr u \<longleftrightarrow> b"
  by (simp add: guardE_def)

lemma guardE_eq_Inl [zt_result]: "guardE b e = Inl e' \<longleftrightarrow> \<not> b \<and> e' = e"
  by (auto simp: guardE_def)

lemma uadd_small [simp]: "a + b < 2 ^ 32 \<Longrightarrow> uadd a b = a + b"
  by (simp add: uadd_def)

lemma uadd_bound: "uadd a b < 2 ^ 32"
  by (simp add: uadd_def)

lemma usub_ge [simp]: "b \<le> a \<Longrightarrow> a < 2 ^ 32 \<Longrightarrow> usub a b = a - b"
proof -
  assume "b \<le> a" "a < 2 ^ 32"
  then have "a + (2 ^ 32 - b mod 2 ^ 32) = (a - b) + 2 ^ 32" by simp
  then show ?thesis unfolding usub_def using \<open>a < 2 ^ 32\<close> by simp
qed

section \<open>C strings: generic facts\<close>

lemma cstr_append_zero [simp]: "0 \<notin> set s \<Longrightarrow> cstr (s @ 0 # r) = s"
  unfolding cstr_def by (induction s) auto

lemma cstr_no_zero [simp]: "0 \<notin> set (cstr m)"
  unfolding cstr_def by (induction m) auto

lemma cstr_Nil [simp]: "cstr [] = []"
  by (simp add: cstr_def)

lemma cstr_Cons [simp]: "cstr (c # m) = (if c = 0 then [] else c # cstr m)"
  by (simp add: cstr_def)

lemma terminated_decomp: "terminated m \<Longrightarrow> \<exists>r. m = cstr m @ 0 # r"
  unfolding terminated_def by (induction m) auto

lemma length_cstr_terminated: "terminated m \<Longrightarrow> length (cstr m) < length m"
  unfolding terminated_def by (induction m) auto

section \<open>Lists\<close>

lemma take_update_ge [simp]: "n \<le> i \<Longrightarrow> take n (xs[i := x]) = take n xs"
  by simp

lemma drop_take_append_mid:
  "n = length xs \<Longrightarrow> m = length ys \<Longrightarrow> take m (drop n (xs @ ys @ zs)) = ys"
  by simp

section \<open>Masks as bit selections\<close>

lemma and_255 [zt_bits]: "(x::'a::len word) AND 255 = take_bit 8 x"
  by (simp add: take_bit_eq_mask mask_eq_exp_minus_1)

lemma and_15 [zt_bits]: "(x::'a::len word) AND 15 = take_bit 4 x"
  by (simp add: take_bit_eq_mask mask_eq_exp_minus_1)

lemma and_mask40 [zt_bits]: "(x::u64) AND 0xffffffffff = take_bit 40 x"
  by (simp add: take_bit_eq_mask mask_eq_exp_minus_1)

lemma and_mask48 [zt_bits]: "(x::u64) AND 0xffffffffffff = take_bit 48 x"
  by (simp add: take_bit_eq_mask mask_eq_exp_minus_1)

lemma unat_bound: "unat (w::'a::len word) < 2 ^ LENGTH('a)"
  by (rule unsigned_less)

lemma unat_drop_bit [zt_bits]: "unat (drop_bit n (w::'a::len word)) = unat w div 2 ^ n"
  by (simp add: unat_drop_bit_eq drop_bit_eq_div [where 'a = nat])

lemma unat_take_bit [zt_bits]: "unat (take_bit n (w::'a::len word)) = unat w mod 2 ^ n"
  by (simp add: unsigned_take_bit_eq take_bit_eq_mod [where 'a = nat])

lemma xor_eq_zero_iff [simp, zt_bits]: "(x::'a::len word) XOR y = 0 \<longleftrightarrow> x = y"
  by (metis xor.left_neutral xor.assoc xor_self_eq)

section \<open>Codec round trips\<close>

lemma length_be_bytes [simp]: "length (be_bytes n v) = n"
  by (induction n) auto

lemma length_le_bytes [simp]: "length (le_bytes n v) = n"
  by (simp add: le_bytes_def)

lemma be_word_Nil [simp]: "be_word [] = 0"
  by (simp add: be_word_def)

lemma be_word_snoc: "be_word (bs @ [b]) = push_bit 8 (be_word bs) OR ucast b"
  by (simp add: be_word_def be_step_def)

lemma be_bytes_numeral [simp]:
  "be_bytes (numeral k) v = ucast (drop_bit (8 * pred_numeral k) v) # be_bytes (pred_numeral k) v"
  by (simp add: numeral_eq_Suc)

lemma push_take_join:
  fixes v :: "'a::len word"
  shows "push_bit (8 * n) (push_bit 8 acc OR ucast (ucast (drop_bit (8 * n) v) :: u8)) OR take_bit (8 * n) v
       = push_bit (8 * Suc n) acc OR take_bit (8 * Suc n) v"
  by (rule bit_word_eqI) (auto simp: bit_simps ac_simps)

lemma foldl_be_step_be_bytes:
  fixes v :: "'a::len word"
  shows "foldl be_step acc (be_bytes n v) = push_bit (8 * n) acc OR take_bit (8 * n) v"
proof (induction n arbitrary: acc)
  case 0
  show ?case by simp
next
  case (Suc n)
  have "foldl be_step acc (be_bytes (Suc n) v)
      = push_bit (8 * n) (push_bit 8 acc OR ucast (ucast (drop_bit (8 * n) v) :: u8)) OR take_bit (8 * n) v"
    by (simp add: Suc be_step_def)
  also have "\<dots> = push_bit (8 * Suc n) acc OR take_bit (8 * Suc n) v"
    by (rule push_take_join)
  finally show ?case .
qed

lemma be_word_be_bytes [zt_codec]: "be_word (be_bytes n v) = take_bit (8 * n) v"
  by (simp add: be_word_def foldl_be_step_be_bytes)

lemma be_word_be_bytes_id [simp, zt_codec]:
  fixes v :: "'a::len word"
  shows "LENGTH('a) \<le> 8 * n \<Longrightarrow> be_word (be_bytes n v) = v"
  by (simp add: be_word_be_bytes take_bit_word_eq_self)

lemma foldl_be_step: "foldl be_step acc bs = (push_bit (8 * length bs) acc OR be_word bs :: 'a::len word)"
proof (induction bs arbitrary: acc)
  case Nil
  show ?case by simp
next
  case (Cons b bs)
  have "foldl be_step acc (b # bs) = push_bit (8 * length bs) (be_step acc b) OR (be_word bs :: 'a word)"
    by (simp add: Cons)
  moreover have "be_word (b # bs) = push_bit (8 * length bs) (ucast b) OR (be_word bs :: 'a word)"
    using Cons [of "ucast b"] by (simp add: be_word_def be_step_def [of 0 b])
  ultimately show ?case
    by (simp add: be_step_def [of acc b] push_bit_or or.assoc mult.commute add.commute)
qed

lemma be_word_Cons: "be_word (b # bs) = (push_bit (8 * length bs) (ucast b) OR be_word bs :: 'a::len word)"
  using foldl_be_step [of "ucast b" bs] by (simp add: be_word_def be_step_def [of 0 b])

lemma be_bytes_push:
  fixes v :: "'a::len word"
  shows "8 * Suc n \<le> LENGTH('a) \<Longrightarrow> be_bytes (Suc n) (push_bit 8 v OR ucast b) = be_bytes n v @ [b]"
proof (induction n)
  case 0
  then show ?case by simp (rule bit_word_eqI, auto simp: bit_simps)
next
  case (Suc n)
  have "ucast (drop_bit (8 * Suc n) (push_bit 8 v OR ucast b)) = (ucast (drop_bit (8 * n) v) :: u8)"
    using Suc.prems by (intro bit_word_eqI) (auto simp: bit_simps dest: bit_imp_le_length)
  moreover have "be_bytes (Suc n) (push_bit 8 v OR ucast b) = be_bytes n v @ [b]"
    using Suc by simp
  ultimately show ?case by simp
qed

lemma be_bytes_be_word [simp, zt_codec]:
  "8 * length bs \<le> LENGTH('a) \<Longrightarrow> be_bytes (length bs) (be_word bs :: 'a::len word) = bs"
proof (induction bs rule: rev_induct)
  case Nil
  then show ?case by simp
next
  case (snoc b bs)
  then have "be_bytes (length bs) (be_word bs :: 'a word) = bs" by simp
  then show ?case
    using snoc.prems be_bytes_push [of "length bs" "be_word bs :: 'a word" b]
    by (simp add: be_word_snoc del: be_bytes.simps)
qed

text \<open>Byte masks: selecting the byte at bit \<open>k\<close>.\<close>

lemma and_byte_mask: "(n::'a::len word) AND push_bit k (mask 8) = push_bit k (take_bit 8 (drop_bit k n))"
  by (rule bit_word_eqI) (auto simp: bit_simps)

lemma byte_masks_u64:
  "(0xff00::u64) = push_bit 8 (mask 8)" "(0xff0000::u64) = push_bit 16 (mask 8)"
  "(0xff000000::u64) = push_bit 24 (mask 8)" "(0xff00000000::u64) = push_bit 32 (mask 8)"
  "(0xff0000000000::u64) = push_bit 40 (mask 8)" "(0xff000000000000::u64) = push_bit 48 (mask 8)"
  "(0xff00000000000000::u64) = push_bit 56 (mask 8)"
  by (simp_all add: mask_eq_exp_minus_1)

end
