(* ===== verification/ZT_Utils.thy ===== *)
theory ZT_Utils
  imports ZT_Prelude
begin

text \<open>
  \<^verbatim>\<open>node/Utils.hpp\<close> and \<^verbatim>\<open>node/Utils.cpp\<close>: bit tricks, constant-time comparison, hexadecimal
  and decimal printing and parsing, safe string copy, byte swapping and the endian-aware loads
  and stores, as compiled for the ESP32 (little endian, \<^verbatim>\<open>ZT_NO_UNALIGNED_ACCESS\<close>, 32-bit
  \<open>unsigned long\<close>). Memory is a list of bytes; a read past the end of a list is
  \<^const>\<open>UndefinedBehaviour\<close>. \<open>strtoul\<close> and its kin are the C library's, modelled as the
  C standard describes them.
\<close>

section \<open>Bit tricks and memory\<close>

definition HEXCHARS :: bytes where
  "HEXCHARS = [48, 49, 50, 51, 52, 53, 54, 55, 56, 57, 97, 98, 99, 100, 101, 102]"

definition flag_shl :: "bool \<Rightarrow> nat \<Rightarrow> u32" where
  "flag_shl b k = (if b then push_bit k 1 else 0)"

definition log2 :: "u32 \<Rightarrow> u32" where
  "log2 v0 =
    (let r0 = flag_shl (v0 > 0xffff) 4; v1 = drop_bit (unat r0) v0;
         s1 = flag_shl (v1 > 0xff) 3; v2 = drop_bit (unat s1) v1; r1 = r0 OR s1;
         s2 = flag_shl (v2 > 0xf) 2; v3 = drop_bit (unat s2) v2; r2 = r1 OR s2;
         s3 = flag_shl (v3 > 0x3) 1; v4 = drop_bit (unat s3) v3; r3 = r2 OR s3
     in r3 OR drop_bit 1 v4)"

fun secureEq_loop :: "bytes \<Rightarrow> bytes \<Rightarrow> nat \<Rightarrow> u8 \<Rightarrow> u8 result" where
  "secureEq_loop a b 0 diff = Inr diff"
| "secureEq_loop (x # a) (y # b) (Suc n) diff = secureEq_loop a b n (diff OR (x XOR y))"
| "secureEq_loop a b (Suc n) diff = Inl UndefinedBehaviour"

definition secureEq :: "bytes \<Rightarrow> bytes \<Rightarrow> nat \<Rightarrow> bool result" where
  "secureEq a b len = bindE (secureEq_loop a b len 0) (\<lambda>diff. Inr (diff = 0))"

fun utils_doBurn :: "bytes \<Rightarrow> nat \<Rightarrow> bytes result" where
  "utils_doBurn p 0 = Inr p"
| "utils_doBurn (c # p) (Suc n) = bindE (utils_doBurn p n) (\<lambda>r. Inr (0 # r))"
| "utils_doBurn [] (Suc n) = Inl UndefinedBehaviour"

definition burn :: "bytes \<Rightarrow> nat \<Rightarrow> bytes result" where
  "burn ptr len = utils_doBurn ptr len"

fun isZero :: "bytes \<Rightarrow> nat \<Rightarrow> bool result" where
  "isZero p 0 = Inr True"
| "isZero (c # p) (Suc n) = (if c \<noteq> 0 then Inr False else isZero p n)"
| "isZero [] (Suc n) = Inl UndefinedBehaviour"

definition countBits32 :: "u32 \<Rightarrow> u32" where
  "countBits32 v0 =
    (let v1 = v0 - (drop_bit 1 v0 AND 0x55555555);
         v2 = (v1 AND 0x33333333) + (drop_bit 2 v1 AND 0x33333333)
     in drop_bit 24 (((v2 + drop_bit 4 v2) AND 0xF0F0F0F) * 0x1010101))"

definition countBits64 :: "u64 \<Rightarrow> u64" where
  "countBits64 v0 =
    (let v1 = v0 - (drop_bit 1 v0 AND (NOT 0 div 3));
         v2 = (v1 AND (NOT 0 div 15 * 3)) + (drop_bit 2 v1 AND (NOT 0 div 15 * 3));
         v3 = (v2 + drop_bit 4 v2) AND (NOT 0 div 255 * 15)
     in drop_bit 56 (v3 * (NOT 0 div 255)))"

definition cleanMac :: "bytes \<Rightarrow> bytes" where
  "cleanMac mac = filter (\<lambda>c. \<not> (c = 45 \<or> c = 58)) mac"

section \<open>Hexadecimal and decimal\<close>

definition hex64 :: "u64 \<Rightarrow> bytes" where
  "hex64 i = map (\<lambda>k. HEXCHARS ! unat (drop_bit k i AND 0xf))
     [60, 56, 52, 48, 44, 40, 36, 32, 28, 24, 20, 16, 12, 8, 4, 0] @ [0]"

definition hex10 :: "u64 \<Rightarrow> bytes" where
  "hex10 i = map (\<lambda>k. HEXCHARS ! unat (drop_bit k i AND 0xf))
     [36, 32, 28, 24, 20, 16, 12, 8, 4, 0] @ [0]"

definition hex32 :: "u32 \<Rightarrow> bytes" where
  "hex32 i = map (\<lambda>k. HEXCHARS ! unat (drop_bit k i AND 0xf)) [28, 24, 20, 16, 12, 8, 4, 0] @ [0]"

definition hex16 :: "u16 \<Rightarrow> bytes" where
  "hex16 i = map (\<lambda>k. HEXCHARS ! unat (drop_bit k i AND 0xf)) [12, 8, 4, 0] @ [0]"

definition hex8 :: "u8 \<Rightarrow> bytes" where
  "hex8 i = map (\<lambda>k. HEXCHARS ! unat (drop_bit k i AND 0xf)) [4, 0] @ [0]"

fun hex_loop :: "bytes \<Rightarrow> bytes" where
  "hex_loop [] = []"
| "hex_loop (b # d) = HEXCHARS ! unat (drop_bit 4 b) # HEXCHARS ! unat (b AND 0xf) # hex_loop d"

definition hex :: "bytes \<Rightarrow> bytes" where
  "hex d = hex_loop d @ [0]"

text \<open>The three-way test both \<open>unhex\<close> loops repeat; other characters count as zero.\<close>

definition unhex_nibble :: "u8 \<Rightarrow> u8" where
  "unhex_nibble hc =
    (if hc \<ge> 48 \<and> hc \<le> 57 then hc - 48
     else if hc \<ge> 97 \<and> hc \<le> 102 then hc - 87
     else if hc \<ge> 65 \<and> hc \<le> 70 then hc - 55
     else 0)"

text \<open>The result is the bytes written to \<open>buf\<close>; its length is the returned count.\<close>

fun unhex :: "bytes \<Rightarrow> nat \<Rightarrow> bytes result" where
  "unhex h 0 = Inr []"
| "unhex [] (Suc n) = Inl UndefinedBehaviour"
| "unhex (hc # h) (Suc n) =
    (if hc = 0 then Inr []
     else case h of [] \<Rightarrow> Inl UndefinedBehaviour
     | hc' # h' \<Rightarrow>
         if hc' = 0 then Inr []
         else bindE (unhex h' n) (\<lambda>r. Inr ((push_bit 4 (unhex_nibble hc) OR unhex_nibble hc') # r)))"

fun unhex_len :: "bytes \<Rightarrow> nat \<Rightarrow> nat \<Rightarrow> bytes result" where
  "unhex_len h hlen 0 = Inr []"
| "unhex_len h hlen (Suc n) =
    (if hlen = 0 then Inr []
     else case h of [] \<Rightarrow> Inl UndefinedBehaviour
     | hc # h1 \<Rightarrow>
         if hc = 0 then Inr []
         else if hlen - 1 = 0 then Inr []
         else case h1 of [] \<Rightarrow> Inl UndefinedBehaviour
         | hc' # h2 \<Rightarrow>
             if hc' = 0 then Inr []
             else bindE (unhex_len h2 (hlen - 2) n)
                    (\<lambda>r. Inr ((push_bit 4 (unhex_nibble hc) OR unhex_nibble hc') # r)))"

fun utils_itoa :: "nat \<Rightarrow> bytes \<Rightarrow> nat \<times> bytes" where
  "utils_itoa n s =
    (if n = 0 then (0, s)
     else let (pos, s1) = utils_itoa (n div 10) s;
              pos1 = (if pos \<ge> 22 then 22 else pos)
          in (pos1 + 1, s1[pos1 := 48 + of_nat (n mod 10)]))"

definition decimal :: "nat \<Rightarrow> bytes \<Rightarrow> bytes" where
  "decimal n s =
    (if n = 0 then s[0 := 48, 1 := 0]
     else let (pos, s1) = utils_itoa n s in s1[pos := 0])"

section \<open>strtoul and its kin\<close>

definition isspace_c :: "u8 \<Rightarrow> bool" where
  "isspace_c c \<longleftrightarrow> c = 32 \<or> (9 \<le> c \<and> c \<le> 13)"

definition digit_val :: "u8 \<Rightarrow> nat option" where
  "digit_val c =
    (if 48 \<le> c \<and> c \<le> 57 then Some (unat c - 48)
     else if 97 \<le> c \<and> c \<le> 122 then Some (unat c - 87)
     else if 65 \<le> c \<and> c \<le> 90 then Some (unat c - 55)
     else None)"

definition digit_in :: "nat \<Rightarrow> u8 \<Rightarrow> bool" where
  "digit_in base c = (case digit_val c of None \<Rightarrow> False | Some d \<Rightarrow> d < base)"

definition digits_val :: "nat \<Rightarrow> bytes \<Rightarrow> nat" where
  "digits_val base s = foldl (\<lambda>a c. a * base + the (digit_val c)) 0 s"

definition skip_0x :: "nat \<Rightarrow> bytes \<Rightarrow> bytes" where
  "skip_0x base s =
    (case s of z # x # d # r \<Rightarrow>
       if base = 16 \<and> z = 48 \<and> (x = 120 \<or> x = 88) \<and> digit_in 16 d then d # r else s
     | _ \<Rightarrow> s)"

definition strto_parse :: "nat \<Rightarrow> bytes \<Rightarrow> bool \<times> nat" where
  "strto_parse base m =
    (let s = dropWhile isspace_c (cstr m);
         (neg, s1) = (case s of [] \<Rightarrow> (False, [])
                      | c # r \<Rightarrow> if c = 45 then (True, r) else if c = 43 then (False, r) else (False, s))
     in (neg, digits_val base (takeWhile (digit_in base) (skip_0x base s1))))"

definition strtou :: "nat \<Rightarrow> bytes \<Rightarrow> 'a::len word" where
  "strtou base m =
    (let (neg, n) = strto_parse base m
     in if n \<ge> 2 ^ LENGTH('a) then - 1 else if neg then - of_nat n else of_nat n)"

definition strtos :: "nat \<Rightarrow> bytes \<Rightarrow> 'a::len word" where
  "strtos base m =
    (let (neg, n) = strto_parse base m; i = (if neg then - int n else int n)
     in if i < - (2 ^ (LENGTH('a) - 1)) then of_int (- (2 ^ (LENGTH('a) - 1)))
        else if i > 2 ^ (LENGTH('a) - 1) - 1 then of_int (2 ^ (LENGTH('a) - 1) - 1)
        else of_int i)"

definition strToUInt :: "bytes \<Rightarrow> u32" where "strToUInt s = strtou 10 s"
definition strToInt :: "bytes \<Rightarrow> u32" where "strToInt s = strtos 10 s"
definition strToULong :: "bytes \<Rightarrow> u32" where "strToULong s = strtou 10 s"
definition strToLong :: "bytes \<Rightarrow> u32" where "strToLong s = strtos 10 s"
definition strToU64 :: "bytes \<Rightarrow> u64" where "strToU64 s = strtou 10 s"
definition strTo64 :: "bytes \<Rightarrow> u64" where "strTo64 s = strtos 10 s"
definition hexStrToUInt :: "bytes \<Rightarrow> u32" where "hexStrToUInt s = strtou 16 s"
definition hexStrToInt :: "bytes \<Rightarrow> u32" where "hexStrToInt s = strtos 16 s"
definition hexStrToULong :: "bytes \<Rightarrow> u32" where "hexStrToULong s = strtou 16 s"
definition hexStrToLong :: "bytes \<Rightarrow> u32" where "hexStrToLong s = strtos 16 s"
definition hexStrToU64 :: "bytes \<Rightarrow> u64" where "hexStrToU64 s = strtou 16 s"
definition hexStrTo64 :: "bytes \<Rightarrow> u64" where "hexStrTo64 s = strtos 16 s"

section \<open>Safe string copy\<close>

text \<open>\<open>None\<close> is the null pointer; the result is the destination and the returned flag.\<close>

fun scopy_loop :: "bytes \<Rightarrow> nat \<Rightarrow> nat \<Rightarrow> bytes \<Rightarrow> (bytes \<times> bool) result" where
  "scopy_loop dest i len [] = Inl UndefinedBehaviour"
| "scopy_loop dest i len (c # src) =
    (if c = 0 then Inr (dest[i := c], True)
     else if i + 1 = len then Inr (dest[i := c, i := 0], False)
     else scopy_loop (dest[i := c]) (i + 1) len src)"

definition scopy :: "bytes \<Rightarrow> nat \<Rightarrow> bytes option \<Rightarrow> (bytes \<times> bool) result" where
  "scopy dest len src =
    (if len = 0 then Inr (dest, False)
     else case src of None \<Rightarrow> Inr (dest[0 := 0], True)
     | Some s \<Rightarrow> scopy_loop dest 0 len s)"

section \<open>Byte order\<close>

definition swapBytes64 :: "u64 \<Rightarrow> u64" where
  "swapBytes64 n =
    push_bit 56 (n AND 0x00000000000000ff) OR push_bit 40 (n AND 0x000000000000ff00)
    OR push_bit 24 (n AND 0x0000000000ff0000) OR push_bit 8 (n AND 0x00000000ff000000)
    OR drop_bit 8 (n AND 0x000000ff00000000) OR drop_bit 24 (n AND 0x0000ff0000000000)
    OR drop_bit 40 (n AND 0x00ff000000000000) OR drop_bit 56 (n AND 0xff00000000000000)"

text \<open>The 32- and 16-bit variants are \<open>__builtin_bswap32\<close> and \<open>__builtin_bswap16\<close>: the bytes of
  the operand in reverse order.\<close>

definition swapBytes32 :: "u32 \<Rightarrow> u32" where
  "swapBytes32 n = be_word (le_bytes 4 n)"

definition swapBytes16 :: "u16 \<Rightarrow> u16" where
  "swapBytes16 n = be_word (le_bytes 2 n)"

definition hton64 :: "u64 \<Rightarrow> u64" where "hton64 n = swapBytes64 n"
definition hton32 :: "u32 \<Rightarrow> u32" where "hton32 n = swapBytes32 n"
definition hton16 :: "u16 \<Rightarrow> u16" where "hton16 n = swapBytes16 n"
definition ntoh64 :: "u64 \<Rightarrow> u64" where "ntoh64 n = swapBytes64 n"
definition ntoh32 :: "u32 \<Rightarrow> u32" where "ntoh32 n = swapBytes32 n"
definition ntoh16 :: "u16 \<Rightarrow> u16" where "ntoh16 n = swapBytes16 n"

fun load_be16 :: "bytes \<Rightarrow> u16 result" where
  "load_be16 (a # b # p) = Inr (push_bit 8 (ucast a) OR ucast b)"
| "load_be16 p = Inl UndefinedBehaviour"

fun load_be32 :: "bytes \<Rightarrow> u32 result" where
  "load_be32 (a # b # c # d # p) =
     Inr (push_bit 24 (ucast a) OR push_bit 16 (ucast b) OR push_bit 8 (ucast c) OR ucast d)"
| "load_be32 p = Inl UndefinedBehaviour"

fun load_be64 :: "bytes \<Rightarrow> u64 result" where
  "load_be64 (a # b # c # d # e # f # g # h # p) =
     Inr (push_bit 56 (ucast a) OR push_bit 48 (ucast b) OR push_bit 40 (ucast c)
       OR push_bit 32 (ucast d) OR push_bit 24 (ucast e) OR push_bit 16 (ucast f)
       OR push_bit 8 (ucast g) OR ucast h)"
| "load_be64 p = Inl UndefinedBehaviour"

fun load_le16 :: "bytes \<Rightarrow> u16 result" where
  "load_le16 (a # b # p) = Inr (ucast a OR push_bit 8 (ucast b))"
| "load_le16 p = Inl UndefinedBehaviour"

fun load_le32 :: "bytes \<Rightarrow> u32 result" where
  "load_le32 (a # b # c # d # p) =
     Inr (ucast a OR push_bit 8 (ucast b) OR push_bit 16 (ucast c) OR push_bit 24 (ucast d))"
| "load_le32 p = Inl UndefinedBehaviour"

fun load_le64 :: "bytes \<Rightarrow> u64 result" where
  "load_le64 (a # b # c # d # e # f # g # h # p) =
     Inr (ucast a OR push_bit 8 (ucast b) OR push_bit 16 (ucast c) OR push_bit 24 (ucast d)
       OR push_bit 32 (ucast e) OR push_bit 40 (ucast f) OR push_bit 48 (ucast g)
       OR push_bit 56 (ucast h))"
| "load_le64 p = Inl UndefinedBehaviour"

text \<open>Storing a word in machine (little-endian) order writes its bytes from the least significant
  one; \<open>p\<close> must have room for them.\<close>

definition storeMachineEndian :: "nat \<Rightarrow> bytes \<Rightarrow> 'a::len word \<Rightarrow> bytes result" where
  "storeMachineEndian sz p i =
    (if length p < sz then Inl UndefinedBehaviour else Inr (le_bytes sz i @ drop sz p))"

definition storeBigEndian16 :: "bytes \<Rightarrow> u16 \<Rightarrow> bytes result" where
  "storeBigEndian16 p i = storeMachineEndian 2 p (hton16 i)"

definition storeBigEndian32 :: "bytes \<Rightarrow> u32 \<Rightarrow> bytes result" where
  "storeBigEndian32 p i = storeMachineEndian 4 p (hton32 i)"

definition storeBigEndian64 :: "bytes \<Rightarrow> u64 \<Rightarrow> bytes result" where
  "storeBigEndian64 p i = storeMachineEndian 8 p (hton64 i)"

definition storeLittleEndian32 :: "bytes \<Rightarrow> u32 \<Rightarrow> bytes result" where
  "storeLittleEndian32 p i = storeMachineEndian 4 p i"

definition storeLittleEndian64 :: "bytes \<Rightarrow> u64 \<Rightarrow> bytes result" where
  "storeLittleEndian64 p i = storeMachineEndian 8 p i"

section \<open>Reference digit strings\<close>

text \<open>\<open>hex_digits n v\<close> are the low \<open>n\<close> hexadecimal digits of \<open>v\<close>, \<open>dec_digits n\<close> the decimal
  digits of \<open>n\<close> (none for zero); the printers are compared with them.\<close>

fun hex_digits :: "nat \<Rightarrow> 'a::len word \<Rightarrow> bytes" where
  "hex_digits 0 v = []"
| "hex_digits (Suc n) v = HEXCHARS ! unat (drop_bit (4 * n) v AND 0xf) # hex_digits n v"

fun dec_digits :: "nat \<Rightarrow> bytes" where
  "dec_digits n = (if n = 0 then [] else dec_digits (n div 10) @ [48 + of_nat (n mod 10)])"

declare utils_itoa.simps [simp del] dec_digits.simps [simp del]

section \<open>log2 and constant-time comparison\<close>

lemma flag_shl_table: "\<forall>k \<in> set [0..<5]. unat (flag_shl True k) = 2 ^ k"
  by code_simp

lemma unat_flag_shl: "k < 5 \<Longrightarrow> unat (flag_shl b k) = (if b then 2 ^ k else 0)"
  using flag_shl_table by (cases b) (auto simp: flag_shl_def)

lemma log2_step:
  fixes w :: u32
  assumes "0 < unat w" "unat w < 2 ^ (2 * m)" "m = 2 ^ k" "k < 5" "unat t = 2 ^ m - 1" "s = flag_shl (w > t) k"
  shows "unat s = (if w > t then m else 0)" "0 < unat (drop_bit (unat s) w)"
    "unat (drop_bit (unat s) w) < 2 ^ m" "unat (drop_bit (unat s) w) = unat w div 2 ^ unat s"
proof -
  show s: "unat s = (if w > t then m else 0)"
    using assms by (simp add: unat_flag_shl)
  show d: "unat (drop_bit (unat s) w) = unat w div 2 ^ unat s"
    by (simp add: unat_drop_bit)
  have gt: "w > t \<longleftrightarrow> 2 ^ m \<le> unat w"
    using zero_less_power [of "2::nat" m] unfolding word_less_nat_alt assms(5) by arith
  show "0 < unat (drop_bit (unat s) w)"
    using assms(1) by (auto simp: s gt unat_drop_bit div_greater_zero_iff)
  show "unat (drop_bit (unat s) w) < 2 ^ m"
    using assms(2) by (auto simp: s gt unat_drop_bit not_le less_mult_imp_div_less mult_2 power_add)
qed

text \<open>for a non-zero argument \<open>log2\<close> returns the position of the most significant set bit: the
  argument lies between that power of two and the next.\<close>

lemma log2_bounds:
  assumes "v \<noteq> 0"
  shows "2 ^ unat (log2 v) \<le> unat v \<and> unat v < 2 ^ (unat (log2 v) + 1)"
proof -
  define s0 v1 where "s0 = flag_shl (v > 0xffff) 4" and "v1 = drop_bit (unat s0) v"
  define s1 v2 where "s1 = flag_shl (v1 > 0xff) 3" and "v2 = drop_bit (unat s1) v1"
  define s2 v3 where "s2 = flag_shl (v2 > 0xf) 2" and "v3 = drop_bit (unat s2) v2"
  define s3 v4 where "s3 = flag_shl (v3 > 0x3) 1" and "v4 = drop_bit (unat s3) v3"
  have v: "0 < unat v" "unat v < 2 ^ (2 * 16)"
    using assms unsigned_less [of v] by (auto simp: unat_gt_0)
  note a = log2_step [OF v, of 4 "0xffff" s0, folded v1_def, simplified, OF s0_def]
  have b: "0 < unat v1" "unat v1 < 2 ^ (2 * 8)" using a by auto
  note b' = log2_step [OF b, of 3 "0xff" s1, folded v2_def, simplified, OF s1_def]
  have c: "0 < unat v2" "unat v2 < 2 ^ (2 * 4)" using b' by auto
  note c' = log2_step [OF c, of 2 "0xf" s2, folded v3_def, simplified, OF s2_def]
  have d: "0 < unat v3" "unat v3 < 2 ^ (2 * 2)" using c' by auto
  note d' = log2_step [OF d, of 1 "0x3" s3, folded v4_def, simplified, OF s3_def [simplified]]
  have v4: "unat v4 = unat v div 2 ^ (unat s0 + unat s1 + unat s2 + unat s3)"
    by (simp add: a(4) b'(4) c'(4) d'(4) power_add div_mult2_eq s0_def s1_def s2_def s3_def)
  define R where "R = unat s0 + unat s1 + unat s2 + unat s3"
  have "unat v4 \<in> {1, 2, 3}" using d' by auto
  then have v4c: "v4 = 1 \<or> v4 = 2 \<or> v4 = 3"
    by (auto simp: word_unat_eq_iff)
  have lg: "log2 v = (((s0 OR s1) OR s2) OR s3) OR drop_bit 1 v4"
    unfolding log2_def Let_def s0_def [symmetric] v1_def [symmetric] s1_def [symmetric] v2_def [symmetric]
      s2_def [symmetric] v3_def [symmetric] s3_def [symmetric] v4_def [symmetric] ..
  have "unat (log2 v) = R + unat v4 div 2"
    using v4c unfolding lg R_def s0_def s1_def s2_def s3_def
    by (auto simp: flag_shl_def push_bit_eq_mult)
  moreover have "unat v4 * 2 ^ R \<le> unat v" "unat v < (unat v4 + 1) * 2 ^ R"
    unfolding v4 R_def [symmetric] using dividend_less_div_times [of "2 ^ R" "unat v"]
    by (auto simp: algebra_simps)
  ultimately show ?thesis
    using v4c by (auto simp: power_add)
qed

lemma log2_bounds_witness: "(1000 :: u32) \<noteq> 0 \<and> (2::nat) ^ 9 \<le> 1000 \<and> log2 1000 = 9"
proof -
  have "(1000 :: u32) \<noteq> 0" by simp
  from log2_bounds [OF this] show ?thesis by (simp add: log2_def flag_shl_def Let_def)
qed

lemma secureEq_loop_correct:
  "n \<le> length a \<Longrightarrow> n \<le> length b \<Longrightarrow>
   \<exists>d. secureEq_loop a b n diff = Inr d \<and> (d = 0 \<longleftrightarrow> diff = 0 \<and> take n a = take n b)"
proof (induction a b n diff rule: secureEq_loop.induct)
  case (2 x a y b n diff)
  have "(diff OR (x XOR y) = 0) = (diff = 0 \<and> x = y)"
    by (simp add: or_eq_0_iff)
  with 2 show ?case by auto
qed auto

text \<open>on two arrays that hold at least \<open>len\<close> bytes the accumulated difference is zero exactly when
  their first \<open>len\<close> bytes agree, whatever the position of the first difference.\<close>

lemma secureEq_iff:
  "len \<le> length a \<Longrightarrow> len \<le> length b \<Longrightarrow> secureEq a b len = Inr (take len a = take len b)"
  using secureEq_loop_correct [of len a b 0] by (auto simp: secureEq_def)

lemma secureEq_iff_witness:
  "secureEq [1, 2, 3] [1, 2, 4] 3 = Inr False \<and> secureEq [1, 2, 3] [1, 2, 4] 2 = Inr True"
  using secureEq_iff [of 3 "[1, 2, 3]" "[1, 2, 4]"] secureEq_iff [of 2 "[1, 2, 3]" "[1, 2, 4]"] by simp

lemma isZero_iff: "len \<le> length p \<Longrightarrow> isZero p len = Inr (\<forall>c \<in> set (take len p). c = 0)"
  by (induction p len rule: isZero.induct) auto

lemma burn_zeroes: "len \<le> length p \<Longrightarrow> burn p len = Inr (replicate len 0 @ drop len p)"
  unfolding burn_def by (induction p len rule: utils_doBurn.induct) auto

section \<open>Hexadecimal strings\<close>

lemma hexchars_table:
  "\<forall>n \<in> set [0..<16]. unhex_nibble (HEXCHARS ! n) = of_nat n \<and> HEXCHARS ! n \<noteq> 0
     \<and> digit_val (HEXCHARS ! n) = Some n \<and> \<not> isspace_c (HEXCHARS ! n)
     \<and> HEXCHARS ! n \<notin> {45, 43, 120, 88}"
  by code_simp

lemma hexchar: 
  assumes "n < 16"
  shows "unhex_nibble (HEXCHARS ! n) = of_nat n" "HEXCHARS ! n \<noteq> 0" "digit_val (HEXCHARS ! n) = Some n"
   "\<not> isspace_c (HEXCHARS ! n)" "HEXCHARS ! n \<notin> {45, 43, 120, 88}"
  using hexchars_table assms by auto

lemma unat_nibble_hi: "unat (drop_bit 4 (b::u8)) < 16"
  using unat_bound [of b] by (simp add: unat_drop_bit)

lemma unat_nibble: "unat ((w::'a::len word) AND 15) < 16"
  by (simp add: and_15 unat_take_bit)

lemma hex_digits_numeral [simp]: "hex_digits (numeral k) v = HEXCHARS ! unat (drop_bit (4 * pred_numeral k) v AND 0xf) # hex_digits (pred_numeral k) v"
  by (simp add: numeral_eq_Suc)

lemma nibble_join: "push_bit 4 (drop_bit 4 b) OR b AND 15 = (b::u8)"
  by (simp add: and_15) (rule bit_word_eqI, auto simp: bit_simps)

lemma unhex_hex_loop: "length d \<le> n \<Longrightarrow> unhex (hex_loop d @ 0 # r) n = Inr d"
proof (induction d arbitrary: n)
  case Nil
  then show ?case by (cases n) auto
next
  case (Cons b d)
  then obtain m where "n = Suc m" by (cases n) auto
  then show ?case
    using Cons hexchar [OF unat_nibble_hi, of b] hexchar [OF unat_nibble, of b]
    by (simp add: nibble_join)
qed

text \<open>parsing what \<open>hex\<close> printed gives back the bytes, for every byte string and every destination
  that has room for it.\<close>

lemma unhex_hex: "length d \<le> n \<Longrightarrow> unhex (hex d) n = Inr d"
  using unhex_hex_loop [of d n "[]"] by (simp add: hex_def)

lemma unhex_hex_witness: "unhex (hex [0xde, 0xad, 0x07]) 3 = Inr [0xde, 0xad, 0x07]"
  using unhex_hex [of "[0xde, 0xad, 0x07]" 3] by simp

text \<open>\<open>unhex\<close> never writes more than \<open>buflen\<close> bytes, and on a terminated string it never reads past
  the end.\<close>

lemma unhex_bound: "unhex h n = Inr r \<Longrightarrow> length r \<le> n"
  by (induction h n arbitrary: r rule: unhex.induct)
     (auto split: if_splits list.splits simp: bindE_eq_Inr)

lemma unhex_total: "terminated h \<Longrightarrow> \<exists>r. unhex h n = Inr r"
proof (induction h n rule: unhex.induct)
  case (3 hc h n)
  then show ?case by (cases h) (auto simp: terminated_def)
qed (auto simp: terminated_def)

lemma unhex_len_bound: "unhex_len h hlen n = Inr r \<Longrightarrow> length r \<le> n \<and> 2 * length r \<le> hlen"
proof (induction h hlen n arbitrary: r rule: unhex_len.induct)
  case (1 h hlen)
  then show ?case by simp
next
  case (2 h hlen n)
  from "2.prems" consider "r = []"
    | hc hc' h2 r' where "h = hc # hc' # h2" "hc \<noteq> 0" "hc' \<noteq> 0" "2 \<le> hlen"
        "unhex_len h2 (hlen - 2) n = Inr r'" "length r = Suc (length r')"
    by (auto split: if_splits list.splits simp: bindE_eq_Inr)
  then show ?case
  proof cases
    case 2
    then have "length r' \<le> n \<and> 2 * length r' \<le> hlen - 2" using "2.IH" [of hc "hc' # h2" hc' h2 r'] by auto
    with 2(4,6) show ?thesis by linarith
  qed simp
qed

lemma hex64_hex_digits: "hex64 v = hex_digits 16 v @ [0]"
  by (simp add: hex64_def)

lemma hex_digits_chars: "c \<in> set (hex_digits n v) \<Longrightarrow> \<exists>m<16. c = HEXCHARS ! m"
  by (induction n) (auto intro: unat_nibble)

lemma foldl_hex_digits: "foldl (\<lambda>a c. a * 16 + the (digit_val c)) acc (hex_digits n v) = acc * 16 ^ n + unat v mod 16 ^ n"
proof (induction n arbitrary: acc)
  case (Suc n)
  have e: "unat (drop_bit (4 * n) v AND 0xf) = unat v div 16 ^ n mod 16"
    by (simp add: and_15 unat_take_bit unat_drop_bit power_mult)
  have "unat v mod 16 ^ Suc n = 16 ^ n * (unat v div 16 ^ n mod 16) + unat v mod 16 ^ n"
    using mod_mult2_eq [of "unat v" "16 ^ n" 16] by (simp add: mult.commute)
  then show ?case
    by (simp add: Suc e hexchar(3)) (simp add: algebra_simps)
qed simp

lemma strto_parse_hex_digits: 
  assumes "0 < n" shows "strto_parse 16 (hex_digits n v @ 0 # r) = (False, unat v mod 16 ^ n)"
proof -
  have z: "0 \<notin> set (hex_digits n v)" using hex_digits_chars hexchar(2) by metis
  have all: "takeWhile (digit_in 16) (hex_digits n v) = hex_digits n v"
    by (rule takeWhile_eq_all_conv [THEN iffD2]) (auto dest!: hex_digits_chars simp: digit_in_def hexchar)
  obtain c cs where cs: "hex_digits n v = c # cs" using assms by (cases n) auto
  then obtain m where m: "m < 16" "c = HEXCHARS ! m" using hex_digits_chars [of c n v] by auto
  have skip: "skip_0x 16 (hex_digits n v) = hex_digits n v"
  proof (cases cs)
    case (Cons d ds)
    then obtain m' where "m' < 16" "d = HEXCHARS ! m'" using cs hex_digits_chars [of d n v] by auto
    then show ?thesis using cs Cons hexchar(5) [of m'] by (auto simp: skip_0x_def split: list.split)
  qed (simp add: cs skip_0x_def)
  show ?thesis
    using m hexchar [of m] cs skip all z foldl_hex_digits [of 0 n v]
    by (simp add: strto_parse_def digits_val_def)
qed

text \<open>a 64-bit integer printed by \<open>hex\<close> is read back unchanged by \<open>hexStrToU64\<close>.\<close>

lemma hexStrToU64_hex64: "hexStrToU64 (hex64 v) = v"
  using strto_parse_hex_digits [of 16 v "[]"] unat_bound [of v]
  by (simp add: hexStrToU64_def strtou_def hex64_hex_digits del: hex_digits_numeral)

lemma hexStrToU64_hex10: "hexStrToU64 (hex10 v) = take_bit 40 v"
proof -
  have "hex10 v = hex_digits 10 v @ [0]" by (simp add: hex10_def)
  moreover have "unat v mod 16 ^ 10 = unat (take_bit 40 v)" by (simp add: unat_take_bit)
  ultimately show ?thesis
    using strto_parse_hex_digits [of 10 v "[]"] unat_bound [of "take_bit 40 v"]
    by (simp add: hexStrToU64_def strtou_def del: hex_digits_numeral)
qed

section \<open>Decimal strings\<close>

lemma decd_Nil: "dec_digits n = [] \<longleftrightarrow> n = 0"
  by (subst dec_digits.simps) simp
lemma length_dec: "n < 10 ^ k \<Longrightarrow> length (dec_digits n) \<le> k"
proof (induction k arbitrary: n)
  case 0 then show ?case by (simp add: dec_digits.simps)
next
  case (Suc k)
  then have "n div 10 < 10 ^ k" by (simp add: less_mult_imp_div_less mult.commute)
  with Suc show ?case by (subst dec_digits.simps) auto
qed

lemma utils_itoa_dec: "n < 10 ^ 22 \<Longrightarrow> length s \<ge> 23 \<Longrightarrow>
   utils_itoa n s = (length (dec_digits n), dec_digits n @ drop (length (dec_digits n)) s)"
proof (induction n s rule: utils_itoa.induct)
  case (1 n s)
  show ?case
  proof (cases "n = 0")
    case True then show ?thesis by (simp add: utils_itoa.simps dec_digits.simps)
  next
    case False
    have l: "n div 10 < 10 ^ 21" using "1.prems" by simp
    then have "length (dec_digits (n div 10)) \<le> 21" by (rule length_dec)
    moreover have "utils_itoa (n div 10) s = (length (dec_digits (n div 10)), dec_digits (n div 10) @ drop (length (dec_digits (n div 10))) s)"
      using 1 False l by simp
    ultimately show ?thesis using False "1.prems"
      by (simp add: Let_def utils_itoa.simps [of n s] dec_digits.simps [of n] list_update_append drop_update_cancel
        Cons_nth_drop_Suc [symmetric])
  qed
qed

lemma decd_digit: "k < 10 \<Longrightarrow> digit_val (48 + of_nat k) = Some k \<and> (48 + of_nat k :: u8) \<noteq> 0 
   \<and> \<not> isspace_c (48 + of_nat k) \<and> (48 + of_nat k :: u8) \<notin> {45, 43}"
proof -
  assume "k < 10" 
  moreover have "\<forall>k \<in> set [0..<10]. digit_val (48 + of_nat k) = Some k \<and> (48 + of_nat k :: u8) \<noteq> 0 
   \<and> \<not> isspace_c (48 + of_nat k) \<and> (48 + of_nat k :: u8) \<notin> {45, 43}" by code_simp
  ultimately show ?thesis by auto
qed

lemma decd_chars: "c \<in> set (dec_digits n) \<Longrightarrow> \<exists>k<10. c = 48 + of_nat k"
proof (induction n rule: dec_digits.induct)
  case (1 n)
  show ?case
  proof (cases "c \<in> set (dec_digits (n div 10))")
    case True with 1 show ?thesis by (cases "n = 0") (auto simp: dec_digits.simps)
  next
    case False with "1.prems" have "c = 48 + of_nat (n mod 10)" by (subst (asm) dec_digits.simps) (auto split: if_splits)
    then show ?thesis by (intro exI [of _ "n mod 10"]) simp
  qed
qed

lemma digits_val_dec: "digits_val 10 (dec_digits n) = n"
proof (induction n rule: dec_digits.induct)
  case (1 n)
  then show ?case using decd_digit [of "n mod 10"] mod_less_divisor [of 10 n]
    by (subst dec_digits.simps) (auto simp: digits_val_def)
qed

lemma decimal_dec:
  assumes "0 < n" "n < 2 ^ 32" "length s = 24"
  shows "decimal n s = dec_digits n @ 0 # drop (Suc (length (dec_digits n))) s"
proof -
  have "length (dec_digits n) \<le> 10" by (rule length_dec) (use assms(2) in simp)
  then have "drop (length (dec_digits n)) s = s ! length (dec_digits n) # drop (Suc (length (dec_digits n))) s"
    using assms(3) by (simp add: Cons_nth_drop_Suc)
  then show ?thesis
    using utils_itoa_dec [of n s] assms(1,2,3) by (simp add: decimal_def del: length_greater_0_conv)
qed

text \<open>a 32-bit \<open>unsigned long\<close> printed by \<open>decimal\<close> into its 24-byte buffer is read back by
  \<open>strToULong\<close>.\<close>

lemma strToULong_decimal: assumes "n < 2 ^ 32" "length s = 24"
  shows "strToULong (decimal n s) = of_nat n"
proof (cases "n = 0")
  case True
  obtain a b r where "s = a # b # r"
    using assms(2) by (cases s; cases "tl s") auto
  then show ?thesis using True
    by (simp add: decimal_def strToULong_def strtou_def strto_parse_def isspace_c_def skip_0x_def digit_in_def digit_val_def digits_val_def)
next
  case False
  have z: "0 \<notin> set (dec_digits n)" using decd_chars decd_digit by metis
  have all: "takeWhile (digit_in 10) (dec_digits n) = dec_digits n"
    by (rule takeWhile_eq_all_conv [THEN iffD2]) (auto dest!: decd_chars simp: digit_in_def decd_digit)
  obtain c cs where cs: "dec_digits n = c # cs" using False decd_Nil [of n] by (cases "dec_digits n") auto
  then obtain k where m: "k < 10" "c = 48 + of_nat k" using decd_chars [of c n] by auto
  have sk: "skip_0x 10 (dec_digits n) = dec_digits n" by (auto simp: skip_0x_def split: list.split)
  have "strto_parse 10 (dec_digits n @ 0 # r) = (False, n)" for r
    using m decd_digit [of k] cs all z sk digits_val_dec [of n] by (simp add: strto_parse_def)
  then show ?thesis using decimal_dec [of n s] assms False
    by (simp add: strToULong_def strtou_def)
qed

lemma strToULong_decimal_witness:
  "length (replicate 24 (7::u8)) = 24 \<and> strToULong (decimal 4294967295 (replicate 24 7)) = 4294967295"
  using strToULong_decimal [of 4294967295 "replicate 24 7"] by simp

section \<open>Safe string copy\<close>

lemma scopy_loop_spec:
  assumes "terminated src" "i < len" "len \<le> length dest"
  shows "scopy_loop dest i len src = Inr (take i dest @ take (len - 1 - i) (cstr src) @ [0] @
            drop (i + length (take (len - 1 - i) (cstr src)) + 1) dest, length (cstr src) < len - i)"
  using assms
proof (induction dest i len src rule: scopy_loop.induct)
  case (2 dest i len c src)
  show ?case
  proof (cases "c = 0 \<or> i + 1 = len")
    case True
    with 2 show ?thesis by (auto simp: upd_conv_take_nth_drop)
  next
    case False
    with 2 have "scopy_loop (dest[i := c]) (i + 1) len src = Inr (take (i+1) (dest[i := c]) @ take (len - 1 - (i+1)) (cstr src) @ [0] @
            drop ((i + 1) + length (take (len - 1 - (i + 1)) (cstr src)) + 1) (dest[i := c]), length (cstr src) < len - (i + 1))"
      by (auto simp: terminated_def)
    moreover have "take (i+1) (dest[i := c]) = take i dest @ [c]"
      using 2 by (simp add: take_Suc_conv_app_nth)
    moreover have "take (len - Suc i) (c # cstr src) = c # take (len - Suc (Suc i)) (cstr src)"
    proof -
      have "len - Suc i = Suc (len - Suc (Suc i))" using False 2(3) by auto
      then show ?thesis by simp
    qed
    ultimately show ?thesis using False 2 by (auto simp: less_diff_conv)
  qed
qed (simp add: terminated_def)

text \<open>\<open>scopy\<close> from a terminated source into a destination with room for \<open>len > 0\<close> bytes leaves the
  longest prefix of the source that fits, always followed by a zero within the first \<open>len\<close> bytes; the
  rest of the destination is untouched, and the result tells whether the whole source fitted.\<close>

lemma scopy_spec:
  assumes "terminated src" "0 < len" "len \<le> length dest"
  shows "scopy dest len (Some src) =
    Inr (take (len - 1) (cstr src) @ [0] @ drop (length (take (len - 1) (cstr src)) + 1) dest,
         length (cstr src) < len)"
  using scopy_loop_spec [of src 0 len dest] assms by (simp add: scopy_def)

lemma scopy_spec_witness:
  "scopy [9, 9, 9, 9, 9] 3 (Some [65, 66, 67, 68, 0]) = Inr ([65, 66, 0, 9, 9], False)"
proof -
  have "terminated [65, 66, 67, 68, 0]" by (simp add: terminated_def)
  from scopy_spec [OF this, of 3 "[9, 9, 9, 9, 9]"] show ?thesis by simp
qed

section \<open>Byte order\<close>

lemma swapBytes64_bytes: "be_bytes 8 (swapBytes64 n) = le_bytes 8 n"
  unfolding swapBytes64_def le_bytes_def byte_masks_u64 and_byte_mask and_255
  by simp (intro conjI; rule bit_word_eqI; simp add: bit_simps)

lemma le_bytes_swapBytes64: "le_bytes 8 (swapBytes64 n) = be_bytes 8 n"
  using swapBytes64_bytes [of n] by (simp add: le_bytes_def del: be_bytes_numeral)

lemma be_bytes_be_word_rev:
  "8 * length bs \<le> LENGTH('a) \<Longrightarrow> be_bytes (length bs) (be_word (rev bs) :: 'a::len word) = rev bs"
  using be_bytes_be_word [of "rev bs", where 'a = 'a] by simp

lemma le_bytes_swapBytes32: "le_bytes 4 (swapBytes32 n) = be_bytes 4 n"
  using be_bytes_be_word [of "le_bytes 4 n", where 'a = 32]
  by (simp add: swapBytes32_def le_bytes_def del: be_bytes_numeral be_bytes_be_word)

lemma le_bytes_swapBytes16: "le_bytes 2 (swapBytes16 n) = be_bytes 2 n"
  using be_bytes_be_word [of "le_bytes 2 n", where 'a = 16]
  by (simp add: swapBytes16_def le_bytes_def del: be_bytes_numeral be_bytes_be_word)

lemma load_be64_be_word: "length p \<ge> 8 \<Longrightarrow> load_be64 p = Inr (be_word (take 8 p))"
  by (cases p rule: load_be64.cases) (simp_all add: be_word_Cons)

lemma load_be32_be_word: "length p \<ge> 4 \<Longrightarrow> load_be32 p = Inr (be_word (take 4 p))"
  by (cases p rule: load_be32.cases) (simp_all add: be_word_Cons)

lemma load_be16_be_word: "length p \<ge> 2 \<Longrightarrow> load_be16 p = Inr (be_word (take 2 p))"
  by (cases p rule: load_be16.cases) (simp_all add: be_word_Cons)

lemma load_le64_be_word: "length p \<ge> 8 \<Longrightarrow> load_le64 p = Inr (be_word (rev (take 8 p)))"
  by (cases p rule: load_le64.cases) (simp_all add: be_word_Cons or.assoc or.commute or.left_commute)

lemma load_le32_be_word: "length p \<ge> 4 \<Longrightarrow> load_le32 p = Inr (be_word (rev (take 4 p)))"
  by (cases p rule: load_le32.cases) (simp_all add: be_word_Cons or.assoc or.commute or.left_commute)

lemma load_le16_be_word: "length p \<ge> 2 \<Longrightarrow> load_le16 p = Inr (be_word (rev (take 2 p)))"
  by (cases p rule: load_le16.cases) (simp_all add: be_word_Cons or.assoc or.commute or.left_commute)

text \<open>storing a 64-bit integer in big-endian order writes its bytes from the most significant one,
  keeps the memory behind them, and \<open>loadBigEndian\<close> reads the integer back.\<close>

lemma storeBigEndian64_spec:
  assumes "8 \<le> length p"
  shows "storeBigEndian64 p i = Inr (be_bytes 8 i @ drop 8 p) \<and>
         bindE (storeBigEndian64 p i) load_be64 = Inr i"
proof -
  have s: "storeBigEndian64 p i = Inr (be_bytes 8 i @ drop 8 p)"
    using assms
    by (simp add: storeBigEndian64_def storeMachineEndian_def hton64_def le_bytes_swapBytes64
        del: be_bytes_numeral)
  have "load_be64 (be_bytes 8 i @ drop 8 p) = Inr i"
    using assms by (simp add: load_be64_be_word del: be_bytes_numeral)
  with s show ?thesis by (simp del: be_bytes_numeral)
qed

lemma storeBigEndian64_spec_witness:
  "storeBigEndian64 [0, 0, 0, 0, 0, 0, 0, 0, 5] 0x0102030405060708 = Inr [1, 2, 3, 4, 5, 6, 7, 8, 5]"
  using storeBigEndian64_spec [of "[0, 0, 0, 0, 0, 0, 0, 0, 5]" "0x0102030405060708"] by simp

end
