(* ===== verification/ZT_Buffer.thy ===== *)
theory ZT_Buffer
  imports ZT_Utils
begin

text \<open>
  \<^verbatim>\<open>node/Buffer.hpp\<close>: the bounds-checked byte buffer every packet, credential and dictionary value
  is built in. The record holds the array \<open>_b\<close> (whose length is the template capacity \<open>C\<close>) and the
  size \<open>_l\<close>. The bounds checks are written with the 32-bit sums the code computes; an access that
  passes the check but leaves the array is \<^const>\<open>UndefinedBehaviour\<close>. \<open>byte_sink\<close> is the interface
  serialisers rely on: a sequence of appends either extends the contents or throws.
\<close>

section \<open>State and operations\<close>

record buffer =
  buf_b :: bytes
  buf_l :: nat

definition buf_capacity :: "buffer \<Rightarrow> nat" where
  "buf_capacity b = length (buf_b b)"

definition buf_size :: "buffer \<Rightarrow> nat" where
  "buf_size b = buf_l b"

abbreviation oob :: "fault" where
  "oob \<equiv> Throw ZT_EXCEPTION_OUT_OF_BOUNDS"

text \<open>The constructors take the uninitialised memory of the object as an argument.\<close>

definition buf_new :: "bytes \<Rightarrow> buffer" where
  "buf_new mem = \<lparr>buf_b = mem, buf_l = 0\<rparr>"

definition buf_new_size :: "bytes \<Rightarrow> nat \<Rightarrow> buffer result" where
  "buf_new_size mem l = (if l > length mem then Inl oob else Inr \<lparr>buf_b = mem, buf_l = l\<rparr>)"

definition buf_copyFrom :: "buffer \<Rightarrow> bytes \<Rightarrow> nat \<Rightarrow> buffer result" where
  "buf_copyFrom b src l =
    (if l > buf_capacity b then Inl oob
     else bindE (mem_read src 0 l) (\<lambda>bs.
          bindE (mem_write (buf_b b) 0 bs) (\<lambda>m. Inr \<lparr>buf_b = m, buf_l = l\<rparr>)))"

definition buf_assign :: "buffer \<Rightarrow> buffer \<Rightarrow> buffer result" where
  "buf_assign b o2 =
    (if buf_l o2 > buf_capacity b then Inl oob
     else if buf_capacity o2 = buf_capacity b then Inr o2
     else bindE (mem_read (buf_b o2) 0 (buf_l o2)) (\<lambda>bs.
          bindE (mem_write (buf_b b) 0 bs) (\<lambda>m. Inr \<lparr>buf_b = m, buf_l = buf_l o2\<rparr>)))"

definition buf_index :: "buffer \<Rightarrow> nat \<Rightarrow> u8 result" where
  "buf_index b i =
    (if i \<ge> buf_l b then Inl oob else bindE (mem_read (buf_b b) i 1) (\<lambda>bs. Inr (hd bs)))"

definition buf_index_set :: "buffer \<Rightarrow> nat \<Rightarrow> u8 \<Rightarrow> buffer result" where
  "buf_index_set b i v =
    (if i \<ge> buf_l b then Inl oob
     else bindE (mem_write (buf_b b) i [v]) (\<lambda>m. Inr (b\<lparr>buf_b := m\<rparr>)))"

text \<open>\<open>field\<close> returns a pointer into the array, given here by its index.\<close>

definition buf_field :: "buffer \<Rightarrow> nat \<Rightarrow> nat \<Rightarrow> nat result" where
  "buf_field b i l = (if uadd i l > buf_l b then Inl oob else Inr i)"

definition buf_setAt :: "nat \<Rightarrow> buffer \<Rightarrow> nat \<Rightarrow> 'a::len word \<Rightarrow> buffer result" where
  "buf_setAt sz b i v =
    (if uadd i sz > buf_l b then Inl oob
     else bindE (mem_write (buf_b b) i (be_bytes sz v)) (\<lambda>m. Inr (b\<lparr>buf_b := m\<rparr>)))"

definition buf_at :: "nat \<Rightarrow> buffer \<Rightarrow> nat \<Rightarrow> 'a::len word result" where
  "buf_at sz b i =
    (if uadd i sz > buf_l b then Inl oob
     else bindE (mem_read (buf_b b) i sz) (\<lambda>bs. Inr (be_word bs)))"

text \<open>The memory write and size update every \<open>append\<close> ends in.\<close>

definition buf_store :: "buffer \<Rightarrow> bytes \<Rightarrow> buffer result" where
  "buf_store b bs =
    bindE (mem_write (buf_b b) (buf_l b) bs) (\<lambda>m. Inr \<lparr>buf_b = m, buf_l = buf_l b + length bs\<rparr>)"

definition buf_append :: "nat \<Rightarrow> 'a::len word \<Rightarrow> buffer \<Rightarrow> buffer result" where
  "buf_append sz v b =
    (if uadd (buf_l b) sz > buf_capacity b then Inl oob else buf_store b (be_bytes sz v))"

definition buf_append_run :: "u8 \<Rightarrow> nat \<Rightarrow> buffer \<Rightarrow> buffer result" where
  "buf_append_run c n b =
    (if uadd (buf_l b) n > buf_capacity b then Inl oob else buf_store b (replicate n c))"

text \<open>\<open>random n\<close> stands for the bytes \<open>esp_fill_random\<close> delivers.\<close>

definition buf_appendRandom :: "(nat \<Rightarrow> bytes) \<Rightarrow> nat \<Rightarrow> buffer \<Rightarrow> buffer result" where
  "buf_appendRandom random n b =
    (if uadd (buf_l b) n > buf_capacity b then Inl oob else buf_store b (take n (random n)))"

definition buf_append_bytes :: "bytes \<Rightarrow> nat \<Rightarrow> buffer \<Rightarrow> buffer result" where
  "buf_append_bytes src l b =
    (if uadd (buf_l b) l > buf_capacity b then Inl oob
     else bindE (mem_read src 0 l) (buf_store b))"

fun buf_appendCString :: "bytes \<Rightarrow> buffer \<Rightarrow> buffer result" where
  "buf_appendCString s b =
    (if buf_l b \<ge> buf_capacity b then Inl oob
     else case s of [] \<Rightarrow> Inl UndefinedBehaviour
     | c # s' \<Rightarrow> bindE (buf_store b [c]) (\<lambda>b1. if c = 0 then Inr b1 else buf_appendCString s' b1))"

definition buf_append_buffer :: "buffer \<Rightarrow> buffer \<Rightarrow> buffer result" where
  "buf_append_buffer o2 b = buf_append_bytes (buf_b o2) (buf_l o2) b"

definition buf_appendField :: "nat \<Rightarrow> buffer \<Rightarrow> (nat \<times> buffer) result" where
  "buf_appendField l b =
    (if uadd (buf_l b) l > buf_capacity b then Inl oob
     else Inr (buf_l b, b\<lparr>buf_l := buf_l b + l\<rparr>))"

definition buf_addSize :: "nat \<Rightarrow> buffer \<Rightarrow> buffer result" where
  "buf_addSize i b =
    (if uadd i (buf_l b) > buf_capacity b then Inl oob else Inr (b\<lparr>buf_l := uadd (buf_l b) i\<rparr>))"

definition buf_setSize :: "nat \<Rightarrow> buffer \<Rightarrow> buffer result" where
  "buf_setSize i b = (if i > buf_capacity b then Inl oob else Inr (b\<lparr>buf_l := i\<rparr>))"

definition buf_behead :: "nat \<Rightarrow> buffer \<Rightarrow> buffer result" where
  "buf_behead at b =
    (if at = 0 then Inr b
     else if at > buf_l b then Inl oob
     else bindE (mem_read (buf_b b) at (buf_l b - at)) (\<lambda>bs.
          bindE (mem_write (buf_b b) 0 bs) (\<lambda>m. Inr \<lparr>buf_b = m, buf_l = buf_l b - at\<rparr>)))"

definition buf_erase :: "nat \<Rightarrow> nat \<Rightarrow> buffer \<Rightarrow> buffer result" where
  "buf_erase at len b =
    (let endr = uadd at len in
     if endr > buf_l b then Inl oob
     else bindE (mem_read (buf_b b) endr (buf_l b - endr)) (\<lambda>bs.
          bindE (mem_write (buf_b b) at bs) (\<lambda>m. Inr \<lparr>buf_b = m, buf_l = usub (buf_l b) len\<rparr>)))"

definition buf_clear :: "buffer \<Rightarrow> buffer" where
  "buf_clear b = b\<lparr>buf_l := 0\<rparr>"

definition buf_zero :: "buffer \<Rightarrow> buffer result" where
  "buf_zero b = bindE (mem_write (buf_b b) 0 (replicate (buf_l b) 0)) (\<lambda>m. Inr (b\<lparr>buf_b := m\<rparr>))"

definition buf_zeroUnused :: "buffer \<Rightarrow> buffer result" where
  "buf_zeroUnused b =
    bindE (mem_write (buf_b b) (buf_l b) (replicate (buf_capacity b - buf_l b) 0))
      (\<lambda>m. Inr (b\<lparr>buf_b := m\<rparr>))"

definition buf_burn :: "buffer \<Rightarrow> buffer result" where
  "buf_burn b = bindE (burn (buf_b b) (buf_capacity b)) (\<lambda>m. Inr (b\<lparr>buf_b := m\<rparr>))"

definition buf_eq :: "buffer \<Rightarrow> buffer \<Rightarrow> bool" where
  "buf_eq a b \<longleftrightarrow> buf_l a = buf_l b \<and> take (buf_l a) (buf_b a) = take (buf_l a) (buf_b b)"

text \<open>\<open>memcmp\<close> on the shorter of the two sizes, as \<open>operator<\<close> calls it.\<close>

fun memcmp_less :: "bytes \<Rightarrow> bytes \<Rightarrow> nat \<Rightarrow> bool" where
  "memcmp_less (x # a) (y # b) (Suc n) = (if x = y then memcmp_less a b n else x < y)"
| "memcmp_less a b n = False"

definition buf_less :: "buffer \<Rightarrow> buffer \<Rightarrow> bool" where
  "buf_less a b \<longleftrightarrow> memcmp_less (buf_b a) (buf_b b) (min (buf_l a) (buf_l b))"

section \<open>Contents and invariant\<close>

definition buf_data :: "buffer \<Rightarrow> bytes" where
  "buf_data b = take (buf_l b) (buf_b b)"

text \<open>The size never exceeds the capacity; capacities stay below \<^term>\<open>2 ^ 31 :: nat\<close> (the largest
  instantiation in the node core is 64 KiB).\<close>

definition buf_inv :: "buffer \<Rightarrow> bool" where
  "buf_inv b \<longleftrightarrow> buf_l b \<le> buf_capacity b \<and> buf_capacity b \<le> 2 ^ 31"

text \<open>What a successful append does, as one explicit update.\<close>

definition buf_put :: "bytes \<Rightarrow> buffer \<Rightarrow> buffer" where
  "buf_put bs b =
    \<lparr>buf_b = take (buf_l b) (buf_b b) @ bs @ drop (buf_l b + length bs) (buf_b b),
     buf_l = buf_l b + length bs\<rparr>"

definition buf_fits :: "bytes \<Rightarrow> buffer \<Rightarrow> bool" where
  "buf_fits bs b \<longleftrightarrow> buf_l b + length bs \<le> buf_capacity b"

text \<open>The operations as one type, to speak of sequences of them: those that change the buffer and those that read it. The pointer
  that \<open>field\<close> returns is used for the whole field.\<close>

datatype buf_op =
    CopyFrom bytes nat | SetByte nat u8 | SetAt nat nat u64 | Append nat u64 | AppendRun u8 nat
  | AppendBytes bytes nat | AppendField nat | AddSize nat | SetSize nat | Behead nat
  | Erase nat nat | Clear | Zero | ZeroUnused | Burn
  | GetByte nat | Field nat nat | At nat nat | AppendRandom bytes nat | AppendCString bytes
  | AppendBuffer buffer | Assign buffer

fun buf_step :: "buf_op \<Rightarrow> buffer \<Rightarrow> buffer result" where
  "buf_step (CopyFrom s l) b = buf_copyFrom b s l"
| "buf_step (SetByte i v) b = buf_index_set b i v"
| "buf_step (SetAt sz i v) b = buf_setAt sz b i v"
| "buf_step (Append sz v) b = buf_append sz v b"
| "buf_step (AppendRun c n) b = buf_append_run c n b"
| "buf_step (AppendBytes s l) b = buf_append_bytes s l b"
| "buf_step (AppendField l) b = bindE (buf_appendField l b) (\<lambda>(_, b'). Inr b')"
| "buf_step (AddSize i) b = buf_addSize i b"
| "buf_step (SetSize i) b = buf_setSize i b"
| "buf_step (Behead at) b = buf_behead at b"
| "buf_step (Erase at len) b = buf_erase at len b"
| "buf_step Clear b = Inr (buf_clear b)"
| "buf_step Zero b = buf_zero b"
| "buf_step ZeroUnused b = buf_zeroUnused b"
| "buf_step Burn b = buf_burn b"
| "buf_step (GetByte i) b = bindE (buf_index b i) (\<lambda>_. Inr b)"
| "buf_step (Field i l) b = bindE (buf_field b i l) (\<lambda>p. bindE (mem_read (buf_b b) p l) (\<lambda>_. Inr b))"
| "buf_step (At sz i) b = bindE (buf_at sz b i) (\<lambda>v :: u64. Inr b)"
| "buf_step (AppendRandom r n) b = buf_appendRandom (\<lambda>_. r) n b"
| "buf_step (AppendCString s) b = buf_appendCString s b"
| "buf_step (AppendBuffer o2) b = buf_append_buffer o2 b"
| "buf_step (Assign o2) b = buf_assign b o2"

text \<open>Arguments for which no 32-bit sum wraps, source arrays that hold what is copied, strings that are terminated and buffers that are well formed.\<close>

fun buf_op_ok :: "buf_op \<Rightarrow> bool" where
  "buf_op_ok (CopyFrom s l) = (l \<le> length s)"
| "buf_op_ok (SetAt sz i v) = (i < 2 ^ 31 \<and> sz \<le> 8)"
| "buf_op_ok (Append sz v) = (sz \<le> 8)"
| "buf_op_ok (AppendRun c n) = (n < 2 ^ 31)"
| "buf_op_ok (AppendBytes s l) = (l \<le> length s \<and> l < 2 ^ 31)"
| "buf_op_ok (AppendField l) = (l < 2 ^ 31)"
| "buf_op_ok (AddSize i) = (i < 2 ^ 31)"
| "buf_op_ok (Erase at len) = (at < 2 ^ 31 \<and> len < 2 ^ 31)"
| "buf_op_ok (Field i l) = (i < 2 ^ 31 \<and> l < 2 ^ 31)"
| "buf_op_ok (At sz i) = (i < 2 ^ 31 \<and> sz \<le> 8)"
| "buf_op_ok (AppendRandom r n) = (n \<le> length r \<and> n < 2 ^ 31)"
| "buf_op_ok (AppendCString s) = (0 \<in> set s)"
| "buf_op_ok (AppendBuffer o2) = (buf_inv o2 \<and> buf_l o2 < 2 ^ 31)"
| "buf_op_ok (Assign o2) = buf_inv o2"
| "buf_op_ok op = True"

fun buf_run :: "buf_op list \<Rightarrow> buffer \<Rightarrow> buffer result" where
  "buf_run [] b = Inr b"
| "buf_run (op # ops) b = bindE (buf_step op b) (buf_run ops)"

section \<open>The byte sink interface\<close>

locale byte_sink =
  fixes put :: "bytes \<Rightarrow> 's \<Rightarrow> 's result"
    and content :: "'s \<Rightarrow> bytes"
    and room :: "'s \<Rightarrow> nat"
    and inv :: "'s \<Rightarrow> bool"
  assumes put_ok: "inv s \<Longrightarrow> length bs < 2 ^ 31 \<Longrightarrow> length bs \<le> room s \<Longrightarrow>
      \<exists>s'. put bs s = Inr s' \<and> content s' = content s @ bs \<and> room s' = room s - length bs \<and> inv s'"
    and put_full: "inv s \<Longrightarrow> length bs < 2 ^ 31 \<Longrightarrow> room s < length bs \<Longrightarrow> put bs s = Inl oob"
begin

fun put_all :: "bytes list \<Rightarrow> 's \<Rightarrow> 's result" where
  "put_all [] s = Inr s"
| "put_all (bs # bss) s = bindE (put bs s) (put_all bss)"

lemma put_all_ok:
  assumes "inv s" "\<forall>bs \<in> set bss. length bs < 2 ^ 31" "length (concat bss) \<le> room s"
  shows "\<exists>s'. put_all bss s = Inr s' \<and> content s' = content s @ concat bss
           \<and> room s' = room s - length (concat bss) \<and> inv s'"
  using assms
proof (induction bss arbitrary: s)
  case Nil
  then show ?case by simp
next
  case (Cons bs bss)
  then obtain s1 where s1: "put bs s = Inr s1" "content s1 = content s @ bs"
      "room s1 = room s - length bs" "inv s1"
    using put_ok [of s bs] by auto
  have "length (concat bss) \<le> room s1" using Cons.prems(3) s1(3) by simp
  with Cons.prems(2) s1(4) obtain s2 where "put_all bss s1 = Inr s2" "content s2 = content s1 @ concat bss"
      "room s2 = room s1 - length (concat bss)" "inv s2"
    using Cons.IH [of s1] by auto
  with s1 show ?case by simp
qed

lemma put_all_full:
  assumes "inv s" "\<forall>bs \<in> set bss. length bs < 2 ^ 31" "room s < length (concat bss)"
  shows "put_all bss s = Inl oob"
  using assms
proof (induction bss arbitrary: s)
  case Nil
  then show ?case by simp
next
  case (Cons bs bss)
  show ?case
  proof (cases "length bs \<le> room s")
    case True
    with Cons obtain s1 where "put bs s = Inr s1" "room s1 = room s - length bs" "inv s1"
      using put_ok [of s bs] by auto
    moreover have "room s1 < length (concat bss)" using Cons.prems(3) calculation(2) True by simp
    ultimately show ?thesis using Cons.IH [of s1] Cons.prems(2) by simp
  next
    case False
    with Cons show ?thesis using put_full [of s bs] by simp
  qed
qed

end

section \<open>Appends\<close>

lemma buf_data_length [simp]: "buf_inv b \<Longrightarrow> length (buf_data b) = buf_l b"
  by (simp add: buf_data_def buf_inv_def buf_capacity_def)

lemma buf_capacity_put [simp]: "buf_fits bs b \<Longrightarrow> buf_capacity (buf_put bs b) = buf_capacity b"
  by (simp add: buf_capacity_def buf_put_def buf_fits_def)

lemma buf_inv_put [simp]: "buf_inv b \<Longrightarrow> buf_fits bs b \<Longrightarrow> buf_inv (buf_put bs b)"
  by (simp add: buf_inv_def) (simp add: buf_put_def buf_fits_def)

lemma buf_l_put [simp]: "buf_l (buf_put bs b) = buf_l b + length bs"
  by (simp add: buf_put_def)

lemma buf_data_put [simp]: "buf_inv b \<Longrightarrow> buf_data (buf_put bs b) = buf_data b @ bs"
  by (simp add: buf_data_def buf_put_def buf_inv_def buf_capacity_def)

lemma buf_put_put [simp]: "buf_inv b \<Longrightarrow> buf_put ys (buf_put xs b) = buf_put (xs @ ys) b"
  by (simp add: buf_put_def buf_inv_def buf_capacity_def ac_simps)

lemma buf_put_Nil [simp]: "buf_put [] b = b"
  by (simp add: buf_put_def)

lemma buf_fits_put [simp]:
  "buf_fits xs b \<Longrightarrow> buf_fits ys (buf_put xs b) \<longleftrightarrow> buf_fits (xs @ ys) b"
  by (simp add: buf_fits_def buf_capacity_def buf_put_def add.assoc)

lemma buf_store_put: "buf_fits bs b \<Longrightarrow> buf_store b bs = Inr (buf_put bs b)"
  by (simp add: buf_store_def buf_put_def mem_write_def buf_fits_def buf_capacity_def)

text \<open>Without wrap-around every append is a test of the room left followed by one update.\<close>

lemma uadd_l: "buf_inv b \<Longrightarrow> n < 2 ^ 31 \<Longrightarrow> uadd (buf_l b) n = buf_l b + n"
  by (rule uadd_small) (simp add: buf_inv_def)

lemma buf_append_eq:
  "buf_inv b \<Longrightarrow> sz < 2 ^ 31 \<Longrightarrow>
   buf_append sz v b = (if buf_fits (be_bytes sz v) b then Inr (buf_put (be_bytes sz v) b) else Inl oob)"
  by (auto simp: buf_append_def uadd_l buf_store_put) (auto simp: buf_fits_def)

lemma buf_append_run_eq:
  "buf_inv b \<Longrightarrow> n < 2 ^ 31 \<Longrightarrow>
   buf_append_run c n b = (if buf_fits (replicate n c) b then Inr (buf_put (replicate n c) b) else Inl oob)"
  by (auto simp: buf_append_run_def uadd_l buf_store_put) (auto simp: buf_fits_def)

lemma buf_append_bytes_eq:
  "buf_inv b \<Longrightarrow> l < 2 ^ 31 \<Longrightarrow> l \<le> length s \<Longrightarrow>
   buf_append_bytes s l b = (if buf_fits (take l s) b then Inr (buf_put (take l s) b) else Inl oob)"
  by (auto simp: buf_append_bytes_def uadd_l buf_store_put mem_read_def) (auto simp: buf_fits_def)

lemmas buf_append_eqs = buf_append_eq buf_append_run_eq buf_append_bytes_eq

interpretation bs: byte_sink
  "\<lambda>s. buf_append_bytes s (length s)" buf_data "\<lambda>b. buf_capacity b - buf_l b" buf_inv
proof
  fix b and bs :: bytes
  assume "buf_inv b" "length bs < 2 ^ 31" "length bs \<le> buf_capacity b - buf_l b"
  moreover from this have "buf_fits bs b" by (auto simp: buf_fits_def buf_inv_def)
  ultimately show "\<exists>b'. buf_append_bytes bs (length bs) b = Inr b' \<and> buf_data b' = buf_data b @ bs
      \<and> buf_capacity b' - buf_l b' = buf_capacity b - buf_l b - length bs \<and> buf_inv b'"
    by (simp add: buf_append_bytes_eq)
next
  fix b and bs :: bytes
  assume "buf_inv b" "length bs < 2 ^ 31" "buf_capacity b - buf_l b < length bs"
  then show "buf_append_bytes bs (length bs) b = Inl oob"
    by (simp add: buf_append_bytes_eq) (auto simp: buf_fits_def buf_inv_def)
qed

section \<open>Reads\<close>

lemma buf_at_data:
  assumes "buf_inv b" "i < 2 ^ 31" "sz \<le> 8"
  shows "buf_at sz b i =
    (if i + sz > buf_l b then Inl oob else Inr (be_word (take sz (drop i (buf_data b)))))"
proof -
  have "uadd i sz = i + sz" using assms by simp
  then show ?thesis
    using assms(1) by (auto simp: buf_at_def mem_read_def buf_inv_def buf_capacity_def buf_data_def
        drop_take min_def)
qed

lemma buf_index_data:
  "buf_inv b \<Longrightarrow> buf_index b i = (if i \<ge> buf_l b then Inl oob else Inr (buf_data b ! i))"
  by (auto simp: buf_index_def mem_read_def buf_inv_def buf_capacity_def buf_data_def hd_drop_conv_nth
      take_Suc_conv_app_nth hd_conv_nth)

section \<open>The other mutators on the contents\<close>

lemma buf_behead_data:
  assumes "buf_inv b" "at \<le> buf_l b"
  shows "\<exists>b'. buf_behead at b = Inr b' \<and> buf_data b' = drop at (buf_data b) \<and> buf_inv b'
           \<and> buf_capacity b' = buf_capacity b"
  using assms
  by (auto simp: buf_behead_def mem_read_def mem_write_def buf_inv_def buf_capacity_def buf_data_def
      drop_take)

lemma buf_erase_data:
  assumes "buf_inv b" "at < 2 ^ 31" "len < 2 ^ 31" "at + len \<le> buf_l b"
  shows "\<exists>b'. buf_erase at len b = Inr b' \<and> buf_inv b' \<and> buf_capacity b' = buf_capacity b
           \<and> buf_data b' = take at (buf_data b) @ drop (at + len) (buf_data b)"
proof -
  have u: "uadd at len = at + len" using assms by simp
  have v: "usub (buf_l b) len = buf_l b - len"
    using assms by (intro usub_ge) (auto simp: buf_inv_def)
  obtain k where k: "buf_l b = at + len + k" using assms(4) le_Suc_ex by blast
  obtain j where j: "length (buf_b b) = at + len + k + j"
    using assms(1) k le_Suc_ex unfolding buf_inv_def buf_capacity_def by metis
  show ?thesis
    using assms(1) unfolding buf_erase_def Let_def u v k
    by (simp add: mem_read_def mem_write_def buf_inv_def buf_capacity_def buf_data_def drop_take k j
        add.assoc)
qed

section \<open>Safety of every sequence of operations\<close>

lemma buf_appendCString_safe:
  assumes "buf_inv b" "0 \<in> set s"
  shows "buf_appendCString s b = Inl oob \<or>
    (\<exists>b'. buf_appendCString s b = Inr b' \<and> buf_inv b' \<and> buf_capacity b' = buf_capacity b)"
  using assms
proof (induction s arbitrary: b)
  case (Cons c s)
  show ?case
  proof (cases "buf_l b < buf_capacity b")
    case True
    then obtain b1 where b1: "buf_store b [c] = Inr b1" "buf_inv b1" "buf_capacity b1 = buf_capacity b"
      using Cons.prems(1) by (auto simp: buf_store_def mem_write_def buf_inv_def buf_capacity_def)
    then show ?thesis using Cons.IH [of b1] Cons.prems(2) True by auto
  qed simp
qed simp

lemma buf_assign_safe:
  assumes "buf_inv b" "buf_inv o2"
  shows "buf_assign b o2 = Inl oob \<or> (\<exists>b'. buf_assign b o2 = Inr b' \<and> buf_inv b' \<and> buf_capacity b' = buf_capacity b)"
  using assms by (auto simp: buf_assign_def mem_read_def mem_write_def buf_inv_def buf_capacity_def)

lemma buf_step_safe:
  assumes "buf_inv b" "buf_op_ok op"
  shows "buf_step op b = Inl oob \<or>
    (\<exists>b'. buf_step op b = Inr b' \<and> buf_inv b' \<and> buf_capacity b' = buf_capacity b)"
proof (cases op)
  case (Behead at)
  then show ?thesis
    using assms buf_behead_data [of b at] by (cases "at \<le> buf_l b") (auto simp: buf_behead_def)
next
  case (Erase at len)
  then have "buf_erase at len b = Inl oob" if "\<not> at + len \<le> buf_l b"
    using that assms by (simp add: buf_erase_def Let_def)
  with Erase assms show ?thesis
    using buf_erase_data [of b at len] by (cases "at + len \<le> buf_l b") auto
next
  case (SetAt sz i v)
  then show ?thesis
    using assms by (auto simp: buf_setAt_def mem_write_def buf_inv_def buf_capacity_def)
next
  case (AddSize i)
  then have "uadd i (buf_l b) = i + buf_l b" "uadd (buf_l b) i = i + buf_l b"
    using assms by (auto simp: buf_inv_def)
  with AddSize assms show ?thesis
    by (auto simp: buf_addSize_def buf_inv_def buf_capacity_def)
next
  case (AppendField l)
  then show ?thesis
    using assms by (auto simp: buf_appendField_def uadd_l) (auto simp: buf_inv_def buf_capacity_def)
next
  case (CopyFrom s l)
  then show ?thesis
    using assms by (auto simp: buf_copyFrom_def mem_read_def mem_write_def buf_inv_def buf_capacity_def)
next
  case (SetByte i v)
  then show ?thesis
    using assms by (auto simp: buf_index_set_def mem_write_def buf_inv_def buf_capacity_def)
next
  case Burn
  then show ?thesis
    using assms by (simp add: buf_burn_def burn_zeroes buf_capacity_def buf_inv_def)
next
  case (Append sz v)
  then show ?thesis using assms by (auto simp: buf_append_eq)
next
  case (AppendRun c n)
  then show ?thesis using assms by (auto simp: buf_append_run_eq)
next
  case (AppendBytes s l)
  then show ?thesis using assms by (auto simp: buf_append_bytes_eq)
next
  case (GetByte i)
  then show ?thesis using assms by (auto simp: buf_index_def mem_read_def buf_inv_def buf_capacity_def)
next
  case (Field i l)
  then show ?thesis using assms by (auto simp: buf_field_def mem_read_def buf_inv_def buf_capacity_def)
next
  case (At sz i)
  then show ?thesis using assms by (auto simp: buf_at_def mem_read_def buf_inv_def buf_capacity_def)
next
  case (AppendRandom r n)
  then show ?thesis using assms by (auto simp: buf_appendRandom_def buf_store_def mem_write_def buf_inv_def buf_capacity_def)
next
  case (AppendCString s)
  then show ?thesis using assms buf_appendCString_safe by simp
next
  case (AppendBuffer o2)
  then have "buf_l o2 \<le> length (buf_b o2)" using assms(2) by (simp add: buf_inv_def buf_capacity_def)
  then show ?thesis using AppendBuffer assms by (auto simp: buf_append_buffer_def buf_append_bytes_eq)
next
  case (Assign o2)
  then show ?thesis using assms buf_assign_safe by simp
qed (use assms in \<open>auto simp: buf_setSize_def buf_clear_def buf_zero_def buf_zeroUnused_def
       mem_write_def buf_inv_def buf_capacity_def\<close>)

text \<open>C33: started on a well-formed buffer, no sequence of the operations above, reading or writing, whose arguments stay below
  \<^term>\<open>2 ^ 31 :: nat\<close> and whose sources hold what is copied from them touches memory outside the array: it returns a well-formed buffer of the same capacity or
  throws \<open>ZT_EXCEPTION_OUT_OF_BOUNDS\<close>, and nothing else.\<close>

theorem buf_run_safe:
  assumes "buf_inv b" "\<forall>op \<in> set ops. buf_op_ok op"
  shows "buf_run ops b = Inl oob \<or>
    (\<exists>b'. buf_run ops b = Inr b' \<and> buf_inv b' \<and> buf_capacity b' = buf_capacity b)"
  using assms
proof (induction ops arbitrary: b)
  case Nil
  then show ?case by simp
next
  case (Cons op ops)
  then show ?case using buf_step_safe [of b op] by force
qed

theorem buf_run_safe_witness:
  "\<exists>b'. buf_run [Append 4 0xdeadbeef, Behead 1, AppendRun 7 1] (buf_new [0, 0, 0, 0, 0]) = Inr b'
     \<and> buf_inv b' \<and> buf_capacity b' = 5"
proof -
  have i: "buf_inv (buf_new [0, 0, 0, 0, 0])" by (simp add: buf_inv_def buf_new_def buf_capacity_def)
  have o: "\<forall>op \<in> set [Append 4 0xdeadbeef, Behead 1, AppendRun 7 1]. buf_op_ok op" by simp
  have "buf_run [Append 4 0xdeadbeef, Behead 1, AppendRun 7 1] (buf_new [0, 0, 0, 0, 0]) \<noteq> Inl oob"
    by (simp add: buf_append_def buf_behead_def buf_append_run_def buf_store_def mem_write_def
        mem_read_def buf_new_def buf_capacity_def)
  moreover have "buf_capacity (buf_new [0, 0, 0, 0, 0]) = 5"
    by (simp add: buf_new_def buf_capacity_def)
  ultimately show ?thesis using buf_run_safe [OF i o] by auto
qed

text \<open>an integer appended to a buffer with room for it is read back by \<open>at\<close> at the old size, in
  big-endian order, and the bytes before it are unchanged.\<close>

theorem buf_append_at:
  fixes v :: "'a::len word"
  assumes "buf_inv b" "LENGTH('a) = 8 * sz" "sz \<le> 8" "buf_l b + sz \<le> buf_capacity b"
  shows "\<exists>b'. buf_append sz v b = Inr b' \<and> buf_at sz b' (buf_l b) = Inr v
           \<and> buf_data b' = buf_data b @ be_bytes sz v"
proof -
  have f: "buf_fits (be_bytes sz v) b" using assms by (simp add: buf_fits_def)
  have "0 < sz" using assms(2) len_gt_0 [where 'a = 'a] by simp
  then have l: "buf_l b < 2 ^ 31" using assms(1,4) by (simp add: buf_inv_def)
  have "buf_at sz (buf_put (be_bytes sz v) b) (buf_l b)
      = Inr (be_word (take sz (drop (buf_l b) (buf_data b @ be_bytes sz v))))"
    using assms f l by (simp add: buf_at_data)
  also have "\<dots> = Inr v" using assms by simp
  finally show ?thesis using assms f by (simp add: buf_append_eq)
qed

theorem buf_append_at_witness:
  "\<exists>b'. buf_append 2 (0x1234 :: u16) (buf_new [0, 0, 0]) = Inr b' \<and> buf_at 2 b' 0 = Inr (0x1234 :: u16)"
proof -
  have i: "buf_inv (buf_new [0, 0, 0])" by (simp add: buf_inv_def buf_new_def buf_capacity_def)
  show ?thesis
    using buf_append_at [OF i, of 2 "0x1234 :: u16"] by (auto simp: buf_new_def buf_capacity_def)
qed

text \<open>The bounds check of \<open>field\<close> is made on a 32-bit sum: an index close to \<^term>\<open>2 ^ 32 :: nat\<close> wraps around
  and passes it, although the field lies far outside the data.\<close>

theorem buf_field_wraps:
  assumes "buf_inv b" "0 < buf_l b"
  shows "buf_field b (2 ^ 32 - 1) 2 = Inr (2 ^ 32 - 1) \<and> buf_capacity b < 2 ^ 32 - 1"
  using assms by (simp add: buf_field_def uadd_def buf_inv_def)

theorem buf_field_wraps_witness: "buf_field \<lparr>buf_b = [7], buf_l = 1\<rparr> (2 ^ 32 - 1) 2 = Inr (2 ^ 32 - 1)"
proof -
  have "buf_inv \<lparr>buf_b = [7], buf_l = 1\<rparr>" by (simp add: buf_inv_def buf_capacity_def)
  from buf_field_wraps [OF this] show ?thesis by simp
qed

end
