(* ===== verification/ZT_Addressing.thy ===== *)
theory ZT_Addressing
  imports ZT_Buffer
begin

text \<open>
  \<^verbatim>\<open>node/Address.hpp\<close> and \<^verbatim>\<open>node/MAC.hpp\<close>: 40-bit ZeroTier addresses, 48-bit Ethernet addresses, and
  the map between them on a virtual network. Each class wraps one \<open>uint64_t\<close>; values of the class are
  represented by that field, \<open>address_wf\<close> and \<open>mac_wf\<close> say that it stays in its 40 or 48 bits.
\<close>

type_synonym address = u64
type_synonym mac = u64

section \<open>Address\<close>

definition address_of :: "u64 \<Rightarrow> address" where
  "address_of a = a AND 0xffffffffff"

definition address_setTo :: "bytes \<Rightarrow> nat \<Rightarrow> address result" where
  "address_setTo bits len =
    (if len < 5 then Inr 0
     else case bits of
       b0 # b1 # b2 # b3 # b4 # _ \<Rightarrow>
         Inr (push_bit 32 (ucast b0) OR push_bit 24 (ucast b1) OR push_bit 16 (ucast b2)
              OR push_bit 8 (ucast b3) OR ucast b4)
     | _ \<Rightarrow> Inl UndefinedBehaviour)"

definition address_octets :: "address \<Rightarrow> bytes" where
  "address_octets a =
    [ucast (drop_bit 32 a AND 0xff), ucast (drop_bit 24 a AND 0xff), ucast (drop_bit 16 a AND 0xff),
     ucast (drop_bit 8 a AND 0xff), ucast (a AND 0xff)]"

definition address_copyTo :: "address \<Rightarrow> bytes \<Rightarrow> nat \<Rightarrow> bytes result" where
  "address_copyTo a bits len = (if len < 5 then Inr bits else mem_write bits 0 (address_octets a))"

definition address_appendTo :: "address \<Rightarrow> buffer \<Rightarrow> buffer result" where
  "address_appendTo a b =
    bindE (buf_appendField 5 b) (\<lambda>(p, b1).
    bindE (mem_write (buf_b b1) p (address_octets a)) (\<lambda>m. Inr (b1\<lparr>buf_b := m\<rparr>)))"

definition address_hashCode :: "address \<Rightarrow> u32" where
  "address_hashCode a = ucast a"

definition address_toString :: "address \<Rightarrow> bytes" where
  "address_toString a = hex10 a"

definition address_isReserved :: "address \<Rightarrow> bool" where
  "address_isReserved a \<longleftrightarrow> a = 0 \<or> drop_bit 32 a = 0xff"

definition address_index :: "address \<Rightarrow> nat \<Rightarrow> u8" where
  "address_index a i = ucast (drop_bit (32 - i * 8) a)"

definition address_eq_u64 :: "address \<Rightarrow> u64 \<Rightarrow> bool" where
  "address_eq_u64 x a \<longleftrightarrow> x = a AND 0xffffffffff"

definition address_less_u64 :: "address \<Rightarrow> u64 \<Rightarrow> bool" where
  "address_less_u64 x a \<longleftrightarrow> x < a AND 0xffffffffff"

section \<open>MAC\<close>

definition mac_of :: "u64 \<Rightarrow> mac" where
  "mac_of m = m AND 0xffffffffffff"

definition mac_of_octets :: "u8 \<Rightarrow> u8 \<Rightarrow> u8 \<Rightarrow> u8 \<Rightarrow> u8 \<Rightarrow> u8 \<Rightarrow> mac" where
  "mac_of_octets a b c d e f =
    push_bit 40 (ucast a AND 0xff) OR push_bit 32 (ucast b AND 0xff) OR push_bit 24 (ucast c AND 0xff)
    OR push_bit 16 (ucast d AND 0xff) OR push_bit 8 (ucast e AND 0xff) OR (ucast f AND 0xff)"

text \<open>\<open>operator=(uint64_t)\<close> keeps all 64 bits.\<close>

definition mac_assign :: "u64 \<Rightarrow> mac" where
  "mac_assign m = m"

definition mac_setTo :: "bytes \<Rightarrow> nat \<Rightarrow> mac result" where
  "mac_setTo bits len =
    (if len < 6 then Inr 0
     else case bits of
       b0 # b1 # b2 # b3 # b4 # b5 # _ \<Rightarrow> Inr (mac_of_octets b0 b1 b2 b3 b4 b5)
     | _ \<Rightarrow> Inl UndefinedBehaviour)"

definition mac_octets :: "mac \<Rightarrow> bytes" where
  "mac_octets m =
    [ucast (drop_bit 40 m AND 0xff), ucast (drop_bit 32 m AND 0xff), ucast (drop_bit 24 m AND 0xff),
     ucast (drop_bit 16 m AND 0xff), ucast (drop_bit 8 m AND 0xff), ucast (m AND 0xff)]"

definition mac_copyTo :: "mac \<Rightarrow> bytes \<Rightarrow> nat \<Rightarrow> bytes result" where
  "mac_copyTo m buf len = (if len < 6 then Inr buf else mem_write buf 0 (mac_octets m))"

definition mac_appendTo :: "mac \<Rightarrow> buffer \<Rightarrow> buffer result" where
  "mac_appendTo m b =
    bindE (buf_appendField 6 b) (\<lambda>(p, b1).
    bindE (mem_write (buf_b b1) p (mac_octets m)) (\<lambda>mem. Inr (b1\<lparr>buf_b := mem\<rparr>)))"

definition mac_isBroadcast :: "mac \<Rightarrow> bool" where
  "mac_isBroadcast m \<longleftrightarrow> m = 0xffffffffffff"

definition mac_isMulticast :: "mac \<Rightarrow> bool" where
  "mac_isMulticast m \<longleftrightarrow> m AND 0x010000000000 \<noteq> 0"

definition mac_isLocallyAdministered :: "mac \<Rightarrow> bool" where
  "mac_isLocallyAdministered m \<longleftrightarrow> m AND 0x020000000000 \<noteq> 0"

definition mac_firstOctetForNetwork :: "u64 \<Rightarrow> u8" where
  "mac_firstOctetForNetwork nwid =
    (let a = ucast (nwid AND 0xfe) OR 0x02 in if a = 0x52 then 0x32 else a)"

definition mac_fromAddress :: "address \<Rightarrow> u64 \<Rightarrow> mac" where
  "mac_fromAddress ztaddr nwid =
    (let m = push_bit 40 (ucast (mac_firstOctetForNetwork nwid));
         m = m OR ztaddr;
         m = m XOR push_bit 32 (drop_bit 8 nwid AND 0xff);
         m = m XOR push_bit 24 (drop_bit 16 nwid AND 0xff);
         m = m XOR push_bit 16 (drop_bit 24 nwid AND 0xff);
         m = m XOR push_bit 8 (drop_bit 32 nwid AND 0xff);
         m = m XOR (drop_bit 40 nwid AND 0xff)
     in m)"

definition mac_toAddress :: "mac \<Rightarrow> u64 \<Rightarrow> address" where
  "mac_toAddress m nwid =
    (let a = m AND 0xffffffffff;
         a = a XOR push_bit 32 (drop_bit 8 nwid AND 0xff);
         a = a XOR push_bit 24 (drop_bit 16 nwid AND 0xff);
         a = a XOR push_bit 16 (drop_bit 24 nwid AND 0xff);
         a = a XOR push_bit 8 (drop_bit 32 nwid AND 0xff);
         a = a XOR (drop_bit 40 nwid AND 0xff)
     in address_of a)"

definition mac_index :: "mac \<Rightarrow> nat \<Rightarrow> u8" where
  "mac_index m i = ucast (drop_bit (40 - i * 8) m AND 0xff)"

definition mac_hashCode :: "mac \<Rightarrow> u32" where
  "mac_hashCode m = ucast m"

definition mac_toString :: "mac \<Rightarrow> bytes" where
  "mac_toString m =
    (let h = (\<lambda>k. HEXCHARS ! unat (drop_bit k m AND 0xf)) in
     [h 44, h 40, 58, h 36, h 32, 58, h 28, h 24, 58, h 20, h 16, 58, h 12, h 8, 58, h 4, h 0, 0])"

section \<open>Well-formed values\<close>

definition address_wf :: "address \<Rightarrow> bool" where
  "address_wf a \<longleftrightarrow> take_bit 40 a = a"

definition mac_wf :: "mac \<Rightarrow> bool" where
  "mac_wf m \<longleftrightarrow> take_bit 48 m = m"

text \<open>The five bytes of the network ID an address is masked with.\<close>

definition nwid_mask :: "u64 \<Rightarrow> u64" where
  "nwid_mask nwid =
    push_bit 32 (drop_bit 8 nwid AND 0xff) XOR push_bit 24 (drop_bit 16 nwid AND 0xff)
    XOR push_bit 16 (drop_bit 24 nwid AND 0xff) XOR push_bit 8 (drop_bit 32 nwid AND 0xff)
    XOR (drop_bit 40 nwid AND 0xff)"

section \<open>Addresses\<close>

lemma address_of_wf [simp]: "address_wf (address_of a)"
  by (simp add: address_of_def address_wf_def and_mask40)

lemma address_of_id [simp]: "address_wf a \<Longrightarrow> address_of a = a"
  by (simp add: address_of_def address_wf_def and_mask40)

lemma ucast_and_255 [simp]: "(ucast ((x::'a::len word) AND 0xff) :: u8) = ucast x"
  by (simp add: and_255) (rule bit_word_eqI, auto simp: bit_simps)

lemma ucast_u8_up_down: "(ucast (ucast (c::u8) :: u64) :: u8) = c"
  by (rule bit_word_eqI) (auto simp: bit_simps)

lemma address_octets_be: "address_octets a = be_bytes 5 a"
  by (simp add: address_octets_def)

lemma mac_octets_be: "mac_octets m = be_bytes 6 m"
  by (simp add: mac_octets_def)

lemma address_setTo_be: "5 \<le> len \<Longrightarrow> 5 \<le> length bs \<Longrightarrow> address_setTo bs len = Inr (be_word (take 5 bs))"
  by (auto simp: address_setTo_def be_word_Cons split: list.split)

lemma ucast_u8_and_255 [simp]: "(ucast (x::u8) AND 0xff :: u64) = ucast x"
  by (simp add: and_255) (rule bit_word_eqI, auto simp: bit_simps dest: bit_imp_le_length)

lemma mac_setTo_be: "6 \<le> len \<Longrightarrow> 6 \<le> length bs \<Longrightarrow> mac_setTo bs len = Inr (be_word (take 6 bs))"
  by (auto simp: mac_setTo_def mac_of_octets_def be_word_Cons split: list.split)

lemma be_word_wf: "length bs = 5 \<Longrightarrow> address_wf (be_word bs)"
  using be_bytes_be_word [of bs, where 'a = 64] be_word_be_bytes [of 5 "be_word bs :: u64"]
  by (simp add: address_wf_def del: be_bytes_numeral be_bytes_be_word)

text \<open>The two-step append (reserve the field, fill it in) is an append of the octets.\<close>

lemma appendField_write:
  assumes "buf_inv b" "length bs < 2 ^ 31"
  shows "bindE (buf_appendField (length bs) b) (\<lambda>(p, b1).
           bindE (mem_write (buf_b b1) p bs) (\<lambda>m. Inr (b1\<lparr>buf_b := m\<rparr>)))
       = (if buf_fits bs b then Inr (buf_put bs b) else Inl oob)"
  using assms
  by (auto simp: buf_appendField_def uadd_l mem_write_def buf_fits_def buf_capacity_def buf_put_def)

lemma address_appendTo_eq:
  "buf_inv b \<Longrightarrow> address_appendTo a b = (if buf_fits (be_bytes 5 a) b then Inr (buf_put (be_bytes 5 a) b) else Inl oob)"
  using appendField_write [of b "be_bytes 5 a"]
  by (simp add: address_appendTo_def address_octets_be del: be_bytes_numeral)

lemma mac_appendTo_eq:
  "buf_inv b \<Longrightarrow> mac_appendTo m b = (if buf_fits (be_bytes 6 m) b then Inr (buf_put (be_bytes 6 m) b) else Inl oob)"
  using appendField_write [of b "be_bytes 6 m"]
  by (simp add: mac_appendTo_def mac_octets_be del: be_bytes_numeral)

text \<open>an address written by \<open>appendTo\<close> and read back from the buffer by \<open>setTo\<close> is unchanged, and
  so is one printed and parsed as ten hexadecimal digits.\<close>

theorem address_roundtrip:
  assumes "address_wf a" "buf_inv b" "buf_l b + 5 \<le> buf_capacity b"
  shows "\<exists>b'. address_appendTo a b = Inr b' \<and> address_setTo (drop (buf_l b) (buf_data b')) 5 = Inr a
           \<and> hexStrToU64 (address_toString a) = a"
proof -
  have f: "buf_fits (be_bytes 5 a) b" using assms(3) by (simp add: buf_fits_def)
  have "be_word (be_bytes 5 a) = a" using assms(1) by (simp only: be_word_be_bytes address_wf_def) simp
  then have "address_setTo (be_bytes 5 a) 5 = Inr a"
    by (simp add: address_setTo_be del: be_bytes_numeral)
  moreover have "hexStrToU64 (address_toString a) = a"
    using assms(1) by (simp add: address_toString_def hexStrToU64_hex10 address_wf_def)
  ultimately show ?thesis using f assms(2) by (simp add: address_appendTo_eq del: be_bytes_numeral)
qed

theorem address_roundtrip_witness:
  "\<exists>b'. address_appendTo 0xdf429581f6 (buf_new [0, 0, 0, 0, 0, 0]) = Inr b'
     \<and> address_setTo (drop 0 (buf_data b')) 5 = Inr 0xdf429581f6"
proof -
  have w: "address_wf 0xdf429581f6" by (simp add: address_wf_def flip: and_mask40)
  have "buf_inv (buf_new [0, 0, 0, 0, 0, 0])" by (simp add: buf_inv_def buf_new_def buf_capacity_def)
  from address_roundtrip [OF w this] show ?thesis by (auto simp: buf_new_def buf_capacity_def)
qed

section \<open>Addresses and Ethernet addresses on a network\<close>

lemma nwid_mask_bound: "take_bit 40 (nwid_mask nwid) = nwid_mask nwid"
  unfolding nwid_mask_def by (simp add: and_255 take_bit_push_bit)

lemma mac_fromAddress_eq:
  "mac_fromAddress a nwid = (push_bit 40 (ucast (mac_firstOctetForNetwork nwid)) OR a) XOR nwid_mask nwid"
  unfolding mac_fromAddress_def nwid_mask_def Let_def by (simp add: xor.assoc)

lemma mac_toAddress_eq: "mac_toAddress m nwid = take_bit 40 m XOR nwid_mask nwid"
  unfolding mac_toAddress_def Let_def address_of_def and_mask40 xor.assoc nwid_mask_def [symmetric]
  by (simp add: nwid_mask_bound)

lemma mac_fromAddress_low:
  assumes "address_wf a"
  shows "take_bit 40 (mac_fromAddress a nwid) = a XOR nwid_mask nwid"
  using assms by (simp add: mac_fromAddress_eq nwid_mask_bound take_bit_push_bit address_wf_def)

lemma drop_40_low: "take_bit 40 (x::u64) = x \<Longrightarrow> drop_bit 40 x = 0"
  by (metis drop_bit_take_bit diff_self_eq_0 take_bit_0)

lemma mac_fromAddress_high:
  assumes "address_wf a"
  shows "drop_bit 40 (mac_fromAddress a nwid) = ucast (mac_firstOctetForNetwork nwid)"
proof -
  have "drop_bit 40 (push_bit 40 (ucast (x::u8) :: u64)) = ucast x" for x
    by (rule bit_word_eqI) (auto simp: bit_simps dest: bit_imp_le_length)
  then show ?thesis
    using assms drop_40_low [OF nwid_mask_bound] drop_40_low [of a]
    by (simp add: mac_fromAddress_eq address_wf_def)
qed

lemma firstOctet_flags:
  "\<not> bit (mac_firstOctetForNetwork nwid) 0" "bit (mac_firstOctetForNetwork nwid) 1"
  "mac_firstOctetForNetwork nwid \<noteq> 0x52"
  by (auto simp: mac_firstOctetForNetwork_def Let_def bit_simps)

text \<open>on any network the address of a node is recovered from the MAC derived from it, so two nodes of
  a network never share a MAC.\<close>

theorem mac_address_roundtrip:
  assumes "address_wf a"
  shows "mac_toAddress (mac_fromAddress a nwid) nwid = a"
  using assms by (simp add: mac_toAddress_eq mac_fromAddress_low xor.assoc)

theorem mac_address_roundtrip_witness:
  "mac_toAddress (mac_fromAddress 0xdf429581f6 0xdb64858fed0b2566) 0xdb64858fed0b2566 = 0xdf429581f6"
proof -
  have "address_wf 0xdf429581f6" by (simp add: address_wf_def flip: and_mask40)
  then show ?thesis by (rule mac_address_roundtrip)
qed

lemma bit_high: "drop_bit 40 (m::u64) = ucast (c::u8) \<Longrightarrow> n < 8 \<Longrightarrow> bit m (40 + n) = bit c n"
  by (drule arg_cong [where f = "\<lambda>x. bit x n"]) (auto simp: bit_simps)

text \<open>every derived MAC is a 48-bit, unicast, locally administered address whose first octet is never
  the 0x52 that popular hypervisors use.\<close>

theorem mac_fromAddress_class:
  assumes "address_wf a"
  shows "mac_wf (mac_fromAddress a nwid) \<and> \<not> mac_isMulticast (mac_fromAddress a nwid)
    \<and> mac_isLocallyAdministered (mac_fromAddress a nwid) \<and> mac_index (mac_fromAddress a nwid) 0 \<noteq> 0x52"
proof -
  define m where "m = mac_fromAddress a nwid"
  note h = mac_fromAddress_high [OF assms, of nwid, folded m_def]
  have "drop_bit 48 m = drop_bit 8 (drop_bit 40 m)" by simp
  also have "\<dots> = 0" unfolding h by (rule bit_word_eqI) (auto simp: bit_simps dest: bit_imp_le_length)
  finally have "mac_wf m"
    unfolding mac_wf_def by (metis bits_ident push_bit_of_0 add_0)
  moreover have "mac_isMulticast m \<longleftrightarrow> bit m 40" "mac_isLocallyAdministered m \<longleftrightarrow> bit m 41"
    using and_exp_eq_0_iff_not_bit [of m 40] and_exp_eq_0_iff_not_bit [of m 41]
    by (simp_all add: mac_isMulticast_def mac_isLocallyAdministered_def)
  moreover have "bit m 40 = bit (mac_firstOctetForNetwork nwid) 0" "bit m 41 = bit (mac_firstOctetForNetwork nwid) 1"
    using bit_high [OF h, of 0] bit_high [OF h, of 1] by simp_all
  moreover have "mac_index m 0 = mac_firstOctetForNetwork nwid"
    by (simp add: mac_index_def h ucast_u8_up_down)
  ultimately show ?thesis using firstOctet_flags [of nwid] by (simp add: m_def)
qed

theorem mac_fromAddress_class_witness:
  "\<not> mac_isMulticast (mac_fromAddress 0xdf429581f6 0xdb64858fed0b2552)
   \<and> mac_index (mac_fromAddress 0xdf429581f6 0xdb64858fed0b2552) 0 \<noteq> 0x52"
proof -
  have "address_wf 0xdf429581f6" by (simp add: address_wf_def flip: and_mask40)
  from mac_fromAddress_class [OF this] show ?thesis by blast
qed

text \<open>Assigning an integer to a MAC keeps bits that the constructor from the same integer drops.\<close>

lemma mac_assign_unmasked: "mac_assign 0x1000000000000 \<noteq> mac_of 0x1000000000000"
  by (simp add: mac_assign_def mac_of_def)

end
