(* ===== verification/ZT_Codec.thy ===== *)
theory ZT_Codec
  imports ZT_Addressing
begin

text \<open>
  The reasoning layer shared by every serialiser and deserialiser of the node core
  (\<^verbatim>\<open>InetAddress\<close>, \<^verbatim>\<open>Tag\<close>, \<^verbatim>\<open>Capability\<close>, \<^verbatim>\<open>Packet\<close> and others). A serialiser is a chain of buffer appends;
  \<open>emits f bs\<close> says that the chain \<open>f\<close> appends exactly the bytes \<open>bs\<close> or, when they do not fit, throws
  out-of-bounds. Chains compose by \<open>emits_bind\<close>. For readers, \<open>located b p xs\<close> says that the bytes \<open>xs\<close> stand at
  offset \<open>p\<close> of the buffer; the reads the code makes are rewritten to the bytes found there.
\<close>

section \<open>Definitions\<close>

definition emits :: "(buffer \<Rightarrow> buffer result) \<Rightarrow> bytes \<Rightarrow> bool" where
  "emits f bs \<longleftrightarrow> (\<forall>b. buf_inv b \<longrightarrow> f b = (if buf_fits bs b then Inr (buf_put bs b) else Inl oob))"

definition located :: "buffer \<Rightarrow> nat \<Rightarrow> bytes \<Rightarrow> bool" where
  "located b p xs \<longleftrightarrow> buf_inv b \<and> p + length xs \<le> buf_l b \<and> take (length xs) (drop p (buf_data b)) = xs"

text \<open>The pattern \<open>memcpy(dst, b.field(p, n), n)\<close>.\<close>

definition buf_get :: "buffer \<Rightarrow> nat \<Rightarrow> nat \<Rightarrow> bytes result" where
  "buf_get b p n = bindE (buf_field b p n) (\<lambda>i. mem_read (buf_b b) i n)"

text \<open>A sequence of appends; readers that return the value and the advanced offset, as the code's
  \<open>at<T>(p); p += sizeof(T)\<close>, \<open>b[p++]\<close>, \<open>setTo(b.field(p, 5), 5); p += 5\<close>, \<open>memcpy(d, b.field(p, n), n); p += n\<close> and
  a plain \<open>p += n\<close>.\<close>

fun bseq :: "(buffer \<Rightarrow> buffer result) list \<Rightarrow> buffer \<Rightarrow> buffer result" where
  "bseq [] b = Inr b"
| "bseq (f # fs) b = bindE (f b) (bseq fs)"

type_synonym 'a reader = "buffer \<Rightarrow> nat \<Rightarrow> ('a \<times> nat) result"

definition rd :: "nat \<Rightarrow> ('a::len word) reader" where
  "rd sz b p = bindE (buf_at sz b p) (\<lambda>v. Inr (v, p + sz))"

definition rd_u8 :: "u8 reader" where
  "rd_u8 b p = bindE (buf_index b p) (\<lambda>v. Inr (v, p + 1))"

definition rd_address :: "address reader" where
  "rd_address b p = bindE (buf_get b p 5) (\<lambda>bs. bindE (address_setTo bs 5) (\<lambda>a. Inr (a, p + 5)))"

definition rd_bytes :: "nat \<Rightarrow> bytes reader" where
  "rd_bytes n b p = bindE (buf_get b p n) (\<lambda>bs. Inr (bs, p + n))"

definition rd_skip :: "nat \<Rightarrow> unit reader" where
  "rd_skip n b p = Inr ((), p + n)"

text \<open>\<open>parses f bs v\<close>: wherever the bytes \<open>bs\<close> stand in a buffer, the reader \<open>f\<close> returns \<open>v\<close> and steps over them.\<close>

definition parses :: "'a reader \<Rightarrow> bytes \<Rightarrow> 'a \<Rightarrow> bool" where
  "parses f bs v \<longleftrightarrow> (\<forall>b p. located b p bs \<longrightarrow> f b p = Inr (v, p + length bs))"

named_theorems zt_emit
named_theorems zt_parse

section \<open>Writers\<close>

lemma emits_append [zt_emit]: "sz < 2 ^ 31 \<Longrightarrow> emits (buf_append sz v) (be_bytes sz v)"
  by (simp add: emits_def buf_append_eq)

lemma emits_append_run [zt_emit]: "n < 2 ^ 31 \<Longrightarrow> emits (buf_append_run c n) (replicate n c)"
  by (simp add: emits_def buf_append_run_eq)

lemma emits_append_bytes [zt_emit]: "l < 2 ^ 31 \<Longrightarrow> l \<le> length s \<Longrightarrow> emits (buf_append_bytes s l) (take l s)"
  by (simp add: emits_def buf_append_bytes_eq)

lemma emits_address [zt_emit]: "emits (address_appendTo a) (be_bytes 5 a)"
  by (simp add: emits_def address_appendTo_eq del: be_bytes_numeral)

lemma emits_mac [zt_emit]: "emits (mac_appendTo m) (be_bytes 6 m)"
  by (simp add: emits_def mac_appendTo_eq del: be_bytes_numeral)

lemma emits_return [zt_emit]: "emits Inr []"
  by (auto simp: emits_def buf_fits_def buf_inv_def)

lemma emits_bind [zt_emit]:
  assumes "emits f xs" "emits g ys"
  shows "emits (\<lambda>b. bindE (f b) g) (xs @ ys)"
proof (unfold emits_def, intro allI impI)
  fix b
  assume b: "buf_inv b"
  show "bindE (f b) g = (if buf_fits (xs @ ys) b then Inr (buf_put (xs @ ys) b) else Inl oob)"
  proof (cases "buf_fits xs b")
    case True
    then show ?thesis using assms b by (simp add: emits_def)
  next
    case False
    moreover from False have "\<not> buf_fits (xs @ ys) b" by (auto simp: buf_fits_def)
    ultimately show ?thesis using assms(1) b by (simp add: emits_def)
  qed
qed

lemma emits_eq: "emits f xs \<Longrightarrow> xs = ys \<Longrightarrow> emits f ys"
  by simp

lemma emitsD:
  "emits f bs \<Longrightarrow> buf_inv b \<Longrightarrow> f b = (if buf_fits bs b then Inr (buf_put bs b) else Inl oob)"
  by (simp add: emits_def)

lemma emits_foldr:
  assumes "\<And>x. x \<in> set xs \<Longrightarrow> emits (f x) (g x)"
  shows "emits (fold (\<lambda>x k b. bindE (k b) (f x)) xs Inr) (concat (map g xs))"
  using assms
proof (induction xs rule: rev_induct)
  case (snoc x xs)
  then have "emits (\<lambda>b. bindE (fold (\<lambda>x k b. bindE (k b) (f x)) xs Inr b) (f x)) (concat (map g xs) @ g x)"
    by (intro emits_bind) auto
  then show ?case by simp
qed (simp add: emits_return)

section \<open>Readers\<close>

lemma located_put: "buf_inv b \<Longrightarrow> buf_fits bs b \<Longrightarrow> located (buf_put bs b) (buf_l b) bs"
  by (simp add: located_def)

lemma located_append:
  "located b p (xs @ ys) \<longleftrightarrow> located b p xs \<and> located b (p + length xs) ys"
proof
  assume a: "located b p (xs @ ys)"
  then have "take (length xs + length ys) (drop p (buf_data b)) = xs @ ys"
    by (simp add: located_def)
  then have "take (length xs) (drop p (buf_data b)) = xs"
    "take (length ys) (drop (length xs) (drop p (buf_data b))) = ys"
    by (metis append_eq_conv_conj take_add length_append take_take min.absorb1 le_add1)
      (metis \<open>take (length xs + length ys) (drop p (buf_data b)) = xs @ ys\<close> drop_take append_eq_conv_conj
        diff_add_inverse)
  with a show "located b p xs \<and> located b (p + length xs) ys"
    by (simp add: located_def add.assoc add.commute)
next
  assume "located b p xs \<and> located b (p + length xs) ys"
  then show "located b p (xs @ ys)"
    by (simp add: located_def take_add add.assoc add.commute)
qed

lemma located_Cons: "located b p (x # xs) \<longleftrightarrow> located b p [x] \<and> located b (p + 1) xs"
  using located_append [of b p "[x]" xs] by simp

lemma located_inv: "located b p xs \<Longrightarrow> buf_inv b"
  by (simp add: located_def)

lemma located_small: "located b p xs \<Longrightarrow> xs \<noteq> [] \<Longrightarrow> p < 2 ^ 31"
  by (cases xs) (auto simp: located_def buf_inv_def)

lemma located_at:
  fixes v :: "'a::len word"
  assumes "located b p (be_bytes sz v)" "0 < sz" "sz \<le> 8" "LENGTH('a) \<le> 8 * sz"
  shows "buf_at sz b p = Inr v"
proof -
  have p: "p < 2 ^ 31" using located_small [OF assms(1)] assms(2) by (cases sz) auto
  have "buf_inv b" "p + sz \<le> buf_l b" "take sz (drop p (buf_data b)) = be_bytes sz v"
    using assms(1) by (auto simp: located_def)
  with p assms(2-4) show ?thesis by (simp add: buf_at_data)
qed

lemma located_index: "located b p [c] \<Longrightarrow> buf_index b p = Inr c"
proof -
  assume l: "located b p [c]"
  then have d: "buf_inv b" "p < buf_l b" "take 1 (drop p (buf_data b)) = [c]"
    by (auto simp: located_def)
  then have "drop p (buf_data b) = buf_data b ! p # drop (Suc p) (buf_data b)"
    by (intro Cons_nth_drop_Suc [symmetric]) simp
  with d show ?thesis by (simp add: buf_index_data)
qed

lemma located_get:
  assumes "located b p xs" "length xs = n" "n < 2 ^ 31" "0 < n"
  shows "buf_get b p n = Inr xs"
proof -
  have "p < 2 ^ 31" using assms by (intro located_small) auto
  moreover have "buf_inv b" "p + n \<le> buf_l b" "take n (drop p (buf_data b)) = xs"
    using assms by (auto simp: located_def)
  ultimately show ?thesis
    using assms(3)
    by (auto simp: buf_get_def buf_field_def mem_read_def buf_inv_def buf_capacity_def buf_data_def drop_take min_def)
qed

lemma emits_bseq:
  assumes "list_all2 emits fs bss"
  shows "emits (bseq fs) (concat bss)"
  using assms
proof (induction fs bss rule: list_all2_induct)
  case Nil
  then show ?case using emits_return by (simp add: emits_def)
next
  case (Cons f fs bs bss)
  have "bseq (f # fs) = (\<lambda>b. bindE (f b) (bseq fs))" by (rule ext) simp
  then show ?case using emits_bind [OF Cons(1) Cons(3)] by simp
qed

lemma emits_bseq_Nil [zt_emit]: "emits (bseq []) []"
  using emits_bseq [of "[]" "[]"] by simp

lemma emits_bseq_Cons [zt_emit]: "emits f xs \<Longrightarrow> emits (bseq fs) ys \<Longrightarrow> emits (bseq (f # fs)) (xs @ ys)"
proof -
  assume "emits f xs" "emits (bseq fs) ys"
  moreover have "bseq (f # fs) = (\<lambda>b. bindE (f b) (bseq fs))" by (rule ext) simp
  ultimately show ?thesis using emits_bind by simp
qed

lemma emits_bseq_single [zt_emit]: "emits f xs \<Longrightarrow> emits (bseq [f]) xs"
  using emits_bseq_Cons [of f xs "[]" "[]"] emits_bseq_Nil by simp

lemma emits_bseq_append:
  "emits (bseq fs) xs \<Longrightarrow> emits (bseq gs) ys \<Longrightarrow> emits (bseq (fs @ gs)) (xs @ ys)"
proof -
  assume "emits (bseq fs) xs" "emits (bseq gs) ys"
  moreover have "bseq (fs @ gs) b = bindE (bseq fs b) (bseq gs)" for b
  proof (induction fs arbitrary: b)
    case (Cons f fs)
    then show ?case by (cases "f b") simp_all
  qed simp
  ultimately show ?thesis using emits_bind [of "bseq fs" xs "bseq gs" ys] by presburger
qed

lemma emits_u8 [zt_emit]: "emits (buf_append (Suc 0) (v::u8)) [v]" "emits (buf_append 1 (v::u8)) [v]"
  using emits_append [of 1 v] by simp_all

lemma emits_loop:
  assumes "\<And>x. x \<in> set xs \<Longrightarrow> emits (f x) (g x)"
  shows "emits (bseq (map f xs)) (concat (map g xs))"
  using assms by (intro emits_bseq) (simp add: list_all2_conv_all_nth)

section \<open>Composing readers\<close>

lemma parsesD: "parses f bs v \<Longrightarrow> located b p bs \<Longrightarrow> f b p = Inr (v, p + length bs)"
  by (simp add: parses_def)

lemma parses_bind [zt_parse]:
  assumes "parses f xs v" "parses (g v) ys w"
  shows "parses (\<lambda>b p. bindE (f b p) (\<lambda>(v, p). g v b p)) (xs @ ys) w"
  using assms by (simp add: parses_def located_append add.assoc)

lemma parses_return [zt_parse]: "parses (\<lambda>b p. Inr (v, p)) [] v"
  by (simp add: parses_def)

lemma parses_last:
  "parses f xs v \<Longrightarrow> h v = w \<Longrightarrow> parses (\<lambda>b p. bindE (f b p) (\<lambda>(v, p). Inr (h v, p))) xs w"
  by (simp add: parses_def)

lemma parses_eq: "parses f xs v \<Longrightarrow> xs = ys \<Longrightarrow> v = w \<Longrightarrow> parses f ys w"
  by simp

lemma parses_rd [zt_parse]:
  fixes v :: "'a::len word"
  shows "0 < sz \<Longrightarrow> sz \<le> 8 \<Longrightarrow> LENGTH('a) \<le> 8 * sz \<Longrightarrow> parses (rd sz) (be_bytes sz v) v"
  by (simp add: parses_def rd_def located_at)

lemma parses_rd_u8 [zt_parse]: "parses rd_u8 [c] c"
  by (simp add: parses_def rd_u8_def located_index)

lemma parses_rd_bytes [zt_parse]: "length xs = n \<Longrightarrow> n < 2 ^ 31 \<Longrightarrow> 0 < n \<Longrightarrow> parses (rd_bytes n) xs xs"
  by (simp add: parses_def rd_bytes_def located_get)

lemma parses_rd_skip [zt_parse]: "length xs = n \<Longrightarrow> parses (rd_skip n) xs ()"
  by (simp add: parses_def rd_skip_def)

lemma parses_rd_address [zt_parse]: "address_wf a \<Longrightarrow> parses rd_address (be_bytes 5 a) a"
proof -
  assume "address_wf a"
  then have "be_word (be_bytes 5 a) = a" by (simp only: be_word_be_bytes address_wf_def) simp
  then have "address_setTo (be_bytes 5 a) 5 = Inr a" by (simp add: address_setTo_be del: be_bytes_numeral)
  moreover have "buf_get b p 5 = Inr (be_bytes 5 a)" if "located b p (be_bytes 5 a)" for b p
    using that by (intro located_get) simp_all
  ultimately show ?thesis by (simp add: parses_def rd_address_def del: be_bytes_numeral)
qed

lemmas parse_intros = parses_last parses_bind parses_rd parses_rd_u8 parses_rd_skip parses_rd_address
  parses_rd_bytes

lemmas emit_intros = emits_bseq_single emits_bseq_Cons emits_bseq_append emits_u8 emits_append emits_address
  emits_append_run

text \<open>A writer and a reader for the same bytes are inverse to each other.\<close>

lemma emit_parse:
  assumes "emits f bs" "parses g bs v" "buf_inv b" "buf_l b + length bs \<le> buf_capacity b"
  shows "\<exists>b'. f b = Inr b' \<and> buf_data b' = buf_data b @ bs \<and> g b' (buf_l b) = Inr (v, buf_l b')"
proof -
  have "buf_fits bs b" using assms(4) by (simp add: buf_fits_def)
  then show ?thesis
    using assms located_put [OF assms(3)] by (simp add: emitsD parsesD)
qed

section \<open>The interface of a wire format\<close>

text \<open>A serialiser and a deserialiser for the same encoding: values survive the round trip, a full buffer is
  reported as such, and no encoding is a prefix of another one followed by different bytes.\<close>

locale wire_codec =
  fixes wr :: "'a \<Rightarrow> buffer \<Rightarrow> buffer result"
    and rdr :: "'a reader"
    and enc :: "'a \<Rightarrow> bytes"
    and wf :: "'a \<Rightarrow> bool"
  assumes wr_enc: "wf x \<Longrightarrow> emits (wr x) (enc x)"
    and rdr_enc: "wf x \<Longrightarrow> parses rdr (enc x) x"
    and enc_bound: "wf x \<Longrightarrow> length (enc x) \<le> 2 ^ 30"
begin

lemma roundtrip:
  assumes "wf x" "buf_inv b" "buf_l b + length (enc x) \<le> buf_capacity b"
  shows "\<exists>b'. wr x b = Inr b' \<and> buf_data b' = buf_data b @ enc x \<and> rdr b' (buf_l b) = Inr (x, buf_l b')"
  using emit_parse [OF wr_enc [OF assms(1)] rdr_enc [OF assms(1)] assms(2,3)] .

lemma no_room:
  assumes "wf x" "buf_inv b" "buf_capacity b < buf_l b + length (enc x)"
  shows "wr x b = Inl oob"
  using emitsD [OF wr_enc [OF assms(1)] assms(2)] assms(3) by (simp add: buf_fits_def)

lemma prefix_free:
  assumes "wf x" "wf y" "enc x @ r = enc y @ s"
  shows "x = y \<and> r = s"
proof -
  define z where "z = enc x @ r"
  define u where "u = max (length (enc x)) (length (enc y))"
  have z2: "z = enc y @ s" using assms(3) by (simp add: z_def)
  have z: "take (length (enc x)) z = enc x" "take (length (enc y)) z = enc y"
    by (simp add: z_def, simp add: z2)
  have "length (enc x) \<le> length z" "length (enc y) \<le> length z"
    by (simp add: z_def, simp add: z2)
  then have len: "length (take u z) = u" by (simp add: u_def)
  define b where "b = \<lparr>buf_b = take u z, buf_l = u\<rparr>"
  have "buf_inv b"
    using enc_bound [OF assms(1)] enc_bound [OF assms(2)] len
    by (simp add: b_def buf_inv_def buf_capacity_def u_def)
  then have "located b 0 (enc x)" "located b 0 (enc y)"
    using len z by (simp_all add: located_def b_def buf_data_def u_def min_def)
  then have "(x, length (enc x)) = (y, length (enc y))"
    using parsesD [OF rdr_enc [OF assms(1)], of b 0] parsesD [OF rdr_enc [OF assms(2)], of b 0] by simp
  with assms(3) show ?thesis by simp
qed

end

end
