(* ===== verification/ZT_InetAddress.thy ===== *)
theory ZT_InetAddress
  imports ZT_Codec
begin

text \<open>
  \<^verbatim>\<open>node/InetAddress.hpp\<close>, \<^verbatim>\<open>node/InetAddress.cpp\<close> and \<^verbatim>\<open>node/MulticastGroup.hpp\<close>. A \<open>sockaddr_storage\<close> is
  read through the struct its family selects, so an address is a tagged union: no address, \<open>sockaddr_in\<close>
  or \<open>sockaddr_in6\<close>. \<open>sin_addr\<close> and the ports hold what stands in memory, in network byte order, as
  machine words. Shifts by the width of the operand or more are \<^const>\<open>UndefinedBehaviour\<close>.
\<close>

section \<open>Data\<close>

datatype inetaddress =
    INET_NONE
  | INET4 (sin_addr: u32) (sin_port: u16)
  | INET6 (s6_addr: bytes) (sin6_port: u16) (sin6_flowinfo: u32) (sin6_scope_id: u32)

datatype ip_scope =
    IP_SCOPE_NONE | IP_SCOPE_MULTICAST | IP_SCOPE_LOOPBACK | IP_SCOPE_PSEUDOPRIVATE | IP_SCOPE_GLOBAL
  | IP_SCOPE_LINK_LOCAL | IP_SCOPE_SHARED | IP_SCOPE_PRIVATE

definition ss_family :: "inetaddress \<Rightarrow> nat" where
  "ss_family a = (case a of INET_NONE \<Rightarrow> 0 | INET4 _ _ \<Rightarrow> 2 | INET6 _ _ _ _ \<Rightarrow> 10)"

definition shl :: "'a::len word \<Rightarrow> nat \<Rightarrow> 'a word result" where
  "shl v k = (if k < LENGTH('a) then Inr (push_bit k v) else Inl UndefinedBehaviour)"

definition shr :: "'a::len word \<Rightarrow> nat \<Rightarrow> 'a word result" where
  "shr v k = (if k < LENGTH('a) then Inr (drop_bit k v) else Inl UndefinedBehaviour)"

section \<open>Scope\<close>

definition ipScope4 :: "u32 \<Rightarrow> ip_scope" where
  "ipScope4 ip =
    (let top = drop_bit 24 ip;
         rest = (if drop_bit 28 ip = 0xe then IP_SCOPE_MULTICAST
                 else if drop_bit 28 ip = 0xf then IP_SCOPE_PSEUDOPRIVATE
                 else IP_SCOPE_GLOBAL)
     in if top = 0x00 then IP_SCOPE_NONE
     else if top \<in> {0x06, 0x0b, 0x15, 0x16, 0x19, 0x1a, 0x1c, 0x1d, 0x1e, 0x33, 0x37, 0x38} then IP_SCOPE_PSEUDOPRIVATE
     else if top = 0x0a then IP_SCOPE_PRIVATE
     else if top = 0x64 \<and> ip AND 0xffc00000 = 0x64400000 then IP_SCOPE_PRIVATE
     else if top = 0x7f then IP_SCOPE_LOOPBACK
     else if top = 0xa9 \<and> ip AND 0xffff0000 = 0xa9fe0000 then IP_SCOPE_LINK_LOCAL
     else if top = 0xac \<and> ip AND 0xfff00000 = 0xac100000 then IP_SCOPE_PRIVATE
     else if top = 0xc0 \<and> ip AND 0xffff0000 = 0xc0a80000 then IP_SCOPE_PRIVATE
     else if top = 0xc0 \<and> ip AND 0xffffff00 = 0xc0000200 then IP_SCOPE_PRIVATE
     else if top = 0xc6 \<and> ip AND 0xfffe0000 = 0xc6120000 then IP_SCOPE_PRIVATE
     else if top = 0xc6 \<and> ip AND 0xffffff00 = 0xc6336400 then IP_SCOPE_PRIVATE
     else if top = 0xcb \<and> ip AND 0xffffff00 = 0xcb007100 then IP_SCOPE_PRIVATE
     else if top = 0xff then IP_SCOPE_NONE
     else rest)"

text \<open>\<open>while (!ip[k] && k < lim) ++k\<close>.\<close>

function zero_run :: "bytes \<Rightarrow> nat \<Rightarrow> nat \<Rightarrow> nat" where
  "zero_run ip lim k = (if ip ! k = 0 \<and> k < lim then zero_run ip lim (k + 1) else k)"
  by pat_completeness auto
termination
  by (relation "measure (\<lambda>(ip, lim, k). lim - k)") auto

definition ipScope6 :: "bytes \<Rightarrow> ip_scope" where
  "ipScope6 ip =
    (let tail =
       (if zero_run ip 9 0 = 9 \<and> ip ! 10 = 0xff \<and> ip ! 11 = 0xff \<and> ip ! 12 = 0x7f then IP_SCOPE_LOOPBACK
        else if zero_run ip 15 0 = 15 \<and> ip ! 15 = 1 then IP_SCOPE_LOOPBACK
        else if zero_run ip 15 0 = 15 \<and> ip ! 15 = 0 then IP_SCOPE_NONE
        else IP_SCOPE_GLOBAL)
     in if ip ! 0 AND 0xf0 = 0xf0 then
          if ip ! 0 = 0xff then IP_SCOPE_MULTICAST
          else if ip ! 0 = 0xfe \<and> ip ! 1 AND 0xc0 = 0x80 then
            (if zero_run ip 15 2 = 15 \<and> ip ! 15 = 0x01 then IP_SCOPE_LOOPBACK else IP_SCOPE_LINK_LOCAL)
          else if ip ! 0 AND 0xfe = 0xfc then IP_SCOPE_PRIVATE
          else tail
        else tail)"

definition ipScope :: "inetaddress \<Rightarrow> ip_scope" where
  "ipScope a =
    (case a of INET_NONE \<Rightarrow> IP_SCOPE_NONE
     | INET4 ad _ \<Rightarrow> ipScope4 (ntoh32 ad)
     | INET6 ip _ _ _ \<Rightarrow> ipScope6 ip)"

section \<open>Setters and getters\<close>

definition inet_set :: "bytes \<Rightarrow> nat \<Rightarrow> nat \<Rightarrow> inetaddress result" where
  "inet_set ipBytes ipLen port =
    (if ipLen = 4 then
       bindE (load_le32 ipBytes) (\<lambda>w. Inr (INET4 w (hton16 (of_nat port))))
     else if ipLen = 16 then
       bindE (mem_read ipBytes 0 16) (\<lambda>bs. Inr (INET6 bs (hton16 (of_nat port)) 0 0))
     else Inr INET_NONE)"

definition inet_setPort :: "nat \<Rightarrow> inetaddress \<Rightarrow> inetaddress" where
  "inet_setPort port a =
    (case a of INET_NONE \<Rightarrow> INET_NONE
     | INET4 ad _ \<Rightarrow> INET4 ad (hton16 (of_nat port))
     | INET6 ip _ f s \<Rightarrow> INET6 ip (hton16 (of_nat port)) f s)"

definition inet_port :: "inetaddress \<Rightarrow> u16" where
  "inet_port a = (case a of INET_NONE \<Rightarrow> 0 | INET4 _ p \<Rightarrow> ntoh16 p | INET6 _ p _ _ \<Rightarrow> ntoh16 p)"

definition inet_netmaskBits :: "inetaddress \<Rightarrow> nat" where
  "inet_netmaskBits a = unat (inet_port a)"

definition inet_netmaskBitsValid :: "inetaddress \<Rightarrow> bool" where
  "inet_netmaskBitsValid a =
    (case a of INET_NONE \<Rightarrow> False | INET4 _ _ \<Rightarrow> unat (inet_port a) \<le> 32 | INET6 _ _ _ _ \<Rightarrow> unat (inet_port a) \<le> 128)"

definition inet_isDefaultRoute :: "inetaddress \<Rightarrow> bool" where
  "inet_isDefaultRoute a =
    (case a of INET_NONE \<Rightarrow> False
     | INET4 ad p \<Rightarrow> ad = 0 \<and> p = 0
     | INET6 ip p _ _ \<Rightarrow> (\<forall>i \<in> set [0..<16]. ip ! i = 0) \<and> p = 0)"

definition inet_isV4 :: "inetaddress \<Rightarrow> bool" where "inet_isV4 a \<longleftrightarrow> ss_family a = 2"
definition inet_isV6 :: "inetaddress \<Rightarrow> bool" where "inet_isV6 a \<longleftrightarrow> ss_family a = 10"

definition inet_rawIpData :: "inetaddress \<Rightarrow> bytes" where
  "inet_rawIpData a = (case a of INET_NONE \<Rightarrow> [] | INET4 ad _ \<Rightarrow> le_bytes 4 ad | INET6 ip _ _ _ \<Rightarrow> ip)"

definition inet_ipOnly :: "inetaddress \<Rightarrow> inetaddress" where
  "inet_ipOnly a =
    (case a of INET_NONE \<Rightarrow> INET_NONE | INET4 ad _ \<Rightarrow> INET4 ad 0 | INET6 ip _ _ _ \<Rightarrow> INET6 ip 0 0 0)"

definition inet_ipsEqual :: "inetaddress \<Rightarrow> inetaddress \<Rightarrow> bool" where
  "inet_ipsEqual a b =
    (case (a, b) of (INET4 x _, INET4 y _) \<Rightarrow> x = y
     | (INET6 x _ _ _, INET6 y _ _ _) \<Rightarrow> take 16 x = take 16 y
     | (INET_NONE, INET_NONE) \<Rightarrow> True
     | _ \<Rightarrow> False)"

definition inet_ipsEqual2 :: "inetaddress \<Rightarrow> inetaddress \<Rightarrow> bool" where
  "inet_ipsEqual2 a b =
    (case (a, b) of (INET4 x _, INET4 y _) \<Rightarrow> x = y
     | (INET6 x _ _ _, INET6 y _ _ _) \<Rightarrow> take 8 x = take 8 y
     | (INET_NONE, INET_NONE) \<Rightarrow> True
     | _ \<Rightarrow> False)"

definition inet_hashCode :: "inetaddress \<Rightarrow> u32" where
  "inet_hashCode a =
    (case a of INET_NONE \<Rightarrow> 0
     | INET4 ad p \<Rightarrow> ad + ucast p
     | INET6 ip p _ _ \<Rightarrow>
         foldl (\<lambda>tmp i. tmp XOR push_bit (8 * (i mod 4)) (ucast (ip ! i))) (ucast p) [0..<16])"

definition inet_rateGateHash :: "inetaddress \<Rightarrow> u32" where
  "inet_rateGateHash a =
    (let h = (case a of INET_NONE \<Rightarrow> 0
       | INET4 ad _ \<Rightarrow> (let h = drop_bit 8 (ntoh32 ad AND 0xffffff00) in h XOR drop_bit 14 h)
       | INET6 ip _ _ _ \<Rightarrow> foldl (\<lambda>h i. push_bit 1 h + ucast (ip ! i)) (ucast (ip ! 0)) [1..<6])
     in h AND 0x3fff)"

section \<open>Prefixes\<close>

definition mask6 :: "nat \<Rightarrow> (u64 \<times> u64) result" where
  "mask6 bits =
    bindE (if bits \<ge> 64 then Inr 0xffffffffffffffff else shl 0xffffffffffffffff (usub 64 bits)) (\<lambda>hi.
    bindE (if bits \<le> 64 then Inr 0 else shl 0xffffffffffffffff (usub 128 bits)) (\<lambda>lo. Inr (hi, lo)))"

definition inet_netmask :: "inetaddress \<Rightarrow> inetaddress result" where
  "inet_netmask a =
    (case a of INET_NONE \<Rightarrow> Inr INET_NONE
     | INET4 _ p \<Rightarrow> bindE (shl 0xffffffff (usub 32 (inet_netmaskBits a))) (\<lambda>m. Inr (INET4 (hton32 m) p))
     | INET6 _ p f s \<Rightarrow>
         if inet_netmaskBits a \<noteq> 0 then
           bindE (mask6 (inet_netmaskBits a)) (\<lambda>(hi, lo).
             Inr (INET6 (le_bytes 8 (hton64 hi) @ le_bytes 8 (hton64 lo)) p f s))
         else Inr (INET6 (le_bytes 8 (0::u64) @ le_bytes 8 (0::u64)) p f s))"

definition inet_broadcast :: "inetaddress \<Rightarrow> inetaddress result" where
  "inet_broadcast a =
    (case a of INET4 ad p \<Rightarrow> bindE (shr 0xffffffff (inet_netmaskBits a)) (\<lambda>m. Inr (INET4 (ad OR hton32 m) p))
     | _ \<Rightarrow> Inr INET_NONE)"

definition inet_network :: "inetaddress \<Rightarrow> inetaddress result" where
  "inet_network a =
    (case a of INET_NONE \<Rightarrow> Inr INET_NONE
     | INET4 ad p \<Rightarrow> bindE (shl 0xffffffff (usub 32 (inet_netmaskBits a))) (\<lambda>m. Inr (INET4 (ad AND hton32 m) p))
     | INET6 ip p f s \<Rightarrow>
         bindE (load_le64 ip) (\<lambda>nm0. bindE (load_le64 (drop 8 ip)) (\<lambda>nm1.
         bindE (mask6 (inet_netmaskBits a)) (\<lambda>(hi, lo).
           Inr (INET6 (le_bytes 8 (nm0 AND hton64 hi) @ le_bytes 8 (nm1 AND hton64 lo)) p f s)))))"

definition inet_isEqualPrefix :: "inetaddress \<Rightarrow> inetaddress \<Rightarrow> bool result" where
  "inet_isEqualPrefix this addr =
    (case (this, addr) of (INET6 b _ _ _, INET6 a _ _ _) \<Rightarrow>
       bindE (inet_netmask this) (\<lambda>mask. bindE (inet_netmask addr) (\<lambda>addr_mask.
         Inr (\<forall>i \<in> set [0..<16]. a ! i AND s6_addr mask ! i = b ! i AND s6_addr addr_mask ! i)))
     | _ \<Rightarrow> Inr False)"

definition inet_containsAddress :: "inetaddress \<Rightarrow> inetaddress \<Rightarrow> bool result" where
  "inet_containsAddress this addr =
    (case (this, addr) of
       (INET4 b _, INET4 a _) \<Rightarrow>
         (let bits = inet_netmaskBits this in
          if bits = 0 then Inr True
          else bindE (shr (ntoh32 a) (usub 32 bits)) (\<lambda>x. bindE (shr (ntoh32 b) (usub 32 bits)) (\<lambda>y. Inr (x = y))))
     | (INET6 b _ _ _, INET6 a _ _ _) \<Rightarrow>
         bindE (inet_netmask this) (\<lambda>mask.
           Inr (\<forall>i \<in> set [0..<16]. a ! i AND s6_addr mask ! i = b ! i))
     | _ \<Rightarrow> Inr False)"

definition inet_isNetwork :: "inetaddress \<Rightarrow> bool" where
  "inet_isNetwork a =
    (let bits = inet_netmaskBits a in
     case a of INET_NONE \<Rightarrow> False
     | INET4 ad _ \<Rightarrow>
         if bits = 0 then False else if bits \<ge> 32 then False
         else ntoh32 ad AND drop_bit bits 0xffffffff = 0
     | INET6 ip _ _ _ \<Rightarrow>
         if bits = 0 then False else if bits \<ge> 128 then False
         else ip ! (bits div 8) AND drop_bit (bits mod 8) 0xff = 0
           \<and> (\<forall>p \<in> set [bits div 8 + 1..<16]. ip ! p = 0))"

fun prefix4 :: "nat \<Rightarrow> u32 \<Rightarrow> u32 \<Rightarrow> nat" where
  "prefix4 0 ip0 ip1 = 0"
| "prefix4 (Suc n) ip0 ip1 =
    (if drop_bit 31 ip0 = drop_bit 31 ip1 then Suc (prefix4 n (push_bit 1 ip0) (push_bit 1 ip1)) else 0)"

fun prefix_byte :: "nat \<Rightarrow> u8 \<Rightarrow> u8 \<Rightarrow> nat" where
  "prefix_byte 0 x y = 0"
| "prefix_byte (Suc n) x y =
    (if x AND push_bit n 1 \<noteq> y AND push_bit n 1 then 0 else Suc (prefix_byte n x y))"

fun prefix6 :: "bytes \<Rightarrow> bytes \<Rightarrow> nat" where
  "prefix6 (x # xs) (y # ys) = (if x = y then 8 + prefix6 xs ys else prefix_byte 8 x y)"
| "prefix6 xs ys = 0"

definition inet_matchingPrefixBits :: "inetaddress \<Rightarrow> inetaddress \<Rightarrow> nat" where
  "inet_matchingPrefixBits a b =
    (case (a, b) of (INET4 x _, INET4 y _) \<Rightarrow> prefix4 32 (ntoh32 x) (ntoh32 y)
     | (INET6 x _ _ _, INET6 y _ _ _) \<Rightarrow> prefix6 (take 16 x) (take 16 y)
     | _ \<Rightarrow> 0)"

section \<open>Wire format and order\<close>

definition inet_serialize :: "inetaddress \<Rightarrow> buffer \<Rightarrow> buffer result" where
  "inet_serialize a b =
    (case a of
       INET4 ad _ \<Rightarrow>
         bindE (buf_append 1 (0x04::u8) b) (\<lambda>b. bindE (buf_append_bytes (le_bytes 4 ad) 4 b) (buf_append 2 (inet_port a)))
     | INET6 ip _ _ _ \<Rightarrow>
         bindE (buf_append 1 (0x06::u8) b) (\<lambda>b. bindE (buf_append_bytes ip 16 b) (buf_append 2 (inet_port a)))
     | INET_NONE \<Rightarrow> buf_append 1 (0::u8) b)"

definition inet_deserialize :: "buffer \<Rightarrow> nat \<Rightarrow> (inetaddress \<times> nat) result" where
  "inet_deserialize b startAt =
    bindE (buf_index b startAt) (\<lambda>t.
      let p = startAt + 1 in
      if t = 0 then Inr (INET_NONE, 1)
      else if t = 0x01 then Inr (INET_NONE, 7)
      else if t = 0x02 then Inr (INET_NONE, 7)
      else if t = 0x03 then bindE (buf_at 2 b p) (\<lambda>n::u16. Inr (INET_NONE, unat n + 3))
      else if t = 0x04 then
        bindE (buf_get b p 4) (\<lambda>ip. bindE (load_le32 ip) (\<lambda>ad.
        bindE (buf_at 2 b (p + 4)) (\<lambda>port. Inr (INET4 ad (hton16 port), p + 6 - startAt))))
      else if t = 0x06 then
        bindE (buf_get b p 16) (\<lambda>ip.
        bindE (buf_at 2 b (p + 16)) (\<lambda>port. Inr (INET6 ip (hton16 port) 0 0, p + 18 - startAt)))
      else Inl (Throw ZT_EXCEPTION_INVALID_SERIALIZED_DATA_BAD_ENCODING))"

definition inet_eq :: "inetaddress \<Rightarrow> inetaddress \<Rightarrow> bool" where
  "inet_eq a b =
    (case (a, b) of (INET4 x p, INET4 y q) \<Rightarrow> p = q \<and> x = y
     | (INET6 x p f s, INET6 y q g t) \<Rightarrow> p = q \<and> f = g \<and> take 16 x = take 16 y \<and> s = t
     | (INET_NONE, INET_NONE) \<Rightarrow> True
     | _ \<Rightarrow> False)"

definition inet_less :: "inetaddress \<Rightarrow> inetaddress \<Rightarrow> bool" where
  "inet_less a b =
    (if ss_family a < ss_family b then True
     else case (a, b) of
       (INET4 x p, INET4 y q) \<Rightarrow> if p < q then True else if p = q then x < y else False
     | (INET6 x p f s, INET6 y q g t) \<Rightarrow>
         if p < q then True
         else if p = q then
           (if f < g then True
            else if f = g then
              (if memcmp_less x y 16 then True else if take 16 x = take 16 y then s < t else False)
            else False)
         else False
     | _ \<Rightarrow> False)"

section \<open>Addresses derived from a network and a node\<close>

text \<open>\<open>makeIpv6LinkLocal\<close> leaves \<open>sin6_flowinfo\<close> and \<open>sin6_scope_id\<close> of its local variable uninitialised;
  \<open>flow\<close> and \<open>scope\<close> are what stood there.\<close>

definition makeIpv6LinkLocal :: "u32 \<Rightarrow> u32 \<Rightarrow> mac \<Rightarrow> inetaddress" where
  "makeIpv6LinkLocal flow scope m =
    INET6 [0xfe, 0x80, 0, 0, 0, 0, 0, 0, mac_index m 0 AND 0xfd, mac_index m 1, mac_index m 2, 0xff, 0xfe,
           mac_index m 3, mac_index m 4, mac_index m 5] (hton16 64) flow scope"

definition makeIpv6rfc4193 :: "u64 \<Rightarrow> u64 \<Rightarrow> inetaddress" where
  "makeIpv6rfc4193 nwid zeroTierAddress =
    INET6 [0xfd, ucast (drop_bit 56 nwid), ucast (drop_bit 48 nwid), ucast (drop_bit 40 nwid),
           ucast (drop_bit 32 nwid), ucast (drop_bit 24 nwid), ucast (drop_bit 16 nwid),
           ucast (drop_bit 8 nwid), ucast nwid, 0x99, 0x93,
           ucast (drop_bit 32 zeroTierAddress), ucast (drop_bit 24 zeroTierAddress),
           ucast (drop_bit 16 zeroTierAddress), ucast (drop_bit 8 zeroTierAddress),
           ucast zeroTierAddress] (hton16 88) 0 0"

definition makeIpv66plane :: "u64 \<Rightarrow> u64 \<Rightarrow> inetaddress" where
  "makeIpv66plane nwid0 zeroTierAddress =
    (let nwid = nwid0 XOR drop_bit 32 nwid0 in
     INET6 [0xfc, ucast (drop_bit 24 nwid), ucast (drop_bit 16 nwid), ucast (drop_bit 8 nwid), ucast nwid,
            ucast (drop_bit 32 zeroTierAddress), ucast (drop_bit 24 zeroTierAddress),
            ucast (drop_bit 16 zeroTierAddress), ucast (drop_bit 8 zeroTierAddress),
            ucast zeroTierAddress, 0, 0, 0, 0, 0, 0x01] (hton16 40) 0 0)"

section \<open>Multicast groups\<close>

record multicastgroup =
  mg_mac :: mac
  mg_adi :: u32

definition deriveMulticastGroup :: "inetaddress \<Rightarrow> multicastgroup result" where
  "deriveMulticastGroup ip =
    (if inet_isV4 ip then
       bindE (load_le32 (inet_rawIpData ip)) (\<lambda>w. Inr \<lparr>mg_mac = mac_of 0xffffffffffff, mg_adi = ntoh32 w\<rparr>)
     else if inet_isV6 ip then
       (let a = inet_rawIpData ip in
        Inr \<lparr>mg_mac = mac_of_octets 0x33 0x33 0xff (a ! 13) (a ! 14) (a ! 15), mg_adi = 0\<rparr>)
     else Inr \<lparr>mg_mac = 0, mg_adi = 0\<rparr>)"

definition mg_hashCode :: "multicastgroup \<Rightarrow> u32" where
  "mg_hashCode g = mac_hashCode (mg_mac g) XOR mg_adi g"

definition mg_less :: "multicastgroup \<Rightarrow> multicastgroup \<Rightarrow> bool" where
  "mg_less a g =
    (if mg_mac a < mg_mac g then True else if mg_mac a = mg_mac g then mg_adi a < mg_adi g else False)"

section \<open>Wire bytes and bits\<close>

definition inet_bytes :: "inetaddress \<Rightarrow> bytes" where
  "inet_bytes a =
    (case a of INET_NONE \<Rightarrow> [0]
     | INET4 ad p \<Rightarrow> [0x04] @ le_bytes 4 ad @ be_bytes 2 (ntoh16 p)
     | INET6 ip p _ _ \<Rightarrow> [0x06] @ ip @ be_bytes 2 (ntoh16 p))"

definition inet_wf :: "inetaddress \<Rightarrow> bool" where
  "inet_wf a = (case a of INET6 ip _ f s \<Rightarrow> length ip = 16 \<and> f = 0 \<and> s = 0 | _ \<Rightarrow> True)"

definition bit_at :: "(nat \<Rightarrow> u8) \<Rightarrow> nat \<Rightarrow> bool" where
  "bit_at f i = bit (f (i div 8)) (7 - i mod 8)"

section \<open>Serialisation\<close>

lemma ntoh16_hton16 [simp]: "ntoh16 (hton16 n) = n" "hton16 (ntoh16 n) = n"
proof -
  have "swapBytes16 (swapBytes16 n) = n"
    using le_bytes_swapBytes16 [of n] by (simp add: swapBytes16_def [of "swapBytes16 n"] del: be_bytes_numeral)
  then show "ntoh16 (hton16 n) = n" "hton16 (ntoh16 n) = n" by (simp_all add: ntoh16_def hton16_def)
qed

lemma load_le32_le_bytes [simp]: "load_le32 (le_bytes 4 w @ r) = Inr w"
proof -
  have "load_le32 (le_bytes 4 w @ r) = Inr (be_word (rev (le_bytes 4 w)))"
    by (subst load_le32_be_word) (simp_all del: be_bytes_numeral)
  then show ?thesis by (simp add: le_bytes_def del: be_bytes_numeral)
qed

lemma emits_inet:
  assumes "inet_wf a"
  shows "emits (inet_serialize a) (inet_bytes a)"
proof (cases a)
  case INET_NONE
  then show ?thesis by (simp add: inet_serialize_def [abs_def] inet_bytes_def emits_u8)
next
  case (INET4 ad p)
  then show ?thesis
    unfolding inet_serialize_def inet_bytes_def inet_port_def INET4 inetaddress.case
    by (intro emits_bind emits_u8 emits_append emits_eq [OF emits_append_bytes]) simp_all
next
  case (INET6 ip p f s)
  then show ?thesis using assms
    unfolding inet_serialize_def inet_bytes_def inet_port_def INET6 inetaddress.case inet_wf_def
    by (intro emits_bind emits_u8 emits_append emits_eq [OF emits_append_bytes]) simp_all
qed

lemma inet_deserialize_bytes:
  assumes "inet_wf a" "located b p (inet_bytes a)"
  shows "inet_deserialize b p = Inr (a, length (inet_bytes a))"
proof (cases a)
  case INET_NONE
  with assms have "buf_index b p = Inr 0" by (simp add: inet_bytes_def located_index)
  with INET_NONE show ?thesis by (simp add: inet_deserialize_def inet_bytes_def Let_def)
next
  case (INET4 ad q)
  with assms(2) have l: "located b p [0x04]" "located b (p + 1) (le_bytes 4 ad)" "located b (5 + p) (be_bytes 2 (ntoh16 q))"
    by (simp_all add: inet_bytes_def located_append located_Cons [of b p _ "_ @ _"] del: be_bytes_numeral)
  have "buf_get b (p + 1) 4 = Inr (le_bytes 4 ad)" by (rule located_get [OF l(2)]) simp_all
  moreover have "buf_at 2 b (5 + p) = Inr (ntoh16 q)" by (rule located_at [OF l(3)]) simp_all
  moreover have "load_le32 (le_bytes 4 ad) = Inr ad" using load_le32_le_bytes [of ad "[]"] by simp
  ultimately show ?thesis
    using located_index [OF l(1)] INET4 by (simp add: inet_deserialize_def Let_def inet_bytes_def)
next
  case (INET6 ip q f s)
  with assms(2) have l: "located b p [0x06]" "located b (p + 1) ip" "located b (p + 1 + length ip) (be_bytes 2 (ntoh16 q))"
    by (simp_all add: inet_bytes_def located_append located_Cons [of b p _ "_ @ _"] add.assoc del: be_bytes_numeral)
  have ip: "length ip = 16" "f = 0" "s = 0" using assms(1) INET6 by (simp_all add: inet_wf_def)
  then have "buf_get b (p + 1) 16 = Inr ip" by (intro located_get [OF l(2)]) simp_all
  moreover have "buf_at 2 b (17 + p) = Inr (ntoh16 q)"
    using located_at [OF l(3)] ip by (simp del: be_bytes_numeral)
  ultimately show ?thesis
    using located_index [OF l(1)] INET6 ip by (simp add: inet_deserialize_def Let_def inet_bytes_def)
qed

text \<open>an address written by \<open>serialize\<close> at the end of a buffer is read back unchanged by \<open>deserialize\<close>,
  which reports the number of bytes written.\<close>

theorem inet_roundtrip:
  assumes "inet_wf a" "buf_inv b" "buf_l b + length (inet_bytes a) \<le> buf_capacity b"
  shows "\<exists>b'. inet_serialize a b = Inr b' \<and> buf_data b' = buf_data b @ inet_bytes a
    \<and> inet_deserialize b' (buf_l b) = Inr (a, buf_l b' - buf_l b)"
proof -
  have f: "buf_fits (inet_bytes a) b" using assms(3) by (simp add: buf_fits_def)
  with emitsD [OF emits_inet [OF assms(1)] assms(2)]
  have "inet_serialize a b = Inr (buf_put (inet_bytes a) b)" by simp
  moreover have "inet_deserialize (buf_put (inet_bytes a) b) (buf_l b) = Inr (a, length (inet_bytes a))"
    using assms f by (intro inet_deserialize_bytes located_put)
  ultimately show ?thesis using assms(2) by simp
qed


theorem inet_roundtrip_witness:
  "\<exists>b'. inet_serialize (INET4 0x0100007f (hton16 9993)) (buf_new (replicate 20 0)) = Inr b'
    \<and> inet_deserialize b' 0 = Inr (INET4 0x0100007f (hton16 9993), buf_l b')"
proof -
  have w: "inet_wf (INET4 0x0100007f (hton16 9993))" by (simp add: inet_wf_def)
  have i: "buf_inv (buf_new (replicate 20 0))" by (simp add: buf_inv_def buf_new_def buf_capacity_def)
  show ?thesis
    using inet_roundtrip [OF w i] by (auto simp: buf_new_def buf_capacity_def inet_bytes_def)
qed

section \<open>Prefixes bit by bit\<close>

lemma bytes_eq_bits: "(\<forall>i<n. f i = g i) \<longleftrightarrow> (\<forall>j < 8 * n. bit_at f j = bit_at g j)"
proof
  assume "\<forall>i<n. f i = g i"
  then show "\<forall>j < 8 * n. bit_at f j = bit_at g j"
    by (simp add: bit_at_def less_mult_imp_div_less mult.commute)
next
  assume a: "\<forall>j < 8 * n. bit_at f j = bit_at g j"
  show "\<forall>i<n. f i = g i"
  proof (intro allI impI bit_word_eqI)
    fix i k assume "i < n" "k < LENGTH(8)"
    define r where "r = 7 - k"
    have r: "r < 8" "7 - r = k" using \<open>k < LENGTH(8)\<close> by (auto simp: r_def)
    have "8 * i + r < 8 * n" using \<open>i < n\<close> r(1) by linarith
    then show "bit (f i) k = bit (g i) k"
      using a [rule_format, of "8 * i + r"] r by (simp add: bit_at_def)
  qed
qed

lemma nth_be_bytes: "j < n \<Longrightarrow> be_bytes n v ! j = ucast (drop_bit (8 * (n - 1 - j)) v)"
proof (induction n arbitrary: j)
  case (Suc n)
  then show ?case by (cases j) auto
qed simp

lemma bit_at_be_bytes:
  fixes v :: "'a::len word"
  assumes "i < 8 * n"
  shows "bit_at ((!) (be_bytes n v)) i = bit v (8 * n - 1 - i)"
proof -
  have j: "i div 8 < n" using assms by (simp add: less_mult_imp_div_less mult.commute)
  have "8 * (n - 1 - i div 8) + (7 - i mod 8) = 8 * n - 1 - i"
    using j div_mult_mod_eq [of i 8] mod_less_divisor [of 8 i] by linarith
  then show ?thesis
    using j by (auto simp: bit_at_def nth_be_bytes bit_simps dest: bit_imp_le_length)
qed

lemma mask6_ok:
  assumes "0 < bits" "bits \<le> 128"
  shows "\<exists>hi lo. mask6 bits = Inr (hi, lo) \<and> (\<forall>k < 64. bit hi k \<longleftrightarrow> 64 - bits \<le> k) \<and> (\<forall>k < 64. bit lo k \<longleftrightarrow> 128 - bits \<le> k)"
proof -
  have ones: "(0xffffffffffffffff :: u64) = mask 64" by (simp add: mask_eq_exp_minus_1)
  show ?thesis
    using assms unfolding mask6_def ones
    by (cases "bits < 64"; cases "bits = 64") (auto simp: shl_def bit_simps)
qed

lemma netmask6:
  assumes "length ip = 16" "unat (ntoh16 p) \<le> 128"
  shows "\<exists>m. inet_netmask (INET6 ip p f s) = Inr (INET6 m p f s) \<and> length m = 16
    \<and> (\<forall>i < 128. bit_at ((!) m) i \<longleftrightarrow> i < unat (ntoh16 p))"
proof (cases "unat (ntoh16 p) = 0")
  case True
  have "bit_at ((!) (replicate 16 0)) i = False" if "i < 128" for i
    using that by (simp add: bit_at_def less_mult_imp_div_less)
  moreover have "le_bytes 8 (0::u64) @ le_bytes 8 (0::u64) = replicate 16 0" by (simp add: le_bytes_def numeral_eq_Suc)
  ultimately show ?thesis using True by (simp add: inet_netmask_def inet_netmaskBits_def inet_port_def)
next
  case False
  define n where "n = unat (ntoh16 p)"
  obtain hi lo where h: "mask6 n = Inr (hi, lo)" "\<forall>k < 64. bit hi k \<longleftrightarrow> 64 - n \<le> k" "\<forall>k < 64. bit lo k \<longleftrightarrow> 128 - n \<le> k"
    using mask6_ok [of n] False assms(2) by (auto simp: n_def)
  have "bit_at ((!) (be_bytes 8 hi @ be_bytes 8 lo)) i = (i < n)" if i: "i < 128" for i
  proof (cases "i < 64")
    case True
    then have "i div 8 < 8" by simp
    then have "bit_at ((!) (be_bytes 8 hi @ be_bytes 8 lo)) i = bit_at ((!) (be_bytes 8 hi)) i"
      by (simp add: bit_at_def nth_append del: be_bytes_numeral)
    also have "\<dots> = bit hi (63 - i)" using True by (simp add: bit_at_be_bytes del: be_bytes_numeral)
    also have "\<dots> = (i < n)" using True h(2) [rule_format, of "63 - i"] by linarith
    finally show ?thesis .
  next
    case False
    then obtain j where j: "i = 64 + j" by (metis le_iff_add not_less)
    then have "i div 8 = 8 + j div 8" "i mod 8 = j mod 8"
      using div_mult_self3 [of 8 8 j] mod_mult_self3 [of 8 8 j] by simp_all
    then have "bit_at ((!) (be_bytes 8 hi @ be_bytes 8 lo)) i = bit_at ((!) (be_bytes 8 lo)) (i - 64)"
      using j by (simp add: bit_at_def nth_append del: be_bytes_numeral)
    also have "\<dots> = bit lo (127 - i)" using False i by (simp add: bit_at_be_bytes del: be_bytes_numeral)
    also have "\<dots> = (i < n)" using False i h(3) [rule_format, of "127 - i"] by linarith
    finally show ?thesis .
  qed
  then show ?thesis
    using False h(1) by (simp add: inet_netmask_def inet_netmaskBits_def inet_port_def n_def
        hton64_def le_bytes_swapBytes64 del: be_bytes_numeral)
qed

text \<open>for IPv6 \<open>containsAddress\<close> holds exactly when the bits of this address are those of the other one
  below the prefix length and zero above it; an address with host bits set contains nothing, not even itself,
  unlike the IPv4 case.\<close>

theorem inet_contains6:
  assumes "length a = 16" "length b = 16" "unat (ntoh16 p) \<le> 128"
  shows "inet_containsAddress (INET6 b p f s) (INET6 a q g t)
    = Inr (\<forall>i < 128. bit_at ((!) b) i \<longleftrightarrow> i < unat (ntoh16 p) \<and> bit_at ((!) a) i)"
proof -
  obtain m where m: "inet_netmask (INET6 b p f s) = Inr (INET6 m p f s)" "length m = 16"
      "\<forall>i < 128. bit_at ((!) m) i \<longleftrightarrow> i < unat (ntoh16 p)"
    using netmask6 [OF assms(2,3)] by blast
  have "(\<forall>i \<in> set [0..<16]. a ! i AND m ! i = b ! i) \<longleftrightarrow> (\<forall>i < 16. a ! i AND m ! i = b ! i)" by auto
  also have "\<dots> \<longleftrightarrow> (\<forall>j < 8 * 16. bit_at (\<lambda>i. a ! i AND m ! i) j = bit_at ((!) b) j)"
    by (rule bytes_eq_bits)
  also have "\<dots> \<longleftrightarrow> (\<forall>i < 128. bit_at ((!) b) i \<longleftrightarrow> i < unat (ntoh16 p) \<and> bit_at ((!) a) i)"
    using m(3) by (auto simp: bit_at_def bit_simps)
  finally show ?thesis by (simp add: inet_containsAddress_def m(1))
qed

theorem inet_contains6_witness:
  "inet_containsAddress (INET6 (replicate 15 0 @ [1]) (hton16 64) 0 0) (INET6 (replicate 15 0 @ [1]) (hton16 64) 0 0)
    \<noteq> Inr True"
proof -
  let ?b = "replicate 15 0 @ [1] :: bytes"
  have "\<not> (bit_at ((!) ?b) 127 \<longleftrightarrow> 127 < unat (64::u16) \<and> bit_at ((!) ?b) 127)"
    by (simp add: bit_at_def nth_append)
  then have "\<not> (\<forall>i < 128. bit_at ((!) ?b) i \<longleftrightarrow> i < unat (64::u16) \<and> bit_at ((!) ?b) i)" by (rule contrapos_nn) (drule spec [of _ 127], simp)
  then show ?thesis using inet_contains6 [of ?b ?b "hton16 64"] by simp
qed

lemma drop_bit_eq_prefix:
  fixes x y :: u32
  assumes "n \<le> 32"
  shows "drop_bit (32 - n) x = drop_bit (32 - n) y \<longleftrightarrow> (\<forall>i < n. bit x (31 - i) = bit y (31 - i))"
proof
  assume a: "\<forall>i < n. bit x (31 - i) = bit y (31 - i)"
  show "drop_bit (32 - n) x = drop_bit (32 - n) y"
  proof (rule bit_word_eqI)
    fix k assume "k < LENGTH(32)"
    show "bit (drop_bit (32 - n) x) k = bit (drop_bit (32 - n) y) k"
    proof (cases "k < n")
      case True
      then show ?thesis using a [rule_format, of "n - 1 - k"] assms by (simp add: bit_simps) 
    next
      case False
      then show ?thesis using assms by (auto simp: bit_simps dest: bit_imp_le_length)
    qed
  qed
next
  assume e: "drop_bit (32 - n) x = drop_bit (32 - n) y"
  show "\<forall>i < n. bit x (31 - i) = bit y (31 - i)"
  proof (intro allI impI)
    fix i assume "i < n"
    then show "bit x (31 - i) = bit y (31 - i)"
      using arg_cong [OF e, of "\<lambda>w. bit w (n - 1 - i)"] assms by (simp add: bit_simps)
  qed
qed

text \<open>for IPv4 \<open>containsAddress\<close> compares exactly the leading \<open>netmaskBits\<close> bits of the two addresses.\<close>

theorem inet_contains4:
  assumes "unat (ntoh16 p) \<le> 32"
  shows "inet_containsAddress (INET4 b p) (INET4 a q)
    = Inr (\<forall>i < unat (ntoh16 p). bit (ntoh32 a) (31 - i) = bit (ntoh32 b) (31 - i))"
  using assms drop_bit_eq_prefix [OF assms]
  by (auto simp: inet_containsAddress_def inet_netmaskBits_def inet_port_def Let_def shr_def)

theorem inet_contains4_witness:
  "inet_containsAddress (INET4 (hton32 0x0a000000) (hton16 8)) (INET4 (hton32 0x0a010203) 0) = Inr True"
proof -
  have "\<forall>i < 8. bit (ntoh32 (hton32 0x0a010203)) (31 - i) = bit (ntoh32 (hton32 0x0a000000)) (31 - i)"
    by code_simp
  then show ?thesis using inet_contains4 [of "hton16 8" "hton32 0x0a000000" "hton32 0x0a010203" 0] by simp
qed

section \<open>Derived addresses\<close>

lemma rfc4193_bytes:
  "makeIpv6rfc4193 nwid a = INET6 ([0xfd] @ be_bytes 8 nwid @ [0x99, 0x93] @ be_bytes 5 a) (hton16 88) 0 0"
  by (simp add: makeIpv6rfc4193_def)

lemma plane6_bytes:
  "makeIpv66plane nwid a = INET6 ([0xfc] @ be_bytes 4 (nwid XOR drop_bit 32 nwid) @ be_bytes 5 a @ [0, 0, 0, 0, 0, 1]) (hton16 40) 0 0"
  by (simp add: makeIpv66plane_def Let_def)

lemma be_bytes_inject: "be_bytes n (v::'a::len word) = be_bytes n w \<longleftrightarrow> take_bit (8 * n) v = take_bit (8 * n) w"
proof
  assume "take_bit (8 * n) v = take_bit (8 * n) w"
  then show "be_bytes n v = be_bytes n w"
  proof (induction n)
    case (Suc n)
    then have "take_bit (8 * n) v = take_bit (8 * n) w"
      by (metis (no_types, lifting) le_add2 min.absorb1 mult_Suc_right take_bit_take_bit)
    moreover have "(ucast (drop_bit (8 * n) v) :: u8) = ucast (drop_bit (8 * n) w)"
    proof (rule bit_word_eqI)
      fix k assume "k < LENGTH(8)"
      then show "bit (ucast (drop_bit (8 * n) v) :: u8) k = bit (ucast (drop_bit (8 * n) w) :: u8) k"
        using arg_cong [OF Suc.prems, of "\<lambda>x. bit x (8 * n + k)"] by (auto simp: bit_simps)
    qed
    ultimately show ?case using Suc.IH by simp
  qed simp
qed (metis be_word_be_bytes)

lemma range16: "{0..<16::nat} = {0, 1, 2, 3, 4, 5, 6, 7, 8, 9, 10, 11, 12, 13, 14, 15}"
  by code_simp

lemma and_255_u8 [simp]: "(x::u8) AND 255 = x"
  by (simp add: and_255 take_bit_word_eq_self)

text \<open>the /88 a network's RFC4193 addresses share contains the derived address of a node exactly when the
  node's network is that network, and derived addresses of distinct networks or nodes differ.\<close>

theorem rfc4193_network:
  "inet_containsAddress (makeIpv6rfc4193 nwid 0) (makeIpv6rfc4193 m a) = Inr (m = nwid)
   \<and> (makeIpv6rfc4193 nwid a = makeIpv6rfc4193 m b \<longleftrightarrow> nwid = m \<and> address_of a = address_of b)"
proof -
  have len: "length ([0xfd] @ be_bytes 8 n @ [0x99, 0x93] @ be_bytes 5 x) = 16" for n x :: u64 by simp
  have n: "inet_netmask (INET6 bs (hton16 88) 0 0) = Inr (INET6 [0xff, 0xff, 0xff, 0xff, 0xff, 0xff, 0xff, 0xff, 0xff, 0xff, 0xff, 0, 0, 0, 0, 0] (hton16 88) 0 0)" for bs
    by (simp add: inet_netmask_def inet_netmaskBits_def inet_port_def mask6_def shl_def hton64_def le_bytes_swapBytes64)
  have "inet_containsAddress (makeIpv6rfc4193 nwid 0) (makeIpv6rfc4193 m a) = Inr (be_bytes 8 m = be_bytes 8 nwid)"
    by (simp add: inet_containsAddress_def n makeIpv6rfc4193_def range16)
  moreover have "makeIpv6rfc4193 nwid a = makeIpv6rfc4193 m b \<longleftrightarrow> nwid = m \<and> address_of a = address_of b"
    unfolding rfc4193_bytes by (simp add: be_bytes_inject address_of_def and_mask40 take_bit_word_eq_self del: be_bytes_numeral)
  ultimately show ?thesis by (simp add: be_bytes_inject take_bit_word_eq_self del: be_bytes_numeral)
qed

end
