(* ===== verification/ZT_Credentials.thy ===== *)
theory ZT_Credentials
  imports ZT_InetAddress
begin

text \<open>
  The signed credentials of a network: \<^verbatim>\<open>node/Tag\<close>, \<^verbatim>\<open>node/CertificateOfOwnership\<close>, \<^verbatim>\<open>node/Revocation\<close> and
  \<^verbatim>\<open>node/CertificateOfMembership\<close>. Timestamps are \<open>int64_t\<close>, kept as 64-bit words and compared through
  \<^const>\<open>sint\<close>. The identities a signature is checked against come from the topology: \<open>getIdentity\<close> maps a
  signer's address to its \<open>Identity::verify\<close> on the signed bytes and the signature, or to nothing when the
  identity is not known yet; a \<open>WHOIS\<close> request for the signer is part of the result. \<open>signed_codec\<close>
  is the interface the four types share.
\<close>

section \<open>Shared parts\<close>

abbreviation (input) ZT_ECC_SIGNATURE_LEN :: nat where "ZT_ECC_SIGNATURE_LEN \<equiv> 96"

type_synonym verifier = "bytes \<Rightarrow> bytes \<Rightarrow> bool"

text \<open>\<open>verify\<close> returns 0, 1 (after requesting the identity of the signer) or -1.\<close>

datatype verify_result = VerifyOK | VerifyWaitWhois address | VerifyBad

datatype credential_type =
    CREDENTIAL_TYPE_NULL | CREDENTIAL_TYPE_COM | CREDENTIAL_TYPE_CAPABILITY | CREDENTIAL_TYPE_TAG
  | CREDENTIAL_TYPE_COO | CREDENTIAL_TYPE_REVOCATION

definition controllerFor :: "u64 \<Rightarrow> address" where
  "controllerFor nwid = address_of (drop_bit 24 nwid)"

definition sign_pad :: "bool \<Rightarrow> (buffer \<Rightarrow> buffer result) list" where
  "sign_pad forSign = (if forSign then [buf_append 8 (0x7f7f7f7f7f7f7f7f :: u64)] else [])"

definition sig_field :: "bool \<Rightarrow> bytes \<Rightarrow> (buffer \<Rightarrow> buffer result) list" where
  "sig_field forSign sig =
    (if \<not> forSign then [buf_append 1 (1 :: u8), buf_append 2 (96 :: u16), buf_append_bytes sig ZT_ECC_SIGNATURE_LEN]
     else [])"

text \<open>The signature block every credential ends in; other signature types are skipped and leave the
  signature zero.\<close>

definition rd_signature :: "bytes reader" where
  "rd_signature b p =
    bindE (rd_u8 b p) (\<lambda>(t, p).
      if t = 1 then
        bindE (rd 2 b p) (\<lambda>(n :: u16, p).
          if n \<noteq> 96 then Inl (Throw ZT_EXCEPTION_INVALID_SERIALIZED_DATA_INVALID_CRYPTOGRAPHIC_TOKEN)
          else rd_bytes ZT_ECC_SIGNATURE_LEN b p)
      else bindE (buf_at 2 b p) (\<lambda>n :: u16. Inr (replicate ZT_ECC_SIGNATURE_LEN 0, p + 2 + unat n)))"

definition rd_extra :: "unit reader" where
  "rd_extra b p =
    bindE (buf_at 2 b p) (\<lambda>n :: u16.
      if p + 2 + unat n > buf_l b then Inl (Throw ZT_EXCEPTION_INVALID_SERIALIZED_DATA_OVERFLOW)
      else Inr ((), p + 2 + unat n))"

text \<open>Serialising into a fresh buffer of capacity \<open>cap\<close> and checking the signature of the signer; the
  \<open>catch (...)\<close> turns an exception into a bad credential.\<close>

definition check_signature ::
  "(address \<Rightarrow> verifier option) \<Rightarrow> nat \<Rightarrow> (buffer \<Rightarrow> buffer result) \<Rightarrow> address \<Rightarrow> u64 \<Rightarrow> bytes \<Rightarrow> verify_result result" where
  "check_signature getIdentity cap ser signedBy nwid sig =
    (if signedBy = 0 \<or> signedBy \<noteq> controllerFor nwid then Inr VerifyBad
     else case getIdentity signedBy of
       None \<Rightarrow> Inr (VerifyWaitWhois signedBy)
     | Some vf \<Rightarrow>
         (case ser (buf_new (replicate cap 0)) of
            Inl (Throw _) \<Rightarrow> Inr VerifyBad
          | Inl UndefinedBehaviour \<Rightarrow> Inl UndefinedBehaviour
          | Inr tmp \<Rightarrow> Inr (if vf (buf_data tmp) sig then VerifyOK else VerifyBad)))"

section \<open>Tag\<close>

record tag =
  tag_id :: u32
  tag_value :: u32
  tag_networkId :: u64
  tag_ts :: u64
  tag_issuedTo :: address
  tag_signedBy :: address
  tag_signature :: bytes

definition tag_new :: "u64 \<Rightarrow> u64 \<Rightarrow> address \<Rightarrow> u32 \<Rightarrow> u32 \<Rightarrow> tag" where
  "tag_new nwid ts issuedTo i val =
    \<lparr>tag_id = i, tag_value = val, tag_networkId = nwid, tag_ts = ts, tag_issuedTo = issuedTo,
     tag_signedBy = 0, tag_signature = replicate ZT_ECC_SIGNATURE_LEN 0\<rparr>"

definition tag_serialize :: "bool \<Rightarrow> tag \<Rightarrow> buffer \<Rightarrow> buffer result" where
  "tag_serialize forSign t =
    bseq (sign_pad forSign
      @ [buf_append 8 (tag_networkId t), buf_append 8 (tag_ts t), buf_append 4 (tag_id t), buf_append 4 (tag_value t),
         address_appendTo (tag_issuedTo t), address_appendTo (tag_signedBy t)]
      @ sig_field forSign (tag_signature t)
      @ [buf_append 2 (0 :: u16)]
      @ sign_pad forSign)"

definition tag_read :: "tag reader" where
  "tag_read b p =
    bindE (rd 8 b p) (\<lambda>(nwid, p). bindE (rd 8 b p) (\<lambda>(ts, p). bindE (rd 4 b p) (\<lambda>(i, p).
    bindE (rd 4 b p) (\<lambda>(val, p). bindE (rd_address b p) (\<lambda>(to, p). bindE (rd_address b p) (\<lambda>(by, p).
    bindE (rd_signature b p) (\<lambda>(sig, p). bindE (rd_extra b p) (\<lambda>(_, p).
      Inr (\<lparr>tag_id = i, tag_value = val, tag_networkId = nwid, tag_ts = ts, tag_issuedTo = to,
            tag_signedBy = by, tag_signature = sig\<rparr>, p)))))))))"

definition tag_deserialize :: "buffer \<Rightarrow> nat \<Rightarrow> (tag \<times> nat) result" where
  "tag_deserialize b startAt = bindE (tag_read b startAt) (\<lambda>(t, p). Inr (t, p - startAt))"

text \<open>\<open>signer\<close> is the private key's signing function with the signer's address, or nothing when the
  identity has no private key.\<close>

definition tag_sign :: "nat \<Rightarrow> address \<Rightarrow> (bytes \<Rightarrow> bytes) option \<Rightarrow> tag \<Rightarrow> (bool \<times> tag) result" where
  "tag_sign sz addr signer t =
    (case signer of None \<Rightarrow> Inr (False, t)
     | Some sg \<Rightarrow>
         (let t1 = t\<lparr>tag_signedBy := addr\<rparr> in
          bindE (tag_serialize True t1 (buf_new (replicate (sz + 64) 0))) (\<lambda>tmp.
            Inr (True, t1\<lparr>tag_signature := sg (buf_data tmp)\<rparr>))))"

definition tag_verify :: "nat \<Rightarrow> (address \<Rightarrow> verifier option) \<Rightarrow> tag \<Rightarrow> verify_result result" where
  "tag_verify sz getIdentity t =
    check_signature getIdentity (sz * 2) (tag_serialize True t) (tag_signedBy t) (tag_networkId t) (tag_signature t)"

text \<open>\<open>std::lower_bound\<close> with \<open>IdComparePredicate\<close> over the sorted tags of a network configuration.\<close>

definition tag_lower_bound :: "tag list \<Rightarrow> u32 \<Rightarrow> tag option" where
  "tag_lower_bound tags i =
    (case dropWhile (\<lambda>t. tag_id t < i) tags of [] \<Rightarrow> None | t # _ \<Rightarrow> Some t)"

section \<open>CertificateOfOwnership\<close>

abbreviation (input) ZT_CERTIFICATEOFOWNERSHIP_MAX_THINGS :: nat where "ZT_CERTIFICATEOFOWNERSHIP_MAX_THINGS \<equiv> 16"

record coo =
  coo_networkId :: u64
  coo_ts :: u64
  coo_flags :: u64
  coo_id :: u32
  coo_thingCount :: u16
  coo_thingTypes :: "u8 list"
  coo_thingValues :: "bytes list"
  coo_issuedTo :: address
  coo_signedBy :: address
  coo_signature :: bytes

abbreviation (input) THING_MAC_ADDRESS :: u8 where "THING_MAC_ADDRESS \<equiv> 1"
abbreviation (input) THING_IPV4_ADDRESS :: u8 where "THING_IPV4_ADDRESS \<equiv> 2"
abbreviation (input) THING_IPV6_ADDRESS :: u8 where "THING_IPV6_ADDRESS \<equiv> 3"

definition coo_new :: "u64 \<Rightarrow> u64 \<Rightarrow> address \<Rightarrow> u32 \<Rightarrow> coo" where
  "coo_new nwid ts issuedTo i =
    \<lparr>coo_networkId = nwid, coo_ts = ts, coo_flags = 0, coo_id = i, coo_thingCount = 0,
     coo_thingTypes = replicate 16 0, coo_thingValues = replicate 16 (replicate 16 0),
     coo_issuedTo = issuedTo, coo_signedBy = 0, coo_signature = replicate ZT_ECC_SIGNATURE_LEN 0\<rparr>"

text \<open>Indexing the arrays of things past their end is undefined.\<close>

fun owns_loop :: "u8 \<Rightarrow> bytes \<Rightarrow> coo \<Rightarrow> nat \<Rightarrow> nat \<Rightarrow> bool result" where
  "owns_loop t v c i 0 = Inr False"
| "owns_loop t v c i (Suc n) =
    (if i \<ge> length (coo_thingTypes c) then Inl UndefinedBehaviour
     else if coo_thingTypes c ! i = t then
       (if take (length v) (coo_thingValues c ! i) = v then Inr True else owns_loop t v c (i + 1) n)
     else owns_loop t v c (i + 1) n)"

definition coo_owns :: "u8 \<Rightarrow> bytes \<Rightarrow> coo \<Rightarrow> bool result" where
  "coo_owns t v c = owns_loop t v c 0 (unat (coo_thingCount c))"

definition coo_owns_ip :: "coo \<Rightarrow> inetaddress \<Rightarrow> bool result" where
  "coo_owns_ip c ip =
    (case ip of INET_NONE \<Rightarrow> Inr False
     | INET4 ad _ \<Rightarrow> coo_owns THING_IPV4_ADDRESS (le_bytes 4 ad) c
     | INET6 bs _ _ _ \<Rightarrow> coo_owns THING_IPV6_ADDRESS (take 16 bs) c)"

definition coo_owns_mac :: "coo \<Rightarrow> mac \<Rightarrow> bool result" where
  "coo_owns_mac c m = coo_owns THING_MAC_ADDRESS (mac_octets m) c"

definition coo_put_thing :: "u8 \<Rightarrow> bytes \<Rightarrow> coo \<Rightarrow> coo" where
  "coo_put_thing t v c =
    (let i = unat (coo_thingCount c) in
     c\<lparr>coo_thingTypes := (coo_thingTypes c)[i := t],
       coo_thingValues := (coo_thingValues c)[i := v @ drop (length v) (coo_thingValues c ! i)],
       coo_thingCount := coo_thingCount c + 1\<rparr>)"

definition coo_addThing_ip :: "inetaddress \<Rightarrow> coo \<Rightarrow> coo" where
  "coo_addThing_ip ip c =
    (if coo_thingCount c \<ge> 16 then c
     else case ip of INET_NONE \<Rightarrow> c
       | INET4 ad _ \<Rightarrow> coo_put_thing THING_IPV4_ADDRESS (le_bytes 4 ad) c
       | INET6 bs _ _ _ \<Rightarrow> coo_put_thing THING_IPV6_ADDRESS (take 16 bs) c)"

definition coo_addThing_mac :: "mac \<Rightarrow> coo \<Rightarrow> coo" where
  "coo_addThing_mac m c =
    (if coo_thingCount c \<ge> 16 then c else coo_put_thing THING_MAC_ADDRESS (mac_octets m) c)"

definition coo_append_thing :: "coo \<Rightarrow> nat \<Rightarrow> buffer \<Rightarrow> buffer result" where
  "coo_append_thing c i b =
    (if i \<ge> length (coo_thingTypes c) \<or> i \<ge> length (coo_thingValues c) then Inl UndefinedBehaviour
     else bindE (buf_append 1 (coo_thingTypes c ! i) b) (buf_append_bytes (coo_thingValues c ! i) 16))"

definition coo_serialize :: "bool \<Rightarrow> coo \<Rightarrow> buffer \<Rightarrow> buffer result" where
  "coo_serialize forSign c =
    bseq (sign_pad forSign
      @ [buf_append 8 (coo_networkId c), buf_append 8 (coo_ts c), buf_append 8 (coo_flags c),
         buf_append 4 (coo_id c), buf_append 2 (coo_thingCount c)]
      @ map (coo_append_thing c) [0..<unat (coo_thingCount c)]
      @ [address_appendTo (coo_issuedTo c), address_appendTo (coo_signedBy c)]
      @ sig_field forSign (coo_signature c)
      @ [buf_append 2 (0 :: u16)]
      @ sign_pad forSign)"

fun rd_things :: "nat \<Rightarrow> nat \<Rightarrow> (u8 list \<times> bytes list) reader" where
  "rd_things i 0 b p = Inr (([], []), p)"
| "rd_things i (Suc n) b p =
    (if i < ZT_CERTIFICATEOFOWNERSHIP_MAX_THINGS then
       bindE (rd_u8 b p) (\<lambda>(t, p). bindE (rd_bytes 16 b p) (\<lambda>(v, p).
       bindE (rd_things (i + 1) n b p) (\<lambda>((ts, vs), p). Inr ((t # ts, v # vs), p))))
     else rd_things (i + 1) n b p)"

definition coo_read :: "coo reader" where
  "coo_read b p =
    bindE (rd 8 b p) (\<lambda>(nwid, p). bindE (rd 8 b p) (\<lambda>(ts, p). bindE (rd 8 b p) (\<lambda>(fl, p).
    bindE (rd 4 b p) (\<lambda>(i, p). bindE (rd 2 b p) (\<lambda>(cnt, p).
    bindE (rd_things 0 (unat cnt) b p) (\<lambda>(tv, p).
    bindE (rd_address b p) (\<lambda>(to, p). bindE (rd_address b p) (\<lambda>(by, p).
    bindE (rd_signature b p) (\<lambda>(sig, p). bindE (rd_extra b p) (\<lambda>(_, p).
      Inr (\<lparr>coo_networkId = nwid, coo_ts = ts, coo_flags = fl, coo_id = i, coo_thingCount = cnt,
            coo_thingTypes = fst tv @ drop (length (fst tv)) (replicate 16 0),
            coo_thingValues = snd tv @ drop (length (snd tv)) (replicate 16 (replicate 16 0)),
            coo_issuedTo = to, coo_signedBy = by, coo_signature = sig\<rparr>, p)))))))))))"

definition coo_deserialize :: "buffer \<Rightarrow> nat \<Rightarrow> (coo \<times> nat) result" where
  "coo_deserialize b startAt = bindE (coo_read b startAt) (\<lambda>(c, p). Inr (c, p - startAt))"

definition coo_verify :: "nat \<Rightarrow> (address \<Rightarrow> verifier option) \<Rightarrow> coo \<Rightarrow> verify_result result" where
  "coo_verify sz getIdentity c =
    check_signature getIdentity (sz + 64) (coo_serialize True c) (coo_signedBy c) (coo_networkId c) (coo_signature c)"

section \<open>Revocation\<close>

record revocation =
  rev_id :: u32
  rev_credentialId :: u32
  rev_networkId :: u64
  rev_threshold :: u64
  rev_flags :: u64
  rev_target :: address
  rev_signedBy :: address
  rev_type :: u8
  rev_signature :: bytes

definition rev_fastPropagate :: "revocation \<Rightarrow> bool" where
  "rev_fastPropagate r \<longleftrightarrow> rev_flags r AND 1 \<noteq> 0"

definition rev_serialize :: "bool \<Rightarrow> revocation \<Rightarrow> buffer \<Rightarrow> buffer result" where
  "rev_serialize forSign r =
    bseq (sign_pad forSign
      @ [buf_append 4 (0 :: u32), buf_append 4 (rev_id r), buf_append 8 (rev_networkId r), buf_append 4 (0 :: u32),
         buf_append 4 (rev_credentialId r), buf_append 8 (rev_threshold r), buf_append 8 (rev_flags r),
         address_appendTo (rev_target r), address_appendTo (rev_signedBy r), buf_append 1 (rev_type r)]
      @ sig_field forSign (rev_signature r)
      @ [buf_append 2 (0 :: u16)]
      @ sign_pad forSign)"

definition rev_read :: "revocation reader" where
  "rev_read b p =
    bindE (rd_skip 4 b p) (\<lambda>(_, p). bindE (rd 4 b p) (\<lambda>(i, p). bindE (rd 8 b p) (\<lambda>(nwid, p).
     bindE (rd_skip 4 b p) (\<lambda>(_, p). bindE (rd 4 b p) (\<lambda>(cid, p). bindE (rd 8 b p) (\<lambda>(thr, p). bindE (rd 8 b p) (\<lambda>(fl, p).
     bindE (rd_address b p) (\<lambda>(tgt, p). bindE (rd_address b p) (\<lambda>(by, p). bindE (rd_u8 b p) (\<lambda>(ty, p).
     bindE (rd_signature b p) (\<lambda>(sig, p). bindE (rd_extra b p) (\<lambda>(_, p).
       Inr (\<lparr>rev_id = i, rev_credentialId = cid, rev_networkId = nwid, rev_threshold = thr, rev_flags = fl,
             rev_target = tgt, rev_signedBy = by, rev_type = ty, rev_signature = sig\<rparr>, p)))))))))))))"

definition rev_deserialize :: "buffer \<Rightarrow> nat \<Rightarrow> (revocation \<times> nat) result" where
  "rev_deserialize b startAt = bindE (rev_read b startAt) (\<lambda>(r, p). Inr (r, p - startAt))"

definition rev_verify :: "nat \<Rightarrow> (address \<Rightarrow> verifier option) \<Rightarrow> revocation \<Rightarrow> verify_result result" where
  "rev_verify sz getIdentity r =
    check_signature getIdentity (sz + 64) (rev_serialize True r) (rev_signedBy r) (rev_networkId r) (rev_signature r)"

section \<open>CertificateOfMembership\<close>

abbreviation (input) ZT_NETWORK_COM_MAX_QUALIFIERS :: nat where "ZT_NETWORK_COM_MAX_QUALIFIERS \<equiv> 8"
abbreviation (input) COM_RESERVED_ID_TIMESTAMP :: u64 where "COM_RESERVED_ID_TIMESTAMP \<equiv> 0"
abbreviation (input) COM_RESERVED_ID_NETWORK_ID :: u64 where "COM_RESERVED_ID_NETWORK_ID \<equiv> 1"
abbreviation (input) COM_RESERVED_ID_ISSUED_TO :: u64 where "COM_RESERVED_ID_ISSUED_TO \<equiv> 2"

record qualifier =
  q_id :: u64
  q_value :: u64
  q_maxDelta :: u64

text \<open>The qualifiers in use, \<open>_qualifiers[0 .. _qualifierCount)\<close>, are the list.\<close>

record com =
  com_signedBy :: address
  com_qualifiers :: "qualifier list"
  com_signature :: bytes

text \<open>\<open>idHash\<close> is the result of \<open>publicKeyHash\<close> of the identity concerned, as 64-bit machine words.\<close>

definition com_new :: "u64 \<Rightarrow> u64 \<Rightarrow> u64 \<Rightarrow> address \<Rightarrow> u64 list \<Rightarrow> com" where
  "com_new timestamp timestampMaxDelta nwid issuedTo idHash =
    \<lparr>com_signedBy = 0,
     com_qualifiers =
       [\<lparr>q_id = COM_RESERVED_ID_TIMESTAMP, q_value = timestamp, q_maxDelta = timestampMaxDelta\<rparr>,
        \<lparr>q_id = COM_RESERVED_ID_NETWORK_ID, q_value = nwid, q_maxDelta = 0\<rparr>,
        \<lparr>q_id = COM_RESERVED_ID_ISSUED_TO, q_value = issuedTo, q_maxDelta = 0xffffffffffffffff\<rparr>]
       @ map (\<lambda>i. \<lparr>q_id = of_nat (i + 3), q_value = ntoh64 (idHash ! i), q_maxDelta = 0xffffffffffffffff\<rparr>) [0..<4],
     com_signature = replicate ZT_ECC_SIGNATURE_LEN 0\<rparr>"

definition com_field :: "u64 \<Rightarrow> com \<Rightarrow> u64 option" where
  "com_field i c = map_option q_value (find (\<lambda>q. q_id q = i) (com_qualifiers c))"

definition com_timestamp :: "com \<Rightarrow> u64" where
  "com_timestamp c = (case com_field COM_RESERVED_ID_TIMESTAMP c of Some v \<Rightarrow> v | None \<Rightarrow> 0)"

definition com_issuedTo :: "com \<Rightarrow> address" where
  "com_issuedTo c = (case com_field COM_RESERVED_ID_ISSUED_TO c of Some v \<Rightarrow> address_of v | None \<Rightarrow> 0)"

definition com_networkId :: "com \<Rightarrow> u64" where
  "com_networkId c = (case com_field COM_RESERVED_ID_NETWORK_ID c of Some v \<Rightarrow> v | None \<Rightarrow> 0)"

definition com_isSet :: "com \<Rightarrow> bool" where
  "com_isSet c \<longleftrightarrow> com_qualifiers c \<noteq> []"

text \<open>\<open>otherFields\<close>: later qualifiers with the same id overwrite earlier ones.\<close>

definition otherFields :: "com \<Rightarrow> (u64 \<rightharpoonup> u64)" where
  "otherFields c = fold (\<lambda>q m. m(q_id q \<mapsto> q_value q)) (com_qualifiers c) Map.empty"

fun agrees_loop :: "(u64 \<rightharpoonup> u64) \<Rightarrow> qualifier list \<Rightarrow> bool \<Rightarrow> bool option" where
  "agrees_loop other [] full = Some full"
| "agrees_loop other (q # qs) full =
    (let full = (if 3 \<le> q_id q \<and> q_id q \<le> 6 then True else full) in
     case other (q_id q) of
       None \<Rightarrow> None
     | Some b \<Rightarrow>
         let a = q_value q in
         if (if a \<ge> b then a - b else b - a) > q_maxDelta q then None else agrees_loop other qs full)"

definition com_agreesWith :: "com \<Rightarrow> com \<Rightarrow> u64 list \<Rightarrow> bool" where
  "com_agreesWith this other idHash =
    (if com_qualifiers this = [] \<or> com_qualifiers other = [] then False
     else case agrees_loop (otherFields other) (com_qualifiers this) False of
       None \<Rightarrow> False
     | Some full \<Rightarrow>
         if full then
           (\<forall>i \<in> set [0..<4]. case otherFields other (of_nat (i + 3)) of
              None \<Rightarrow> False | Some v \<Rightarrow> v = ntoh64 (idHash ! i))
         else True)"

text \<open>What a signature of a certificate covers: the qualifiers in network byte order.\<close>

definition com_signed_bytes :: "com \<Rightarrow> bytes" where
  "com_signed_bytes c =
    concat (map (\<lambda>q. le_bytes 8 (hton64 (q_id q)) @ le_bytes 8 (hton64 (q_value q)) @ le_bytes 8 (hton64 (q_maxDelta q)))
      (com_qualifiers c))"

definition com_sign :: "address \<Rightarrow> (bytes \<Rightarrow> bytes) option \<Rightarrow> com \<Rightarrow> bool \<times> com" where
  "com_sign addr signer c =
    (case signer of
       Some sg \<Rightarrow> (True, c\<lparr>com_signature := sg (com_signed_bytes c), com_signedBy := addr\<rparr>)
     | None \<Rightarrow> (False, c\<lparr>com_signedBy := 0\<rparr>))"

definition com_verify :: "(address \<Rightarrow> verifier option) \<Rightarrow> com \<Rightarrow> verify_result" where
  "com_verify getIdentity c =
    (if com_signedBy c = 0 \<or> com_signedBy c \<noteq> controllerFor (com_networkId c)
        \<or> length (com_qualifiers c) > ZT_NETWORK_COM_MAX_QUALIFIERS then VerifyBad
     else case getIdentity (com_signedBy c) of
       None \<Rightarrow> VerifyWaitWhois (com_signedBy c)
     | Some vf \<Rightarrow> if vf (com_signed_bytes c) (com_signature c) then VerifyOK else VerifyBad)"

definition com_serialize :: "com \<Rightarrow> buffer \<Rightarrow> buffer result" where
  "com_serialize c =
    bseq ([buf_append 1 (1 :: u8), buf_append 2 (of_nat (length (com_qualifiers c)) :: u16)]
      @ concat (map (\<lambda>q. [buf_append 8 (q_id q), buf_append 8 (q_value q), buf_append 8 (q_maxDelta q)]) (com_qualifiers c))
      @ [address_appendTo (com_signedBy c)]
      @ (if com_signedBy c \<noteq> 0 then [buf_append_bytes (com_signature c) ZT_ECC_SIGNATURE_LEN] else []))"

fun rd_qualifiers :: "nat \<Rightarrow> u64 \<Rightarrow> nat \<Rightarrow> qualifier list reader" where
  "rd_qualifiers 0 lastId cnt b p = Inr ([], p)"
| "rd_qualifiers (Suc n) lastId cnt b p =
    bindE (rd 8 b p) (\<lambda>(qid, p).
      if qid < lastId then Inl (Throw ZT_EXCEPTION_INVALID_SERIALIZED_DATA_BAD_ENCODING)
      else if cnt < ZT_NETWORK_COM_MAX_QUALIFIERS then
        bindE (rd 8 b p) (\<lambda>(v, p). bindE (rd 8 b p) (\<lambda>(d, p).
        bindE (rd_qualifiers n qid (cnt + 1) b p) (\<lambda>(qs, p).
          Inr (\<lparr>q_id = qid, q_value = v, q_maxDelta = d\<rparr> # qs, p))))
      else Inl (Throw ZT_EXCEPTION_INVALID_SERIALIZED_DATA_OVERFLOW))"

text \<open>\<open>sig0\<close> is the signature the object held before; it is kept when the certificate read is unsigned.\<close>

definition com_read :: "bytes \<Rightarrow> com reader" where
  "com_read sig0 b p =
    bindE (rd_u8 b p) (\<lambda>(t, p).
      if t \<noteq> 1 then Inl (Throw ZT_EXCEPTION_INVALID_SERIALIZED_DATA_INVALID_TYPE)
      else bindE (rd 2 b p) (\<lambda>(numq :: u16, p).
           bindE (rd_qualifiers (unat numq) 0 0 b p) (\<lambda>(qs, p).
           bindE (rd_address b p) (\<lambda>(by, p).
             if by \<noteq> 0 then
               bindE (rd_bytes ZT_ECC_SIGNATURE_LEN b p) (\<lambda>(sig, p).
                 Inr (\<lparr>com_signedBy = by, com_qualifiers = qs, com_signature = sig\<rparr>, p))
             else Inr (\<lparr>com_signedBy = by, com_qualifiers = qs, com_signature = sig0\<rparr>, p)))))"

definition com_deserialize :: "bytes \<Rightarrow> buffer \<Rightarrow> nat \<Rightarrow> (com \<times> nat) result" where
  "com_deserialize sig0 b startAt = bindE (com_read sig0 b startAt) (\<lambda>(c, p). Inr (c, p - startAt))"

definition com_eq :: "com \<Rightarrow> com \<Rightarrow> bool" where
  "com_eq a b \<longleftrightarrow> com_signedBy a = com_signedBy b \<and> com_qualifiers a = com_qualifiers b
     \<and> take ZT_ECC_SIGNATURE_LEN (com_signature a) = take ZT_ECC_SIGNATURE_LEN (com_signature b)"

section \<open>Encodings\<close>

text \<open>What the signature covers is the head of the encoding between two pads.\<close>

definition pad_bytes :: bytes where
  "pad_bytes = be_bytes 8 (0x7f7f7f7f7f7f7f7f :: u64)"

definition sig_bytes :: "bytes \<Rightarrow> bytes" where
  "sig_bytes sig = [1] @ be_bytes 2 (96 :: u16) @ sig"

definition tag_head :: "tag \<Rightarrow> bytes" where
  "tag_head t = be_bytes 8 (tag_networkId t) @ be_bytes 8 (tag_ts t) @ be_bytes 4 (tag_id t) @ be_bytes 4 (tag_value t)
     @ be_bytes 5 (tag_issuedTo t) @ be_bytes 5 (tag_signedBy t)"

definition tag_bytes :: "tag \<Rightarrow> bytes" where
  "tag_bytes t = tag_head t @ sig_bytes (tag_signature t) @ be_bytes 2 (0 :: u16)"

definition tag_wf :: "tag \<Rightarrow> bool" where
  "tag_wf t \<longleftrightarrow> address_wf (tag_issuedTo t) \<and> address_wf (tag_signedBy t) \<and> length (tag_signature t) = 96"

definition rev_head :: "revocation \<Rightarrow> bytes" where
  "rev_head r = be_bytes 4 (0 :: u32) @ be_bytes 4 (rev_id r) @ be_bytes 8 (rev_networkId r) @ be_bytes 4 (0 :: u32)
     @ be_bytes 4 (rev_credentialId r) @ be_bytes 8 (rev_threshold r) @ be_bytes 8 (rev_flags r)
     @ be_bytes 5 (rev_target r) @ be_bytes 5 (rev_signedBy r) @ [rev_type r]"

definition rev_bytes :: "revocation \<Rightarrow> bytes" where
  "rev_bytes r = rev_head r @ sig_bytes (rev_signature r) @ be_bytes 2 (0 :: u16)"

definition rev_wf :: "revocation \<Rightarrow> bool" where
  "rev_wf r \<longleftrightarrow> address_wf (rev_target r) \<and> address_wf (rev_signedBy r) \<and> length (rev_signature r) = 96"

definition thing_bytes :: "u8 \<times> bytes \<Rightarrow> bytes" where
  "thing_bytes tv = [fst tv] @ snd tv"

definition coo_things :: "coo \<Rightarrow> (u8 \<times> bytes) list" where
  "coo_things c = take (unat (coo_thingCount c)) (zip (coo_thingTypes c) (coo_thingValues c))"

definition coo_head :: "coo \<Rightarrow> bytes" where
  "coo_head c = be_bytes 8 (coo_networkId c) @ be_bytes 8 (coo_ts c) @ be_bytes 8 (coo_flags c) @ be_bytes 4 (coo_id c)
     @ be_bytes 2 (coo_thingCount c) @ concat (map thing_bytes (coo_things c))
     @ be_bytes 5 (coo_issuedTo c) @ be_bytes 5 (coo_signedBy c)"

definition coo_bytes :: "coo \<Rightarrow> bytes" where
  "coo_bytes c = coo_head c @ sig_bytes (coo_signature c) @ be_bytes 2 (0 :: u16)"

text \<open>Arrays of their declared size, slots past the count still zero; a well-formed certificate also has no
  more things than slots.\<close>

definition coo_shape :: "coo \<Rightarrow> bool" where
  "coo_shape c \<longleftrightarrow> address_wf (coo_issuedTo c) \<and> address_wf (coo_signedBy c) \<and> length (coo_signature c) = 96
     \<and> length (coo_thingTypes c) = 16 \<and> length (coo_thingValues c) = 16 \<and> (\<forall>v \<in> set (coo_thingValues c). length v = 16)
     \<and> drop (unat (coo_thingCount c)) (coo_thingTypes c) = replicate (16 - unat (coo_thingCount c)) 0
     \<and> drop (unat (coo_thingCount c)) (coo_thingValues c) = replicate (16 - unat (coo_thingCount c)) (replicate 16 0)"

definition coo_wf :: "coo \<Rightarrow> bool" where
  "coo_wf c \<longleftrightarrow> coo_shape c \<and> unat (coo_thingCount c) \<le> 16"

definition q_bytes :: "qualifier \<Rightarrow> bytes" where
  "q_bytes q = be_bytes 8 (q_id q) @ be_bytes 8 (q_value q) @ be_bytes 8 (q_maxDelta q)"

definition com_bytes :: "com \<Rightarrow> bytes" where
  "com_bytes c = [1] @ be_bytes 2 (of_nat (length (com_qualifiers c)) :: u16) @ concat (map q_bytes (com_qualifiers c))
     @ be_bytes 5 (com_signedBy c) @ (if com_signedBy c \<noteq> 0 then com_signature c else [])"

definition com_wf :: "com \<Rightarrow> bool" where
  "com_wf c \<longleftrightarrow> address_wf (com_signedBy c) \<and> length (com_signature c) = 96
     \<and> length (com_qualifiers c) \<le> 8 \<and> sorted (map q_id (com_qualifiers c))"

definition qdist :: "u64 \<Rightarrow> u64 \<Rightarrow> u64" where
  "qdist a b = (if a \<ge> b then a - b else b - a)"

text \<open>The value a certificate carries under an id: that of its last qualifier with the id.\<close>

definition carries :: "com \<Rightarrow> u64 \<Rightarrow> u64 \<Rightarrow> bool" where
  "carries c i v \<longleftrightarrow> (\<exists>xs q ys. com_qualifiers c = xs @ q # ys \<and> q_id q = i \<and> q_value q = v \<and> i \<notin> q_id ` set ys)"

section \<open>Writers and readers\<close>

lemma emits_sig_field: "length sig = 96 \<Longrightarrow> emits (bseq (sig_field False sig)) (sig_bytes sig)"
  using emits_append_bytes [of 96 sig] unfolding sig_field_def sig_bytes_def
  by (simp only: not_False_eq_True if_True) (rule emits_bseq_Cons emits_u8 emits_bseq_single emits_append | simp)+

lemma parses_signature: "length sig = 96 \<Longrightarrow> parses rd_signature (sig_bytes sig) sig"
  unfolding rd_signature_def [abs_def] sig_bytes_def
  by (rule parses_bind parses_rd_u8 parses_rd parses_rd_bytes | simp only: refl if_True not_True_eq_False if_False | simp)+

lemma parses_extra: "parses rd_extra (be_bytes 2 (0 :: u16)) ()"
  unfolding parses_def rd_extra_def
proof (intro allI impI)
  fix b p assume l: "located b p (be_bytes 2 (0 :: u16))"
  then have "buf_at 2 b p = Inr (0 :: u16)" by (rule located_at) simp_all
  moreover have "p + 2 \<le> buf_l b" using l by (simp add: located_def)
  ultimately show "bindE (buf_at 2 b p) (\<lambda>n :: u16.
      if p + 2 + unat n > buf_l b then Inl (Throw ZT_EXCEPTION_INVALID_SERIALIZED_DATA_OVERFLOW)
      else Inr ((), p + 2 + unat n)) = Inr ((), p + length (be_bytes 2 (0 :: u16)))" by simp
qed

lemma emits_tag: "tag_wf t \<Longrightarrow> emits (tag_serialize False t) (tag_bytes t)"
  unfolding tag_serialize_def tag_bytes_def tag_head_def append_assoc sign_pad_def tag_wf_def
  by (simp only: if_False append_Nil append_Nil2 append_Cons)
    (rule emits_sig_field emit_intros | simp del: be_bytes_numeral bseq.simps)+

lemma parses_tag: "tag_wf t \<Longrightarrow> parses tag_read (tag_bytes t) t"
  unfolding tag_read_def [abs_def] tag_bytes_def tag_head_def append_assoc tag_wf_def
  by (rule parses_signature parses_extra parse_intros | simp del: be_bytes_numeral)+


lemma emits_rev: "rev_wf r \<Longrightarrow> emits (rev_serialize False r) (rev_bytes r)"
  unfolding rev_serialize_def rev_bytes_def rev_head_def append_assoc sign_pad_def rev_wf_def
  by (simp only: if_False append_Nil append_Nil2 append_Cons [of _ "_ # _"] append_Cons [of "buf_append _ _"] append_Cons [of "address_appendTo _"])
    (rule emits_sig_field emit_intros | simp del: be_bytes_numeral bseq.simps)+

lemma parses_rev: "rev_wf r \<Longrightarrow> parses rev_read (rev_bytes r) r"
  unfolding rev_read_def [abs_def] rev_bytes_def rev_head_def append_assoc rev_wf_def
  by (rule parses_signature parses_extra parse_intros | simp del: be_bytes_numeral)+

lemma emits_thing:
  assumes "coo_shape c" "i < 16" "i < unat (coo_thingCount c)"
  shows "emits (coo_append_thing c i) (thing_bytes (coo_things c ! i))"
proof -
  have l: "i < length (coo_thingTypes c)" "i < length (coo_thingValues c)" "length (coo_thingValues c ! i) = 16"
    using assms by (auto simp: coo_shape_def)
  then have e: "coo_append_thing c i = (\<lambda>b. bindE (buf_append 1 (coo_thingTypes c ! i) b) (buf_append_bytes (coo_thingValues c ! i) 16))"
    by (simp add: coo_append_thing_def [abs_def])
  have t: "coo_things c ! i = (coo_thingTypes c ! i, coo_thingValues c ! i)"
    using assms(3) l by (simp add: coo_things_def)
  show ?thesis
    unfolding e t thing_bytes_def fst_conv snd_conv
    using emits_append_bytes [of 16 "coo_thingValues c ! i"] l(3) by (intro emits_bind emits_u8) simp
qed

lemma coo_things_length: "coo_shape c \<Longrightarrow> length (coo_things c) = min (unat (coo_thingCount c)) 16"
  by (simp add: coo_things_def coo_shape_def)

lemma emits_things:
  assumes "coo_shape c"
  shows "emits (bseq (map (coo_append_thing c) [0..<min (unat (coo_thingCount c)) 16])) (concat (map thing_bytes (coo_things c)))"
proof -
  have "map thing_bytes (coo_things c) = map (\<lambda>i. thing_bytes (coo_things c ! i)) [0..<min (unat (coo_thingCount c)) 16]"
    using coo_things_length [OF assms] by (intro nth_equalityI) simp_all
  then show ?thesis using emits_thing [OF assms] by (simp only:) (intro emits_loop, simp)
qed

lemma emits_coo:
  assumes "coo_wf c"
  shows "emits (coo_serialize False c) (coo_bytes c)"
proof -
  have w: "coo_shape c" "min (unat (coo_thingCount c)) 16 = unat (coo_thingCount c)" using assms by (simp_all add: coo_wf_def)
  show ?thesis
    using w(1) emits_things [OF w(1), unfolded w(2)] unfolding coo_serialize_def coo_bytes_def coo_head_def append_assoc sign_pad_def coo_shape_def
    by (simp only: if_False append_Nil append_Nil2 append_Cons [of "buf_append _ _"] append_Cons [of "address_appendTo _"])
      (rule emits_sig_field emit_intros | assumption | simp del: be_bytes_numeral bseq.simps)+
qed

lemma rd_things_past: "16 \<le> i \<Longrightarrow> rd_things i n b p = Inr (([], []), p)"
  by (induction n arbitrary: i) simp_all

lemma parses_things:
  assumes "length tvs = min n (16 - i)" "\<forall>tv \<in> set tvs. length (snd tv) = 16"
  shows "parses (rd_things i n) (concat (map thing_bytes tvs)) (map fst tvs, map snd tvs)"
  using assms
proof (induction tvs arbitrary: i n)
  case Nil
  then show ?case by (cases n) (auto simp: parses_def rd_things_past min_def split: if_splits)
next
  case (Cons tv tvs)
  then obtain m where n: "n = Suc m" and i: "i < 16" by (cases n) (auto simp: min_def split: if_splits)
  have "rd_things i n = (\<lambda>b p.
       bindE (rd_u8 b p) (\<lambda>(t, p). bindE (rd_bytes 16 b p) (\<lambda>(v, p).
       bindE (rd_things (i + 1) m b p) (\<lambda>(r, p). Inr ((t # fst r, v # snd r), p)))))"
    using i by (intro ext) (simp add: n case_prod_unfold)
  moreover have "concat (map thing_bytes (tv # tvs)) = [fst tv] @ snd tv @ concat (map thing_bytes tvs)"
    by (simp add: thing_bytes_def)
  moreover have "length tvs = min m (16 - (i + 1))" using Cons.prems(1) n i by simp
  then have "parses (rd_things (i + 1) m) (concat (map thing_bytes tvs)) (map fst tvs, map snd tvs)"
    using Cons by simp
  ultimately show ?case
    using Cons.prems by (simp only:) (rule parse_intros | assumption | simp)+
qed

lemma parses_coo:
  assumes "coo_shape c"
  shows "parses coo_read (coo_bytes c) c"
proof -
  let ?n = "unat (coo_thingCount c)"
  have tv: "map fst (coo_things c) = take ?n (coo_thingTypes c)" "map snd (coo_things c) = take ?n (coo_thingValues c)"
    using assms by (simp_all add: coo_things_def coo_shape_def flip: take_map)
  have "\<forall>tv \<in> set (coo_things c). length (snd tv) = 16"
    using assms by (auto simp: coo_things_def coo_shape_def dest!: in_set_takeD dest: set_zip_rightD)
  then have t: "parses (rd_things 0 ?n) (concat (map thing_bytes (coo_things c))) (take ?n (coo_thingTypes c), take ?n (coo_thingValues c))"
    using parses_things [of "coo_things c" ?n 0] coo_things_length [OF assms] by (simp add: tv)
  have e: "take ?n (coo_thingTypes c) @ drop (length (take ?n (coo_thingTypes c))) (replicate 16 0) = coo_thingTypes c"
    "take ?n (coo_thingValues c) @ drop (length (take ?n (coo_thingValues c))) (replicate 16 (replicate 16 0)) = coo_thingValues c"
    using assms append_take_drop_id [of ?n "coo_thingTypes c"] append_take_drop_id [of ?n "coo_thingValues c"]
    by (simp_all add: coo_shape_def min_def del: append_take_drop_id)
  have w: "address_wf (coo_issuedTo c)" "address_wf (coo_signedBy c)" "length (coo_signature c) = 96"
    using assms by (simp_all add: coo_shape_def)
  show ?thesis
    unfolding coo_read_def [abs_def] coo_bytes_def coo_head_def append_assoc
    by (rule t w parses_signature parses_extra parse_intros | simp only: fst_conv snd_conv e | simp del: be_bytes_numeral)+
qed

lemma emits_qualifiers:
  "emits (bseq (concat (map (\<lambda>q. [buf_append 8 (q_id q), buf_append 8 (q_value q), buf_append 8 (q_maxDelta q)]) qs)))
     (concat (map q_bytes qs))"
proof (induction qs)
  case Nil
  then show ?case using emits_bseq_Nil by (simp del: bseq.simps)
next
  case (Cons q qs)
  have "emits (bseq [buf_append 8 (q_id q), buf_append 8 (q_value q), buf_append 8 (q_maxDelta q)]) (q_bytes q)"
    unfolding q_bytes_def by (rule emit_intros | simp del: be_bytes_numeral bseq.simps)+
  with Cons show ?case by (simp only: list.map concat.simps) (rule emits_bseq_append)
qed

lemma emits_com: "com_wf c \<Longrightarrow> emits (com_serialize c) (com_bytes c)"
proof -
  assume w: "com_wf c"
  have s: "emits (bseq (if com_signedBy c \<noteq> 0 then [buf_append_bytes (com_signature c) 96] else []))
      (if com_signedBy c \<noteq> 0 then com_signature c else [])"
    using w emits_append_bytes [of 96 "com_signature c"]
    by (auto simp: com_wf_def emits_bseq_Nil intro: emits_bseq_single simp del: bseq.simps)
  show ?thesis
    unfolding com_serialize_def com_bytes_def
    by (simp only: append_Cons [of "buf_append _ _"] append_Cons [of "address_appendTo _"] append_Nil)
      (rule emits_qualifiers s emit_intros | simp del: be_bytes_numeral bseq.simps)+
qed

lemma parses_qualifiers:
  assumes "cnt + length qs \<le> 8" "sorted (map q_id qs)" "\<forall>q \<in> set qs. lastId \<le> q_id q"
  shows "parses (rd_qualifiers (length qs) lastId cnt) (concat (map q_bytes qs)) qs"
  using assms
proof (induction qs arbitrary: cnt lastId)
  case Nil
  then show ?case by (simp add: parses_def)
next
  case (Cons q qs)
  then have IH: "parses (rd_qualifiers (length qs) (q_id q) (cnt + 1)) (concat (map q_bytes qs)) qs" by simp
  have c: "\<not> q_id q < lastId" "cnt < 8" using Cons.prems by auto
  have "rd_qualifiers (length (q # qs)) lastId cnt = (\<lambda>b p. bindE (rd 8 b p) (\<lambda>(qid, p).
      if qid < lastId then Inl (Throw ZT_EXCEPTION_INVALID_SERIALIZED_DATA_BAD_ENCODING)
      else if cnt < 8 then
        bindE (rd 8 b p) (\<lambda>(v, p). bindE (rd 8 b p) (\<lambda>(d, p).
        bindE (rd_qualifiers (length qs) qid (cnt + 1) b p) (\<lambda>(qs, p).
          Inr (\<lparr>q_id = qid, q_value = v, q_maxDelta = d\<rparr> # qs, p))))
      else Inl (Throw ZT_EXCEPTION_INVALID_SERIALIZED_DATA_OVERFLOW)))"
    by (intro ext) simp
  moreover have "concat (map q_bytes (q # qs))
      = be_bytes 8 (q_id q) @ be_bytes 8 (q_value q) @ be_bytes 8 (q_maxDelta q) @ concat (map q_bytes qs)"
    by (simp add: q_bytes_def del: be_bytes_numeral)
  ultimately show ?case
    by (simp only:) (rule IH parse_intros | simp only: c if_True if_False | simp del: be_bytes_numeral)+
qed

lemma parses_com:
  assumes "com_wf c" "com_signedBy c = 0 \<longrightarrow> com_signature c = sig0"
  shows "parses (com_read sig0) (com_bytes c) c"
proof -
  have l: "unat (of_nat (length (com_qualifiers c)) :: u16) = length (com_qualifiers c)"
    using assms(1) by (simp add: com_wf_def unsigned_of_nat take_bit_nat_eq_self)
  have w: "address_wf (com_signedBy c)" "length (com_signature c) = 96" using assms(1) by (simp_all add: com_wf_def)
  have q: "parses (rd_qualifiers (length (com_qualifiers c)) 0 0) (concat (map q_bytes (com_qualifiers c))) (com_qualifiers c)"
    using assms(1) by (intro parses_qualifiers) (simp_all add: com_wf_def)
  have s: "parses (\<lambda>b p. if com_signedBy c \<noteq> 0 then
               bindE (rd_bytes 96 b p) (\<lambda>(sig, p).
                 Inr (\<lparr>com_signedBy = com_signedBy c, com_qualifiers = com_qualifiers c, com_signature = sig\<rparr>, p))
             else Inr (\<lparr>com_signedBy = com_signedBy c, com_qualifiers = com_qualifiers c, com_signature = sig0\<rparr>, p))
      (if com_signedBy c \<noteq> 0 then com_signature c else []) c"
  proof (cases "com_signedBy c = 0")
    case True
    then show ?thesis using assms(2) by (simp add: parses_def)
  next
    case False
    then show ?thesis using w by (simp only: if_True) (rule parse_intros | simp)+
  qed
  show ?thesis
    unfolding com_read_def [abs_def] com_bytes_def
    by (rule s q w parse_intros | simp only: l simp_thms if_False | simp del: be_bytes_numeral)+
qed

interpretation tag_codec: wire_codec "tag_serialize False" tag_read tag_bytes tag_wf
  by unfold_locales (simp_all add: emits_tag parses_tag, simp add: tag_bytes_def tag_head_def sig_bytes_def tag_wf_def)

interpretation rev_codec: wire_codec "rev_serialize False" rev_read rev_bytes rev_wf
  by unfold_locales (simp_all add: emits_rev parses_rev, simp add: rev_bytes_def rev_head_def sig_bytes_def rev_wf_def)

lemma thing_bytes_length: "coo_shape c \<Longrightarrow> length (concat (map thing_bytes (coo_things c))) \<le> 16 * 17"
proof -
  assume w: "coo_shape c"
  have "\<forall>tv \<in> set (coo_things c). length (thing_bytes tv) = 17"
    using w by (auto simp: thing_bytes_def coo_things_def coo_shape_def dest!: in_set_takeD dest: set_zip_rightD)
  then have "map (\<lambda>tv. length (thing_bytes tv)) (coo_things c) = replicate (length (coo_things c)) 17"
    by (simp add: map_replicate_const [symmetric])
  moreover have "length (coo_things c) \<le> 16" using coo_things_length [OF w] by simp
  ultimately show ?thesis by (simp add: length_concat comp_def sum_list_replicate)
qed

interpretation coo_codec: wire_codec "coo_serialize False" coo_read coo_bytes coo_wf
proof
  fix c assume w: "coo_wf c"
  show "emits (coo_serialize False c) (coo_bytes c)" by (rule emits_coo [OF w])
  show "parses coo_read (coo_bytes c) c" using w by (simp add: parses_coo coo_wf_def)
  show "length (coo_bytes c) \<le> 2 ^ 30"
    using thing_bytes_length [of c] w by (simp add: coo_bytes_def coo_head_def sig_bytes_def coo_wf_def coo_shape_def)
qed

interpretation com_codec: wire_codec com_serialize "com_read sig0" com_bytes
    "\<lambda>c. com_wf c \<and> (com_signedBy c = 0 \<longrightarrow> com_signature c = sig0)" for sig0
proof
  fix c assume w: "com_wf c \<and> (com_signedBy c = 0 \<longrightarrow> com_signature c = sig0)"
  show "emits (com_serialize c) (com_bytes c)" using w emits_com by blast
  show "parses (com_read sig0) (com_bytes c) c" using w parses_com by blast
  have "length (concat (map q_bytes qs)) = 24 * length qs" for qs
    by (induction qs) (simp_all add: q_bytes_def)
  then show "length (com_bytes c) \<le> 2 ^ 30" using w by (simp add: com_bytes_def com_wf_def)
qed

section \<open>Round trips\<close>

text \<open>a tag written at the end of a buffer is read back unchanged, and the length reported is the number of
  bytes written.\<close>

theorem tag_roundtrip:
  assumes "tag_wf t" "buf_inv b" "buf_l b + length (tag_bytes t) \<le> buf_capacity b"
  shows "\<exists>b'. tag_serialize False t b = Inr b' \<and> tag_deserialize b' (buf_l b) = Inr (t, buf_l b' - buf_l b)"
  using tag_codec.roundtrip [OF assms] by (auto simp: tag_deserialize_def)

text \<open>a revocation written at the end of a buffer is read back unchanged.\<close>

theorem rev_roundtrip:
  assumes "rev_wf r" "buf_inv b" "buf_l b + length (rev_bytes r) \<le> buf_capacity b"
  shows "\<exists>b'. rev_serialize False r b = Inr b' \<and> rev_deserialize b' (buf_l b) = Inr (r, buf_l b' - buf_l b)"
  using rev_codec.roundtrip [OF assms] by (auto simp: rev_deserialize_def)

text \<open>a certificate of ownership with at most 16 things is read back unchanged.\<close>

theorem coo_roundtrip:
  assumes "coo_wf c" "buf_inv b" "buf_l b + length (coo_bytes c) \<le> buf_capacity b"
  shows "\<exists>b'. coo_serialize False c b = Inr b' \<and> coo_deserialize b' (buf_l b) = Inr (c, buf_l b' - buf_l b)"
  using coo_codec.roundtrip [OF assms] by (auto simp: coo_deserialize_def)

text \<open>a certificate of membership with ordered qualifiers is read back unchanged; an unsigned one keeps the
  signature bytes the object held before.\<close>

theorem com_roundtrip:
  assumes "com_wf c" "com_signedBy c = 0 \<longrightarrow> com_signature c = sig0" "buf_inv b"
    "buf_l b + length (com_bytes c) \<le> buf_capacity b"
  shows "\<exists>b'. com_serialize c b = Inr b' \<and> com_deserialize sig0 b' (buf_l b) = Inr (c, buf_l b' - buf_l b)"
  using com_codec.roundtrip [of c sig0 b] assms by (auto simp: com_deserialize_def)

section \<open>What a signature covers\<close>

locale signed_codec = wire_codec wr rdr enc wf
  for wr :: "'a \<Rightarrow> buffer \<Rightarrow> buffer result" and rdr :: "'a reader" and enc :: "'a \<Rightarrow> bytes" and wf :: "'a \<Rightarrow> bool" +
  fixes ser_sign :: "'a \<Rightarrow> buffer \<Rightarrow> buffer result"
    and head :: "'a \<Rightarrow> bytes"
    and set_sig :: "bytes \<Rightarrow> 'a \<Rightarrow> 'a"
  assumes sign_enc: "wf x \<Longrightarrow> emits (ser_sign x) (pad_bytes @ head x @ be_bytes 2 (0 :: u16) @ pad_bytes)"
    and set_sig_wf: "wf x \<Longrightarrow> length s = 96 \<Longrightarrow> wf (set_sig s x)"
    and enc_set_sig: "wf x \<Longrightarrow> length s = 96 \<Longrightarrow> enc (set_sig s x) = head x @ sig_bytes s @ be_bytes 2 (0 :: u16)"
begin

lemma signature_covers:
  assumes "wf x" "wf y" "buf_inv b" "ser_sign x b = Inr b1" "ser_sign y b = Inr b2" "buf_data b1 = buf_data b2"
    and "length s = 96"
  shows "set_sig s x = set_sig s y"
proof -
  have "buf_data b1 = buf_data b @ pad_bytes @ head x @ be_bytes 2 (0 :: u16) @ pad_bytes"
    "buf_data b2 = buf_data b @ pad_bytes @ head y @ be_bytes 2 (0 :: u16) @ pad_bytes"
    using emitsD [OF sign_enc [OF assms(1)] assms(3)] emitsD [OF sign_enc [OF assms(2)] assms(3)] assms(3-5)
    by (auto simp del: be_bytes_numeral split: if_splits)
  with assms(6) have "head x = head y" by (simp del: be_bytes_numeral)
  then have "enc (set_sig s x) @ [] = enc (set_sig s y) @ []"
    using enc_set_sig [OF assms(1,7)] enc_set_sig [OF assms(2,7)] by simp
  then show ?thesis using prefix_free set_sig_wf assms(1,2,7) by blast
qed

end

lemma emits_sign_pad: "emits (bseq (sign_pad True)) pad_bytes"
  unfolding sign_pad_def pad_bytes_def if_True by (rule emit_intros | simp del: be_bytes_numeral bseq.simps)+

lemma sig_field_True: "sig_field True sig = []"
  by (simp add: sig_field_def)

lemma emits_tag_sign: "emits (tag_serialize True t) (pad_bytes @ tag_head t @ be_bytes 2 (0 :: u16) @ pad_bytes)"
  unfolding tag_serialize_def tag_head_def append_assoc sig_field_True append_Nil
  by (simp only: append_Cons [of "buf_append _ _"] append_Cons [of "address_appendTo _"] append_Nil)
    (rule emits_sign_pad emit_intros | simp del: be_bytes_numeral bseq.simps)+

lemma emits_rev_sign: "emits (rev_serialize True r) (pad_bytes @ rev_head r @ be_bytes 2 (0 :: u16) @ pad_bytes)"
  unfolding rev_serialize_def rev_head_def append_assoc sig_field_True append_Nil
  by (simp only: append_Cons [of "buf_append _ _"] append_Cons [of "address_appendTo _"] append_Nil)
    (rule emits_sign_pad emit_intros | simp del: be_bytes_numeral bseq.simps)+

lemma emits_coo_sign:
  assumes "coo_wf c"
  shows "emits (coo_serialize True c) (pad_bytes @ coo_head c @ be_bytes 2 (0 :: u16) @ pad_bytes)"
proof -
  have w: "coo_shape c" "min (unat (coo_thingCount c)) 16 = unat (coo_thingCount c)" using assms by (simp_all add: coo_wf_def)
  show ?thesis
    using emits_things [OF w(1), unfolded w(2)] unfolding coo_serialize_def coo_head_def append_assoc sig_field_True append_Nil
    by (simp only: append_Cons [of "buf_append _ _"] append_Cons [of "address_appendTo _"] append_Nil)
      (rule emits_sign_pad emit_intros | assumption | simp del: be_bytes_numeral bseq.simps)+
qed

interpretation tag_signed: signed_codec "tag_serialize False" tag_read tag_bytes tag_wf
    "tag_serialize True" tag_head "\<lambda>s t. t\<lparr>tag_signature := s\<rparr>"
  by unfold_locales (rule emits_tag_sign, simp add: tag_wf_def, simp add: tag_bytes_def tag_head_def)

interpretation rev_signed: signed_codec "rev_serialize False" rev_read rev_bytes rev_wf
    "rev_serialize True" rev_head "\<lambda>s r. r\<lparr>rev_signature := s\<rparr>"
  by unfold_locales (rule emits_rev_sign, simp add: rev_wf_def, simp add: rev_bytes_def rev_head_def)

interpretation coo_signed: signed_codec "coo_serialize False" coo_read coo_bytes coo_wf
    "coo_serialize True" coo_head "\<lambda>s c. c\<lparr>coo_signature := s\<rparr>"
  by unfold_locales (erule emits_coo_sign, simp add: coo_wf_def coo_shape_def,
      simp add: coo_bytes_def coo_head_def coo_things_def)

text \<open>C30: the bytes signed determine everything but the signature: two tags, two revocations or two certificates of
  ownership whose serialisations for signing agree are equal up to their signatures.\<close>

theorem signature_covers_credential:
  assumes "buf_inv b" "length s = 96"
  shows "(tag_wf t \<and> tag_wf t' \<and> tag_serialize True t b = Inr x \<and> tag_serialize True t' b = Inr y \<and> buf_data x = buf_data y
      \<longrightarrow> t\<lparr>tag_signature := s\<rparr> = t'\<lparr>tag_signature := s\<rparr>)
    \<and> (rev_wf r \<and> rev_wf r' \<and> rev_serialize True r b = Inr x \<and> rev_serialize True r' b = Inr y \<and> buf_data x = buf_data y
      \<longrightarrow> r\<lparr>rev_signature := s\<rparr> = r'\<lparr>rev_signature := s\<rparr>)
    \<and> (coo_wf c \<and> coo_wf c' \<and> coo_serialize True c b = Inr x \<and> coo_serialize True c' b = Inr y \<and> buf_data x = buf_data y
      \<longrightarrow> c\<lparr>coo_signature := s\<rparr> = c'\<lparr>coo_signature := s\<rparr>)"
  using tag_signed.signature_covers [of t t' b x y s] rev_signed.signature_covers [of r r' b x y s]
    coo_signed.signature_covers [of c c' b x y s] assms by blast

lemma buf_inv_new: "n \<le> 2 ^ 31 \<Longrightarrow> buf_inv (buf_new (replicate n 0))"
  by (simp add: buf_inv_def buf_new_def buf_capacity_def)

lemma emits_new:
  "emits f bs \<Longrightarrow> length bs \<le> n \<Longrightarrow> n \<le> 2 ^ 31 \<Longrightarrow> \<exists>b'. f (buf_new (replicate n 0)) = Inr b' \<and> buf_data b' = bs"
  using emitsD [of f bs "buf_new (replicate n 0)"] buf_inv_new [of n]
  by (auto simp: buf_fits_def buf_new_def buf_capacity_def buf_data_def buf_put_def)

lemma tag_new_wf: "address_wf a \<Longrightarrow> tag_wf (tag_new nwid ts a i v)"
  by (simp add: tag_wf_def tag_new_def address_wf_def)

lemma address_wf_1: "address_wf 1"
  by (simp add: address_wf_def flip: and_mask40)

theorem signature_covers_credential_witness:
  "\<exists>x. tag_serialize True (tag_new 1 2 1 4 5) (buf_new (replicate 100 0)) = Inr x
     \<and> tag_serialize True ((tag_new 1 2 1 4 5)\<lparr>tag_signature := replicate 96 9\<rparr>) (buf_new (replicate 100 0)) = Inr x
     \<and> (tag_new 1 2 1 4 5)\<lparr>tag_signature := replicate 96 7\<rparr>
       = ((tag_new 1 2 1 4 5)\<lparr>tag_signature := replicate 96 9\<rparr>)\<lparr>tag_signature := replicate 96 7\<rparr>"
proof -
  let ?t = "tag_new 1 2 1 4 5" and ?b = "buf_new (replicate 100 0)"
  have l: "length (pad_bytes @ tag_head ?t @ be_bytes 2 (0 :: u16) @ pad_bytes) \<le> 100"
    by (simp add: pad_bytes_def tag_head_def)
  obtain x where x: "tag_serialize True ?t ?b = Inr x" using emits_new [OF emits_tag_sign l] by auto
  then have y: "tag_serialize True (?t\<lparr>tag_signature := replicate 96 9\<rparr>) ?b = Inr x"
    by (simp add: tag_serialize_def sig_field_True)
  have "tag_wf ?t" "tag_wf (?t\<lparr>tag_signature := replicate 96 9\<rparr>)"
    using tag_new_wf [OF address_wf_1, of 1 2 4 5] by (simp_all add: tag_wf_def)
  then show ?thesis
    using signature_covers_credential [of ?b "replicate 96 7" ?t "?t\<lparr>tag_signature := replicate 96 9\<rparr>" x x] x y buf_inv_new [of 100]
    by auto
qed

theorem tag_roundtrip_witness:
  "\<exists>b'. tag_serialize False (tag_new 1 2 1 4 5) (buf_new (replicate 200 0)) = Inr b'
     \<and> tag_deserialize b' 0 = Inr (tag_new 1 2 1 4 5, buf_l b')"
proof -
  have "length (tag_bytes (tag_new 1 2 1 4 5)) = 135" by (simp add: tag_bytes_def tag_head_def tag_new_def sig_bytes_def)
  then show ?thesis
    using tag_roundtrip [OF tag_new_wf [OF address_wf_1] buf_inv_new [of 200], of 1 2 4 5]
    by (auto simp: buf_new_def buf_capacity_def)
qed

lemma coo_new_wf: "address_wf a \<Longrightarrow> coo_wf (coo_new nwid ts a i)"
  by (simp add: coo_wf_def coo_shape_def coo_new_def address_wf_def)

theorem coo_roundtrip_witness:
  "\<exists>b'. coo_serialize False (coo_new 1 2 1 4) (buf_new (replicate 500 0)) = Inr b'
     \<and> coo_deserialize b' 0 = Inr (coo_new 1 2 1 4, buf_l b')"
proof -
  have "length (coo_bytes (coo_new 1 2 1 4)) \<le> 500"
    using thing_bytes_length [of "coo_new 1 2 1 4"] coo_new_wf [OF address_wf_1]
    by (simp add: coo_bytes_def coo_head_def sig_bytes_def coo_wf_def coo_shape_def)
  then show ?thesis
    using coo_roundtrip [OF coo_new_wf [OF address_wf_1] buf_inv_new [of 500], of 1 2 4]
    by (auto simp: buf_new_def buf_capacity_def)
qed

theorem com_roundtrip_witness:
  "\<exists>b'. com_serialize (com_new 1 2 3 4 [5, 6, 7, 8]) (buf_new (replicate 500 0)) = Inr b'
     \<and> com_deserialize (replicate 96 0) b' 0 = Inr (com_new 1 2 3 4 [5, 6, 7, 8], buf_l b')"
proof -
  have up: "[0..<4] = [0, 1, 2, 3::nat]" by code_simp
  have w: "com_wf (com_new 1 2 3 4 [5, 6, 7, 8])"
    by (simp add: com_wf_def com_new_def address_wf_def up)
  have "length (com_bytes (com_new 1 2 3 4 [5, 6, 7, 8])) \<le> 500"
    by (simp add: com_bytes_def com_new_def q_bytes_def up)
  then show ?thesis
    using com_roundtrip [OF w, of "replicate 96 0" "buf_new (replicate 500 0)"] buf_inv_new [of 500]
    by (auto simp: buf_new_def buf_capacity_def com_new_def)
qed

section \<open>Ownership\<close>

lemma bseq_prefix:
  assumes "emits (bseq fs) xs" "buf_inv b" "buf_fits xs b"
  shows "bseq (fs @ gs) b = bseq gs (buf_put xs b)"
proof -
  have "bseq (fs @ gs) b = bindE (bseq fs b) (bseq gs)"
    by (induction fs arbitrary: b) (auto simp: bindE_def split: sum.split)
  then show ?thesis using emitsD [OF assms(1,2)] assms(3) by simp
qed

lemma bseq_upt_UB:
  assumes "coo_shape c" "16 < unat (coo_thingCount c)" "buf_inv b" "buf_fits (replicate 272 0) b"
  shows "bseq (map (coo_append_thing c) [0..<unat (coo_thingCount c)] @ gs) b = Inl UndefinedBehaviour"
proof -
  have n: "[0..<unat (coo_thingCount c)] = [0..<16] @ 16 # [17..<unat (coo_thingCount c)]"
    using assms(2) upt_add_eq_append [of 0 16 "unat (coo_thingCount c) - 16"] upt_conv_Cons [of 16 "unat (coo_thingCount c)"] by simp
  have e: "emits (bseq (map (coo_append_thing c) [0..<16])) (concat (map thing_bytes (coo_things c)))"
    using emits_things [OF assms(1)] assms(2) by (simp add: min_def)
  have f: "buf_fits (concat (map thing_bytes (coo_things c))) b"
    using thing_bytes_length [OF assms(1)] assms(4) by (simp add: buf_fits_def)
  have "coo_append_thing c 16 b' = Inl UndefinedBehaviour" for b'
    using assms(1) by (simp add: coo_append_thing_def coo_shape_def)
  then show ?thesis unfolding n using bseq_prefix [OF e assms(3) f] by simp
qed

text \<open>C40: \<open>deserialize\<close> accepts a thing count above the 16 slots of the arrays; checking the signature of such a
  certificate, before anything about it is authenticated, then reads past the end of the arrays.\<close>

theorem coo_thingCount_unchecked:
  assumes "coo_shape c" "16 < unat (coo_thingCount c)" "located b p (coo_bytes c)"
    and "coo_signedBy c = controllerFor (coo_networkId c)" "coo_signedBy c \<noteq> 0" "getIdentity (coo_signedBy c) = Some vf"
    and "400 \<le> sz" "sz < 2 ^ 16"
  shows "coo_deserialize b p = Inr (c, length (coo_bytes c)) \<and> coo_verify sz getIdentity c = Inl UndefinedBehaviour"
proof -
  define pre where "pre = [buf_append 8 (0x7f7f7f7f7f7f7f7f :: u64), buf_append 8 (coo_networkId c), buf_append 8 (coo_ts c), buf_append 8 (coo_flags c),
         buf_append 4 (coo_id c), buf_append 2 (coo_thingCount c)]"
  have pre: "emits (bseq pre) (be_bytes 8 (0x7f7f7f7f7f7f7f7f :: u64) @ be_bytes 8 (coo_networkId c) @ be_bytes 8 (coo_ts c)
      @ be_bytes 8 (coo_flags c) @ be_bytes 4 (coo_id c) @ be_bytes 2 (coo_thingCount c))" (is "emits _ ?xs")
    unfolding pre_def by (rule emit_intros | simp del: be_bytes_numeral bseq.simps)+
  define b0 where "b0 = buf_new (replicate (sz + 64) 0)"
  have b0: "buf_inv b0" "buf_fits ?xs b0" using assms(7,8) by (simp_all add: b0_def buf_inv_def buf_fits_def buf_new_def buf_capacity_def)
  have f: "buf_fits (replicate 272 0) (buf_put ?xs b0)" using b0 assms(7)
    by (simp add: buf_fits_def buf_capacity_def b0_def buf_new_def buf_put_def)
  have "coo_serialize True c b0 = Inl UndefinedBehaviour"
    using bseq_prefix [OF pre b0] bseq_upt_UB [OF assms(1,2) buf_inv_put [OF b0] f]
    unfolding coo_serialize_def sign_pad_def pre_def if_True append_Cons append_Nil by (simp del: bseq.simps be_bytes_numeral)
  moreover have "coo_deserialize b p = Inr (c, length (coo_bytes c))"
    using parsesD [OF parses_coo [OF assms(1)] assms(3)] by (simp add: coo_deserialize_def)
  ultimately show ?thesis using assms(4-6) by (simp add: coo_verify_def check_signature_def b0_def)
qed

theorem coo_thingCount_unchecked_witness:
  "\<exists>b c. coo_deserialize b 0 = Inr (c, length (coo_bytes c)) \<and> coo_verify 416 (\<lambda>_. Some (\<lambda>_ _. True)) c = Inl UndefinedBehaviour"
proof -
  define c where "c = (coo_new 0x1000000 2 1 4)\<lparr>coo_thingCount := 17, coo_signedBy := 1\<rparr>"
  have s: "coo_shape c"
    using address_wf_1 by (simp add: c_def coo_shape_def coo_new_def)
  have n: "16 < unat (coo_thingCount c)" by (simp add: c_def)
  have k: "coo_signedBy c = controllerFor (coo_networkId c)" "coo_signedBy c \<noteq> 0"
    by (simp_all add: c_def coo_new_def controllerFor_def address_of_def)
  define b where "b = \<lparr>buf_b = coo_bytes c, buf_l = length (coo_bytes c)\<rparr>"
  have "length (coo_bytes c) \<le> 500"
    using thing_bytes_length [OF s] s by (simp add: coo_bytes_def coo_head_def sig_bytes_def coo_shape_def)
  then have l: "located b 0 (coo_bytes c)" by (simp add: located_def b_def buf_inv_def buf_capacity_def buf_data_def)
  show ?thesis using coo_thingCount_unchecked [OF s n l k, of "\<lambda>_. Some (\<lambda>_ _. True)" _ 416] by auto
qed

lemma owns_loop_iff:
  assumes "i + n \<le> length (coo_thingTypes c)" "length (coo_thingValues c) = length (coo_thingTypes c)"
  shows "owns_loop t v c i n = Inr (\<exists>j \<in> {i..<i + n}. coo_thingTypes c ! j = t \<and> take (length v) (coo_thingValues c ! j) = v)"
  using assms
proof (induction n arbitrary: i)
  case (Suc n)
  have "{i..<i + Suc n} = insert i {Suc i..<Suc i + n}" by auto
  then show ?case using Suc by simp
qed simp

text \<open>\<open>owns\<close> of a well-formed certificate stays inside the arrays and holds exactly when one of its things has
  the type asked for and begins with the value asked for.\<close>

theorem coo_owns_iff:
  assumes "coo_wf c"
  shows "coo_owns t v c = Inr (\<exists>(ty, val) \<in> set (coo_things c). ty = t \<and> take (length v) val = v)"
proof -
  have s: "coo_shape c" and n: "unat (coo_thingCount c) \<le> 16" using assms by (simp_all add: coo_wf_def)
  have "coo_things c ! j = (coo_thingTypes c ! j, coo_thingValues c ! j)" if "j < unat (coo_thingCount c)" for j
    using that s n by (simp add: coo_things_def coo_shape_def)
  then have "(\<exists>(ty, val) \<in> set (coo_things c). ty = t \<and> take (length v) val = v) \<longleftrightarrow>
      (\<exists>j < unat (coo_thingCount c). coo_thingTypes c ! j = t \<and> take (length v) (coo_thingValues c ! j) = v)"
    using coo_things_length [OF s] n by (force simp: in_set_conv_nth min_def)
  then show ?thesis
    using s n by (auto simp: coo_owns_def owns_loop_iff coo_shape_def)
qed

theorem coo_owns_iff_witness: "coo_owns THING_MAC_ADDRESS [1] (coo_new 1 2 1 4) = Inr False"
  using coo_owns_iff [OF coo_new_wf [OF address_wf_1], of THING_MAC_ADDRESS "[1]" 1 2 4]
  by (simp add: coo_things_def coo_new_def)


section \<open>Agreement and verification\<close>

lemma agrees_loop_iff:
  "agrees_loop other qs full = Some r \<longleftrightarrow>
    (\<forall>q \<in> set qs. \<exists>v. other (q_id q) = Some v \<and> qdist (q_value q) v \<le> q_maxDelta q)
    \<and> (r \<longleftrightarrow> full \<or> (\<exists>q \<in> set qs. 3 \<le> q_id q \<and> q_id q \<le> 6))"
proof (induction qs arbitrary: full)
  case Nil
  then show ?case by auto
next
  case (Cons q qs)
  show ?case
  proof (cases "other (q_id q)")
    case None
    then show ?thesis by simp
  next
    case (Some v)
    show ?thesis
    proof (cases "qdist (q_value q) v \<le> q_maxDelta q")
      case True
      then have "agrees_loop other (q # qs) full = agrees_loop other qs (if 3 \<le> q_id q \<and> q_id q \<le> 6 then True else full)"
        using Some by (auto simp: Let_def qdist_def)
      with True Some show ?thesis by (simp only: Cons.IH) auto
    next
      case False
      then have "agrees_loop other (q # qs) full = None" using Some by (auto simp: Let_def qdist_def not_le split: if_splits)
      with False Some show ?thesis by auto
    qed
  qed
qed

lemma fields_map:
  "fold (\<lambda>q m. m(q_id q \<mapsto> q_value q)) qs m0 i = Some v \<longleftrightarrow>
    (\<exists>xs q ys. qs = xs @ q # ys \<and> q_id q = i \<and> q_value q = v \<and> i \<notin> q_id ` set ys) \<or> i \<notin> q_id ` set qs \<and> m0 i = Some v"
proof (induction qs rule: rev_induct)
  case (snoc q qs)
  show ?case
  proof (cases "q_id q = i")
    case True
    have "(\<exists>xs p ys. qs @ [q] = xs @ p # ys \<and> q_id p = i \<and> q_value p = v \<and> i \<notin> q_id ` set ys) \<longleftrightarrow> q_value q = v" (is "?l \<longleftrightarrow> _")
    proof
      assume ?l
      then obtain xs p ys where e: "qs @ [q] = xs @ p # ys" "q_value p = v" "i \<notin> q_id ` set ys" by blast
      then have "ys = []" using True by (cases ys rule: rev_cases) auto
      then show "q_value q = v" using e by simp
    qed (use True in \<open>intro exI [of _ qs] exI [of _ q] exI [of _ "[]"], simp\<close>)
    then show ?thesis using True by simp
  next
    case False
    have "(\<exists>xs p ys. qs @ [q] = xs @ p # ys \<and> q_id p = i \<and> q_value p = v \<and> i \<notin> q_id ` set ys)
      \<longleftrightarrow> (\<exists>xs p ys. qs = xs @ p # ys \<and> q_id p = i \<and> q_value p = v \<and> i \<notin> q_id ` set ys)" (is "?l \<longleftrightarrow> ?r")
    proof
      assume ?l
      then obtain xs p ys where e: "qs @ [q] = xs @ p # ys" "q_id p = i" "q_value p = v" "i \<notin> q_id ` set ys" by blast
      then have "ys \<noteq> []" using False by auto
      then obtain zs where "ys = zs @ [q]" "qs = xs @ p # zs" using e(1) by (cases ys rule: rev_cases) auto
      then show ?r using e by auto
    next
      assume ?r
      then obtain xs p ys where "qs = xs @ p # ys" "q_id p = i" "q_value p = v" "i \<notin> q_id ` set ys" by blast
      then show ?l using False by (intro exI [of _ xs] exI [of _ p] exI [of _ "ys @ [q]"]) auto
    qed
    then show ?thesis using snoc.IH False by auto
  qed
qed simp

lemma otherFields_carries: "otherFields c i = Some v \<longleftrightarrow> carries c i v"
  by (simp add: otherFields_def carries_def fields_map)

lemma qdist_le: "qdist a b \<le> d \<longleftrightarrow> \<bar>uint a - uint b\<bar> \<le> uint d"
  by (auto simp: qdist_def word_le_def uint_minus_simple_alt [THEN iffD1] not_le word_less_def)

lemma com_agrees_fields:
  "com_agreesWith this other idHash \<longleftrightarrow>
     com_qualifiers this \<noteq> [] \<and> com_qualifiers other \<noteq> []
     \<and> (\<forall>q \<in> set (com_qualifiers this).
          \<exists>v. otherFields other (q_id q) = Some v \<and> qdist (q_value q) v \<le> q_maxDelta q)
     \<and> ((\<exists>q \<in> set (com_qualifiers this). 3 \<le> q_id q \<and> q_id q \<le> 6) \<longrightarrow>
          (\<forall>i < 4. otherFields other (of_nat (i + 3)) = Some (ntoh64 (idHash ! i))))"
proof (cases "com_qualifiers this = [] \<or> com_qualifiers other = []")
  case False
  then have *: "com_agreesWith this other idHash \<longleftrightarrow>
      (\<exists>r. agrees_loop (otherFields other) (com_qualifiers this) False = Some r
        \<and> (r \<longrightarrow> (\<forall>i < 4. otherFields other (of_nat (i + 3)) = Some (ntoh64 (idHash ! i)))))"
    by (auto simp: com_agreesWith_def split: option.split)
  show ?thesis unfolding * agrees_loop_iff using False by auto
qed (auto simp: com_agreesWith_def)

text \<open>C29: \<open>agreesWith\<close> holds exactly when both certificates have qualifiers, every qualifier of this one is carried by
  the other with a value within its maximum delta, where the last qualifier with an id counts, and, when this one has a qualifier
  of the identity hash (ids 3 to 6), the other carries the four words of the hash of the identity presented.\<close>

theorem com_agreesWith_iff:
  "com_agreesWith this other idHash \<longleftrightarrow>
     com_qualifiers this \<noteq> [] \<and> com_qualifiers other \<noteq> []
     \<and> (\<forall>q \<in> set (com_qualifiers this).
          \<exists>v. carries other (q_id q) v \<and> \<bar>uint (q_value q) - uint v\<bar> \<le> uint (q_maxDelta q))
     \<and> ((\<exists>q \<in> set (com_qualifiers this). 3 \<le> q_id q \<and> q_id q \<le> 6) \<longrightarrow>
          (\<forall>i < 4. carries other (of_nat (i + 3)) (ntoh64 (idHash ! i))))"
  unfolding com_agrees_fields otherFields_carries qdist_le by (rule refl)

theorem com_agreesWith_iff_witness:
  "com_agreesWith \<lparr>com_signedBy = 0, com_qualifiers = [\<lparr>q_id = 0, q_value = 10, q_maxDelta = 5\<rparr>], com_signature = []\<rparr>
       \<lparr>com_signedBy = 0, com_qualifiers = [\<lparr>q_id = 0, q_value = 99, q_maxDelta = 0\<rparr>, \<lparr>q_id = 0, q_value = 12, q_maxDelta = 0\<rparr>], com_signature = []\<rparr> []
   \<and> \<not> com_agreesWith \<lparr>com_signedBy = 0, com_qualifiers = [\<lparr>q_id = 3, q_value = 10, q_maxDelta = 5\<rparr>], com_signature = []\<rparr>
       \<lparr>com_signedBy = 0, com_qualifiers = [\<lparr>q_id = 3, q_value = 10, q_maxDelta = 0\<rparr>], com_signature = []\<rparr> [1, 2, 3, 4]"
proof -
  let ?o = "\<lparr>com_signedBy = 0, com_qualifiers = [\<lparr>q_id = 0, q_value = 99, q_maxDelta = 0\<rparr>, \<lparr>q_id = 0, q_value = 12, q_maxDelta = 0\<rparr>], com_signature = []\<rparr>"
  let ?p = "\<lparr>com_signedBy = 0, com_qualifiers = [\<lparr>q_id = 3, q_value = 10, q_maxDelta = 0\<rparr>], com_signature = []\<rparr>"
  have "carries ?o 0 12" unfolding carries_def
    by (intro exI [of _ "[\<lparr>q_id = 0, q_value = 99, q_maxDelta = 0\<rparr>]"] exI [of _ "\<lparr>q_id = 0, q_value = 12, q_maxDelta = 0\<rparr>"] exI [of _ "[]"]) simp
  moreover have "\<not> carries ?p 4 v" for v by (auto simp: carries_def Cons_eq_append_conv)
  then have "\<not> (\<forall>i < 4. carries ?p (of_nat (i + 3)) (ntoh64 ([1, 2, 3, 4] ! i)))" by (intro notI) (drule spec [of _ 1], simp)
  ultimately show ?thesis by (subst (1 2) com_agreesWith_iff) (auto intro!: exI [of _ 12])
qed

lemma ntoh64_inject [simp]: "ntoh64 a = ntoh64 b \<longleftrightarrow> a = b"
proof -
  have "swapBytes64 (swapBytes64 x) = x" for x
  proof -
    have "be_bytes 8 (swapBytes64 (swapBytes64 x)) = be_bytes 8 x"
      by (simp only: swapBytes64_bytes le_bytes_swapBytes64)
    then show ?thesis by (simp add: be_bytes_inject take_bit_word_eq_self del: be_bytes_numeral)
  qed
  then show ?thesis unfolding ntoh64_def by metis
qed

lemma all4: "(\<forall>i < (4::nat). P i) \<longleftrightarrow> P 0 \<and> P 1 \<and> P 2 \<and> P 3"
  by (auto simp: less_Suc_eq numeral_eq_Suc)

text \<open>for certificates as controllers issue them, agreement is: timestamps within the delta, the same network and
  the hash of the identity the peer presented.\<close>

theorem com_agreesWith_new:
  assumes "length h' = 4" "length idHash = 4"
  shows "com_agreesWith (com_new ts d nwid a h) (com_new ts' d' nwid' a' h') idHash \<longleftrightarrow>
    qdist ts ts' \<le> d \<and> nwid = nwid' \<and> idHash = h'"
proof -
  obtain h0 h1 h2 h3 where h: "h' = [h0, h1, h2, h3]" using assms(1) by (auto simp: length_Suc_conv numeral_eq_Suc)
  have all: "x \<le> 0xffffffffffffffff" for x :: u64 using unat_bound [of x] by (simp add: word_le_nat_alt)
  have up: "[0..<4] = [0, 1, 2, 3::nat]" by code_simp
  have o: "otherFields (com_new ts' d' nwid' a' h') =
      [0 \<mapsto> ts', 1 \<mapsto> nwid', 2 \<mapsto> a', 3 \<mapsto> ntoh64 h0, 4 \<mapsto> ntoh64 h1, 5 \<mapsto> ntoh64 h2, 6 \<mapsto> ntoh64 h3]"
    by (simp add: otherFields_def com_new_def up h)
  have z: "qdist nwid nwid' = 0 \<longleftrightarrow> nwid = nwid'" by (auto simp: qdist_def)
  have q: "com_qualifiers (com_new ts d nwid a h) =
      [\<lparr>q_id = 0, q_value = ts, q_maxDelta = d\<rparr>, \<lparr>q_id = 1, q_value = nwid, q_maxDelta = 0\<rparr>,
       \<lparr>q_id = 2, q_value = a, q_maxDelta = 0xffffffffffffffff\<rparr>,
       \<lparr>q_id = 3, q_value = ntoh64 (h ! 0), q_maxDelta = 0xffffffffffffffff\<rparr>,
       \<lparr>q_id = 4, q_value = ntoh64 (h ! 1), q_maxDelta = 0xffffffffffffffff\<rparr>,
       \<lparr>q_id = 5, q_value = ntoh64 (h ! 2), q_maxDelta = 0xffffffffffffffff\<rparr>,
       \<lparr>q_id = 6, q_value = ntoh64 (h ! 3), q_maxDelta = 0xffffffffffffffff\<rparr>]" for ts d nwid a h
    by (simp add: com_new_def up)
  have i: "(\<forall>i < 4. otherFields (com_new ts' d' nwid' a' h') (of_nat (i + 3)) = Some (ntoh64 (idHash ! i))) \<longleftrightarrow> idHash = h'"
  proof -
    obtain i0 i1 i2 i3 where "idHash = [i0, i1, i2, i3]" using assms(2) by (auto simp: length_Suc_conv numeral_eq_Suc)
    then show ?thesis unfolding o all4 by (simp add: h eq_commute [of h0] eq_commute [of h1] eq_commute [of h2] eq_commute [of h3])
  qed
  show ?thesis
    unfolding com_agrees_fields i unfolding o q by (simp add: all z)
qed

theorem com_agreesWith_new_witness:
  "com_agreesWith (com_new 10 5 3 4 [5, 6, 7, 8]) (com_new 12 5 3 9 [1, 2, 3, 4]) [1, 2, 3, 4]"
  using com_agreesWith_new [of "[1, 2, 3, 4]" "[1, 2, 3, 4]" 10 5 3 4 "[5, 6, 7, 8]" 12 5 3 9] by (simp add: qdist_def)

text \<open>a credential verifies only if it names the controller of its network as signer, that controller's identity is
  known and the signature is valid for the bytes of the credential.\<close>

theorem verify_sound:
  assumes "check_signature getIdentity cap ser signedBy nwid sig = Inr VerifyOK"
  shows "signedBy \<noteq> 0 \<and> signedBy = controllerFor nwid \<and>
    (\<exists>vf tmp. getIdentity signedBy = Some vf \<and> ser (buf_new (replicate cap 0)) = Inr tmp \<and> vf (buf_data tmp) sig)"
  using assms by (auto simp: check_signature_def split: if_splits option.splits sum.splits fault.splits)

theorem verify_sound_witness:
  "check_signature (\<lambda>_. Some (\<lambda>_ _. True)) 8 (buf_append 1 (7 :: u8)) 1 0x1000000 [] = Inr VerifyOK
   \<and> (1::u64) = controllerFor 0x1000000"
proof -
  have "check_signature (\<lambda>_. Some (\<lambda>_ _. True)) 8 (buf_append 1 (7 :: u8)) 1 0x1000000 [] = Inr VerifyOK"
    by (simp add: check_signature_def controllerFor_def address_of_def buf_append_def buf_store_def mem_write_def
        buf_new_def buf_capacity_def)
  with verify_sound [OF this] show ?thesis by blast
qed


end
