(* ===== verification/ZT_Capability.thy ===== *)
theory ZT_Capability
  imports ZT_Credentials
begin

text \<open>
  The flow rules of \<^verbatim>\<open>include/ZeroTierOne.h\<close> and \<^verbatim>\<open>node/Capability\<close>. The value of a rule is a C union of which the
  code only reads and writes the member that the type selects: here every member is a component of the record of its own, and
  a rule read from the wire has all other members zero, as in the zeroed array it is read into. A capability
  carries its rules and the chain of custody, an array of seven entries.
\<close>

section \<open>Rules\<close>

abbreviation (input) ACTION_DROP :: u8 where "ACTION_DROP \<equiv> 0"
abbreviation (input) ACTION_ACCEPT :: u8 where "ACTION_ACCEPT \<equiv> 1"
abbreviation (input) ACTION_TEE :: u8 where "ACTION_TEE \<equiv> 2"
abbreviation (input) ACTION_WATCH :: u8 where "ACTION_WATCH \<equiv> 3"
abbreviation (input) ACTION_REDIRECT :: u8 where "ACTION_REDIRECT \<equiv> 4"
abbreviation (input) ACTION_BREAK :: u8 where "ACTION_BREAK \<equiv> 5"
abbreviation (input) ACTION_PRIORITY :: u8 where "ACTION_PRIORITY \<equiv> 6"
abbreviation (input) ACTION__MAX_ID :: u8 where "ACTION__MAX_ID \<equiv> 15"
abbreviation (input) MATCH_SOURCE_ZEROTIER_ADDRESS :: u8 where "MATCH_SOURCE_ZEROTIER_ADDRESS \<equiv> 24"
abbreviation (input) MATCH_DEST_ZEROTIER_ADDRESS :: u8 where "MATCH_DEST_ZEROTIER_ADDRESS \<equiv> 25"
abbreviation (input) MATCH_VLAN_ID :: u8 where "MATCH_VLAN_ID \<equiv> 26"
abbreviation (input) MATCH_VLAN_PCP :: u8 where "MATCH_VLAN_PCP \<equiv> 27"
abbreviation (input) MATCH_VLAN_DEI :: u8 where "MATCH_VLAN_DEI \<equiv> 28"
abbreviation (input) MATCH_MAC_SOURCE :: u8 where "MATCH_MAC_SOURCE \<equiv> 29"
abbreviation (input) MATCH_MAC_DEST :: u8 where "MATCH_MAC_DEST \<equiv> 30"
abbreviation (input) MATCH_IPV4_SOURCE :: u8 where "MATCH_IPV4_SOURCE \<equiv> 31"
abbreviation (input) MATCH_IPV4_DEST :: u8 where "MATCH_IPV4_DEST \<equiv> 32"
abbreviation (input) MATCH_IPV6_SOURCE :: u8 where "MATCH_IPV6_SOURCE \<equiv> 33"
abbreviation (input) MATCH_IPV6_DEST :: u8 where "MATCH_IPV6_DEST \<equiv> 34"
abbreviation (input) MATCH_IP_TOS :: u8 where "MATCH_IP_TOS \<equiv> 35"
abbreviation (input) MATCH_IP_PROTOCOL :: u8 where "MATCH_IP_PROTOCOL \<equiv> 36"
abbreviation (input) MATCH_ETHERTYPE :: u8 where "MATCH_ETHERTYPE \<equiv> 37"
abbreviation (input) MATCH_ICMP :: u8 where "MATCH_ICMP \<equiv> 38"
abbreviation (input) MATCH_IP_SOURCE_PORT_RANGE :: u8 where "MATCH_IP_SOURCE_PORT_RANGE \<equiv> 39"
abbreviation (input) MATCH_IP_DEST_PORT_RANGE :: u8 where "MATCH_IP_DEST_PORT_RANGE \<equiv> 40"
abbreviation (input) MATCH_CHARACTERISTICS :: u8 where "MATCH_CHARACTERISTICS \<equiv> 41"
abbreviation (input) MATCH_FRAME_SIZE_RANGE :: u8 where "MATCH_FRAME_SIZE_RANGE \<equiv> 42"
abbreviation (input) MATCH_RANDOM :: u8 where "MATCH_RANDOM \<equiv> 43"
abbreviation (input) MATCH_TAGS_DIFFERENCE :: u8 where "MATCH_TAGS_DIFFERENCE \<equiv> 44"
abbreviation (input) MATCH_TAGS_BITWISE_AND :: u8 where "MATCH_TAGS_BITWISE_AND \<equiv> 45"
abbreviation (input) MATCH_TAGS_BITWISE_OR :: u8 where "MATCH_TAGS_BITWISE_OR \<equiv> 46"
abbreviation (input) MATCH_TAGS_BITWISE_XOR :: u8 where "MATCH_TAGS_BITWISE_XOR \<equiv> 47"
abbreviation (input) MATCH_TAGS_EQUAL :: u8 where "MATCH_TAGS_EQUAL \<equiv> 48"
abbreviation (input) MATCH_TAG_SENDER :: u8 where "MATCH_TAG_SENDER \<equiv> 49"
abbreviation (input) MATCH_TAG_RECEIVER :: u8 where "MATCH_TAG_RECEIVER \<equiv> 50"
abbreviation (input) MATCH_INTEGER_RANGE :: u8 where "MATCH_INTEGER_RANGE \<equiv> 51"

record vnrule =
  r_t :: u8
  v_ipv6 :: "bytes \<times> u8"
  v_ipv4 :: "u32 \<times> u8"
  v_intRange :: "u64 \<times> u32 \<times> u16 \<times> u8"
  v_characteristics :: u64
  v_port :: "u16 \<times> u16"
  v_zt :: u64
  v_randomProbability :: u32
  v_mac :: bytes
  v_vlanId :: u16
  v_vlanPcp :: u8
  v_vlanDei :: u8
  v_etherType :: u16
  v_ipProtocol :: u8
  v_ipTos :: "u8 \<times> u8 \<times> u8"
  v_frameSize :: "u16 \<times> u16"
  v_icmp :: "u8 \<times> u8 \<times> u8"
  v_tag :: "u32 \<times> u32"
  v_fwd :: "u64 \<times> u32 \<times> u16"
  v_qosBucket :: u8

definition rule0 :: "u8 \<Rightarrow> vnrule" where
  "rule0 t =
    \<lparr>r_t = t, v_ipv6 = (replicate 16 0, 0), v_ipv4 = (0, 0), v_intRange = (0, 0, 0, 0), v_characteristics = 0,
     v_port = (0, 0), v_zt = 0, v_randomProbability = 0, v_mac = replicate 6 0, v_vlanId = 0, v_vlanPcp = 0,
     v_vlanDei = 0, v_etherType = 0, v_ipProtocol = 0, v_ipTos = (0, 0, 0), v_frameSize = (0, 0),
     v_icmp = (0, 0, 0), v_tag = (0, 0), v_fwd = (0, 0, 0), v_qosBucket = 0\<rparr>"

definition rule_type :: "u8 \<Rightarrow> u8" where
  "rule_type t = t AND 0x3f"

definition serializeRule :: "vnrule \<Rightarrow> (buffer \<Rightarrow> buffer result) list" where
  "serializeRule r = (let rt = rule_type (r_t r) in
    [buf_append 1 (r_t r)] @
    (if rt \<in> {ACTION_TEE, ACTION_WATCH, ACTION_REDIRECT} then
       (case v_fwd r of (a, fl, len) \<Rightarrow> [buf_append 1 (14 :: u8), buf_append 8 a, buf_append 4 fl, buf_append 2 len])
     else if rt \<in> {MATCH_SOURCE_ZEROTIER_ADDRESS, MATCH_DEST_ZEROTIER_ADDRESS} then
       [buf_append 1 (5 :: u8), address_appendTo (address_of (v_zt r))]
     else if rt = MATCH_VLAN_ID then [buf_append 1 (2 :: u8), buf_append 2 (v_vlanId r)]
     else if rt = MATCH_VLAN_PCP then [buf_append 1 (1 :: u8), buf_append 1 (v_vlanPcp r)]
     else if rt = MATCH_VLAN_DEI then [buf_append 1 (1 :: u8), buf_append 1 (v_vlanDei r)]
     else if rt \<in> {MATCH_MAC_SOURCE, MATCH_MAC_DEST} then [buf_append 1 (6 :: u8), buf_append_bytes (v_mac r) 6]
     else if rt \<in> {MATCH_IPV4_SOURCE, MATCH_IPV4_DEST} then
       (case v_ipv4 r of (ip, m) \<Rightarrow> [buf_append 1 (5 :: u8), buf_append_bytes (le_bytes 4 ip) 4, buf_append 1 m])
     else if rt \<in> {MATCH_IPV6_SOURCE, MATCH_IPV6_DEST} then
       (case v_ipv6 r of (ip, m) \<Rightarrow> [buf_append 1 (17 :: u8), buf_append_bytes ip 16, buf_append 1 m])
     else if rt = MATCH_IP_TOS then
       (case v_ipTos r of (m, x, y) \<Rightarrow> [buf_append 1 (3 :: u8), buf_append 1 m, buf_append 1 x, buf_append 1 y])
     else if rt = MATCH_IP_PROTOCOL then [buf_append 1 (1 :: u8), buf_append 1 (v_ipProtocol r)]
     else if rt = MATCH_ETHERTYPE then [buf_append 1 (2 :: u8), buf_append 2 (v_etherType r)]
     else if rt = MATCH_ICMP then
       (case v_icmp r of (ty, c, fl) \<Rightarrow> [buf_append 1 (3 :: u8), buf_append 1 ty, buf_append 1 c, buf_append 1 fl])
     else if rt \<in> {MATCH_IP_SOURCE_PORT_RANGE, MATCH_IP_DEST_PORT_RANGE} then
       (case v_port r of (x, y) \<Rightarrow> [buf_append 1 (4 :: u8), buf_append 2 x, buf_append 2 y])
     else if rt = MATCH_CHARACTERISTICS then [buf_append 1 (8 :: u8), buf_append 8 (v_characteristics r)]
     else if rt = MATCH_FRAME_SIZE_RANGE then
       (case v_frameSize r of (x, y) \<Rightarrow> [buf_append 1 (4 :: u8), buf_append 2 x, buf_append 2 y])
     else if rt = MATCH_RANDOM then [buf_append 1 (4 :: u8), buf_append 4 (v_randomProbability r)]
     else if rt \<in> {MATCH_TAGS_DIFFERENCE, MATCH_TAGS_BITWISE_AND, MATCH_TAGS_BITWISE_OR, MATCH_TAGS_BITWISE_XOR,
                   MATCH_TAGS_EQUAL, MATCH_TAG_SENDER, MATCH_TAG_RECEIVER} then
       (case v_tag r of (i, x) \<Rightarrow> [buf_append 1 (8 :: u8), buf_append 4 i, buf_append 4 x])
     else if rt = MATCH_INTEGER_RANGE then
       (case v_intRange r of (start, len, idx, fmt) \<Rightarrow>
          [buf_append 1 (19 :: u8), buf_append 8 start, buf_append 8 (start + ucast len), buf_append 2 idx, buf_append 1 fmt])
     else [buf_append 1 (0 :: u8)]))"

definition serializeRules :: "vnrule list \<Rightarrow> (buffer \<Rightarrow> buffer result) list" where
  "serializeRules rs = concat (map serializeRule rs)"

definition read_rule_value :: "u8 \<Rightarrow> buffer \<Rightarrow> nat \<Rightarrow> vnrule result" where
  "read_rule_value t b p = (let rt = rule_type t; r = rule0 t in
    if rt \<in> {ACTION_TEE, ACTION_WATCH, ACTION_REDIRECT} then
      bindE (buf_at 8 b p) (\<lambda>a. bindE (buf_at 4 b (p + 8)) (\<lambda>fl. bindE (buf_at 2 b (p + 12)) (\<lambda>len.
        Inr (r\<lparr>v_fwd := (a, fl, len)\<rparr>))))
    else if rt \<in> {MATCH_SOURCE_ZEROTIER_ADDRESS, MATCH_DEST_ZEROTIER_ADDRESS} then
      bindE (rd_address b p) (\<lambda>(a, _). Inr (r\<lparr>v_zt := a\<rparr>))
    else if rt = MATCH_VLAN_ID then bindE (buf_at 2 b p) (\<lambda>x. Inr (r\<lparr>v_vlanId := x\<rparr>))
    else if rt = MATCH_VLAN_PCP then bindE (buf_index b p) (\<lambda>x. Inr (r\<lparr>v_vlanPcp := x\<rparr>))
    else if rt = MATCH_VLAN_DEI then bindE (buf_index b p) (\<lambda>x. Inr (r\<lparr>v_vlanDei := x\<rparr>))
    else if rt \<in> {MATCH_MAC_SOURCE, MATCH_MAC_DEST} then bindE (buf_get b p 6) (\<lambda>m. Inr (r\<lparr>v_mac := m\<rparr>))
    else if rt \<in> {MATCH_IPV4_SOURCE, MATCH_IPV4_DEST} then
      bindE (buf_get b p 4) (\<lambda>bs. bindE (load_le32 bs) (\<lambda>ip. bindE (buf_index b (p + 4)) (\<lambda>m.
        Inr (r\<lparr>v_ipv4 := (ip, m)\<rparr>))))
    else if rt \<in> {MATCH_IPV6_SOURCE, MATCH_IPV6_DEST} then
      bindE (buf_get b p 16) (\<lambda>ip. bindE (buf_index b (p + 16)) (\<lambda>m. Inr (r\<lparr>v_ipv6 := (ip, m)\<rparr>)))
    else if rt = MATCH_IP_TOS then
      bindE (buf_index b p) (\<lambda>m. bindE (buf_index b (p + 1)) (\<lambda>x. bindE (buf_index b (p + 2)) (\<lambda>y.
        Inr (r\<lparr>v_ipTos := (m, x, y)\<rparr>))))
    else if rt = MATCH_IP_PROTOCOL then bindE (buf_index b p) (\<lambda>x. Inr (r\<lparr>v_ipProtocol := x\<rparr>))
    else if rt = MATCH_ETHERTYPE then bindE (buf_at 2 b p) (\<lambda>x. Inr (r\<lparr>v_etherType := x\<rparr>))
    else if rt = MATCH_ICMP then
      bindE (buf_index b p) (\<lambda>ty. bindE (buf_index b (p + 1)) (\<lambda>c. bindE (buf_index b (p + 2)) (\<lambda>fl.
        Inr (r\<lparr>v_icmp := (ty, c, fl)\<rparr>))))
    else if rt \<in> {MATCH_IP_SOURCE_PORT_RANGE, MATCH_IP_DEST_PORT_RANGE} then
      bindE (buf_at 2 b p) (\<lambda>x. bindE (buf_at 2 b (p + 2)) (\<lambda>y. Inr (r\<lparr>v_port := (x, y)\<rparr>)))
    else if rt = MATCH_CHARACTERISTICS then bindE (buf_at 8 b p) (\<lambda>x. Inr (r\<lparr>v_characteristics := x\<rparr>))
    else if rt = MATCH_FRAME_SIZE_RANGE then
      bindE (buf_at 2 b p) (\<lambda>x. bindE (buf_at 2 b (p + 2)) (\<lambda>y. Inr (r\<lparr>v_frameSize := (x, y)\<rparr>)))
    else if rt = MATCH_RANDOM then bindE (buf_at 4 b p) (\<lambda>x. Inr (r\<lparr>v_randomProbability := x\<rparr>))
    else if rt \<in> {MATCH_TAGS_DIFFERENCE, MATCH_TAGS_BITWISE_AND, MATCH_TAGS_BITWISE_OR, MATCH_TAGS_BITWISE_XOR,
                  MATCH_TAGS_EQUAL, MATCH_TAG_SENDER, MATCH_TAG_RECEIVER} then
      bindE (buf_at 4 b p) (\<lambda>i. bindE (buf_at 4 b (p + 4)) (\<lambda>x. Inr (r\<lparr>v_tag := (i, x)\<rparr>)))
    else if rt = MATCH_INTEGER_RANGE then
      bindE (buf_at 8 b p) (\<lambda>start. bindE (buf_at 8 b (p + 8)) (\<lambda>e.
      bindE (buf_at 2 b (p + 16)) (\<lambda>idx. bindE (buf_index b (p + 18)) (\<lambda>fmt.
        Inr (r\<lparr>v_intRange := (start, ucast (e - start :: u64), idx, fmt)\<rparr>)))))
    else Inr r)"

definition rd_rule :: "vnrule reader" where
  "rd_rule b p =
    bindE (rd_u8 b p) (\<lambda>(t, p). bindE (rd_u8 b p) (\<lambda>(fieldLen, p).
    bindE (read_rule_value t b p) (\<lambda>r. Inr (r, p + unat fieldLen))))"

text \<open>\<open>n\<close> is how many rules are still wanted.\<close>

fun deserializeRules :: "nat \<Rightarrow> vnrule list reader" where
  "deserializeRules 0 b p = Inr ([], p)"
| "deserializeRules (Suc n) b p =
    (if p < buf_l b then
       bindE (rd_rule b p) (\<lambda>(r, p). bindE (deserializeRules n b p) (\<lambda>(rs, p). Inr (r # rs, p)))
     else Inr ([], p))"

section \<open>Capabilities\<close>

abbreviation (input) ZT_MAX_CAPABILITY_RULES :: nat where "ZT_MAX_CAPABILITY_RULES \<equiv> 64"
abbreviation (input) ZT_MAX_CAPABILITY_CUSTODY_CHAIN_LENGTH :: nat where "ZT_MAX_CAPABILITY_CUSTODY_CHAIN_LENGTH \<equiv> 7"

record custody =
  cu_to :: address
  cu_from :: address
  cu_signature :: bytes

definition custody0 :: custody where
  "custody0 = \<lparr>cu_to = 0, cu_from = 0, cu_signature = replicate 96 0\<rparr>"

text \<open>The rules in use, \<open>_rules[0 .. _ruleCount)\<close>, are the list \<open>cap_rules\<close>.\<close>

record capability =
  cap_nwid :: u64
  cap_ts :: u64
  cap_id :: u32
  cap_maxCustodyChainLength :: nat
  cap_rules :: "vnrule list"
  cap_custody :: "custody list"

definition cap_new :: "u32 \<Rightarrow> u64 \<Rightarrow> u64 \<Rightarrow> nat \<Rightarrow> vnrule list \<Rightarrow> capability" where
  "cap_new i nwid ts mccl rules =
    \<lparr>cap_nwid = nwid, cap_ts = ts, cap_id = i,
     cap_maxCustodyChainLength =
       (if mccl > 0 then (if mccl < ZT_MAX_CAPABILITY_CUSTODY_CHAIN_LENGTH then mccl else ZT_MAX_CAPABILITY_CUSTODY_CHAIN_LENGTH) else 1),
     cap_rules = take (if length rules < ZT_MAX_CAPABILITY_RULES then length rules else ZT_MAX_CAPABILITY_RULES) rules,
     cap_custody = replicate 7 custody0\<rparr>"

fun issuedTo_loop :: "address \<Rightarrow> custody list \<Rightarrow> address" where
  "issuedTo_loop i2 [] = i2"
| "issuedTo_loop i2 (c # cs) = (if cu_to c = 0 then i2 else issuedTo_loop (cu_to c) cs)"

definition cap_issuedTo :: "capability \<Rightarrow> address" where
  "cap_issuedTo c = issuedTo_loop 0 (cap_custody c)"

definition custody_append :: "custody \<Rightarrow> (buffer \<Rightarrow> buffer result) list" where
  "custody_append cu =
    [address_appendTo (cu_to cu), address_appendTo (cu_from cu), buf_append 1 (1 :: u8), buf_append 2 (96 :: u16),
     buf_append_bytes (cu_signature cu) ZT_ECC_SIGNATURE_LEN]"

text \<open>The entries in use: up to the maximum length and the first one without a holder.\<close>

definition custody_used :: "capability \<Rightarrow> custody list" where
  "custody_used c = takeWhile (\<lambda>cu. cu_to cu \<noteq> 0) (take (cap_maxCustodyChainLength c) (take 7 (cap_custody c)))"

definition cap_serialize :: "bool \<Rightarrow> capability \<Rightarrow> buffer \<Rightarrow> buffer result" where
  "cap_serialize forSign c =
    bseq (sign_pad forSign
      @ [buf_append 8 (cap_nwid c), buf_append 8 (cap_ts c), buf_append 4 (cap_id c),
         buf_append 2 (of_nat (length (cap_rules c)) :: u16)]
      @ serializeRules (cap_rules c)
      @ [buf_append 1 (of_nat (cap_maxCustodyChainLength c) :: u8)]
      @ (if \<not> forSign then concat (map custody_append (custody_used c)) @ [buf_append_run 0 5] else [])
      @ [buf_append 2 (0 :: u16)]
      @ sign_pad forSign)"

text \<open>\<open>n\<close> is how many entries the chain may still have.\<close>

fun rd_custody :: "nat \<Rightarrow> custody list reader" where
  "rd_custody n b p =
    bindE (rd_address b p) (\<lambda>(to, p).
      if to = 0 then Inr ([], p)
      else case n of
        0 \<Rightarrow> Inl (Throw ZT_EXCEPTION_INVALID_SERIALIZED_DATA_OVERFLOW)
      | Suc m \<Rightarrow>
          bindE (rd_address b p) (\<lambda>(fr, p). bindE (rd_signature b p) (\<lambda>(sig, p).
          bindE (rd_custody m b p) (\<lambda>(cs, p).
            Inr (\<lparr>cu_to = to, cu_from = fr, cu_signature = sig\<rparr> # cs, p)))))"

definition cap_read :: "capability reader" where
  "cap_read b p =
    bindE (rd 8 b p) (\<lambda>(nwid, p). bindE (rd 8 b p) (\<lambda>(ts, p). bindE (rd 4 b p) (\<lambda>(i, p).
    bindE (rd 2 b p) (\<lambda>(rc :: u16, p).
      if unat rc > ZT_MAX_CAPABILITY_RULES then Inl (Throw ZT_EXCEPTION_INVALID_SERIALIZED_DATA_OVERFLOW)
      else bindE (deserializeRules (unat rc) b p) (\<lambda>(rules, p).
           bindE (rd_u8 b p) (\<lambda>(m, p).
             if m < 1 \<or> m > 7 then Inl (Throw ZT_EXCEPTION_INVALID_SERIALIZED_DATA_OVERFLOW)
             else bindE (rd_custody (unat m) b p) (\<lambda>(cs, p). bindE (rd_extra b p) (\<lambda>(_, p).
               Inr (\<lparr>cap_nwid = nwid, cap_ts = ts, cap_id = i, cap_maxCustodyChainLength = unat m, cap_rules = rules,
                     cap_custody = cs @ replicate (7 - length cs) custody0\<rparr>, p)))))))))"

definition cap_deserialize :: "buffer \<Rightarrow> nat \<Rightarrow> (capability \<times> nat) result" where
  "cap_deserialize b startAt = bindE (cap_read b startAt) (\<lambda>(c, p). Inr (c, p - startAt))"

text \<open>\<open>signer\<close> is the private key's signing function of the identity \<open>addr\<close>; signing without one throws, which
  \<open>sign\<close> turns into false, as it does an overflow of the buffer of \<open>2 * sizeof(Capability)\<close> bytes.\<close>

definition cap_sign :: "nat \<Rightarrow> address \<Rightarrow> (bytes \<Rightarrow> bytes) option \<Rightarrow> address \<Rightarrow> capability \<Rightarrow> (bool \<times> capability) result" where
  "cap_sign sz addr signer to c =
    (let k = length (takeWhile (\<lambda>cu. cu_to cu \<noteq> 0) (take (cap_maxCustodyChainLength c) (take 7 (cap_custody c)))) in
     if k < cap_maxCustodyChainLength c \<and> k < 7 then
       (case cap_serialize True c (buf_new (replicate (sz * 2) 0)) of
          Inl UndefinedBehaviour \<Rightarrow> Inl UndefinedBehaviour
        | Inl (Throw _) \<Rightarrow> Inr (False, c)
        | Inr tmp \<Rightarrow>
            let c1 = c\<lparr>cap_custody := (cap_custody c)[k := (cap_custody c ! k)\<lparr>cu_to := to, cu_from := addr\<rparr>]\<rparr> in
            case signer of
              None \<Rightarrow> Inr (False, c1)
            | Some sg \<Rightarrow>
                Inr (True, c1\<lparr>cap_custody := (cap_custody c1)[k := (cap_custody c1 ! k)\<lparr>cu_signature := sg (buf_data tmp)\<rparr>]\<rparr>))
     else Inr (False, c))"

fun cap_verify_loop :: "(address \<Rightarrow> verifier option) \<Rightarrow> u64 \<Rightarrow> bytes \<Rightarrow> address option \<Rightarrow> custody list \<Rightarrow> verify_result" where
  "cap_verify_loop getIdentity nwid data prev [] = VerifyOK"
| "cap_verify_loop getIdentity nwid data prev (cu # cs) =
    (let go = (case getIdentity (cu_from cu) of
                 Some vf \<Rightarrow>
                   if \<not> vf data (cu_signature cu) then VerifyBad
                   else cap_verify_loop getIdentity nwid data (Some (cu_to cu)) cs
               | None \<Rightarrow> VerifyWaitWhois (cu_from cu))
     in case prev of
          None \<Rightarrow> if cu_to cu = 0 \<or> cu_from cu = 0 \<or> cu_from cu \<noteq> controllerFor nwid then VerifyBad else go
        | Some pto \<Rightarrow>
            if cu_to cu = 0 then VerifyOK
            else if cu_from cu = 0 \<or> cu_from cu \<noteq> pto then VerifyBad else go)"

definition cap_verify :: "nat \<Rightarrow> (address \<Rightarrow> verifier option) \<Rightarrow> capability \<Rightarrow> verify_result result" where
  "cap_verify sz getIdentity c =
    (if cap_maxCustodyChainLength c < 1 \<or> cap_maxCustodyChainLength c > ZT_MAX_CAPABILITY_CUSTODY_CHAIN_LENGTH then Inr VerifyBad
     else case cap_serialize True c (buf_new (replicate (sz * 2) 0)) of
       Inl UndefinedBehaviour \<Rightarrow> Inl UndefinedBehaviour
     | Inl (Throw _) \<Rightarrow> Inr VerifyBad
     | Inr tmp \<Rightarrow>
         Inr (cap_verify_loop getIdentity (cap_nwid c) (buf_data tmp) None
                (take (cap_maxCustodyChainLength c) (cap_custody c))))"

section \<open>Encodings\<close>

definition rule_payload :: "vnrule \<Rightarrow> bytes" where
  "rule_payload r = (let rt = rule_type (r_t r) in
    if rt \<in> {ACTION_TEE, ACTION_WATCH, ACTION_REDIRECT} then
       (case v_fwd r of (a, fl, len) \<Rightarrow> be_bytes 8 a @ be_bytes 4 fl @ be_bytes 2 len)
     else if rt \<in> {MATCH_SOURCE_ZEROTIER_ADDRESS, MATCH_DEST_ZEROTIER_ADDRESS} then
       be_bytes 5 (address_of (v_zt r))
     else if rt = MATCH_VLAN_ID then be_bytes 2 (v_vlanId r)
     else if rt = MATCH_VLAN_PCP then [v_vlanPcp r]
     else if rt = MATCH_VLAN_DEI then [v_vlanDei r]
     else if rt \<in> {MATCH_MAC_SOURCE, MATCH_MAC_DEST} then v_mac r
     else if rt \<in> {MATCH_IPV4_SOURCE, MATCH_IPV4_DEST} then
       (case v_ipv4 r of (ip, m) \<Rightarrow> le_bytes 4 ip @ [m])
     else if rt \<in> {MATCH_IPV6_SOURCE, MATCH_IPV6_DEST} then
       (case v_ipv6 r of (ip, m) \<Rightarrow> ip @ [m])
     else if rt = MATCH_IP_TOS then
       (case v_ipTos r of (m, x, y) \<Rightarrow> [m] @ [x] @ [y])
     else if rt = MATCH_IP_PROTOCOL then [v_ipProtocol r]
     else if rt = MATCH_ETHERTYPE then be_bytes 2 (v_etherType r)
     else if rt = MATCH_ICMP then
       (case v_icmp r of (ty, c, fl) \<Rightarrow> [ty] @ [c] @ [fl])
     else if rt \<in> {MATCH_IP_SOURCE_PORT_RANGE, MATCH_IP_DEST_PORT_RANGE} then
       (case v_port r of (x, y) \<Rightarrow> be_bytes 2 x @ be_bytes 2 y)
     else if rt = MATCH_CHARACTERISTICS then be_bytes 8 (v_characteristics r)
     else if rt = MATCH_FRAME_SIZE_RANGE then
       (case v_frameSize r of (x, y) \<Rightarrow> be_bytes 2 x @ be_bytes 2 y)
     else if rt = MATCH_RANDOM then be_bytes 4 (v_randomProbability r)
     else if rt \<in> {MATCH_TAGS_DIFFERENCE, MATCH_TAGS_BITWISE_AND, MATCH_TAGS_BITWISE_OR, MATCH_TAGS_BITWISE_XOR,
                   MATCH_TAGS_EQUAL, MATCH_TAG_SENDER, MATCH_TAG_RECEIVER} then
       (case v_tag r of (i, x) \<Rightarrow> be_bytes 4 i @ be_bytes 4 x)
     else if rt = MATCH_INTEGER_RANGE then
       (case v_intRange r of (start, len, idx, fmt) \<Rightarrow>
          be_bytes 8 start @ be_bytes 8 (start + ucast len) @ be_bytes 2 idx @ [fmt])
     else [])"

definition len_pay :: "bytes \<Rightarrow> bytes" where
  "len_pay P = of_nat (length P) # P"

definition rule_bytes :: "vnrule \<Rightarrow> bytes" where
  "rule_bytes r = [r_t r] @ len_pay (rule_payload r)"

text \<open>What of a rule survives the wire: its type and the member the type selects.\<close>

definition rule_canon :: "vnrule \<Rightarrow> vnrule" where
  "rule_canon r = (let rt = rule_type (r_t r); z = rule0 (r_t r) in
    if rt \<in> {ACTION_TEE, ACTION_WATCH, ACTION_REDIRECT} then z\<lparr>v_fwd := v_fwd r\<rparr>
    else if rt \<in> {MATCH_SOURCE_ZEROTIER_ADDRESS, MATCH_DEST_ZEROTIER_ADDRESS} then z\<lparr>v_zt := address_of (v_zt r)\<rparr>
    else if rt = MATCH_VLAN_ID then z\<lparr>v_vlanId := v_vlanId r\<rparr>
    else if rt = MATCH_VLAN_PCP then z\<lparr>v_vlanPcp := v_vlanPcp r\<rparr>
    else if rt = MATCH_VLAN_DEI then z\<lparr>v_vlanDei := v_vlanDei r\<rparr>
    else if rt \<in> {MATCH_MAC_SOURCE, MATCH_MAC_DEST} then z\<lparr>v_mac := v_mac r\<rparr>
    else if rt \<in> {MATCH_IPV4_SOURCE, MATCH_IPV4_DEST} then z\<lparr>v_ipv4 := v_ipv4 r\<rparr>
    else if rt \<in> {MATCH_IPV6_SOURCE, MATCH_IPV6_DEST} then z\<lparr>v_ipv6 := v_ipv6 r\<rparr>
    else if rt = MATCH_IP_TOS then z\<lparr>v_ipTos := v_ipTos r\<rparr>
    else if rt = MATCH_IP_PROTOCOL then z\<lparr>v_ipProtocol := v_ipProtocol r\<rparr>
    else if rt = MATCH_ETHERTYPE then z\<lparr>v_etherType := v_etherType r\<rparr>
    else if rt = MATCH_ICMP then z\<lparr>v_icmp := v_icmp r\<rparr>
    else if rt \<in> {MATCH_IP_SOURCE_PORT_RANGE, MATCH_IP_DEST_PORT_RANGE} then z\<lparr>v_port := v_port r\<rparr>
    else if rt = MATCH_CHARACTERISTICS then z\<lparr>v_characteristics := v_characteristics r\<rparr>
    else if rt = MATCH_FRAME_SIZE_RANGE then z\<lparr>v_frameSize := v_frameSize r\<rparr>
    else if rt = MATCH_RANDOM then z\<lparr>v_randomProbability := v_randomProbability r\<rparr>
    else if rt \<in> {MATCH_TAGS_DIFFERENCE, MATCH_TAGS_BITWISE_AND, MATCH_TAGS_BITWISE_OR, MATCH_TAGS_BITWISE_XOR,
                  MATCH_TAGS_EQUAL, MATCH_TAG_SENDER, MATCH_TAG_RECEIVER} then z\<lparr>v_tag := v_tag r\<rparr>
    else if rt = MATCH_INTEGER_RANGE then z\<lparr>v_intRange := v_intRange r\<rparr>
    else z)"

definition rule_wf :: "vnrule \<Rightarrow> bool" where
  "rule_wf r \<longleftrightarrow> length (fst (v_ipv6 r)) = 16 \<and> length (v_mac r) = 6"

definition custody_wf :: "custody \<Rightarrow> bool" where
  "custody_wf cu \<longleftrightarrow> address_wf (cu_to cu) \<and> address_wf (cu_from cu) \<and> length (cu_signature cu) = 96"

definition custody_bytes :: "custody \<Rightarrow> bytes" where
  "custody_bytes cu = be_bytes 5 (cu_to cu) @ be_bytes 5 (cu_from cu) @ sig_bytes (cu_signature cu)"

definition cap_head :: "capability \<Rightarrow> bytes" where
  "cap_head c = be_bytes 8 (cap_nwid c) @ be_bytes 8 (cap_ts c) @ be_bytes 4 (cap_id c)
     @ be_bytes 2 (of_nat (length (cap_rules c)) :: u16) @ concat (map rule_bytes (cap_rules c))
     @ [of_nat (cap_maxCustodyChainLength c)]"

definition cap_bytes :: "capability \<Rightarrow> bytes" where
  "cap_bytes c = cap_head c @ concat (map custody_bytes (custody_used c)) @ be_bytes 5 (0 :: u64) @ be_bytes 2 (0 :: u16)"

text \<open>A chain of custody is a run of entries with a holder followed by empty ones.\<close>

definition cap_wf :: "capability \<Rightarrow> bool" where
  "cap_wf c \<longleftrightarrow> length (cap_rules c) \<le> 64 \<and> (\<forall>r \<in> set (cap_rules c). rule_wf r)
     \<and> 1 \<le> cap_maxCustodyChainLength c \<and> cap_maxCustodyChainLength c \<le> 7
     \<and> (\<forall>cu \<in> set (cap_custody c). custody_wf cu)
     \<and> cap_custody c = custody_used c @ replicate (7 - length (custody_used c)) custody0"

definition cap_signed_bytes :: "capability \<Rightarrow> bytes" where
  "cap_signed_bytes c = pad_bytes @ cap_head c @ be_bytes 2 (0 :: u16) @ pad_bytes"

definition cap_canon :: "capability \<Rightarrow> capability" where
  "cap_canon c = c\<lparr>cap_rules := map rule_canon (cap_rules c)\<rparr>"

text \<open>A chain of custody that is linked from \<open>prev\<close> and signed throughout.\<close>

fun custody_chain :: "(address \<Rightarrow> verifier option) \<Rightarrow> bytes \<Rightarrow> address \<Rightarrow> custody list \<Rightarrow> bool" where
  "custody_chain gi data prev [] = True"
| "custody_chain gi data prev (cu # cs) =
    (cu_from cu = prev \<and> prev \<noteq> 0 \<and> (\<exists>vf. gi prev = Some vf \<and> vf data (cu_signature cu))
     \<and> custody_chain gi data (cu_to cu) cs)"

definition custody_extend :: "capability \<Rightarrow> custody \<Rightarrow> capability" where
  "custody_extend c cu = c\<lparr>cap_custody := custody_used c @ [cu] @ replicate (6 - length (custody_used c)) custody0\<rparr>"

section \<open>Rules on the wire\<close>

lemma emits_len_pay:
  "emits (bseq fs) P \<Longrightarrow> n = of_nat (length P) \<Longrightarrow> emits (bseq (buf_append 1 (n :: u8) # fs)) (len_pay P)"
  using emits_bseq_Cons [OF emits_u8(2) [of n], of fs P] by (simp add: len_pay_def)

lemma emits_if:
  "(c \<Longrightarrow> emits (bseq A) (len_pay P)) \<Longrightarrow> (\<not> c \<Longrightarrow> emits (bseq B) (len_pay Q)) \<Longrightarrow>
   emits (bseq (if c then A else B)) (len_pay (if c then P else Q))"
  by simp

lemma emits_case:
  "(\<And>x y. p = (x, y) \<Longrightarrow> emits (bseq (f x y)) (len_pay (g x y))) \<Longrightarrow>
   emits (bseq (case p of (x, y) \<Rightarrow> f x y)) (len_pay (case p of (x, y) \<Rightarrow> g x y))"
  by (cases p) simp

lemma emits_bytes_all: "length xs = n \<Longrightarrow> n < 2 ^ 31 \<Longrightarrow> emits (buf_append_bytes xs n) xs"
  using emits_append_bytes [of n xs] by simp

lemma emits_rule:
  assumes "rule_wf r"
  shows "emits (bseq (serializeRule r)) (rule_bytes r)"
  using assms unfolding serializeRule_def rule_bytes_def rule_payload_def Let_def rule_wf_def
  by (simp only: append_Cons [of "buf_append _ _"] append_Nil [of "if _ then _ else _"])
    (rule emits_if emits_case emits_len_pay emits_bseq_Cons [of "buf_append 1 (r_t r)"] emit_intros emits_bytes_all emits_bseq_Nil
     | simp del: be_bytes_numeral bseq.simps)+

lemma located_at8: "located b p (be_bytes 8 (v :: u64)) \<Longrightarrow> buf_at 8 b p = Inr v"
  by (erule located_at) simp_all

lemma located_at4: "located b p (be_bytes 4 (v :: u32)) \<Longrightarrow> buf_at 4 b p = Inr v"
  by (erule located_at) simp_all

lemma located_at2: "located b p (be_bytes 2 (v :: u16)) \<Longrightarrow> buf_at 2 b p = Inr v"
  by (erule located_at) simp_all

lemma read_if:
  "(c \<Longrightarrow> located b p P \<longrightarrow> X = Inr A) \<Longrightarrow> (\<not> c \<Longrightarrow> located b p Q \<longrightarrow> Y = Inr B) \<Longrightarrow>
   located b p (if c then P else Q) \<longrightarrow> (if c then X else Y) = Inr (if c then A else B)"
  by simp

lemma located_le4: "located b p (le_bytes 4 ip) \<Longrightarrow> bindE (buf_get b p 4) load_le32 = Inr ip"
  using located_get [of b p "le_bytes 4 ip" 4] load_le32_le_bytes [of ip "[]"] by simp

lemma read_u16: "located b p (be_bytes 2 (v :: u16)) \<longrightarrow> bindE (buf_at 2 b p) (\<lambda>x. Inr (f x)) = Inr (f v)"
  by (auto dest: located_at2 simp del: be_bytes_numeral)

lemma read_u32: "located b p (be_bytes 4 (v :: u32)) \<longrightarrow> bindE (buf_at 4 b p) (\<lambda>x. Inr (f x)) = Inr (f v)"
  by (auto dest: located_at4 simp del: be_bytes_numeral)

lemma read_u64: "located b p (be_bytes 8 (v :: u64)) \<longrightarrow> bindE (buf_at 8 b p) (\<lambda>x. Inr (f x)) = Inr (f v)"
  by (auto dest: located_at8 simp del: be_bytes_numeral)

lemma read_u8: "located b p [v] \<longrightarrow> bindE (buf_index b p) (\<lambda>x. Inr (f x)) = Inr (f v)"
  by (auto dest: located_index)

lemma read_fwd:
  "located b p (case v of (a :: u64, fl :: u32, len :: u16) \<Rightarrow> be_bytes 8 a @ be_bytes 4 fl @ be_bytes 2 len) \<longrightarrow>
   bindE (buf_at 8 b p) (\<lambda>a. bindE (buf_at 4 b (p + 8)) (\<lambda>fl. bindE (buf_at 2 b (p + 12)) (\<lambda>len. Inr (f (a, fl, len))))) = Inr (f v)"
  by (cases v) (auto simp: located_append add.commute [of p 12] simp del: be_bytes_numeral dest!: located_at8 located_at4 located_at2)

lemma read_addr: "located b p (be_bytes 5 (address_of a)) \<longrightarrow> bindE (rd_address b p) (\<lambda>(x, _). Inr (f x)) = Inr (f (address_of a))"
  using parsesD [OF parses_rd_address [OF address_of_wf]] by auto

lemma read_mac: "length m = 6 \<Longrightarrow> located b p m \<longrightarrow> bindE (buf_get b p 6) (\<lambda>x. Inr (f x)) = Inr (f m)"
  using located_get [of b p m 6] by auto

lemma read_ipv4:
  "located b p (case v of (ip, m) \<Rightarrow> le_bytes 4 ip @ [m]) \<longrightarrow>
   bindE (buf_get b p 4) (\<lambda>bs. bindE (load_le32 bs) (\<lambda>ip. bindE (buf_index b (p + 4)) (\<lambda>m. Inr (f (ip, m))))) = Inr (f v)"
proof (cases v)
  case (Pair ip m)
  have "load_le32 (le_bytes 4 ip) = Inr ip" using load_le32_le_bytes [of ip "[]"] by simp
  then show ?thesis
    using Pair located_get [of b p "le_bytes 4 ip" 4] by (auto simp: located_append dest!: located_index)
qed

lemma read_ipv6:
  "length (fst v) = 16 \<Longrightarrow> located b p (case v of (ip, m) \<Rightarrow> ip @ [m]) \<longrightarrow>
   bindE (buf_get b p 16) (\<lambda>ip. bindE (buf_index b (p + 16)) (\<lambda>m. Inr (f (ip, m)))) = Inr (f v)"
  using located_get [of b p "fst v" 16] by (cases v) (auto simp: located_append dest!: located_index)

lemma read_u8x3:
  "located b p (case v of (x, y, z) \<Rightarrow> [x] @ [y] @ [z]) \<longrightarrow>
   bindE (buf_index b p) (\<lambda>x. bindE (buf_index b (p + 1)) (\<lambda>y. bindE (buf_index b (p + 2)) (\<lambda>z. Inr (f (x, y, z))))) = Inr (f v)"
  by (cases v) (auto simp: located_append [of b _ "[_]"] simp del: append.simps dest!: located_index)

lemma read_u16x2:
  "located b p (case v of (x :: u16, y :: u16) \<Rightarrow> be_bytes 2 x @ be_bytes 2 y) \<longrightarrow>
   bindE (buf_at 2 b p) (\<lambda>x. bindE (buf_at 2 b (p + 2)) (\<lambda>y. Inr (f (x, y)))) = Inr (f v)"
  by (cases v) (auto simp: located_append simp del: be_bytes_numeral dest!: located_at2)

lemma read_u32x2:
  "located b p (case v of (x :: u32, y :: u32) \<Rightarrow> be_bytes 4 x @ be_bytes 4 y) \<longrightarrow>
   bindE (buf_at 4 b p) (\<lambda>x. bindE (buf_at 4 b (p + 4)) (\<lambda>y. Inr (f (x, y)))) = Inr (f v)"
  by (cases v) (auto simp: located_append simp del: be_bytes_numeral dest!: located_at4)

lemma ucast_ucast_id: "(ucast (ucast (x :: u32) :: u64) :: u32) = x"
  by (rule bit_word_eqI) (auto simp: bit_simps)

lemma read_intRange:
  "located b p (case v of (start :: u64, len :: u32, idx :: u16, fmt) \<Rightarrow>
      be_bytes 8 start @ be_bytes 8 (start + ucast len) @ be_bytes 2 idx @ [fmt]) \<longrightarrow>
   bindE (buf_at 8 b p) (\<lambda>start. bindE (buf_at 8 b (p + 8)) (\<lambda>e.
      bindE (buf_at 2 b (p + 16)) (\<lambda>idx. bindE (buf_index b (p + 18)) (\<lambda>fmt.
        Inr (f (start, ucast (e - start :: u64), idx, fmt)))))) = Inr (f v)"
  by (cases v) (auto simp: located_append ucast_ucast_id add.commute [of p 16] add.commute [of p 18] simp del: be_bytes_numeral dest!: located_at8 located_at2 located_index)

lemma read_none: "located b p [] \<longrightarrow> Inr x = Inr x"
  by simp

lemmas read_members = read_fwd read_addr read_u16 read_u8 read_mac read_ipv4 read_ipv6 read_u8x3 read_u16x2 read_u64
  read_u32 read_u32x2 read_intRange

lemma read_rule_value_ok:
  assumes "rule_wf r" "located b p (rule_payload r)"
  shows "read_rule_value (r_t r) b p = Inr (rule_canon r)"
proof -
  have w: "length (fst (v_ipv6 r)) = 16" "length (v_mac r) = 6" using assms(1) by (simp_all add: rule_wf_def)
  have "located b p (rule_payload r) \<longrightarrow> read_rule_value (r_t r) b p = Inr (rule_canon r)"
    unfolding read_rule_value_def rule_payload_def rule_canon_def Let_def
    apply (rule read_if)
     apply (rule read_fwd [where f = "\<lambda>x. rule0 (r_t r)\<lparr>v_fwd := x\<rparr>"])
    apply (rule read_if)
     apply (rule read_addr [where f = "\<lambda>x. rule0 (r_t r)\<lparr>v_zt := x\<rparr>"])
    apply (rule read_if, rule read_u16 [where f = "\<lambda>x. rule0 (r_t r)\<lparr>v_vlanId := x\<rparr>"])
    apply (rule read_if, rule read_u8 [where f = "\<lambda>x. rule0 (r_t r)\<lparr>v_vlanPcp := x\<rparr>"])
    apply (rule read_if, rule read_u8 [where f = "\<lambda>x. rule0 (r_t r)\<lparr>v_vlanDei := x\<rparr>"])
    apply (rule read_if, rule read_mac [OF w(2), where f = "\<lambda>x. rule0 (r_t r)\<lparr>v_mac := x\<rparr>"])
    apply (rule read_if, rule read_ipv4 [where f = "\<lambda>x. rule0 (r_t r)\<lparr>v_ipv4 := x\<rparr>"])
    apply (rule read_if, rule read_ipv6 [OF w(1), where f = "\<lambda>x. rule0 (r_t r)\<lparr>v_ipv6 := x\<rparr>"])
    apply (rule read_if, rule read_u8x3 [where f = "\<lambda>x. rule0 (r_t r)\<lparr>v_ipTos := x\<rparr>"])
    apply (rule read_if, rule read_u8 [where f = "\<lambda>x. rule0 (r_t r)\<lparr>v_ipProtocol := x\<rparr>"])
    apply (rule read_if, rule read_u16 [where f = "\<lambda>x. rule0 (r_t r)\<lparr>v_etherType := x\<rparr>"])
    apply (rule read_if, rule read_u8x3 [where f = "\<lambda>x. rule0 (r_t r)\<lparr>v_icmp := x\<rparr>"])
    apply (rule read_if, rule read_u16x2 [where f = "\<lambda>x. rule0 (r_t r)\<lparr>v_port := x\<rparr>"])
    apply (rule read_if, rule read_u64 [where f = "\<lambda>x. rule0 (r_t r)\<lparr>v_characteristics := x\<rparr>"])
    apply (rule read_if, rule read_u16x2 [where f = "\<lambda>x. rule0 (r_t r)\<lparr>v_frameSize := x\<rparr>"])
    apply (rule read_if, rule read_u32 [where f = "\<lambda>x. rule0 (r_t r)\<lparr>v_randomProbability := x\<rparr>"])
    apply (rule read_if, rule read_u32x2 [where f = "\<lambda>x. rule0 (r_t r)\<lparr>v_tag := x\<rparr>"])
    apply (rule read_if, rule read_intRange [where f = "\<lambda>x. rule0 (r_t r)\<lparr>v_intRange := x\<rparr>"])
    apply simp
    done
  with assms(2) show ?thesis by blast
qed

lemma rule_payload_length: "rule_wf r \<Longrightarrow> length (rule_payload r) \<le> 19"
  by (auto simp: rule_payload_def rule_wf_def Let_def split: prod.splits)

lemma parses_rule:
  assumes "rule_wf r"
  shows "parses rd_rule (rule_bytes r) (rule_canon r)"
  unfolding parses_def
proof (intro allI impI)
  fix b p
  assume "located b p (rule_bytes r)"
  then have l: "located b p [r_t r]" "located b (p + 1) [of_nat (length (rule_payload r))]" "located b (p + 1 + 1) (rule_payload r)"
    unfolding rule_bytes_def len_pay_def
    using located_append [of b p "[r_t r]" "of_nat (length (rule_payload r)) # rule_payload r"]
      located_append [of b "p + 1" "[of_nat (length (rule_payload r))]" "rule_payload r"] by simp_all
  have u: "unat (of_nat (length (rule_payload r)) :: u8) = length (rule_payload r)"
    using rule_payload_length [OF assms] by (simp add: unsigned_of_nat take_bit_nat_eq_self)
  show "rd_rule b p = Inr (rule_canon r, p + length (rule_bytes r))"
    using located_index [OF l(1)] located_index [OF l(2)] read_rule_value_ok [OF assms l(3)]
    by (simp add: rd_rule_def rd_u8_def rule_bytes_def len_pay_def u)
qed

lemma emits_rules:
  assumes "\<forall>r \<in> set rs. rule_wf r"
  shows "emits (bseq (serializeRules rs)) (concat (map rule_bytes rs))"
  using assms
proof (induction rs)
  case Nil
  then show ?case using emits_bseq_Nil by (simp add: serializeRules_def del: bseq.simps)
next
  case (Cons r rs)
  then show ?case
    using emits_bseq_append [OF emits_rule [of r]] by (simp add: serializeRules_def del: bseq.simps)
qed

lemma parses_rules:
  assumes "\<forall>r \<in> set rs. rule_wf r"
  shows "parses (deserializeRules (length rs)) (concat (map rule_bytes rs)) (map rule_canon rs)"
  using assms
proof (induction rs)
  case Nil
  then show ?case by (simp add: parses_def)
next
  case (Cons r rs)
  have "parses (\<lambda>b p. bindE (rd_rule b p) (\<lambda>(r, p). bindE (deserializeRules (length rs) b p) (\<lambda>(rs, p). Inr (r # rs, p))))
      (rule_bytes r @ concat (map rule_bytes rs)) (rule_canon r # map rule_canon rs)"
    using Cons by (intro parses_bind [OF parses_rule] parses_last) simp_all
  moreover have "p < buf_l b" if "located b p (rule_bytes r @ concat (map rule_bytes rs))" for b p
    using that by (simp add: located_def rule_bytes_def)
  ultimately show ?case by (simp add: parses_def)
qed

lemma emits_custody: "custody_wf cu \<Longrightarrow> emits (bseq (custody_append cu)) (custody_bytes cu)"
  unfolding custody_append_def custody_bytes_def sig_bytes_def custody_wf_def
  by (rule emits_bytes_all emit_intros | simp del: be_bytes_numeral bseq.simps)+

lemma emits_custodies:
  "\<forall>cu \<in> set cs. custody_wf cu \<Longrightarrow> emits (bseq (concat (map custody_append cs))) (concat (map custody_bytes cs))"
proof (induction cs)
  case Nil
  then show ?case using emits_bseq_Nil by (simp del: bseq.simps)
next
  case (Cons cu cs)
  then show ?case using emits_bseq_append [OF emits_custody [of cu]] by (simp del: bseq.simps)
qed

lemma custody_used_sub: "set (custody_used c) \<subseteq> set (cap_custody c)"
  unfolding custody_used_def by (auto dest!: set_takeWhileD in_set_takeD)

lemma custody_used_to: "cu \<in> set (custody_used c) \<Longrightarrow> cu_to cu \<noteq> 0"
  unfolding custody_used_def by (auto dest: set_takeWhileD)

lemma custody_used_length: "length (custody_used c) \<le> cap_maxCustodyChainLength c"
  using length_takeWhile_le [of "\<lambda>cu. cu_to cu \<noteq> 0" "take (cap_maxCustodyChainLength c) (take 7 (cap_custody c))"]
  by (simp add: custody_used_def)

lemma parses_custody:
  assumes "\<forall>cu \<in> set cs. custody_wf cu \<and> cu_to cu \<noteq> 0" "length cs \<le> n"
  shows "parses (rd_custody n) (concat (map custody_bytes cs) @ be_bytes 5 (0 :: u64)) cs"
  using assms
proof (induction cs arbitrary: n)
  case Nil
  have z: "parses rd_address (be_bytes 5 (0::u64)) 0" by (rule parses_rd_address) (simp add: address_wf_def)
  show ?case
    unfolding parses_def
    by (subst rd_custody.simps) (use parsesD [OF z] in \<open>simp del: be_bytes_numeral rd_custody.simps\<close>)
next
  case (Cons cu cs)
  then obtain m where n: "n = Suc m" by (cases n) auto
  have t: "cu_to cu \<noteq> 0" and w: "address_wf (cu_to cu)" "address_wf (cu_from cu)" "length (cu_signature cu) = 96"
    using Cons.prems by (simp_all add: custody_wf_def)
  have IH: "parses (rd_custody m) (concat (map custody_bytes cs) @ be_bytes 5 (0 :: u64)) cs"
    using Cons n by (simp del: be_bytes_numeral rd_custody.simps)
  have "rd_custody n = (\<lambda>b p. bindE (rd_address b p) (\<lambda>(to, p).
      if to = 0 then Inr ([], p)
      else bindE (rd_address b p) (\<lambda>(fr, p). bindE (rd_signature b p) (\<lambda>(sig, p).
          bindE (rd_custody m b p) (\<lambda>(cs, p).
            Inr (\<lparr>cu_to = to, cu_from = fr, cu_signature = sig\<rparr> # cs, p))))))"
    by (intro ext, subst rd_custody.simps, unfold n nat.case, rule refl)
  moreover have "concat (map custody_bytes (cu # cs)) @ be_bytes 5 (0 :: u64)
      = be_bytes 5 (cu_to cu) @ be_bytes 5 (cu_from cu) @ sig_bytes (cu_signature cu) @ concat (map custody_bytes cs) @ be_bytes 5 (0 :: u64)"
    by (simp add: custody_bytes_def del: be_bytes_numeral)
  ultimately show ?case
    by (simp only:) (rule IH w parses_signature parse_intros | simp only: t if_False | simp del: be_bytes_numeral rd_custody.simps)+
qed

lemma emits_cap_head:
  assumes "\<forall>r \<in> set (cap_rules c). rule_wf r"
  shows "emits (bseq ([buf_append 8 (cap_nwid c), buf_append 8 (cap_ts c), buf_append 4 (cap_id c),
         buf_append 2 (of_nat (length (cap_rules c)) :: u16)]
      @ serializeRules (cap_rules c) @ [buf_append 1 (of_nat (cap_maxCustodyChainLength c) :: u8)])) (cap_head c)"
  unfolding cap_head_def
  by (simp only: append_Cons [of "buf_append _ _"] append_Nil)
    (rule emits_rules [OF assms] emit_intros | simp del: be_bytes_numeral bseq.simps)+

lemma emits_pad: "emits (bseq (sign_pad True)) pad_bytes"
  unfolding sign_pad_def pad_bytes_def by (simp only: if_True) (rule emit_intros | simp del: be_bytes_numeral bseq.simps)+

lemma cap_serialize_split:
  "cap_serialize forSign c = bseq (sign_pad forSign @
     ([buf_append 8 (cap_nwid c), buf_append 8 (cap_ts c), buf_append 4 (cap_id c),
         buf_append 2 (of_nat (length (cap_rules c)) :: u16)]
      @ serializeRules (cap_rules c) @ [buf_append 1 (of_nat (cap_maxCustodyChainLength c) :: u8)])
     @ (if \<not> forSign then concat (map custody_append (custody_used c)) @ [buf_append_run 0 5] else [])
     @ [buf_append 2 (0 :: u16)] @ sign_pad forSign)"
  by (simp add: cap_serialize_def del: bseq.simps)

lemma emits_cap:
  assumes "cap_wf c"
  shows "emits (cap_serialize False c) (cap_bytes c)"
proof -
  have u: "\<forall>cu \<in> set (custody_used c). custody_wf cu"
    using assms custody_used_sub [of c] by (auto simp: cap_wf_def)
  have z: "replicate 5 0 = be_bytes 5 (0 :: u64)" by (simp, simp add: eval_nat_numeral)
  have r: "emits (bseq [buf_append_run 0 5, buf_append 2 (0 :: u16)]) (be_bytes 5 (0 :: u64) @ be_bytes 2 (0 :: u16))"
    using emits_bseq_Cons [OF emits_append_run [of 5 0] emits_bseq_single [OF emits_append [of 2 "0 :: u16"]]]
    by (simp only: z) simp
  have "emits (bseq (([buf_append 8 (cap_nwid c), buf_append 8 (cap_ts c), buf_append 4 (cap_id c),
         buf_append 2 (of_nat (length (cap_rules c)) :: u16)]
      @ serializeRules (cap_rules c) @ [buf_append 1 (of_nat (cap_maxCustodyChainLength c) :: u8)])
     @ concat (map custody_append (custody_used c)) @ [buf_append_run 0 5, buf_append 2 (0 :: u16)]))
     (cap_head c @ concat (map custody_bytes (custody_used c)) @ be_bytes 5 (0 :: u64) @ be_bytes 2 (0 :: u16))"
    using assms u by (intro emits_bseq_append emits_cap_head emits_custodies r) (simp_all add: cap_wf_def)
  then show ?thesis
    by (simp add: cap_serialize_split cap_bytes_def sign_pad_def del: bseq.simps be_bytes_numeral)
qed

lemma emits_cap_sign:
  assumes "\<forall>r \<in> set (cap_rules c). rule_wf r"
  shows "emits (cap_serialize True c) (cap_signed_bytes c)"
  unfolding cap_serialize_split cap_signed_bytes_def
  by (simp only: simp_thms if_False append_Nil)
    (intro emits_bseq_append emits_pad emits_cap_head [OF assms] emits_bseq_single emits_append, simp)

lemma parses_cap:
  assumes "cap_wf c"
  shows "parses cap_read (cap_bytes c) (cap_canon c)"
proof -
  let ?m = "of_nat (cap_maxCustodyChainLength c) :: u8"
  have l: "unat (of_nat (length (cap_rules c)) :: u16) = length (cap_rules c)"
    using assms by (simp add: cap_wf_def unsigned_of_nat take_bit_nat_eq_self)
  have m: "unat ?m = cap_maxCustodyChainLength c"
    using assms by (simp add: cap_wf_def unsigned_of_nat take_bit_nat_eq_self)
  have m2: "\<not> (?m < 1 \<or> 7 < ?m)" using assms m by (simp add: cap_wf_def word_less_nat_alt)
  have rc: "\<not> 64 < length (cap_rules c)" using assms by (simp add: cap_wf_def)
  have r: "parses (deserializeRules (length (cap_rules c))) (concat (map rule_bytes (cap_rules c))) (map rule_canon (cap_rules c))"
    using assms by (intro parses_rules) (simp add: cap_wf_def)
  have u: "\<forall>cu \<in> set (custody_used c). custody_wf cu \<and> cu_to cu \<noteq> 0"
    using assms custody_used_sub [of c] custody_used_to by (auto simp: cap_wf_def)
  have k: "parses (rd_custody (cap_maxCustodyChainLength c)) (concat (map custody_bytes (custody_used c)) @ be_bytes 5 (0 :: u64)) (custody_used c)"
    by (rule parses_custody [OF u custody_used_length])
  have e: "cap_bytes c = be_bytes 8 (cap_nwid c) @ be_bytes 8 (cap_ts c) @ be_bytes 4 (cap_id c)
     @ be_bytes 2 (of_nat (length (cap_rules c)) :: u16) @ concat (map rule_bytes (cap_rules c))
     @ [?m] @ (concat (map custody_bytes (custody_used c)) @ be_bytes 5 (0 :: u64)) @ be_bytes 2 (0 :: u16)"
    by (simp add: cap_bytes_def cap_head_def del: be_bytes_numeral)
  have fin: "\<lparr>cap_nwid = cap_nwid c, cap_ts = cap_ts c, cap_id = cap_id c, cap_maxCustodyChainLength = cap_maxCustodyChainLength c,
      cap_rules = map rule_canon (cap_rules c), cap_custody = custody_used c @ replicate (7 - length (custody_used c)) custody0\<rparr> = cap_canon c"
    using assms by (simp add: cap_canon_def cap_wf_def)
  show ?thesis
    unfolding cap_read_def [abs_def] e
    by (rule k r parses_extra parse_intros | simp only: l m m2 rc fin simp_thms if_False | simp del: be_bytes_numeral rd_custody.simps)+
qed

lemma rule_canon_type [simp]: "r_t (rule_canon r) = r_t r"
  by (simp add: rule_canon_def rule0_def Let_def)

lemma rule_payload_canon: "rule_payload (rule_canon r) = rule_payload r"
proof -
  have "address_of (address_of a) = address_of a" for a by (simp add: address_of_def)
  then show ?thesis unfolding rule_payload_def [of "rule_canon r"] rule_canon_type
    unfolding rule_payload_def rule_canon_def Let_def by simp
qed

lemma rule_bytes_canon [simp]: "rule_bytes (rule_canon r) = rule_bytes r"
  by (simp add: rule_bytes_def rule_payload_canon)

lemma cap_head_canon [simp]: "cap_head (cap_canon c) = cap_head c"
  by (simp add: cap_head_def cap_canon_def comp_def del: be_bytes_numeral)

lemma cap_signed_bytes_canon [simp]: "cap_signed_bytes (cap_canon c) = cap_signed_bytes c"
  by (simp add: cap_signed_bytes_def)

lemma concat_length_le: "(\<And>x. x \<in> set xs \<Longrightarrow> length (f x) \<le> k) \<Longrightarrow> length (concat (map f xs)) \<le> k * length xs"
proof (induction xs)
  case (Cons x xs)
  then have "length (f x) \<le> k" "length (concat (map f xs)) \<le> k * length xs" by simp_all
  then show ?case by simp
qed simp

lemma cap_head_length:
  assumes "length (cap_rules c) \<le> 64" "\<forall>r \<in> set (cap_rules c). rule_wf r"
  shows "length (cap_head c) \<le> 1367"
proof -
  have "length (concat (map rule_bytes (cap_rules c))) \<le> 21 * length (cap_rules c)"
    using assms(2) rule_payload_length by (intro concat_length_le) (auto simp: rule_bytes_def len_pay_def)
  then show ?thesis using assms(1) by (simp add: cap_head_def)
qed

lemma cap_bytes_length: "cap_wf c \<Longrightarrow> length (cap_bytes c) \<le> 2137"
proof -
  assume w: "cap_wf c"
  then have "length (concat (map custody_bytes (custody_used c))) \<le> 109 * length (custody_used c)"
    using custody_used_sub [of c] by (intro concat_length_le) (auto simp: custody_bytes_def sig_bytes_def cap_wf_def custody_wf_def)
  moreover have "length (custody_used c) \<le> 7" using w custody_used_length [of c] by (simp add: cap_wf_def)
  ultimately show ?thesis using w cap_head_length [of c] by (simp add: cap_bytes_def cap_wf_def)
qed

interpretation cap_codec: wire_codec "cap_serialize False" cap_read cap_bytes "\<lambda>c. cap_wf c \<and> cap_canon c = c"
proof
  fix c assume w: "cap_wf c \<and> cap_canon c = c"
  show "emits (cap_serialize False c) (cap_bytes c)" using w emits_cap by blast
  show "parses cap_read (cap_bytes c) c" using w parses_cap [of c] by simp
  show "length (cap_bytes c) \<le> 2 ^ 30" using w cap_bytes_length [of c] by simp
qed

text \<open>C31: a capability written to a buffer is read back with all its fields but the rules unchanged, and every rule reduced to its type and what the wire format carries for the
  type: the union member the type selects, without the bucket of a priority rule and with ZeroTier addresses cut to 40 bits. The two have the same signed bytes, so signatures stay valid.\<close>

theorem capability_roundtrip:
  assumes "cap_wf c" "buf_inv b" "buf_l b + length (cap_bytes c) \<le> buf_capacity b"
  shows "\<exists>b' d. cap_serialize False c b = Inr b' \<and> cap_deserialize b' (buf_l b) = Inr (d, buf_l b' - buf_l b)
    \<and> d = cap_canon c \<and> cap_signed_bytes d = cap_signed_bytes c"
  using emit_parse [OF emits_cap [OF assms(1)] parses_cap [OF assms(1)] assms(2,3)] by (auto simp: cap_deserialize_def)

theorem capability_roundtrip_witness:
  "\<exists>b' d. cap_serialize False (cap_new 1 2 3 1 [rule0 1]) (buf_new (replicate 4000 0)) = Inr b'
     \<and> cap_deserialize b' 0 = Inr (d, buf_l b') \<and> cap_rules d = [rule0 1]"
proof -
  let ?c = "cap_new 1 2 3 1 [rule0 1]"
  have w: "cap_wf ?c"
    by (simp add: cap_wf_def cap_new_def rule_wf_def rule0_def custody_wf_def custody0_def custody_used_def address_wf_def)
  have c: "cap_rules (cap_canon ?c) = [rule0 1]"
    by (simp add: cap_canon_def cap_new_def rule_canon_def rule_type_def rule0_def)
  have b: "buf_inv (buf_new (replicate 4000 0))" by (rule buf_inv_new) simp
  show ?thesis
    using capability_roundtrip [OF w b] cap_bytes_length [OF w] c by (auto simp: buf_new_def buf_capacity_def)
qed

text \<open>the bucket of a priority rule is not on the wire: whatever bucket was configured, the rule read back has
  bucket 0.\<close>

theorem priority_bucket_lost:
  assumes "rule_wf r" "rule_type (r_t r) = ACTION_PRIORITY" "located b p (rule_bytes r)"
  shows "rd_rule b p = Inr (rule0 (r_t r), p + 2) \<and> v_qosBucket (rule0 (r_t r)) = 0"
  using parsesD [OF parses_rule [OF assms(1)] assms(3)] assms(2)
  by (simp add: rule_canon_def Let_def rule_bytes_def len_pay_def rule_payload_def rule0_def)

theorem priority_bucket_lost_witness:
  "rd_rule \<lparr>buf_b = [6, 0], buf_l = 2\<rparr> 0 = Inr (rule0 6, 2)"
proof -
  let ?r = "(rule0 6)\<lparr>v_qosBucket := 7\<rparr>"
  have "rule_wf ?r" "rule_type (r_t ?r) = ACTION_PRIORITY" by (simp_all add: rule_wf_def rule0_def rule_type_def)
  moreover have "located \<lparr>buf_b = [6, 0], buf_l = 2\<rparr> 0 (rule_bytes ?r)"
    by (simp add: located_def buf_inv_def buf_capacity_def buf_data_def rule_bytes_def len_pay_def rule_payload_def rule0_def rule_type_def)
  ultimately show ?thesis using priority_bucket_lost [of ?r] by (simp add: rule0_def)
qed

lemma verify_loop_tail:
  "cap_verify_loop gi nwid data (Some prev) cs = VerifyOK \<longleftrightarrow>
     custody_chain gi data prev (takeWhile (\<lambda>cu. cu_to cu \<noteq> 0) cs)"
  by (induction cs arbitrary: prev) (auto split: option.splits)

lemma verify_loop_head:
  "cs \<noteq> [] \<Longrightarrow> cap_verify_loop gi nwid data None cs = VerifyOK \<longleftrightarrow>
     takeWhile (\<lambda>cu. cu_to cu \<noteq> 0) cs \<noteq> [] \<and> custody_chain gi data (controllerFor nwid) (takeWhile (\<lambda>cu. cu_to cu \<noteq> 0) cs)"
  by (cases cs) (auto simp: verify_loop_tail split: option.splits)

lemma cap_serialize_sign:
  assumes "cap_wf c" "700 \<le> sz" "sz < 2 ^ 20"
  shows "\<exists>tmp. cap_serialize True c (buf_new (replicate (sz * 2) 0)) = Inr tmp \<and> buf_data tmp = cap_signed_bytes c"
proof -
  have r: "\<forall>r \<in> set (cap_rules c). rule_wf r" "length (cap_rules c) \<le> 64" using assms(1) by (auto simp: cap_wf_def)
  have "length (cap_signed_bytes c) \<le> sz * 2"
    using cap_head_length [OF r(2,1)] assms(2) by (simp add: cap_signed_bytes_def pad_bytes_def)
  then show ?thesis
    using emits_new [OF emits_cap_sign [OF r(1)]] assms(3) by simp
qed

lemma custody_used_take: "cap_wf c \<Longrightarrow> custody_used c = takeWhile (\<lambda>cu. cu_to cu \<noteq> 0) (take (cap_maxCustodyChainLength c) (cap_custody c))"
  by (simp add: custody_used_def cap_wf_def)

lemma cap_custody_length: "cap_wf c \<Longrightarrow> length (cap_custody c) = 7"
proof -
  assume w: "cap_wf c"
  then have "length (custody_used c) \<le> 7" using custody_used_length [of c] by (simp add: cap_wf_def)
  moreover have "length (cap_custody c) = length (custody_used c) + (7 - length (custody_used c))"
    using w unfolding cap_wf_def by (metis length_append length_replicate)
  ultimately show ?thesis by simp
qed

lemma cap_verify_chain:
  assumes "cap_wf c" "700 \<le> sz" "sz < 2 ^ 20"
  shows "cap_verify sz gi c = Inr VerifyOK \<longleftrightarrow>
    custody_used c \<noteq> [] \<and> custody_chain gi (cap_signed_bytes c) (controllerFor (cap_nwid c)) (custody_used c)"
proof -
  have "take (cap_maxCustodyChainLength c) (cap_custody c) \<noteq> []"
    using assms(1) cap_custody_length [OF assms(1)] by (auto simp: cap_wf_def)
  note h = verify_loop_head [OF this, of gi "cap_nwid c" "cap_signed_bytes c"]
  obtain tmp where "cap_serialize True c (buf_new (replicate (sz * 2) 0)) = Inr tmp" "buf_data tmp = cap_signed_bytes c"
    using cap_serialize_sign [OF assms] by blast
  moreover have "\<not> (cap_maxCustodyChainLength c < 1 \<or> 7 < cap_maxCustodyChainLength c)" using assms(1) by (simp add: cap_wf_def)
  ultimately show ?thesis using h by (simp add: cap_verify_def custody_used_take [OF assms(1)])
qed

text \<open>C25: a well-formed capability verifies exactly when its chain of custody is non-empty, starts at the network's
  controller, passes from each holder to the next without a gap and every link carries a valid signature of
  its giver over the capability.\<close>

theorem cap_verify_iff:
  assumes "cap_wf c" "700 \<le> sz" "sz < 2 ^ 20"
  shows "cap_verify sz gi c = Inr VerifyOK \<longleftrightarrow>
    custody_used c \<noteq> [] \<and> custody_chain gi (cap_signed_bytes c) (controllerFor (cap_nwid c)) (custody_used c)"
  by (rule cap_verify_chain [OF assms])

theorem cap_verify_iff_witness:
  "cap_verify 1500 (\<lambda>_. Some (\<lambda>_ _. True)) (cap_new 1 2 3 1 [rule0 1]) \<noteq> Inr VerifyOK"
proof -
  let ?c = "cap_new 1 2 3 1 [rule0 1]"
  have w: "cap_wf ?c"
    by (simp add: cap_wf_def cap_new_def rule_wf_def rule0_def custody_wf_def custody0_def custody_used_def address_wf_def)
  have "custody_used ?c = []" by (simp add: custody_used_def cap_new_def custody0_def)
  then show ?thesis using cap_verify_iff [OF w, of 1500] by simp
qed

lemma custody_chain_snoc:
  "custody_chain gi data prev (cs @ [cu]) \<longleftrightarrow> custody_chain gi data prev cs \<and>
    (let holder = (if cs = [] then prev else cu_to (last cs)) in
       cu_from cu = holder \<and> holder \<noteq> 0 \<and> (\<exists>vf. gi holder = Some vf \<and> vf data (cu_signature cu)))"
  by (induction cs arbitrary: prev) (auto simp: Let_def)

lemma issuedTo_used:
  "cs = us @ replicate n custody0 \<Longrightarrow> \<forall>cu \<in> set us. cu_to cu \<noteq> 0 \<Longrightarrow>
   issuedTo_loop a cs = (if us = [] then a else cu_to (last us))"
  by (induction us arbitrary: cs a) (cases n, auto simp: custody0_def)

lemma custody_used_extend:
  assumes "cap_wf c" "length (custody_used c) < cap_maxCustodyChainLength c" "cu_to cu \<noteq> 0"
  shows "custody_used (custody_extend c cu) = custody_used c @ [cu]"
proof -
  let ?u = "custody_used c" and ?P = "\<lambda>cu. cu_to cu \<noteq> 0"
  have a: "\<forall>x \<in> set (?u @ [cu]). ?P x" using custody_used_to assms(3) by auto
  have t: "take (cap_maxCustodyChainLength c) (take 7 (cap_custody (custody_extend c cu)))
      = (?u @ [cu]) @ replicate (min (6 - length ?u) (cap_maxCustodyChainLength c - Suc (length ?u))) custody0"
    using assms(1,2) by (simp add: custody_extend_def cap_wf_def take_Cons' min_def)
  have r: "takeWhile ?P (replicate n custody0) = []" for n by (cases n) (simp_all add: custody0_def)
  have "custody_used (custody_extend c cu) = takeWhile ?P (take (cap_maxCustodyChainLength c) (take 7 (cap_custody (custody_extend c cu))))"
    by (simp add: custody_used_def custody_extend_def)
  also have "\<dots> = ?u @ [cu]" unfolding t using takeWhile_append2 [of "?u @ [cu]" ?P] a r by simp
  finally show ?thesis .
qed

lemma custody_extend_wf:
  assumes "cap_wf c" "length (custody_used c) < cap_maxCustodyChainLength c" "cu_to cu \<noteq> 0" "custody_wf cu"
  shows "cap_wf (custody_extend c cu)"
proof -
  have u: "custody_used (custody_extend c cu) = custody_used c @ [cu]" by (rule custody_used_extend [OF assms(1-3)])
  have "\<forall>x \<in> set (custody_used c). custody_wf x" using assms(1) custody_used_sub [of c] by (auto simp: cap_wf_def)
  then have "\<forall>x \<in> set (cap_custody (custody_extend c cu)). custody_wf x"
    using assms(4) by (auto simp: custody_extend_def custody_wf_def custody0_def address_wf_def)
  moreover have "cap_custody (custody_extend c cu) = custody_used (custody_extend c cu)
      @ replicate (7 - length (custody_used (custody_extend c cu))) custody0"
    unfolding u by (simp add: custody_extend_def)
  ultimately show ?thesis using assms(1) by (simp add: cap_wf_def custody_extend_def)
qed

lemma cap_sign_extend:
  assumes "cap_wf c" "700 \<le> sz" "sz < 2 ^ 20" "length (custody_used c) < cap_maxCustodyChainLength c"
  shows "cap_sign sz addr (Some sg) to c =
    Inr (True, custody_extend c \<lparr>cu_to = to, cu_from = addr, cu_signature = sg (cap_signed_bytes c)\<rparr>)"
proof -
  let ?k = "length (custody_used c)"
  have k: "?k < 7" using assms(1,4) by (simp add: cap_wf_def)
  have r: "replicate (7 - ?k) custody0 = custody0 # replicate (6 - ?k) custody0"
    using k by (simp add: replicate_Suc [symmetric] Suc_diff_le less_Suc_eq_le eval_nat_numeral del: replicate_Suc)
  have c: "cap_custody c = custody_used c @ custody0 # replicate (6 - ?k) custody0"
    using assms(1) r by (simp add: cap_wf_def)
  obtain tmp where t: "cap_serialize True c (buf_new (replicate (sz * 2) 0)) = Inr tmp" "buf_data tmp = cap_signed_bytes c"
    using cap_serialize_sign [OF assms(1-3)] by blast
  have "(\<lambda>cs. cs[?k := (cs ! ?k)\<lparr>cu_to := to, cu_from := addr, cu_signature := sg (cap_signed_bytes c)\<rparr>]) (cap_custody c)
      = custody_used c @ [\<lparr>cu_to = to, cu_from = addr, cu_signature = sg (cap_signed_bytes c)\<rparr>] @ replicate (6 - ?k) custody0"
    unfolding c by (simp add: custody0_def)
  then show ?thesis
    using assms(4) k c t unfolding cap_sign_def custody_used_def [symmetric] by (simp add: Let_def custody_extend_def)
qed

text \<open>when the holder at the end of a valid chain (the network's controller for a fresh capability) passes a
  capability on, the result is well formed, is issued to the new holder and verifies.\<close>

theorem cap_sign_extends_chain:
  assumes "cap_wf c" "700 \<le> sz" "sz < 2 ^ 20" "length (custody_used c) < cap_maxCustodyChainLength c"
    and "address_wf to" "to \<noteq> 0" "address_wf addr" "addr \<noteq> 0" "length (sg (cap_signed_bytes c)) = 96"
    and "gi addr = Some vf" "vf (cap_signed_bytes c) (sg (cap_signed_bytes c))"
    and "custody_used c = [] \<and> addr = controllerFor (cap_nwid c) \<or> cap_verify sz gi c = Inr VerifyOK \<and> addr = cap_issuedTo c"
  shows "\<exists>d. cap_sign sz addr (Some sg) to c = Inr (True, d) \<and> cap_wf d \<and> cap_issuedTo d = to \<and> cap_verify sz gi d = Inr VerifyOK"
proof -
  let ?cu = "\<lparr>cu_to = to, cu_from = addr, cu_signature = sg (cap_signed_bytes c)\<rparr>"
  let ?d = "custody_extend c ?cu"
  have u: "custody_used ?d = custody_used c @ [?cu]" using custody_used_extend [OF assms(1,4)] assms(6) by simp
  have w: "cap_wf ?d" using custody_extend_wf [OF assms(1,4)] assms(5-9) by (simp add: custody_wf_def)
  have i: "cap_issuedTo x = (if custody_used x = [] then 0 else cu_to (last (custody_used x)))" if "cap_wf x" for x
    unfolding cap_issuedTo_def using that custody_used_to [of _ x]
    by (intro issuedTo_used [where n = "7 - length (custody_used x)"]) (simp_all add: cap_wf_def)
  have s: "cap_signed_bytes ?d = cap_signed_bytes c" "cap_nwid ?d = cap_nwid c"
    by (simp_all add: cap_signed_bytes_def cap_head_def custody_extend_def)
  have "custody_chain gi (cap_signed_bytes c) (controllerFor (cap_nwid c)) (custody_used c @ [?cu])"
    using assms(8,10-12) cap_verify_chain [OF assms(1-3), of gi] i [OF assms(1)]
    by (auto simp: custody_chain_snoc Let_def)
  then have "cap_verify sz gi ?d = Inr VerifyOK" using cap_verify_chain [OF w assms(2,3), of gi] u s by simp
  then show ?thesis using cap_sign_extend [OF assms(1-4)] w i [OF w] u by simp
qed

theorem cap_sign_extends_chain_witness:
  "\<exists>d. cap_sign 1500 1 (Some (\<lambda>_. replicate 96 7)) 9 (cap_new 1 0x1000000 3 1 [rule0 1]) = Inr (True, d)
     \<and> cap_issuedTo d = 9 \<and> cap_verify 1500 (\<lambda>_. Some (\<lambda>_ _. True)) d = Inr VerifyOK"
proof -
  let ?c = "cap_new 1 0x1000000 3 1 [rule0 1]"
  have w: "cap_wf ?c"
    by (simp add: cap_wf_def cap_new_def rule_wf_def rule0_def custody_wf_def custody0_def custody_used_def address_wf_def)
  have u: "custody_used ?c = []" "cap_maxCustodyChainLength ?c = 1"
    by (simp_all add: custody_used_def cap_new_def custody0_def)
  have a: "controllerFor (cap_nwid ?c) = 1" by (simp add: controllerFor_def cap_new_def address_of_def)
  have "address_wf 9" "address_wf 1" by (simp_all add: address_wf_def)
  then show ?thesis
    using cap_sign_extends_chain [OF w, of 1500 9 1 "\<lambda>_. replicate 96 7" "\<lambda>_. Some (\<lambda>_ _. True)" "\<lambda>_ _. True"] u a
    by auto
qed

section \<open>No separation between kinds of credentials\<close>

text \<open>C39: the bytes a controller signs carry no mark of the kind of credential. A tag signed by the controller with the
  address 0x0100010001 covers the same bytes as a capability with three rules on the same network, so its
  signature is a signature of that capability.\<close>

theorem tag_signature_is_capability_signature:
  assumes "address_wf a" "buf_inv b"
  shows "cap_serialize True (cap_new i nwid ts 1 [(rule0 24)\<lparr>v_zt := a\<rparr>, rule0 1, rule0 1]) b =
    tag_serialize True ((tag_new nwid ts a i 0x00031805)\<lparr>tag_signedBy := 0x0100010001\<rparr>) b"
proof -
  let ?c = "cap_new i nwid ts 1 [(rule0 24)\<lparr>v_zt := a\<rparr>, rule0 1, rule0 1]"
  let ?t = "(tag_new nwid ts a i 0x00031805)\<lparr>tag_signedBy := 0x0100010001\<rparr>"
  have a: "address_of a = a" using assms by simp
  have r: "rule_bytes ((rule0 24)\<lparr>v_zt := a\<rparr>) = [24, 5] @ be_bytes 5 a" "rule_bytes (rule0 1) = [1, 0]"
    by (simp_all add: rule_bytes_def len_pay_def rule_payload_def rule_type_def rule0_def a)
  have "cap_signed_bytes ?c = pad_bytes @ tag_head ?t @ be_bytes 2 (0 :: u16) @ pad_bytes"
    by (simp add: cap_signed_bytes_def cap_head_def tag_head_def cap_new_def tag_new_def r)
  moreover have "\<forall>r \<in> set (cap_rules ?c). rule_wf r" by (simp add: cap_new_def rule_wf_def rule0_def)
  ultimately show ?thesis
    using emitsD [OF emits_cap_sign assms(2), of ?c] emitsD [OF emits_tag_sign assms(2), of ?t] by simp
qed

theorem tag_signature_is_capability_signature_witness:
  "cap_serialize True (cap_new 5 6 7 1 [(rule0 24)\<lparr>v_zt := 1\<rparr>, rule0 1, rule0 1]) (buf_new (replicate 100 0)) =
   tag_serialize True ((tag_new 6 7 1 5 0x00031805)\<lparr>tag_signedBy := 0x0100010001\<rparr>) (buf_new (replicate 100 0))"
  by (rule tag_signature_is_capability_signature [OF address_wf_1 buf_inv_new]) simp

end
