(* ===== verification/ZT_NetworkConfig.thy ===== *)
theory ZT_NetworkConfig
  imports ZT_Capability
begin

text \<open>
  The network configuration a controller issues to a member (\<^verbatim>\<open>node/NetworkConfig.hpp\<close>): the fields that the
  credential store, the rule filter and the forwarding code read, the roles of specialist devices, and the
  signed 64-bit time arithmetic shared by the code that compares timestamps with it. The arrays with their
  counts are lists of the entries in use. The conversion to and from a dictionary is not part of this theory.
\<close>

section \<open>Time stamps\<close>

text \<open>Time is \<open>int64_t\<close>. A difference outside the range is undefined.\<close>

definition i64_sub :: "u64 \<Rightarrow> u64 \<Rightarrow> u64 result" where
  "i64_sub a b =
    (if - (2 ^ 63) \<le> sint a - sint b \<and> sint a - sint b < 2 ^ 63 then Inr (a - b) else Inl UndefinedBehaviour)"

text \<open>\<open>(a >= b) ? (a - b) : (b - a)\<close>.\<close>

definition i64_dist :: "u64 \<Rightarrow> u64 \<Rightarrow> u64 result" where
  "i64_dist a b = (if sint a \<ge> sint b then i64_sub a b else i64_sub b a)"

section \<open>The configuration\<close>

abbreviation (input) ZT_MAX_NETWORK_SPECIALISTS :: nat where "ZT_MAX_NETWORK_SPECIALISTS \<equiv> 256"

abbreviation (input) ZT_NETWORKCONFIG_SPECIALIST_TYPE_ACTIVE_BRIDGE :: u64 where
  "ZT_NETWORKCONFIG_SPECIALIST_TYPE_ACTIVE_BRIDGE \<equiv> 0x0000020000000000"

abbreviation (input) ZT_NETWORKCONFIG_SPECIALIST_TYPE_MULTICAST_REPLICATOR :: u64 where
  "ZT_NETWORKCONFIG_SPECIALIST_TYPE_MULTICAST_REPLICATOR \<equiv> 0x0000080000000000"

abbreviation (input) ZT_NETWORKCONFIG_SPECIALIST_TYPE_NETWORK_RELAY :: u64 where
  "ZT_NETWORKCONFIG_SPECIALIST_TYPE_NETWORK_RELAY \<equiv> 0x0000100000000000"

datatype network_type = ZT_NETWORK_TYPE_PRIVATE | ZT_NETWORK_TYPE_PUBLIC

record networkconfig =
  nc_networkId :: u64
  nc_timestamp :: u64
  nc_credentialTimeMaxDelta :: u64
  nc_issuedTo :: address
  nc_flags :: u64
  nc_mtu :: nat
  nc_multicastLimit :: nat
  nc_specialists :: "u64 list"
  nc_staticIps :: "inetaddress list"
  nc_rules :: "vnrule list"
  nc_capabilities :: "capability list"
  nc_tags :: "tag list"
  nc_coos :: "coo list"
  nc_type :: network_type
  nc_com :: com

definition nc_enableBroadcast :: "networkconfig \<Rightarrow> bool" where
  "nc_enableBroadcast nc \<longleftrightarrow> nc_flags nc AND 2 \<noteq> 0"

definition nc_ndpEmulation :: "networkconfig \<Rightarrow> bool" where
  "nc_ndpEmulation nc \<longleftrightarrow> nc_flags nc AND 4 \<noteq> 0"

definition nc_isPublic :: "networkconfig \<Rightarrow> bool" where
  "nc_isPublic nc \<longleftrightarrow> nc_type nc = ZT_NETWORK_TYPE_PUBLIC"

definition nc_isPrivate :: "networkconfig \<Rightarrow> bool" where
  "nc_isPrivate nc \<longleftrightarrow> nc_type nc = ZT_NETWORK_TYPE_PRIVATE"

fun specialists_with :: "u64 \<Rightarrow> u64 list \<Rightarrow> address list" where
  "specialists_with ty [] = []"
| "specialists_with ty (s # ss) =
    (if s AND ty \<noteq> 0 then address_of s # specialists_with ty ss else specialists_with ty ss)"

fun has_specialist :: "u64 \<Rightarrow> address \<Rightarrow> u64 list \<Rightarrow> bool" where
  "has_specialist ty a [] = False"
| "has_specialist ty a (s # ss) =
    (if s AND ty \<noteq> 0 \<and> address_eq_u64 a s then True else has_specialist ty a ss)"

definition nc_activeBridges :: "networkconfig \<Rightarrow> address list" where
  "nc_activeBridges nc = specialists_with ZT_NETWORKCONFIG_SPECIALIST_TYPE_ACTIVE_BRIDGE (nc_specialists nc)"

definition nc_isActiveBridge :: "networkconfig \<Rightarrow> address \<Rightarrow> bool" where
  "nc_isActiveBridge nc a = has_specialist ZT_NETWORKCONFIG_SPECIALIST_TYPE_ACTIVE_BRIDGE a (nc_specialists nc)"

definition nc_multicastReplicators :: "networkconfig \<Rightarrow> address list" where
  "nc_multicastReplicators nc = specialists_with ZT_NETWORKCONFIG_SPECIALIST_TYPE_MULTICAST_REPLICATOR (nc_specialists nc)"

definition nc_isMulticastReplicator :: "networkconfig \<Rightarrow> address \<Rightarrow> bool" where
  "nc_isMulticastReplicator nc a = has_specialist ZT_NETWORKCONFIG_SPECIALIST_TYPE_MULTICAST_REPLICATOR a (nc_specialists nc)"

definition nc_alwaysContactAddresses :: "networkconfig \<Rightarrow> address list" where
  "nc_alwaysContactAddresses nc =
    specialists_with (ZT_NETWORKCONFIG_SPECIALIST_TYPE_NETWORK_RELAY OR ZT_NETWORKCONFIG_SPECIALIST_TYPE_MULTICAST_REPLICATOR)
      (nc_specialists nc)"

definition nc_permitsBridging :: "networkconfig \<Rightarrow> address \<Rightarrow> bool" where
  "nc_permitsBridging nc fromPeer = has_specialist ZT_NETWORKCONFIG_SPECIALIST_TYPE_ACTIVE_BRIDGE fromPeer (nc_specialists nc)"

definition nc_isSet :: "networkconfig \<Rightarrow> bool" where
  "nc_isSet nc \<longleftrightarrow> nc_networkId nc \<noteq> 0"

fun mask_specialist :: "address \<Rightarrow> u64 \<Rightarrow> u64 list \<Rightarrow> u64 list option" where
  "mask_specialist a f [] = None"
| "mask_specialist a f (s # ss) =
    (if s AND 0xffffffffff = a then Some ((s OR f) # ss) else map_option ((#) s) (mask_specialist a f ss))"

definition nc_addSpecialist :: "address \<Rightarrow> u64 \<Rightarrow> networkconfig \<Rightarrow> bool \<times> networkconfig" where
  "nc_addSpecialist a f nc =
    (case mask_specialist a f (nc_specialists nc) of
       Some ss \<Rightarrow> (True, nc\<lparr>nc_specialists := ss\<rparr>)
     | None \<Rightarrow>
         if length (nc_specialists nc) < ZT_MAX_NETWORK_SPECIALISTS then
           (True, nc\<lparr>nc_specialists := nc_specialists nc @ [f OR a]\<rparr>)
         else (False, nc))"

definition nc_capability :: "networkconfig \<Rightarrow> u32 \<Rightarrow> capability option" where
  "nc_capability nc i = find (\<lambda>c. cap_id c = i) (nc_capabilities nc)"

definition nc_tag :: "networkconfig \<Rightarrow> u32 \<Rightarrow> tag option" where
  "nc_tag nc i = find (\<lambda>t. tag_id t = i) (nc_tags nc)"

section \<open>Roles\<close>

lemma has_specialist_iff:
  "has_specialist ty a ss \<longleftrightarrow> (\<exists>s \<in> set ss. s AND ty \<noteq> 0 \<and> address_eq_u64 a s)"
  by (induction ss) auto

text \<open>The address bits of an entry and its role bits do not overlap.\<close>

lemma role_bits:
  assumes "take_bit 40 ty = 0" "take_bit 40 f = 0" "address_wf a"
  shows "(f OR a) AND ty = f AND ty" "(f OR a) AND 0xffffffffff = a" "(s OR f) AND 0xffffffffff = s AND 0xffffffffff"
proof -
  have z: "\<not> bit x n" if "take_bit 40 x = 0" "n < 40" for x :: u64 and n
    using that by (metis bit_0_eq bit_take_bit_iff bot_apply bot_bool_def)
  have a: "n < 40" if "bit a n" for n
    using that assms(3) unfolding address_wf_def by (metis bit_take_bit_iff)
  show "(f OR a) AND ty = f AND ty"
    by (rule bit_eqI) (use z [OF assms(1)] a in \<open>auto simp: bit_simps\<close>)
  show "(f OR a) AND 0xffffffffff = a"
    unfolding and_mask40 by (rule bit_eqI) (use z [OF assms(2)] a in \<open>auto simp: bit_simps\<close>)
  show "(s OR f) AND 0xffffffffff = s AND 0xffffffffff"
    unfolding and_mask40 by (rule bit_eqI) (use z [OF assms(2)] in \<open>auto simp: bit_simps\<close>)
qed

lemma mask_specialist_None: "mask_specialist a f ss = None \<longleftrightarrow> (\<forall>s \<in> set ss. s AND 0xffffffffff \<noteq> a)"
  by (induction ss) auto

lemma mask_specialist_has:
  assumes "take_bit 40 f = 0" "mask_specialist a f ss = Some ss'" "address_wf a"
  shows "has_specialist ty b ss' \<longleftrightarrow> has_specialist ty b ss \<or> b = a \<and> f AND ty \<noteq> 0"
  using assms(2)
proof (induction ss arbitrary: ss')
  case (Cons s ss)
  show ?case
  proof (cases "s AND 0xffffffffff = a")
    case True
    then have ss': "ss' = (s OR f) # ss" using Cons.prems by simp
    have "(s OR f) AND ty = 0 \<longleftrightarrow> s AND ty = 0 \<and> f AND ty = 0"
      by (simp add: bit.conj_disj_distrib2 or_eq_0_iff)
    moreover have "(s OR f) AND 0xffffffffff = s AND 0xffffffffff"
      using role_bits(3) [of 0 f a s] assms(1,3) by simp
    ultimately show ?thesis using True unfolding ss' by (auto simp: address_eq_u64_def)
  next
    case False
    then obtain ys where "mask_specialist a f ss = Some ys" "ss' = s # ys" using Cons.prems by auto
    then show ?thesis using Cons by auto
  qed
qed simp

text \<open>\<open>addSpecialist\<close>, when it succeeds, gives the device exactly the roles in the flags on top of those it had, and it never changes
  the roles of another device.\<close>

theorem addSpecialist_roles:
  assumes "address_wf a" "take_bit 40 f = 0" "take_bit 40 ty = 0"
  shows "has_specialist ty b (nc_specialists (snd (nc_addSpecialist a f nc))) \<longleftrightarrow>
      has_specialist ty b (nc_specialists nc) \<or> fst (nc_addSpecialist a f nc) \<and> b = a \<and> f AND ty \<noteq> 0"
proof (cases "mask_specialist a f (nc_specialists nc)")
  case None
  have "(f OR a) AND ty = f AND ty" "(f OR a) AND 0xffffffffff = a"
    using role_bits(1,2) [OF assms(3,2,1)] by simp_all
  then show ?thesis using None by (auto simp: nc_addSpecialist_def has_specialist_iff address_eq_u64_def)
next
  case (Some ss)
  then show ?thesis using mask_specialist_has [OF assms(2) Some assms(1)] by (simp add: nc_addSpecialist_def)
qed

theorem addSpecialist_roles_witness:
  "nc_permitsBridging (snd (nc_addSpecialist 5 0x20000000000
     \<lparr>nc_networkId = 1, nc_timestamp = 0, nc_credentialTimeMaxDelta = 0, nc_issuedTo = 1, nc_flags = 0, nc_mtu = 2800,
      nc_multicastLimit = 32, nc_specialists = [], nc_staticIps = [], nc_rules = [], nc_capabilities = [], nc_tags = [],
      nc_coos = [], nc_type = ZT_NETWORK_TYPE_PUBLIC, nc_com = com_new 0 0 0 0 [0, 0, 0, 0]\<rparr>)) 5"
proof -
  let ?nc = "\<lparr>nc_networkId = 1, nc_timestamp = 0, nc_credentialTimeMaxDelta = 0, nc_issuedTo = 1, nc_flags = 0, nc_mtu = 2800,
      nc_multicastLimit = 32, nc_specialists = [], nc_staticIps = [], nc_rules = [], nc_capabilities = [], nc_tags = [],
      nc_coos = [], nc_type = ZT_NETWORK_TYPE_PUBLIC, nc_com = com_new 0 0 0 0 [0, 0, 0, 0]\<rparr>"
  have "address_wf 5" "take_bit 40 (0x20000000000 :: u64) = 0" by (simp_all add: address_wf_def)
  from addSpecialist_roles [OF this this(2), of 5 ?nc]
  have "nc_permitsBridging (snd (nc_addSpecialist 5 0x20000000000 ?nc)) 5 \<longleftrightarrow>
      nc_permitsBridging ?nc 5 \<or> fst (nc_addSpecialist 5 0x20000000000 ?nc) \<and> (5::u64) = 5 \<and> (0x20000000000 :: u64) AND 0x20000000000 \<noteq> 0"
    unfolding nc_permitsBridging_def .
  moreover have "fst (nc_addSpecialist 5 0x20000000000 ?nc)" by (simp add: nc_addSpecialist_def)
  ultimately show ?thesis by simp
qed

end
