(* ===== verification/ZT_Hashtable.thy ===== *)
theory ZT_Hashtable
  imports ZT_Prelude
begin

text \<open>
  \<^verbatim>\<open>node/Hashtable.hpp\<close>: the chained hash table behind the topology, the membership and the multicast
  state. The record holds the bucket array \<open>_t\<close> as a list of chains, \<open>_bc\<close> and \<open>_s\<close>; \<open>hc\<close> is the hash
  function and \<open>alloc n\<close> says whether \<open>malloc\<close> of a bucket array of \<open>n\<close> pointers succeeds.
  \<open>assoc_store\<close> is the interface its clients use; the table is shown to implement it, growth included.
\<close>

section \<open>The interface\<close>

text \<open>An operation stores a value under a key or erases the key; on maps:\<close>

definition map_op :: "'k \<times> 'v option \<Rightarrow> ('k \<rightharpoonup> 'v) \<Rightarrow> ('k \<rightharpoonup> 'v)" where
  "map_op o1 f = f(fst o1 := snd o1)"

locale assoc_store =
  fixes lookup :: "'m \<Rightarrow> 'k \<Rightarrow> 'v option"
    and ins :: "'k \<Rightarrow> 'v \<Rightarrow> 'm \<Rightarrow> 'm"
    and del :: "'k \<Rightarrow> 'm \<Rightarrow> 'm"
    and card_of :: "'m \<Rightarrow> nat"
    and invar :: "'m \<Rightarrow> bool"
  assumes lookup_ins: "invar m \<Longrightarrow> lookup (ins k v m) = (lookup m)(k \<mapsto> v)"
    and lookup_del: "invar m \<Longrightarrow> lookup (del k m) = (lookup m)(k := None)"
    and card_of_dom: "invar m \<Longrightarrow> card_of m = card (dom (lookup m)) \<and> finite (dom (lookup m))"
    and invar_ins: "invar m \<Longrightarrow> invar (ins k v m)"
    and invar_del: "invar m \<Longrightarrow> invar (del k m)"
begin

definition apply_op :: "'k \<times> 'v option \<Rightarrow> 'm \<Rightarrow> 'm" where
  "apply_op o1 m = (case o1 of (k, Some v) \<Rightarrow> ins k v m | (k, None) \<Rightarrow> del k m)"

lemma invar_apply: "invar m \<Longrightarrow> invar (apply_op o1 m)"
  by (auto simp: apply_op_def invar_ins invar_del split: prod.split option.split)

lemma lookup_apply: "invar m \<Longrightarrow> lookup (apply_op o1 m) = map_op o1 (lookup m)"
  by (auto simp: map_op_def apply_op_def lookup_ins lookup_del split: prod.split option.split)

lemma run_ops:
  assumes "invar m"
  shows "invar (fold apply_op os m)
    \<and> lookup (fold apply_op os m) = fold map_op os (lookup m)
    \<and> card_of (fold apply_op os m) = card (dom (fold map_op os (lookup m)))"
  using assms
proof (induction os arbitrary: m)
  case Nil
  then show ?case using card_of_dom by simp
next
  case (Cons o1 os)
  then show ?case
    using Cons.IH [OF invar_apply [OF Cons.prems, of o1]] lookup_apply [OF Cons.prems, of o1] by simp
qed

end

section \<open>State and operations\<close>

record ('k, 'v) hashtable =
  ht_t :: "('k \<times> 'v) list list"
  ht_bc :: nat
  ht_s :: nat

definition ht_new :: "(nat \<Rightarrow> bool) \<Rightarrow> nat \<Rightarrow> ('k, 'v) hashtable result" where
  "ht_new alloc bc =
    (if \<not> alloc bc then Inl (Throw ZT_EXCEPTION_OUT_OF_MEMORY)
     else Inr \<lparr>ht_t = replicate bc [], ht_bc = bc, ht_s = 0\<rparr>)"

text \<open>The copy constructor pushes each bucket to the front of its new chain.\<close>

definition ht_copy :: "(nat \<Rightarrow> bool) \<Rightarrow> ('k, 'v) hashtable \<Rightarrow> ('k, 'v) hashtable result" where
  "ht_copy alloc ht =
    (if \<not> alloc (ht_bc ht) then Inl (Throw ZT_EXCEPTION_OUT_OF_MEMORY)
     else Inr \<lparr>ht_t = map (\<lambda>c. foldl (\<lambda>nc b. b # nc) [] c) (ht_t ht), ht_bc = ht_bc ht, ht_s = ht_s ht\<rparr>)"

definition ht_clear :: "('k, 'v) hashtable \<Rightarrow> ('k, 'v) hashtable" where
  "ht_clear ht =
    (if ht_s ht \<noteq> 0 then ht\<lparr>ht_t := map (\<lambda>_. []) (ht_t ht), ht_s := 0\<rparr> else ht)"

definition ht_keys :: "('k, 'v) hashtable \<Rightarrow> 'k list" where
  "ht_keys ht = (if ht_s ht \<noteq> 0 then concat (map (map fst) (ht_t ht)) else [])"

definition ht_appendKeys :: "('k, 'v) hashtable \<Rightarrow> 'k list \<Rightarrow> 'k list" where
  "ht_appendKeys ht v = (if ht_s ht \<noteq> 0 then v @ concat (map (map fst) (ht_t ht)) else v)"

definition ht_entries :: "('k, 'v) hashtable \<Rightarrow> ('k \<times> 'v) list" where
  "ht_entries ht = (if ht_s ht \<noteq> 0 then concat (ht_t ht) else [])"

fun chain_get :: "'k \<Rightarrow> ('k \<times> 'v) list \<Rightarrow> 'v option" where
  "chain_get k [] = None"
| "chain_get k (b # c) = (if fst b = k then Some (snd b) else chain_get k c)"

definition ht_get :: "('k \<Rightarrow> u32) \<Rightarrow> ('k, 'v) hashtable \<Rightarrow> 'k \<Rightarrow> 'v option" where
  "ht_get hc ht k = chain_get k (ht_t ht ! (unat (hc k) mod ht_bc ht))"

text \<open>The overload that copies the value out leaves its argument unchanged when the key is missing.\<close>

definition ht_get_into :: "('k \<Rightarrow> u32) \<Rightarrow> ('k, 'v) hashtable \<Rightarrow> 'k \<Rightarrow> 'v \<Rightarrow> bool \<times> 'v" where
  "ht_get_into hc ht k v =
    (case chain_get k (ht_t ht ! (unat (hc k) mod ht_bc ht)) of None \<Rightarrow> (False, v) | Some w \<Rightarrow> (True, w))"

fun chain_contains :: "'k \<Rightarrow> ('k \<times> 'v) list \<Rightarrow> bool" where
  "chain_contains k [] = False"
| "chain_contains k (b # c) = (if fst b = k then True else chain_contains k c)"

definition ht_contains :: "('k \<Rightarrow> u32) \<Rightarrow> ('k, 'v) hashtable \<Rightarrow> 'k \<Rightarrow> bool" where
  "ht_contains hc ht k = chain_contains k (ht_t ht ! (unat (hc k) mod ht_bc ht))"

fun chain_erase :: "'k \<Rightarrow> ('k \<times> 'v) list \<Rightarrow> (('k \<times> 'v) list) option" where
  "chain_erase k [] = None"
| "chain_erase k (b # c) = (if fst b = k then Some c else map_option ((#) b) (chain_erase k c))"

definition ht_erase :: "('k \<Rightarrow> u32) \<Rightarrow> 'k \<Rightarrow> ('k, 'v) hashtable \<Rightarrow> bool \<times> ('k, 'v) hashtable" where
  "ht_erase hc k ht =
    (let bidx = unat (hc k) mod ht_bc ht in
     case chain_erase k (ht_t ht ! bidx) of
       None \<Rightarrow> (False, ht)
     | Some c \<Rightarrow> (True, ht\<lparr>ht_t := (ht_t ht)[bidx := c], ht_s := ht_s ht - 1\<rparr>))"

text \<open>Moving one bucket, one chain and all chains to the new array of \<open>nc\<close> buckets.\<close>

definition grow_bucket :: "('k \<Rightarrow> u32) \<Rightarrow> nat \<Rightarrow> 'k \<times> 'v \<Rightarrow> ('k \<times> 'v) list list \<Rightarrow> ('k \<times> 'v) list list" where
  "grow_bucket hc nc b nt = (let nidx = unat (hc (fst b)) mod nc in nt[nidx := b # nt ! nidx])"

text \<open>Growing. The array doubles only when there is an entry for every bucket. An entry is an allocation of at
  least twelve bytes on the 32-bit target (the link, a key and a value), so the number of buckets is then at most
  $2^{32} / 12$ and neither \<open>_bc * 2\<close> nor the size in bytes of the new array, eight times the number
  of buckets, wraps around: the count is a natural number. Whether the allocation succeeds is the argument
  \<open>alloc\<close> of every operation, and may be another function at every call.\<close>

definition ht_grow :: "('k \<Rightarrow> u32) \<Rightarrow> (nat \<Rightarrow> bool) \<Rightarrow> ('k, 'v) hashtable \<Rightarrow> ('k, 'v) hashtable" where
  "ht_grow hc alloc ht =
    (let nc = ht_bc ht * 2 in
     if alloc nc
     then ht\<lparr>ht_t := fold (\<lambda>c nt. fold (grow_bucket hc nc) c nt) (ht_t ht) (replicate nc []), ht_bc := nc\<rparr>
     else ht)"

fun chain_set :: "'k \<Rightarrow> 'v \<Rightarrow> ('k \<times> 'v) list \<Rightarrow> (('k \<times> 'v) list) option" where
  "chain_set k v [] = None"
| "chain_set k v (b # c) =
    (if fst b = k then Some ((fst b, v) # c) else map_option ((#) b) (chain_set k v c))"

definition ht_insert_new :: "('k \<Rightarrow> u32) \<Rightarrow> (nat \<Rightarrow> bool) \<Rightarrow> 'k \<Rightarrow> 'v \<Rightarrow> ('k, 'v) hashtable \<Rightarrow> ('k, 'v) hashtable" where
  "ht_insert_new hc alloc k v ht =
    (let ht1 = (if ht_s ht \<ge> ht_bc ht then ht_grow hc alloc ht else ht);
         bidx = unat (hc k) mod ht_bc ht1
     in ht1\<lparr>ht_t := (ht_t ht1)[bidx := (k, v) # ht_t ht1 ! bidx], ht_s := ht_s ht1 + 1\<rparr>)"

definition ht_set :: "('k \<Rightarrow> u32) \<Rightarrow> (nat \<Rightarrow> bool) \<Rightarrow> 'k \<Rightarrow> 'v \<Rightarrow> ('k, 'v) hashtable \<Rightarrow> ('k, 'v) hashtable" where
  "ht_set hc alloc k v ht =
    (let bidx = unat (hc k) mod ht_bc ht in
     case chain_set k v (ht_t ht ! bidx) of
       Some c \<Rightarrow> ht\<lparr>ht_t := (ht_t ht)[bidx := c]\<rparr>
     | None \<Rightarrow> ht_insert_new hc alloc k v ht)"

text \<open>\<open>operator[]\<close> returns a reference; the new table and the value it refers to are the result, \<open>dfl\<close>
  being the value-initialised \<open>V\<close>.\<close>

definition ht_index :: "('k \<Rightarrow> u32) \<Rightarrow> (nat \<Rightarrow> bool) \<Rightarrow> 'v \<Rightarrow> 'k \<Rightarrow> ('k, 'v) hashtable \<Rightarrow> 'v \<times> ('k, 'v) hashtable" where
  "ht_index hc alloc dfl k ht =
    (case chain_get k (ht_t ht ! (unat (hc k) mod ht_bc ht)) of
       Some v \<Rightarrow> (v, ht)
     | None \<Rightarrow> (dfl, ht_insert_new hc alloc k dfl ht))"

definition ht_assign :: "('k \<Rightarrow> u32) \<Rightarrow> (nat \<Rightarrow> bool) \<Rightarrow> ('k, 'v) hashtable \<Rightarrow> ('k, 'v) hashtable \<Rightarrow> ('k, 'v) hashtable" where
  "ht_assign hc alloc ht self =
    (let self = ht_clear self in
     if ht_s ht \<noteq> 0 then fold (\<lambda>c s. fold (\<lambda>b s. ht_set hc alloc (fst b) (snd b) s) c s) (ht_t ht) self
     else self)"

definition ht_size :: "('k, 'v) hashtable \<Rightarrow> nat" where
  "ht_size ht = ht_s ht"

definition ht_empty :: "('k, 'v) hashtable \<Rightarrow> bool" where
  "ht_empty ht \<longleftrightarrow> ht_s ht = 0"

text \<open>The hash functions for integer keys.\<close>

definition hc_u64 :: "u64 \<Rightarrow> u32" where "hc_u64 i = ucast (i XOR drop_bit 32 i)"
definition hc_u32 :: "u32 \<Rightarrow> u32" where "hc_u32 i = i * 0x9e3779b1"
definition hc_u16 :: "u16 \<Rightarrow> u32" where "hc_u16 i = ucast i * 0x9e3779b1"
definition hc_int :: "u32 \<Rightarrow> u32" where "hc_int i = i * 0x9e3379b1"

text \<open>The iterator: the index \<open>_idx\<close> and the rest of the chain it is in.\<close>

record ('k, 'v) ht_iter =
  it_idx :: nat
  it_b :: "('k \<times> 'v) list"

definition ht_iterator :: "('k, 'v) hashtable \<Rightarrow> ('k, 'v) ht_iter" where
  "ht_iterator ht = \<lparr>it_idx = 0, it_b = ht_t ht ! 0\<rparr>"

function ht_next :: "('k, 'v) hashtable \<Rightarrow> ('k, 'v) ht_iter \<Rightarrow> ('k \<times> 'v) option \<times> ('k, 'v) ht_iter" where
  "ht_next ht it =
    (case it_b it of
       b # c \<Rightarrow> (Some b, it\<lparr>it_b := c\<rparr>)
     | [] \<Rightarrow>
         if it_idx it + 1 \<ge> ht_bc ht then (None, it\<lparr>it_idx := it_idx it + 1\<rparr>)
         else ht_next ht \<lparr>it_idx = it_idx it + 1, it_b = ht_t ht ! (it_idx it + 1)\<rparr>)"
  by pat_completeness auto
termination
  by (relation "measure (\<lambda>(ht, it). ht_bc ht - it_idx it)") auto

text \<open>Everything an iterator still has to deliver.\<close>

definition it_rest :: "('k, 'v) hashtable \<Rightarrow> ('k, 'v) ht_iter \<Rightarrow> ('k \<times> 'v) list" where
  "it_rest ht it = it_b it @ concat (drop (it_idx it + 1) (ht_t ht))"

text \<open>Calling \<open>next\<close> until it fails; the fuel bounds the number of calls.\<close>

fun ht_drain :: "nat \<Rightarrow> ('k, 'v) hashtable \<Rightarrow> ('k, 'v) ht_iter \<Rightarrow> ('k \<times> 'v) list option" where
  "ht_drain 0 ht it = None"
| "ht_drain (Suc n) ht it =
    (case ht_next ht it of
       (None, _) \<Rightarrow> Some []
     | (Some b, it') \<Rightarrow> map_option ((#) b) (ht_drain n ht it'))"

section \<open>Invariant\<close>

definition ht_inv :: "('k \<Rightarrow> u32) \<Rightarrow> ('k, 'v) hashtable \<Rightarrow> bool" where
  "ht_inv hc ht \<longleftrightarrow> 0 < ht_bc ht \<and> length (ht_t ht) = ht_bc ht
     \<and> (\<forall>i < ht_bc ht. distinct (map fst (ht_t ht ! i)) \<and> (\<forall>b \<in> set (ht_t ht ! i). unat (hc (fst b)) mod ht_bc ht = i))
     \<and> ht_s ht = length (concat (ht_t ht))"

declare ht_next.simps [simp del]

section \<open>Chains\<close>

lemma chain_get_map_of: "chain_get k c = map_of c k"
  by (induction c) (auto split: prod.splits)

lemma chain_contains_iff: "chain_contains k c \<longleftrightarrow> k \<in> fst ` set c"
  by (induction c) auto

lemma chain_erase_None: "chain_erase k c = None \<longleftrightarrow> k \<notin> fst ` set c"
  by (induction c) auto

lemma chain_erase_Some:
  assumes "chain_erase k c = Some c'" "distinct (map fst c)"
  shows "map_of c' = (map_of c)(k := None) \<and> distinct (map fst c') \<and> set c' \<subseteq> set c
         \<and> length c = Suc (length c')"
  using assms
proof (induction c arbitrary: c')
  case (Cons b c)
  show ?case
  proof (cases "fst b = k")
    case True
    with Cons.prems have "k \<notin> fst ` set c" "c' = c" by auto
    then show ?thesis using Cons.prems True by (auto simp: fun_eq_iff map_of_eq_None_iff)
  next
    case False
    with Cons obtain c1 where "chain_erase k c = Some c1" "c' = b # c1" by auto
    with Cons False show ?thesis by (cases b) (fastforce simp: fun_eq_iff)
  qed
qed simp

lemma chain_set_None: "chain_set k v c = None \<longleftrightarrow> k \<notin> fst ` set c"
  by (induction c) auto

lemma chain_set_Some:
  assumes "chain_set k v c = Some c'"
  shows "map_of c' = (map_of c)(k \<mapsto> v) \<and> map fst c' = map fst c"
  using assms
proof (induction c arbitrary: c')
  case (Cons b c)
  show ?case
  proof (cases "fst b = k")
    case True
    with Cons.prems show ?thesis by (cases b) (auto simp: fun_eq_iff)
  next
    case False
    with Cons.prems obtain c1 where "chain_set k v c = Some c1" "c' = b # c1" by auto
    with Cons.IH [of c1] False show ?thesis by (cases b) (auto simp: fun_eq_iff)
  qed
qed simp

section \<open>Tables\<close>

lemma length_concat_update:
  "i < length t \<Longrightarrow> length (concat (t[i := c])) + length (t ! i) = length (concat t) + length c"
proof (induction t arbitrary: i)
  case (Cons d t)
  then show ?case by (cases i) fastforce+
qed simp

lemma distinct_chains:
  assumes "\<forall>i < length t. distinct (map fst (t ! i)) \<and> (\<forall>b \<in> set (t ! i). f (fst b) = n + i)"
  shows "distinct (map fst (concat t)) \<and> (\<forall>b \<in> set (concat t). n \<le> f (fst b))"
  using assms
proof (induction t arbitrary: n)
  case (Cons c t)
  have "\<forall>i < length t. distinct (map fst (t ! i)) \<and> (\<forall>b \<in> set (t ! i). f (fst b) = Suc n + i)"
    using Cons.prems by fastforce
  from Cons.IH [OF this] have t: "distinct (map fst (concat t))" "\<forall>b \<in> set (concat t). Suc n \<le> f (fst b)"
    by blast+
  have c: "distinct (map fst c)" "\<forall>b \<in> set c. f (fst b) = n"
    using Cons.prems [rule_format, of 0] by auto
  then have "fst ` set c \<inter> fst ` set (concat t) = {}" using t(2) by fastforce
  with t c show ?case by fastforce
qed simp

lemma ht_inv_idx: "ht_inv hc ht \<Longrightarrow> unat (hc k) mod ht_bc ht < length (ht_t ht)"
  by (simp add: ht_inv_def)

lemma ht_distinct: "ht_inv hc ht \<Longrightarrow> distinct (map fst (concat (ht_t ht)))"
  using distinct_chains [of "ht_t ht" "\<lambda>k. unat (hc k) mod ht_bc ht" 0] by (auto simp: ht_inv_def)

lemma ht_get_iff:
  assumes "ht_inv hc ht"
  shows "ht_get hc ht k = Some v \<longleftrightarrow> (k, v) \<in> set (concat (ht_t ht))"
proof -
  define i where "i = unat (hc k) mod ht_bc ht"
  have i: "i < length (ht_t ht)" unfolding i_def by (rule ht_inv_idx [OF assms])
  then have "distinct (map fst (ht_t ht ! i))" using assms by (simp add: ht_inv_def)
  then have "ht_get hc ht k = Some v \<longleftrightarrow> (k, v) \<in> set (ht_t ht ! i)"
    by (simp add: ht_get_def chain_get_map_of i_def)
  also have "\<dots> \<longleftrightarrow> (k, v) \<in> set (concat (ht_t ht))"
  proof
    assume "(k, v) \<in> set (concat (ht_t ht))"
    then obtain j where "j < length (ht_t ht)" "(k, v) \<in> set (ht_t ht ! j)"
      by (auto simp: in_set_conv_nth [of _ "ht_t ht"])
    moreover from this have "j = i" using assms by (fastforce simp: ht_inv_def i_def)
    ultimately show "(k, v) \<in> set (ht_t ht ! i)" by simp
  qed (use i in auto)
  finally show ?thesis .
qed

lemma ht_update_get:
  assumes "ht_inv hc ht" "i < ht_bc ht"
  shows "ht_get hc (ht\<lparr>ht_t := (ht_t ht)[i := c], ht_s := n\<rparr>) k =
    (if unat (hc k) mod ht_bc ht = i then map_of c k else ht_get hc ht k)"
  using assms by (simp add: ht_get_def chain_get_map_of ht_inv_def)

lemma ht_update_inv:
  assumes "ht_inv hc ht" "i < ht_bc ht" "distinct (map fst c)"
    "\<forall>b \<in> set c. unat (hc (fst b)) mod ht_bc ht = i" "n + length (ht_t ht ! i) = ht_s ht + length c"
  shows "ht_inv hc (ht\<lparr>ht_t := (ht_t ht)[i := c], ht_s := n\<rparr>)"
  using assms length_concat_update [of i "ht_t ht" c]
  by (auto simp: ht_inv_def nth_list_update)

lemma ht_new_inv: "0 < bc \<Longrightarrow> ht_inv hc \<lparr>ht_t = replicate bc [], ht_bc = bc, ht_s = 0\<rparr>"
  by (simp add: ht_inv_def)

section \<open>Growth\<close>

lemma grow_buckets_nth:
  assumes "length nt = nc" "j < nc"
  shows "fold (grow_bucket hc nc) bs nt ! j
    = rev (filter (\<lambda>b. unat (hc (fst b)) mod nc = j) bs) @ nt ! j"
  using assms
proof (induction bs arbitrary: nt)
  case (Cons b bs)
  have "length (grow_bucket hc nc b nt) = nc" using Cons.prems by (simp add: grow_bucket_def Let_def)
  moreover have "grow_bucket hc nc b nt ! j = (if unat (hc (fst b)) mod nc = j then b # nt ! j else nt ! j)"
    using Cons.prems by (simp add: grow_bucket_def Let_def nth_list_update)
  ultimately show ?case using Cons by simp
qed simp

lemma length_grow_buckets [simp]: "length (fold (grow_bucket hc nc) bs nt) = length nt"
  by (induction bs arbitrary: nt) (simp_all add: grow_bucket_def Let_def)

lemma grow_buckets_total:
  "0 < nc \<Longrightarrow> length nt = nc \<Longrightarrow>
   length (concat (fold (grow_bucket hc nc) bs nt)) = length bs + length (concat nt)"
proof (induction bs arbitrary: nt)
  case (Cons b bs)
  define i where "i = unat (hc (fst b)) mod nc"
  have "length (concat (grow_bucket hc nc b nt)) = Suc (length (concat nt))"
    using length_concat_update [of i nt "b # nt ! i"] Cons.prems
    by (simp add: grow_bucket_def Let_def i_def)
  then show ?case using Cons by (simp add: grow_bucket_def Let_def)
qed simp

lemma fold_fold_concat: "fold (\<lambda>c nt. fold f c nt) cs nt = fold f (concat cs) nt"
  by (induction cs arbitrary: nt) simp_all

lemma ht_grow_inv:
  assumes "ht_inv hc ht"
  shows "ht_inv hc (ht_grow hc alloc ht)"
proof (cases "alloc (ht_bc ht * 2)")
  case True
  define nc where "nc = ht_bc ht * 2"
  have nc: "0 < nc" using assms by (simp add: ht_inv_def nc_def)
  have g: "ht_grow hc alloc ht =
      ht\<lparr>ht_t := fold (grow_bucket hc nc) (concat (ht_t ht)) (replicate nc []), ht_bc := nc\<rparr>"
    using True by (simp add: ht_grow_def Let_def nc_def fold_fold_concat)
  have "distinct (map fst (rev (filter P (concat (ht_t ht)))))" for P
    using ht_distinct [OF assms] by (simp add: distinct_map_filter rev_map [symmetric])
  then show ?thesis
    using nc assms grow_buckets_total [OF nc, of "replicate nc []" hc "concat (ht_t ht)"]
    unfolding g by (auto simp: ht_inv_def grow_buckets_nth)
qed (use assms in \<open>simp add: ht_grow_def Let_def\<close>)

lemma ht_grow_set:
  assumes "ht_inv hc ht"
  shows "set (concat (ht_t (ht_grow hc alloc ht))) = set (concat (ht_t ht))"
proof (cases "alloc (ht_bc ht * 2)")
  case True
  define nc where "nc = ht_bc ht * 2"
  define nt where "nt = fold (grow_bucket hc nc) (concat (ht_t ht)) (replicate nc [])"
  have nc: "0 < nc" using assms by (simp add: ht_inv_def nc_def)
  have len: "length nt = nc" by (simp add: nt_def)
  have "set (nt ! j) = {b \<in> set (concat (ht_t ht)). unat (hc (fst b)) mod nc = j}" if "j < nc" for j
    using that by (simp add: nt_def grow_buckets_nth)
  then have "(\<Union>j \<in> {..<nc}. set (nt ! j)) = set (concat (ht_t ht))" using nc by auto
  moreover have "set (concat nt) = (\<Union>j \<in> {..<nc}. set (nt ! j))"
    using len by (auto simp: set_conv_nth [of nt])
  ultimately show ?thesis
    using True nc by (auto simp: ht_grow_def Let_def nc_def [symmetric] fold_fold_concat nt_def)
qed (simp add: ht_grow_def Let_def)

lemma ht_grow_get:
  assumes "ht_inv hc ht"
  shows "ht_get hc (ht_grow hc alloc ht) = ht_get hc ht"
proof
  fix k
  have "ht_get hc (ht_grow hc alloc ht) k = Some v \<longleftrightarrow> ht_get hc ht k = Some v" for v
    using assms by (simp only: ht_get_iff ht_grow_inv ht_grow_set)
  then show "ht_get hc (ht_grow hc alloc ht) k = ht_get hc ht k"
    by (metis not_None_eq)
qed

section \<open>The table implements the interface\<close>

lemma ht_insert_new_spec:
  assumes "ht_inv hc ht" "ht_get hc ht k = None"
  shows "ht_inv hc (ht_insert_new hc alloc k v ht)
    \<and> ht_get hc (ht_insert_new hc alloc k v ht) = (ht_get hc ht)(k \<mapsto> v)"
proof -
  define h1 where "h1 = (if ht_s ht \<ge> ht_bc ht then ht_grow hc alloc ht else ht)"
  define i where "i = unat (hc k) mod ht_bc h1"
  have h1: "ht_inv hc h1" "ht_get hc h1 = ht_get hc ht"
    using assms by (auto simp: h1_def ht_grow_inv ht_grow_get)
  have i: "i < ht_bc h1" using ht_inv_idx [OF h1(1), of k] h1(1) by (simp add: ht_inv_def i_def)
  have eq: "ht_insert_new hc alloc k v ht =
      h1\<lparr>ht_t := (ht_t h1)[i := (k, v) # ht_t h1 ! i], ht_s := ht_s h1 + 1\<rparr>"
    by (simp add: ht_insert_new_def Let_def h1_def i_def)
  have "ht_get hc h1 k = None" using assms(2) h1(2) by simp
  then have "map_of (ht_t h1 ! i) k = None" by (simp add: ht_get_def chain_get_map_of i_def)
  then have "k \<notin> fst ` set (ht_t h1 ! i)" by (simp add: map_of_eq_None_iff)
  then have "ht_inv hc (ht_insert_new hc alloc k v ht)"
    unfolding eq using h1(1) i
    by (intro ht_update_inv) (auto simp: ht_inv_def i_def)
  moreover have "ht_get hc (ht_insert_new hc alloc k v ht) = (ht_get hc h1)(k \<mapsto> v)"
    unfolding eq
    by (rule ext) (simp add: ht_update_get [OF h1(1) i], simp add: i_def ht_get_def chain_get_map_of)
  ultimately show ?thesis using h1 by simp
qed

lemma ht_set_spec:
  assumes "ht_inv hc ht"
  shows "ht_inv hc (ht_set hc alloc k v ht) \<and> ht_get hc (ht_set hc alloc k v ht) = (ht_get hc ht)(k \<mapsto> v)"
proof -
  define i where "i = unat (hc k) mod ht_bc ht"
  have i: "i < ht_bc ht" using assms by (simp add: ht_inv_def i_def)
  show ?thesis
  proof (cases "chain_set k v (ht_t ht ! i)")
    case None
    then have "ht_get hc ht k = None"
      by (simp add: chain_set_None ht_get_def chain_get_map_of i_def map_of_eq_None_iff)
    with None show ?thesis
      using ht_insert_new_spec [OF assms] by (simp add: ht_set_def Let_def i_def)
  next
    case (Some c)
    have eq: "ht_set hc alloc k v ht = ht\<lparr>ht_t := (ht_t ht)[i := c], ht_s := ht_s ht\<rparr>"
      using Some by (simp add: ht_set_def Let_def i_def)
    have c: "map_of c = (map_of (ht_t ht ! i))(k \<mapsto> v)" "map fst c = map fst (ht_t ht ! i)"
      using chain_set_Some [OF Some] by auto
    then have "length c = length (ht_t ht ! i)" "fst ` set c = fst ` set (ht_t ht ! i)"
      by (metis length_map, metis set_map)
    moreover have "unat (hc (fst b)) mod ht_bc ht = i" if "b \<in> set c" for b
    proof -
      have "fst b \<in> fst ` set (ht_t ht ! i)" using that calculation(2) by (metis imageI)
      then show ?thesis using assms i by (fastforce simp: ht_inv_def)
    qed
    ultimately have "ht_inv hc (ht_set hc alloc k v ht)"
      unfolding eq using assms i c by (intro ht_update_inv) (auto simp: ht_inv_def)
    moreover have "ht_get hc (ht_set hc alloc k v ht) = (ht_get hc ht)(k \<mapsto> v)"
      unfolding eq ht_update_get [OF assms i] c
      by (rule ext) (simp add: i_def ht_get_def chain_get_map_of)
    ultimately show ?thesis by simp
  qed
qed

lemma ht_erase_spec:
  assumes "ht_inv hc ht"
  shows "ht_inv hc (snd (ht_erase hc k ht)) \<and> ht_get hc (snd (ht_erase hc k ht)) = (ht_get hc ht)(k := None)
    \<and> (fst (ht_erase hc k ht) \<longleftrightarrow> ht_get hc ht k \<noteq> None)"
proof -
  define i where "i = unat (hc k) mod ht_bc ht"
  have i: "i < ht_bc ht" using assms by (simp add: ht_inv_def i_def)
  have g: "ht_get hc ht k = map_of (ht_t ht ! i) k" by (simp add: ht_get_def chain_get_map_of i_def)
  show ?thesis
  proof (cases "chain_erase k (ht_t ht ! i)")
    case None
    then have "ht_get hc ht k = None" by (simp add: g chain_erase_None map_of_eq_None_iff)
    with None assms show ?thesis by (auto simp: ht_erase_def Let_def i_def fun_eq_iff)
  next
    case (Some c)
    have d: "distinct (map fst (ht_t ht ! i))" using assms i by (simp add: ht_inv_def)
    note c = chain_erase_Some [OF Some d]
    have "k \<in> fst ` set (ht_t ht ! i)" using chain_erase_None [of k "ht_t ht ! i"] Some by auto
    then have f: "ht_get hc ht k \<noteq> None" by (simp add: g map_of_eq_None_iff)
    have eq: "ht_erase hc k ht = (True, ht\<lparr>ht_t := (ht_t ht)[i := c], ht_s := ht_s ht - 1\<rparr>)"
      using Some by (simp add: ht_erase_def Let_def i_def)
    have "length (ht_t ht ! i) \<le> ht_s ht"
      using length_concat_update [of i "ht_t ht" "[]"] i assms by (simp add: ht_inv_def)
    with c have "ht_inv hc (snd (ht_erase hc k ht))"
      unfolding eq snd_conv using assms i by (intro ht_update_inv) (auto simp: ht_inv_def)
    moreover have "ht_get hc (snd (ht_erase hc k ht)) = (ht_get hc ht)(k := None)"
      unfolding eq snd_conv
      by (rule ext) (simp add: ht_update_get [OF assms i] c, simp add: i_def ht_get_def chain_get_map_of)
    ultimately show ?thesis using eq f by simp
  qed
qed

lemma ht_size_dom:
  assumes "ht_inv hc ht"
  shows "ht_size ht = card (dom (ht_get hc ht)) \<and> finite (dom (ht_get hc ht))"
proof -
  have "dom (ht_get hc ht) = fst ` set (concat (ht_t ht))"
    using ht_get_iff [OF assms] by (force simp: dom_def)
  moreover have "card (fst ` set (concat (ht_t ht))) = length (concat (ht_t ht))"
    using ht_distinct [OF assms] by (metis distinct_card length_map set_map)
  ultimately show ?thesis using assms by (simp add: ht_size_def ht_inv_def)
qed

interpretation ht: assoc_store "ht_get hc" "ht_set hc alloc" "\<lambda>k t. snd (ht_erase hc k t)" ht_size "ht_inv hc"
  for hc alloc
  by unfold_locales (simp_all add: ht_set_spec ht_erase_spec ht_size_dom)

text \<open>C24: starting from the table the constructor builds, any sequence of \<open>set\<close> and \<open>erase\<close>, whatever the
  hash function and whether or not the bucket array could be grown, leaves a table whose \<open>get\<close> is the finite
  map the sequence describes and whose \<open>size\<close> is the number of its keys.\<close>

theorem ht_refines_map:
  assumes "0 < bc" "alloc bc"
  shows "\<exists>t0. ht_new alloc bc = Inr t0 \<and>
    (let t = fold (\<lambda>o1 t. case o1 of (k, Some v) \<Rightarrow> ht_set hc alloc k v t | (k, None) \<Rightarrow> snd (ht_erase hc k t)) os t0;
         m = fold (\<lambda>o1 f. f(fst o1 := snd o1)) os Map.empty
     in ht_get hc t = m \<and> ht_size t = card (dom m))"
proof -
  define t0 :: "('a, 'b) hashtable" where "t0 = \<lparr>ht_t = replicate bc [], ht_bc = bc, ht_s = 0\<rparr>"
  have i: "ht_inv hc t0" unfolding t0_def by (rule ht_new_inv [OF assms(1)])
  have e: "ht_get hc t0 = Map.empty"
    using assms(1) by (simp add: t0_def ht_get_def fun_eq_iff)
  have "ht_new alloc bc = Inr t0" using assms(2) by (simp add: ht_new_def t0_def)
  then show ?thesis
    using ht.run_ops [OF i, of alloc os] unfolding e ht.apply_op_def [abs_def] map_op_def [abs_def]
    by (auto simp: Let_def)
qed

theorem ht_refines_map_witness:
  "\<exists>t0. ht_new (\<lambda>_. True) 1 = Inr t0 \<and>
     ht_get hc_u64 (snd (ht_erase hc_u64 1 (ht_set hc_u64 (\<lambda>_. True) 2 ''b'' (ht_set hc_u64 (\<lambda>_. True) 1 ''a'' t0)))) 2 = Some ''b''"
proof -
  have "0 < (1::nat)" "(\<lambda>_::nat. True) 1" by simp_all
  from ht_refines_map [OF this, of hc_u64 "[(1, Some ''a''), (2, Some ''b''), (1, None)]"]
  show ?thesis by (auto simp: Let_def)
qed

section \<open>Iteration and enumeration\<close>

lemma ht_next_spec:
  assumes "length (ht_t ht) = ht_bc ht"
  shows "(it_rest ht it = [] \<longrightarrow> fst (ht_next ht it) = None)
    \<and> (it_rest ht it \<noteq> [] \<longrightarrow> fst (ht_next ht it) = Some (hd (it_rest ht it))
         \<and> it_rest ht (snd (ht_next ht it)) = tl (it_rest ht it))"
  using assms
proof (induction ht it rule: ht_next.induct)
  case (1 ht it)
  show ?case
  proof (cases "it_b it")
    case (Cons b c)
    then show ?thesis by (subst (1 2 3) ht_next.simps) (simp add: it_rest_def)
  next
    case Nil
    show ?thesis
    proof (cases "it_idx it + 1 \<ge> ht_bc ht")
      case True
      then have "it_rest ht it = []" using Nil "1.prems" by (simp add: it_rest_def)
      with True Nil show ?thesis by (subst (1) ht_next.simps) simp
    next
      case False
      define it' where "it' = \<lparr>it_idx = it_idx it + 1, it_b = ht_t ht ! (it_idx it + 1)\<rparr>"
      have "drop (it_idx it + 1) (ht_t ht) = ht_t ht ! (it_idx it + 1) # drop (it_idx it + 2) (ht_t ht)"
        using False "1.prems" by (simp add: Cons_nth_drop_Suc)
      then have "it_rest ht it = it_rest ht it'" using Nil by (simp add: it_rest_def it'_def)
      moreover have "ht_next ht it = ht_next ht it'"
        using False Nil by (subst ht_next.simps) (simp add: it'_def)
      ultimately show ?thesis using "1.IH" [OF Nil False "1.prems"] by (simp add: it'_def)
    qed
  qed
qed

lemma ht_drain_rest:
  assumes "length (ht_t ht) = ht_bc ht" "length (it_rest ht it) < n"
  shows "ht_drain n ht it = Some (it_rest ht it)"
  using assms
proof (induction n arbitrary: it)
  case (Suc n)
  obtain r it' where r: "ht_next ht it = (r, it')" by force
  show ?case
  proof (cases "it_rest ht it")
    case Nil
    then show ?thesis using ht_next_spec [OF Suc.prems(1), of it] r by simp
  next
    case (Cons b bs)
    then have "r = Some b" "it_rest ht it' = bs" using ht_next_spec [OF Suc.prems(1), of it] r by auto
    with Suc Cons r show ?thesis by simp
  qed
qed simp

text \<open>draining a fresh iterator of a well-formed table ends after \<open>size\<close> entries and delivers every
  entry of the map exactly once, in the order of \<open>entries()\<close>.\<close>

theorem ht_iterate_all:
  assumes "ht_inv hc ht"
  shows "\<exists>es. ht_drain (Suc (ht_size ht)) ht (ht_iterator ht) = Some es \<and> es = ht_entries ht
    \<and> distinct (map fst es) \<and> map_of es = ht_get hc ht"
proof -
  have len: "length (ht_t ht) = ht_bc ht" "0 < ht_bc ht" using assms by (auto simp: ht_inv_def)
  then obtain c cs where t: "ht_t ht = c # cs" by (cases "ht_t ht") auto
  have rest: "it_rest ht (ht_iterator ht) = concat (ht_t ht)"
    by (simp add: it_rest_def ht_iterator_def t)
  have "length (concat (ht_t ht)) = ht_size ht" using assms by (simp add: ht_inv_def ht_size_def)
  then have "ht_drain (Suc (ht_size ht)) ht (ht_iterator ht) = Some (concat (ht_t ht))"
    using ht_drain_rest [OF len(1), of "ht_iterator ht" "Suc (ht_size ht)"]
    by (simp add: rest del: ht_drain.simps)
  moreover have "ht_entries ht = concat (ht_t ht)"
    using assms by (auto simp: ht_entries_def ht_inv_def)
  moreover have "map_of (concat (ht_t ht)) = ht_get hc ht"
  proof
    fix k
    have "map_of (concat (ht_t ht)) k = Some v \<longleftrightarrow> ht_get hc ht k = Some v" for v
      using ht_distinct [OF assms] ht_get_iff [OF assms] by simp
    then show "map_of (concat (ht_t ht)) k = ht_get hc ht k" by (metis not_None_eq)
  qed
  ultimately show ?thesis using ht_distinct [OF assms] by simp
qed

theorem ht_iterate_all_witness:
  "\<exists>es. ht_drain 2 (\<lparr>ht_t = [[], [(5, True)]], ht_bc = 2, ht_s = 1\<rparr>) (ht_iterator \<lparr>ht_t = [[], [(5, True)]], ht_bc = 2, ht_s = 1\<rparr>) = Some es
     \<and> map_of es (5::u32) = Some True"
proof -
  have i: "ht_inv hc_u32 \<lparr>ht_t = [[], [(5, True)]], ht_bc = 2, ht_s = 1\<rparr>"
    by (auto simp: ht_inv_def hc_u32_def less_2_cases_iff)
  have "ht_get hc_u32 \<lparr>ht_t = [[], [(5, True)]], ht_bc = 2, ht_s = 1\<rparr> 5 = Some True"
    by (simp add: ht_get_def hc_u32_def)
  then show ?thesis
    using ht_iterate_all [OF i] by (auto simp: ht_size_def numeral_2_eq_2 [symmetric] simp del: ht_drain.simps)
qed

end
