(* ===== verification/ZT_Membership.thy ===== *)
theory ZT_Membership
  imports ZT_NetworkConfig ZT_Hashtable
begin

text \<open>
  \<^verbatim>\<open>node/Membership\<close>: what this node knows of one other member of a network. It holds the member's certificate of
  membership with the threshold below which certificates are revoked, and the tags, capabilities and
  certificates of ownership received from it, with the revocations that apply to them. Accepting a credential
  is the place where signatures, time stamps and revocations meet.

  The configuration of this node is \<^typ>\<open>networkconfig\<close>. The identity lookup, the \<open>sizeof\<close> of the credential
  classes (the size of the buffer a credential is serialised into) and whether allocations succeed are
  arguments. Two objects that agree in every member are taken to be equal, as for \<open>memcmp\<close> of objects whose
  padding agrees.
\<close>

section \<open>State\<close>

datatype add_result = ADD_REJECTED | ADD_ACCEPTED_NEW | ADD_ACCEPTED_REDUNDANT | ADD_DEFERRED_FOR_WHOIS

record membership =
  mb_lastUpdatedMulticast :: u64
  mb_comRevocationThreshold :: u64
  mb_lastPushedCredentials :: u64
  mb_com :: com
  mb_revocations :: "(u64, u64) hashtable"
  mb_remoteTags :: "(u32, tag) hashtable"
  mb_remoteCaps :: "(u32, capability) hashtable"
  mb_remoteCoos :: "(u32, coo) hashtable"

text \<open>What verification of credentials depends on: the identities known and the sizes of the objects.\<close>

record cred_env =
  ce_identity :: "address \<Rightarrow> verifier option"
  ce_alloc :: "nat \<Rightarrow> bool"
  ce_sizeof_tag :: nat
  ce_sizeof_cap :: nat
  ce_sizeof_coo :: nat
  ce_sizeof_rev :: nat

definition com_empty :: com where
  "com_empty = \<lparr>com_signedBy = 0, com_qualifiers = [], com_signature = replicate ZT_ECC_SIGNATURE_LEN 0\<rparr>"

definition membership_new :: "(nat \<Rightarrow> bool) \<Rightarrow> membership result" where
  "membership_new alloc =
    bindE (ht_new alloc 4) (\<lambda>r. bindE (ht_new alloc 4) (\<lambda>t. bindE (ht_new alloc 4) (\<lambda>c. bindE (ht_new alloc 4) (\<lambda>o1.
      Inr \<lparr>mb_lastUpdatedMulticast = 0, mb_comRevocationThreshold = 0, mb_lastPushedCredentials = 0, mb_com = com_empty,
           mb_revocations = r, mb_remoteTags = t, mb_remoteCaps = c, mb_remoteCoos = o1\<rparr>))))"

section \<open>Queries\<close>

definition multicastLikeGate :: "u64 \<Rightarrow> membership \<Rightarrow> (bool \<times> membership) result" where
  "multicastLikeGate now m =
    bindE (i64_sub now (mb_lastUpdatedMulticast m)) (\<lambda>d.
      if sint d \<ge> 60000 then Inr (True, m\<lparr>mb_lastUpdatedMulticast := now\<rparr>) else Inr (False, m))"

definition isAllowedOnNetwork :: "networkconfig \<Rightarrow> u64 list \<Rightarrow> membership \<Rightarrow> bool" where
  "isAllowedOnNetwork nconf otherIdHash m \<longleftrightarrow>
    nc_isPublic nconf
    \<or> (sint (com_timestamp (mb_com m)) > sint (mb_comRevocationThreshold m) \<and> com_agreesWith (nc_com nconf) (mb_com m) otherIdHash)"

definition recentlyAssociated :: "int \<Rightarrow> u64 \<Rightarrow> membership \<Rightarrow> bool result" where
  "recentlyAssociated ZT_PEER_ACTIVITY_TIMEOUT now m =
    (if com_isSet (mb_com m) then
       bindE (i64_sub now (com_timestamp (mb_com m))) (\<lambda>d. Inr (sint d < ZT_PEER_ACTIVITY_TIMEOUT))
     else Inr False)"

definition credentialKey :: "u8 \<Rightarrow> u32 \<Rightarrow> u64" where
  "credentialKey t i = push_bit 32 (ucast t) OR ucast i"

abbreviation (input) CT_COM :: u8 where "CT_COM \<equiv> 1"
abbreviation (input) CT_CAPABILITY :: u8 where "CT_CAPABILITY \<equiv> 2"
abbreviation (input) CT_TAG :: u8 where "CT_TAG \<equiv> 3"
abbreviation (input) CT_COO :: u8 where "CT_COO \<equiv> 4"

text \<open>The template over the credential class, whose type code, id and time stamp are the arguments.\<close>

definition isCredentialTimestampValid :: "networkconfig \<Rightarrow> (u64, u64) hashtable \<Rightarrow> u8 \<Rightarrow> u32 \<Rightarrow> u64 \<Rightarrow> bool result" where
  "isCredentialTimestampValid nconf revs ct i ts =
    bindE (i64_dist ts (nc_timestamp nconf)) (\<lambda>d.
      if sint d \<le> sint (nc_credentialTimeMaxDelta nconf) then
        Inr (case ht_get hc_u64 revs (credentialKey ct i) of None \<Rightarrow> True | Some threshold \<Rightarrow> sint ts > sint threshold)
      else Inr False)"

text \<open>The loop over \<open>staticIps\<close> stops at the first address equal to the derived one.\<close>

fun ndp_match :: "inetaddress \<Rightarrow> nat \<Rightarrow> bytes \<Rightarrow> inetaddress list \<Rightarrow> bool" where
  "ndp_match derived n ip [] = False"
| "ndp_match derived n ip (s # ss) =
    (if inet_ipsEqual s derived then take n ip = take n (inet_rawIpData derived) else ndp_match derived n ip ss)"

definition isV6NDPEmulated :: "networkconfig \<Rightarrow> inetaddress \<Rightarrow> bool" where
  "isV6NDPEmulated nconf ip =
    (case ip of
       INET6 bs _ _ _ \<Rightarrow>
         if nc_ndpEmulation nconf then
           ndp_match (makeIpv66plane (nc_networkId nconf) (nc_issuedTo nconf)) 5 bs (nc_staticIps nconf)
           \<or> ndp_match (makeIpv6rfc4193 (nc_networkId nconf) (nc_issuedTo nconf)) 11 bs (nc_staticIps nconf)
         else False
     | _ \<Rightarrow> False)"

text \<open>Iteration delivers the entries in the order of \<^const>\<open>ht_entries\<close>; \<open>owns\<close> is the overload for the resource.\<close>

fun coo_scan :: "networkconfig \<Rightarrow> (u64, u64) hashtable \<Rightarrow> (coo \<Rightarrow> bool result) \<Rightarrow> (u32 \<times> coo) list \<Rightarrow> bool result" where
  "coo_scan nconf revs owns [] = Inr False"
| "coo_scan nconf revs owns ((k, v) # es) =
    bindE (isCredentialTimestampValid nconf revs CT_COO (coo_id v) (coo_ts v)) (\<lambda>valid.
      if valid then bindE (owns v) (\<lambda>o1. if o1 then Inr True else coo_scan nconf revs owns es)
      else coo_scan nconf revs owns es)"

definition hasCertificateOfOwnershipFor_ip :: "networkconfig \<Rightarrow> inetaddress \<Rightarrow> membership \<Rightarrow> bool result" where
  "hasCertificateOfOwnershipFor_ip nconf r m =
    bindE (coo_scan nconf (mb_revocations m) (\<lambda>c. coo_owns_ip c r) (ht_entries (mb_remoteCoos m))) (\<lambda>f.
      if f then Inr True else Inr (isV6NDPEmulated nconf r))"

definition hasCertificateOfOwnershipFor_mac :: "networkconfig \<Rightarrow> mac \<Rightarrow> membership \<Rightarrow> bool result" where
  "hasCertificateOfOwnershipFor_mac nconf r m =
    bindE (coo_scan nconf (mb_revocations m) (\<lambda>c. coo_owns_mac c r) (ht_entries (mb_remoteCoos m))) (\<lambda>f.
      if f then Inr True else Inr False)"

definition membership_getTag :: "networkconfig \<Rightarrow> u32 \<Rightarrow> membership \<Rightarrow> tag option result" where
  "membership_getTag nconf i m =
    (case ht_get hc_u32 (mb_remoteTags m) i of
       None \<Rightarrow> Inr None
     | Some t \<Rightarrow> bindE (isCredentialTimestampValid nconf (mb_revocations m) CT_TAG (tag_id t) (tag_ts t)) (\<lambda>v.
         Inr (if v then Some t else None)))"

text \<open>The capabilities a \<open>CapabilityIterator\<close> delivers, in order.\<close>

fun capability_scan :: "networkconfig \<Rightarrow> (u64, u64) hashtable \<Rightarrow> (u32 \<times> capability) list \<Rightarrow> capability list result" where
  "capability_scan nconf revs [] = Inr []"
| "capability_scan nconf revs ((k, c) # es) =
    bindE (isCredentialTimestampValid nconf revs CT_CAPABILITY (cap_id c) (cap_ts c)) (\<lambda>v.
      bindE (capability_scan nconf revs es) (\<lambda>cs. Inr (if v then c # cs else cs)))"

definition membership_capabilities :: "networkconfig \<Rightarrow> membership \<Rightarrow> capability list result" where
  "membership_capabilities nconf m = capability_scan nconf (mb_revocations m) (ht_entries (mb_remoteCaps m))"

section \<open>Adding credentials\<close>

definition addCredential_com :: "cred_env \<Rightarrow> com \<Rightarrow> membership \<Rightarrow> add_result \<times> membership" where
  "addCredential_com env c m =
    (let newts = com_timestamp c; oldts = com_timestamp (mb_com m) in
     if sint newts \<le> sint (mb_comRevocationThreshold m) then (ADD_REJECTED, m)
     else if sint newts < sint oldts then (ADD_REJECTED, m)
     else if com_eq (mb_com m) c then (ADD_ACCEPTED_REDUNDANT, m)
     else case com_verify (ce_identity env) c of
       VerifyOK \<Rightarrow> (ADD_ACCEPTED_NEW, m\<lparr>mb_com := c\<rparr>)
     | VerifyWaitWhois _ \<Rightarrow> (ADD_DEFERRED_FOR_WHOIS, m)
     | VerifyBad \<Rightarrow> (ADD_REJECTED, m))"

definition addCredImpl ::
  "(nat \<Rightarrow> bool) \<Rightarrow> u8 \<Rightarrow> ('c \<Rightarrow> u32) \<Rightarrow> ('c \<Rightarrow> u64) \<Rightarrow> ('c \<Rightarrow> verify_result result) \<Rightarrow> 'c \<Rightarrow>
   (u64, u64) hashtable \<Rightarrow> 'c \<Rightarrow> (u32, 'c) hashtable \<Rightarrow> (add_result \<times> (u32, 'c) hashtable) result" where
  "addCredImpl alloc ct cid cts verify dfl revs cred t =
    (let rc = ht_get hc_u32 t (cid cred) in
     if (case rc of Some old \<Rightarrow> sint (cts old) > sint (cts cred) | None \<Rightarrow> False) then Inr (ADD_REJECTED, t)
     else if rc = Some cred then Inr (ADD_ACCEPTED_REDUNDANT, t)
     else if (case ht_get hc_u64 revs (credentialKey ct (cid cred)) of Some rt \<Rightarrow> sint rt \<ge> sint (cts cred) | None \<Rightarrow> False) then
       Inr (ADD_REJECTED, t)
     else bindE (verify cred) (\<lambda>v.
       case v of
         VerifyOK \<Rightarrow>
           let t1 = (if rc = None then snd (ht_index hc_u32 alloc dfl (cid cred) t) else t) in
           Inr (ADD_ACCEPTED_NEW, ht_set hc_u32 alloc (cid cred) cred t1)
       | VerifyWaitWhois _ \<Rightarrow> Inr (ADD_DEFERRED_FOR_WHOIS, t)
       | VerifyBad \<Rightarrow> Inr (ADD_REJECTED, t)))"

definition addCredential_tag :: "cred_env \<Rightarrow> tag \<Rightarrow> membership \<Rightarrow> (add_result \<times> membership) result" where
  "addCredential_tag env c m =
    bindE (addCredImpl (ce_alloc env) CT_TAG tag_id tag_ts (tag_verify (ce_sizeof_tag env) (ce_identity env)) (tag_new 0 0 0 0 0)
             (mb_revocations m) c (mb_remoteTags m))
      (\<lambda>(r, t). Inr (r, m\<lparr>mb_remoteTags := t\<rparr>))"

definition cap_zero :: capability where
  "cap_zero = \<lparr>cap_nwid = 0, cap_ts = 0, cap_id = 0, cap_maxCustodyChainLength = 0, cap_rules = [], cap_custody = replicate 7 custody0\<rparr>"

definition addCredential_cap :: "cred_env \<Rightarrow> capability \<Rightarrow> membership \<Rightarrow> (add_result \<times> membership) result" where
  "addCredential_cap env c m =
    bindE (addCredImpl (ce_alloc env) CT_CAPABILITY cap_id cap_ts (cap_verify (ce_sizeof_cap env) (ce_identity env)) cap_zero
             (mb_revocations m) c (mb_remoteCaps m))
      (\<lambda>(r, t). Inr (r, m\<lparr>mb_remoteCaps := t\<rparr>))"

definition addCredential_coo :: "cred_env \<Rightarrow> coo \<Rightarrow> membership \<Rightarrow> (add_result \<times> membership) result" where
  "addCredential_coo env c m =
    bindE (addCredImpl (ce_alloc env) CT_COO coo_id coo_ts (coo_verify (ce_sizeof_coo env) (ce_identity env)) (coo_new 0 0 0 0)
             (mb_revocations m) c (mb_remoteCoos m))
      (\<lambda>(r, t). Inr (r, m\<lparr>mb_remoteCoos := t\<rparr>))"

definition addCredential_rev :: "cred_env \<Rightarrow> revocation \<Rightarrow> membership \<Rightarrow> (add_result \<times> membership) result" where
  "addCredential_rev env r m =
    bindE (rev_verify (ce_sizeof_rev env) (ce_identity env) r) (\<lambda>v.
      case v of
        VerifyBad \<Rightarrow> Inr (ADD_REJECTED, m)
      | VerifyWaitWhois _ \<Rightarrow> Inr (ADD_DEFERRED_FOR_WHOIS, m)
      | VerifyOK \<Rightarrow>
          let ct = rev_type r in
          if ct = CT_COM then
            (if sint (rev_threshold r) > sint (mb_comRevocationThreshold m) then
               Inr (ADD_ACCEPTED_NEW, m\<lparr>mb_comRevocationThreshold := rev_threshold r\<rparr>)
             else Inr (ADD_ACCEPTED_REDUNDANT, m))
          else if ct = CT_CAPABILITY \<or> ct = CT_TAG \<or> ct = CT_COO then
            (let k = credentialKey ct (rev_credentialId r);
                 (rt, revs) = ht_index hc_u64 (ce_alloc env) 0 k (mb_revocations m) in
             if sint rt < sint (rev_threshold r) then
               Inr (ADD_ACCEPTED_NEW,
                 m\<lparr>mb_revocations := ht_set hc_u64 (ce_alloc env) k (rev_threshold r) revs,
                   mb_comRevocationThreshold := rev_threshold r\<rparr>)
             else Inr (ADD_ACCEPTED_REDUNDANT, m\<lparr>mb_revocations := revs\<rparr>))
          else Inr (ADD_REJECTED, m))"

section \<open>Cleaning\<close>

text \<open>The loop erases from the table it iterates over. It is given a bound on the calls of \<open>next\<close>; running out of it is
  \<open>None\<close>.\<close>

fun clean_loop :: "('k \<Rightarrow> u32) \<Rightarrow> nat \<Rightarrow> ('c \<Rightarrow> bool result) \<Rightarrow> ('k, 'c) hashtable \<Rightarrow> ('k, 'c) ht_iter \<Rightarrow> ('k, 'c) hashtable result option" where
  "clean_loop hc 0 valid t it = None"
| "clean_loop hc (Suc n) valid t it =
    (case ht_next t it of
       (None, _) \<Rightarrow> Some (Inr t)
     | (Some (k, v), it') \<Rightarrow>
         (case valid v of
            Inl e \<Rightarrow> Some (Inl e)
          | Inr ok \<Rightarrow> clean_loop hc n valid (if \<not> ok then snd (ht_erase hc k t) else t) it'))"

definition cleanCredImpl :: "('c \<Rightarrow> bool result) \<Rightarrow> (u32, 'c) hashtable \<Rightarrow> (u32, 'c) hashtable result option" where
  "cleanCredImpl valid t = clean_loop hc_u32 (ht_size t + 1) valid t (ht_iterator t)"

definition membership_clean :: "networkconfig \<Rightarrow> membership \<Rightarrow> membership result option" where
  "membership_clean nconf m =
    (let valid = isCredentialTimestampValid nconf (mb_revocations m) in
     case (cleanCredImpl (\<lambda>t. valid CT_TAG (tag_id t) (tag_ts t)) (mb_remoteTags m),
           cleanCredImpl (\<lambda>c. valid CT_CAPABILITY (cap_id c) (cap_ts c)) (mb_remoteCaps m),
           cleanCredImpl (\<lambda>c. valid CT_COO (coo_id c) (coo_ts c)) (mb_remoteCoos m)) of
       (Some t, Some c, Some o1) \<Rightarrow>
         Some (bindE t (\<lambda>t. bindE c (\<lambda>c. bindE o1 (\<lambda>o1.
           Inr (m\<lparr>mb_remoteTags := t, mb_remoteCaps := c, mb_remoteCoos := o1\<rparr>)))))
     | _ \<Rightarrow> None)"

section \<open>Invariant and reachable states\<close>

text \<open>What \<open>_addCredImpl\<close> did when it changed the table.\<close>

definition stored :: "u8 \<Rightarrow> ('c \<Rightarrow> u32) \<Rightarrow> ('c \<Rightarrow> u64) \<Rightarrow> ('c \<Rightarrow> verify_result result) \<Rightarrow> (u64, u64) hashtable \<Rightarrow> 'c \<Rightarrow>
    (u32, 'c) hashtable \<Rightarrow> (u32, 'c) hashtable \<Rightarrow> bool" where
  "stored ct cid cts verify revs cred t t' \<longleftrightarrow>
     verify cred = Inr VerifyOK \<and> ht_get hc_u32 t' = (ht_get hc_u32 t)(cid cred \<mapsto> cred)
     \<and> (\<forall>old. ht_get hc_u32 t (cid cred) = Some old \<longrightarrow> sint (cts old) \<le> sint (cts cred))
     \<and> (\<forall>rt. ht_get hc_u64 revs (credentialKey ct (cid cred)) = Some rt \<longrightarrow> sint rt < sint (cts cred))"

text \<open>\<open>knows env e\<close>: the identities known in \<open>e\<close> are some of those of \<open>env\<close>; the node learns identities over time.\<close>

definition knows :: "cred_env \<Rightarrow> cred_env \<Rightarrow> bool" where
  "knows env e \<longleftrightarrow> ce_identity e \<subseteq>\<^sub>m ce_identity env \<and> ce_sizeof_tag e = ce_sizeof_tag env \<and> ce_sizeof_cap e = ce_sizeof_cap env
     \<and> ce_sizeof_coo e = ce_sizeof_coo env \<and> ce_sizeof_rev e = ce_sizeof_rev env"

inductive mb_step :: "cred_env \<Rightarrow> membership \<Rightarrow> membership \<Rightarrow> bool" for env where
  step_com: "knows env e \<Longrightarrow> addCredential_com e c m = (r, m') \<Longrightarrow> mb_step env m m'"
| step_tag: "knows env e \<Longrightarrow> addCredential_tag e t m = Inr (r, m') \<Longrightarrow> mb_step env m m'"
| step_cap: "knows env e \<Longrightarrow> addCredential_cap e p m = Inr (r, m') \<Longrightarrow> mb_step env m m'"
| step_coo: "knows env e \<Longrightarrow> addCredential_coo e o1 m = Inr (r, m') \<Longrightarrow> mb_step env m m'"
| step_rev: "knows env e \<Longrightarrow> addCredential_rev e v m = Inr (r, m') \<Longrightarrow> mb_step env m m'"
| step_clean: "membership_clean nconf m = Some (Inr m') \<Longrightarrow> mb_step env m m'"
| step_gate: "multicastLikeGate now m = Inr (b, m') \<Longrightarrow> mb_step env m m'"

definition table_ok :: "('c \<Rightarrow> u32) \<Rightarrow> ('c \<Rightarrow> verify_result result) \<Rightarrow> (u32, 'c) hashtable \<Rightarrow> bool" where
  "table_ok cid verify t \<longleftrightarrow> ht_inv hc_u32 t \<and> (\<forall>k c. ht_get hc_u32 t k = Some c \<longrightarrow> cid c = k \<and> verify c = Inr VerifyOK)"

definition mb_inv :: "cred_env \<Rightarrow> membership \<Rightarrow> bool" where
  "mb_inv env m \<longleftrightarrow> ht_inv hc_u64 (mb_revocations m)
     \<and> table_ok tag_id (tag_verify (ce_sizeof_tag env) (ce_identity env)) (mb_remoteTags m)
     \<and> table_ok cap_id (cap_verify (ce_sizeof_cap env) (ce_identity env)) (mb_remoteCaps m)
     \<and> table_ok coo_id (coo_verify (ce_sizeof_coo env) (ce_identity env)) (mb_remoteCoos m)
     \<and> (mb_com m = com_empty \<or> com_verify (ce_identity env) (mb_com m) = VerifyOK)"

definition env1 :: cred_env where
  "env1 = \<lparr>ce_identity = (\<lambda>_. Some (\<lambda>_ _. True)), ce_alloc = (\<lambda>_. True), ce_sizeof_tag = 200, ce_sizeof_cap = 3000,
     ce_sizeof_coo = 500, ce_sizeof_rev = 200\<rparr>"

definition mb0 :: membership where
  "mb0 = \<lparr>mb_lastUpdatedMulticast = 0, mb_comRevocationThreshold = 0, mb_lastPushedCredentials = 0, mb_com = com_empty,
      mb_revocations = \<lparr>ht_t = [[], [], [], []], ht_bc = 4, ht_s = 0\<rparr>, mb_remoteTags = \<lparr>ht_t = [[], [], [], []], ht_bc = 4, ht_s = 0\<rparr>,
      mb_remoteCaps = \<lparr>ht_t = [[], [], [], []], ht_bc = 4, ht_s = 0\<rparr>, mb_remoteCoos = \<lparr>ht_t = [[], [], [], []], ht_bc = 4, ht_s = 0\<rparr>\<rparr>"

definition tag1 :: "u64 \<Rightarrow> tag" where
  "tag1 ts = (tag_new 0x1000000 ts 1 7 9)\<lparr>tag_signedBy := 1\<rparr>"

definition rev1 :: "u8 \<Rightarrow> u64 \<Rightarrow> revocation" where
  "rev1 ct th = \<lparr>rev_id = 1, rev_credentialId = 7, rev_networkId = 0x1000000, rev_threshold = th, rev_flags = 0, rev_target = 2,
     rev_signedBy = 1, rev_type = ct, rev_signature = replicate 96 0\<rparr>"

definition com1 :: "u64 \<Rightarrow> com" where
  "com1 ts = \<lparr>com_signedBy = 1, com_qualifiers = [\<lparr>q_id = 0, q_value = ts, q_maxDelta = 9\<rparr>, \<lparr>q_id = 1, q_value = 0x1000000, q_maxDelta = 0\<rparr>],
     com_signature = replicate 96 0\<rparr>"

definition nconf1 :: networkconfig where
  "nconf1 = \<lparr>nc_networkId = 0x1000000, nc_timestamp = 8, nc_credentialTimeMaxDelta = 10, nc_issuedTo = 1, nc_flags = 0, nc_mtu = 2800,
      nc_multicastLimit = 32, nc_specialists = [], nc_staticIps = [], nc_rules = [], nc_capabilities = [], nc_tags = [],
      nc_coos = [], nc_type = ZT_NETWORK_TYPE_PRIVATE, nc_com = com1 7\<rparr>"

definition mb1 :: membership where
  "mb1 = mb0\<lparr>mb_revocations := \<lparr>ht_t = [[(0x300000007, 5)], [], [], []], ht_bc = 4, ht_s = 1\<rparr>, mb_comRevocationThreshold := 5\<rparr>"

definition mb2 :: membership where
  "mb2 = mb1\<lparr>mb_remoteTags := \<lparr>ht_t = [[], [], [], [(7, tag1 6)]], ht_bc = 4, ht_s = 1\<rparr>\<rparr>"

lemma ht_index_spec:
  assumes "ht_inv hc ht"
  shows "ht_inv hc (snd (ht_index hc alloc dfl k ht))
    \<and> fst (ht_index hc alloc dfl k ht) = (case ht_get hc ht k of None \<Rightarrow> dfl | Some v \<Rightarrow> v)
    \<and> ht_get hc (snd (ht_index hc alloc dfl k ht)) = (case ht_get hc ht k of None \<Rightarrow> (ht_get hc ht)(k \<mapsto> dfl) | Some v \<Rightarrow> ht_get hc ht)"
  using ht_insert_new_spec [OF assms, of k alloc dfl] assms
  by (auto simp: ht_index_def ht_get_def [of hc ht k] Let_def split: option.split)

section \<open>Storing a credential\<close>

lemma addCredImpl_spec:
  assumes "ht_inv hc_u32 t" "addCredImpl alloc ct cid cts verify dfl revs cred t = Inr (r, t')"
  shows "ht_inv hc_u32 t' \<and> (if r = ADD_ACCEPTED_NEW then stored ct cid cts verify revs cred t t' else t' = t)"
proof -
  let ?rc = "ht_get hc_u32 t (cid cred)"
  let ?t1 = "if ?rc = None then snd (ht_index hc_u32 alloc dfl (cid cred) t) else t"
  have 1: "ht_inv hc_u32 ?t1" "(ht_get hc_u32 ?t1)(cid cred \<mapsto> cred) = (ht_get hc_u32 t)(cid cred \<mapsto> cred)"
    using ht_index_spec [OF assms(1), of alloc dfl "cid cred"] assms(1) by auto
  note 2 = ht_set_spec [OF 1(1), of alloc "cid cred" cred]
  show ?thesis
    using assms 1 2
    by (auto simp: addCredImpl_def Let_def stored_def bindE_def not_le not_less split: if_splits sum.splits verify_result.splits option.splits)
qed

section \<open>Cleaning a table\<close>

lemma erase_rest:
  assumes "ht_inv hc t" "k \<notin> fst ` set (it_rest t it)"
  shows "it_rest (snd (ht_erase hc k t)) it = it_rest t it"
proof (cases "chain_erase k (ht_t t ! (unat (hc k) mod ht_bc t))")
  case None
  then show ?thesis by (simp add: ht_erase_def Let_def)
next
  case (Some c)
  define i where "i = unat (hc k) mod ht_bc t"
  have i: "i < length (ht_t t)" using ht_inv_idx [OF assms(1)] by (simp add: i_def)
  have k: "k \<in> fst ` set (ht_t t ! i)" using Some chain_erase_None [of k "ht_t t ! i"] by (auto simp: i_def)
  have "i < it_idx it + 1"
  proof (rule ccontr)
    assume "\<not> i < it_idx it + 1"
    then have "ht_t t ! i \<in> set (drop (it_idx it + 1) (ht_t t))"
      using i by (auto simp: in_set_conv_nth intro!: exI [of _ "i - (it_idx it + 1)"])
    with k have "k \<in> fst ` set (it_rest t it)" by (auto simp: it_rest_def)
    with assms(2) show False by simp
  qed
  with Some show ?thesis by (simp add: ht_erase_def Let_def it_rest_def i_def)
qed

lemma clean_loop_spec:
  assumes "length (it_rest t it) < n" "ht_inv hc t" "distinct (map fst (it_rest t it))"
    and "\<forall>(k, v) \<in> set (it_rest t it). ht_get hc t k = Some v \<and> (\<exists>ok. valid v = Inr ok)"
  shows "\<exists>t'. clean_loop hc n valid t it = Some (Inr t') \<and> ht_inv hc t'
    \<and> ht_get hc t' = (\<lambda>k. if \<exists>v. (k, v) \<in> set (it_rest t it) \<and> valid v = Inr False then None else ht_get hc t k)"
  using assms
proof (induction n arbitrary: t it)
  case (Suc n)
  have len: "length (ht_t t) = ht_bc t" using Suc.prems(2) by (simp add: ht_inv_def)
  obtain r it' where r: "ht_next t it = (r, it')" by force
  show ?case
  proof (cases "it_rest t it")
    case Nil
    then show ?thesis using ht_next_spec [OF len, of it] r Suc.prems(2) by simp
  next
    case (Cons b bs)
    obtain k v where b: "b = (k, v)" by force
    have n: "r = Some (k, v)" "it_rest t it' = bs" using ht_next_spec [OF len, of it] r Cons b by auto
    obtain ok where ok: "valid v = Inr ok" using Suc.prems(4) Cons b by auto
    define t1 where "t1 = (if \<not> ok then snd (ht_erase hc k t) else t)"
    have kbs: "k \<notin> fst ` set bs" using Suc.prems(3) Cons b by simp
    have t1: "ht_inv hc t1" "it_rest t1 it' = bs"
      "ht_get hc t1 = (if ok then ht_get hc t else (ht_get hc t)(k := None))"
      using ht_erase_spec [OF Suc.prems(2), of k] erase_rest [OF Suc.prems(2), of k it'] kbs n(2) Suc.prems(2)
      by (auto simp: t1_def)
    have "\<forall>(k', v') \<in> set bs. ht_get hc t1 k' = Some v' \<and> (\<exists>ok. valid v' = Inr ok)"
      using Suc.prems(4) Cons kbs t1(3) by force
    then obtain t' where t': "clean_loop hc n valid t1 it' = Some (Inr t')" "ht_inv hc t'"
      "ht_get hc t' = (\<lambda>k. if \<exists>v. (k, v) \<in> set bs \<and> valid v = Inr False then None else ht_get hc t1 k)"
      using Suc.IH [of t1 it'] Suc.prems(1,3) Cons t1(1,2) by auto
    have "clean_loop hc (Suc n) valid t it = Some (Inr t')"
      using r n(1) ok t'(1) by (simp add: t1_def del: clean_loop.simps) (simp add: t1_def)
    moreover have "ht_get hc t' = (\<lambda>k. if \<exists>v. (k, v) \<in> set (it_rest t it) \<and> valid v = Inr False then None else ht_get hc t k)"
      using t'(3) t1(3) ok Cons b kbs by (auto simp: fun_eq_iff)
    ultimately show ?thesis using t'(2) by blast
  qed
qed simp

text \<open>Cleaning a table with enough fuel keeps exactly the valid entries.\<close>

lemma clean_loop_all:
  assumes "ht_inv hc t" "\<And>k v. ht_get hc t k = Some v \<Longrightarrow> \<exists>ok. valid v = Inr ok"
  shows "\<exists>t'. clean_loop hc (ht_size t + 1) valid t (ht_iterator t) = Some (Inr t') \<and> ht_inv hc t'
    \<and> (\<forall>k v. ht_get hc t' k = Some v \<longleftrightarrow> ht_get hc t k = Some v \<and> valid v = Inr True)"
proof -
  have len: "length (ht_t t) = ht_bc t" "0 < ht_bc t" using assms(1) by (auto simp: ht_inv_def)
  then obtain c cs where t: "ht_t t = c # cs" by (cases "ht_t t") auto
  have rest: "it_rest t (ht_iterator t) = concat (ht_t t)" by (simp add: it_rest_def ht_iterator_def t)
  have e: "(k, v) \<in> set (concat (ht_t t)) \<longleftrightarrow> ht_get hc t k = Some v" for k v
    using ht_get_iff [OF assms(1)] by blast
  have sz: "length (concat (ht_t t)) = ht_size t" using assms(1) by (simp add: ht_inv_def ht_size_def)
  have all: "\<forall>(k, v) \<in> set (it_rest t (ht_iterator t)). ht_get hc t k = Some v \<and> (\<exists>ok. valid v = Inr ok)"
    unfolding rest using e assms(2) by (auto simp del: set_concat)
  have d: "distinct (map fst (it_rest t (ht_iterator t)))" "length (it_rest t (ht_iterator t)) < ht_size t + 1"
    unfolding rest using ht_distinct [OF assms(1)] sz by simp_all
  obtain t' where t': "clean_loop hc (ht_size t + 1) valid t (ht_iterator t) = Some (Inr t')" "ht_inv hc t'"
      "ht_get hc t' = (\<lambda>k. if \<exists>v. (k, v) \<in> set (concat (ht_t t)) \<and> valid v = Inr False then None else ht_get hc t k)"
    using clean_loop_spec [OF d(2) assms(1) d(1) all] unfolding rest by blast
  have g: "ht_get hc t' = (\<lambda>k. if \<exists>v. ht_get hc t k = Some v \<and> valid v = Inr False then None else ht_get hc t k)"
    unfolding t'(3) e ..
  have "ht_get hc t' k = Some v \<longleftrightarrow> ht_get hc t k = Some v \<and> valid v = Inr True" for k v
  proof (cases "ht_get hc t k = Some v")
    case True
    then show ?thesis using assms(2) [OF True] by (auto simp: g)
  next
    case False
    then show ?thesis by (auto simp: g split: if_splits)
  qed
  then show ?thesis using t'(1,2) by blast
qed

lemma cleanCredImpl_spec:
  assumes "ht_inv hc_u32 t" "\<And>k v. ht_get hc_u32 t k = Some v \<Longrightarrow> \<exists>ok. valid v = Inr ok"
  shows "\<exists>t'. cleanCredImpl valid t = Some (Inr t') \<and> ht_inv hc_u32 t'
    \<and> (\<forall>k v. ht_get hc_u32 t' k = Some v \<longleftrightarrow> ht_get hc_u32 t k = Some v \<and> valid v = Inr True)"
  using clean_loop_all [OF assms] unfolding cleanCredImpl_def .

section \<open>The life of a membership\<close>

lemma check_signature_mono:
  "gi \<subseteq>\<^sub>m gi' \<Longrightarrow> check_signature gi cap ser by nwid sig = Inr VerifyOK \<Longrightarrow> check_signature gi' cap ser by nwid sig = Inr VerifyOK"
  by (auto simp: check_signature_def map_le_def dom_def split: if_splits option.splits sum.splits fault.splits)

lemma cap_verify_loop_mono:
  "gi \<subseteq>\<^sub>m gi' \<Longrightarrow> cap_verify_loop gi nwid data prev cs = VerifyOK \<Longrightarrow> cap_verify_loop gi' nwid data prev cs = VerifyOK"
proof (induction cs arbitrary: prev)
  case (Cons cu cs)
  have "gi' a = Some v" if "gi a = Some v" for a v using that Cons.prems(1) by (metis domI map_le_def)
  then show ?case using Cons by (auto simp: Let_def split: option.splits if_splits)
qed simp

lemma cap_verify_mono:
  "gi \<subseteq>\<^sub>m gi' \<Longrightarrow> cap_verify sz gi c = Inr VerifyOK \<Longrightarrow> cap_verify sz gi' c = Inr VerifyOK"
  using cap_verify_loop_mono by (auto simp: cap_verify_def split: if_splits sum.splits fault.splits)

lemma com_verify_mono: "gi \<subseteq>\<^sub>m gi' \<Longrightarrow> com_verify gi c = VerifyOK \<Longrightarrow> com_verify gi' c = VerifyOK"
  by (auto simp: com_verify_def map_le_def dom_def split: if_splits option.splits)

lemma knows_verify:
  assumes "knows env e"
  shows "tag_verify (ce_sizeof_tag e) (ce_identity e) t = Inr VerifyOK \<Longrightarrow> tag_verify (ce_sizeof_tag env) (ce_identity env) t = Inr VerifyOK"
    and "coo_verify (ce_sizeof_coo e) (ce_identity e) c = Inr VerifyOK \<Longrightarrow> coo_verify (ce_sizeof_coo env) (ce_identity env) c = Inr VerifyOK"
    and "cap_verify (ce_sizeof_cap e) (ce_identity e) p = Inr VerifyOK \<Longrightarrow> cap_verify (ce_sizeof_cap env) (ce_identity env) p = Inr VerifyOK"
    and "com_verify (ce_identity e) x = VerifyOK \<Longrightarrow> com_verify (ce_identity env) x = VerifyOK"
  using assms check_signature_mono cap_verify_mono com_verify_mono
  unfolding knows_def tag_verify_def coo_verify_def by auto

lemma table_ok_add:
  assumes "table_ok cid verify t" "addCredImpl alloc ct cid cts verify0 dfl revs cred t = Inr (r, t')"
    and "verify0 cred = Inr VerifyOK \<Longrightarrow> verify cred = Inr VerifyOK"
  shows "table_ok cid verify t'"
  using addCredImpl_spec [OF _ assms(2)] assms(1,3) by (auto simp: table_ok_def stored_def split: if_splits)

lemma clean_loop_sub:
  "clean_loop hc n valid t it = Some (Inr t') \<Longrightarrow> ht_inv hc t \<Longrightarrow> ht_inv hc t' \<and> ht_get hc t' \<subseteq>\<^sub>m ht_get hc t"
proof (induction n arbitrary: t it)
  case (Suc n)
  obtain r it' where r: "ht_next t it = (r, it')" by force
  show ?case
  proof (cases r)
    case None
    then show ?thesis using Suc.prems r by simp
  next
    case (Some b)
    obtain k v where b: "b = (k, v)" by force
    obtain ok where ok: "valid v = Inr ok" using Suc.prems(1) r Some b by (cases "valid v") simp_all
    define t1 where "t1 = (if \<not> ok then snd (ht_erase hc k t) else t)"
    have 1: "ht_inv hc t1" "ht_get hc t1 \<subseteq>\<^sub>m ht_get hc t"
      using ht_erase_spec [OF Suc.prems(2), of k] Suc.prems(2) by (auto simp: t1_def map_le_def)
    have "clean_loop hc n valid t1 it' = Some (Inr t')" using Suc.prems(1) r Some b ok by (simp add: t1_def)
    then have "ht_inv hc t' \<and> ht_get hc t' \<subseteq>\<^sub>m ht_get hc t1" using Suc.IH 1(1) by blast
    then show ?thesis using 1(2) map_le_trans by blast
  qed
qed simp

lemma table_ok_clean:
  assumes "table_ok cid verify t" "cleanCredImpl valid t = Some (Inr t')"
  shows "table_ok cid verify t'"
  using clean_loop_sub [OF assms(2) [unfolded cleanCredImpl_def]] assms(1)
  unfolding table_ok_def by (metis domI map_le_def)

lemma clean_Some:
  assumes "membership_clean nconf m = Some (Inr m')"
  shows "\<exists>t c o1 v1 v2 v3. cleanCredImpl v1 (mb_remoteTags m) = Some (Inr t) \<and> cleanCredImpl v2 (mb_remoteCaps m) = Some (Inr c)
    \<and> cleanCredImpl v3 (mb_remoteCoos m) = Some (Inr o1) \<and> m' = m\<lparr>mb_remoteTags := t, mb_remoteCaps := c, mb_remoteCoos := o1\<rparr>"
  using assms by (auto simp: membership_clean_def Let_def bindE_def split: option.splits sum.splits)

text \<open>A revocation changes the threshold of certificates of membership and the table of revocations, in which no
  threshold decreases; after it is accepted the threshold of its credential is at least its own.\<close>

lemma addCredential_rev_spec:
  assumes "ht_inv hc_u64 (mb_revocations m)" "addCredential_rev e v m = Inr (r, m')"
  shows "\<exists>revs th. m' = m\<lparr>mb_revocations := revs, mb_comRevocationThreshold := th\<rparr> \<and> ht_inv hc_u64 revs
    \<and> (\<forall>k x. ht_get hc_u64 (mb_revocations m) k = Some x \<longrightarrow> (\<exists>y. ht_get hc_u64 revs k = Some y \<and> sint x \<le> sint y))
    \<and> (r = ADD_ACCEPTED_NEW \<or> r = ADD_ACCEPTED_REDUNDANT \<longrightarrow> rev_type v \<noteq> CT_COM \<longrightarrow>
        (\<exists>y. ht_get hc_u64 revs (credentialKey (rev_type v) (rev_credentialId v)) = Some y \<and> sint (rev_threshold v) \<le> sint y))"
proof -
  let ?revs = "mb_revocations m" and ?k = "credentialKey (rev_type v) (rev_credentialId v)"
  define x where "x = fst (ht_index hc_u64 (ce_alloc e) 0 ?k ?revs)"
  define revs1 where "revs1 = snd (ht_index hc_u64 (ce_alloc e) 0 ?k ?revs)"
  define revs2 where "revs2 = ht_set hc_u64 (ce_alloc e) ?k (rev_threshold v) revs1"
  have i: "ht_index hc_u64 (ce_alloc e) 0 ?k ?revs = (x, revs1)" by (simp add: x_def revs1_def)
  have 1: "ht_inv hc_u64 revs1" "ht_get hc_u64 revs1 = (ht_get hc_u64 ?revs)(?k \<mapsto> x)"
    using ht_index_spec [OF assms(1), of "ce_alloc e" 0 ?k] unfolding x_def revs1_def by (auto split: option.splits)
  have x: "\<And>y. ht_get hc_u64 ?revs ?k = Some y \<Longrightarrow> y = x"
    using ht_index_spec [OF assms(1), of "ce_alloc e" 0 ?k] unfolding x_def by simp
  have 2: "ht_inv hc_u64 revs2" "ht_get hc_u64 revs2 = (ht_get hc_u64 ?revs)(?k \<mapsto> rev_threshold v)"
    using ht_set_spec [OF 1(1), of "ce_alloc e" ?k "rev_threshold v"] 1(2) by (auto simp: revs2_def)
  consider "m' = m" "r \<noteq> ADD_ACCEPTED_NEW" "r \<noteq> ADD_ACCEPTED_REDUNDANT \<or> rev_type v = CT_COM"
    | "m' = m\<lparr>mb_comRevocationThreshold := rev_threshold v\<rparr>" "rev_type v = CT_COM"
    | "m' = m\<lparr>mb_revocations := revs2, mb_comRevocationThreshold := rev_threshold v\<rparr>" "sint x < sint (rev_threshold v)"
    | "m' = m\<lparr>mb_revocations := revs1\<rparr>" "sint (rev_threshold v) \<le> sint x"
    using assms(2) unfolding addCredential_rev_def Let_def i bindE_def
    by (auto simp: revs2_def not_less split: if_splits sum.splits verify_result.splits)
  then show ?thesis
  proof cases
    case 1
    then show ?thesis using assms(1) by (intro exI [of _ ?revs] exI [of _ "mb_comRevocationThreshold m"]) auto
  next
    case 2
    then show ?thesis using assms(1) by (intro exI [of _ ?revs] exI [of _ "rev_threshold v"]) auto
  next
    case 3
    then show ?thesis using 2 x by (intro exI [of _ revs2] exI [of _ "rev_threshold v"]) fastforce
  next
    case 4
    then show ?thesis using 1 x by (intro exI [of _ revs1] exI [of _ "mb_comRevocationThreshold m"]) fastforce
  qed
qed

lemma mb_inv_step: "mb_step env m m' \<Longrightarrow> mb_inv env m \<Longrightarrow> mb_inv env m'"
proof (induction rule: mb_step.cases)
  case (step_com e c m r m')
  then show ?case using knows_verify(4) [OF step_com(3), of c]
    by (auto simp: addCredential_com_def mb_inv_def Let_def split: if_splits verify_result.splits)
next
  case (step_tag e t m r m')
  then obtain t' where "addCredImpl (ce_alloc e) CT_TAG tag_id tag_ts (tag_verify (ce_sizeof_tag e) (ce_identity e)) (tag_new 0 0 0 0 0)
      (mb_revocations m) t (mb_remoteTags m) = Inr (r, t')" "m' = m\<lparr>mb_remoteTags := t'\<rparr>"
    by (auto simp: addCredential_tag_def bindE_def split: sum.splits)
  then show ?case using step_tag table_ok_add knows_verify(1) [OF step_tag(3)] unfolding mb_inv_def by fastforce
next
  case (step_cap e p m r m')
  then obtain t' where "addCredImpl (ce_alloc e) CT_CAPABILITY cap_id cap_ts (cap_verify (ce_sizeof_cap e) (ce_identity e)) cap_zero
      (mb_revocations m) p (mb_remoteCaps m) = Inr (r, t')" "m' = m\<lparr>mb_remoteCaps := t'\<rparr>"
    by (auto simp: addCredential_cap_def bindE_def split: sum.splits)
  then show ?case using step_cap table_ok_add knows_verify(3) [OF step_cap(3)] unfolding mb_inv_def by fastforce
next
  case (step_coo e p m r m')
  then obtain t' where "addCredImpl (ce_alloc e) CT_COO coo_id coo_ts (coo_verify (ce_sizeof_coo e) (ce_identity e)) (coo_new 0 0 0 0)
      (mb_revocations m) p (mb_remoteCoos m) = Inr (r, t')" "m' = m\<lparr>mb_remoteCoos := t'\<rparr>"
    by (auto simp: addCredential_coo_def bindE_def split: sum.splits)
  then show ?case using step_coo table_ok_add knows_verify(2) [OF step_coo(3)] unfolding mb_inv_def by fastforce
next
  case (step_rev e v m r m')
  then have "ht_inv hc_u64 (mb_revocations m)" by (simp add: mb_inv_def)
  from addCredential_rev_spec [OF this step_rev(4)] show ?case using step_rev(5) step_rev(1,2) unfolding mb_inv_def by auto
next
  case (step_clean nconf m m')
  obtain t c o1 v1 v2 v3 where "cleanCredImpl v1 (mb_remoteTags m) = Some (Inr t)" "cleanCredImpl v2 (mb_remoteCaps m) = Some (Inr c)"
    "cleanCredImpl v3 (mb_remoteCoos m) = Some (Inr o1)" and m': "m' = m\<lparr>mb_remoteTags := t, mb_remoteCaps := c, mb_remoteCoos := o1\<rparr>"
    using clean_Some [OF step_clean(3)] by blast
  note ok = this(1-3) [THEN table_ok_clean [rotated]]
  show ?case using step_clean(1,2,4) ok m' unfolding mb_inv_def by simp
next
  case (step_gate now m b m')
  then show ?case by (auto simp: multicastLikeGate_def mb_inv_def bindE_def split: sum.splits if_splits)
qed

lemma mb_inv_steps: "(mb_step env)\<^sup>*\<^sup>* m m' \<Longrightarrow> mb_inv env m \<Longrightarrow> mb_inv env m'"
  by (induction rule: rtranclp_induct) (auto intro: mb_inv_step)

lemma ht_get_fresh [simp]: "ht_get hc \<lparr>ht_t = replicate 4 [], ht_bc = 4, ht_s = 0\<rparr> k = None"
  by (simp add: ht_get_def)

lemma mb_inv_new: "membership_new alloc = Inr m \<Longrightarrow> mb_inv env m"
proof -
  assume "membership_new alloc = Inr m"
  then have m: "m = \<lparr>mb_lastUpdatedMulticast = 0, mb_comRevocationThreshold = 0, mb_lastPushedCredentials = 0, mb_com = com_empty,
      mb_revocations = \<lparr>ht_t = replicate 4 [], ht_bc = 4, ht_s = 0\<rparr>, mb_remoteTags = \<lparr>ht_t = replicate 4 [], ht_bc = 4, ht_s = 0\<rparr>,
      mb_remoteCaps = \<lparr>ht_t = replicate 4 [], ht_bc = 4, ht_s = 0\<rparr>, mb_remoteCoos = \<lparr>ht_t = replicate 4 [], ht_bc = 4, ht_s = 0\<rparr>\<rparr>"
    by (auto simp: membership_new_def ht_new_def bindE_def split: if_splits sum.splits)
  show ?thesis unfolding m mb_inv_def table_ok_def by (simp add: ht_new_inv)
qed

lemma rev_mono_step:
  assumes "mb_step env m m'" "ht_inv hc_u64 (mb_revocations m)" "ht_get hc_u64 (mb_revocations m) k = Some x"
  shows "\<exists>y. ht_get hc_u64 (mb_revocations m') k = Some y \<and> sint x \<le> sint y"
  using assms
proof (cases rule: mb_step.cases)
  case (step_com e c r)
  then show ?thesis using assms(3) by (auto simp: addCredential_com_def Let_def split: if_splits verify_result.splits)
next
  case (step_tag e t r)
  then show ?thesis using assms(3) by (auto simp: addCredential_tag_def bindE_def split: sum.splits)
next
  case (step_cap e t r)
  then show ?thesis using assms(3) by (auto simp: addCredential_cap_def bindE_def split: sum.splits)
next
  case (step_coo e t r)
  then show ?thesis using assms(3) by (auto simp: addCredential_coo_def bindE_def split: sum.splits)
next
  case (step_rev e v r)
  then show ?thesis using addCredential_rev_spec [OF assms(2) step_rev(2)] assms(3) by auto
next
  case (step_clean nconf)
  then show ?thesis using clean_Some [OF step_clean] assms(3) by auto
next
  case (step_gate now b)
  then show ?thesis using assms(3) by (auto simp: multicastLikeGate_def bindE_def split: sum.splits if_splits)
qed

lemma rev_mono_steps:
  assumes "(mb_step env)\<^sup>*\<^sup>* m m'" "mb_inv env m" "ht_get hc_u64 (mb_revocations m) k = Some x"
  shows "\<exists>y. ht_get hc_u64 (mb_revocations m') k = Some y \<and> sint x \<le> sint y"
  using assms
proof (induction rule: rtranclp_induct)
  case (step m1 m2)
  then obtain y where y: "ht_get hc_u64 (mb_revocations m1) k = Some y" "sint x \<le> sint y" by blast
  have "ht_inv hc_u64 (mb_revocations m1)" using mb_inv_steps [OF step.hyps(1) step.prems(1)] by (simp add: mb_inv_def)
  with rev_mono_step [OF step.hyps(2) _ y(1)] y(2) show ?case by fastforce
qed auto

text \<open>C23: in every state a membership can reach from its construction, whatever sequence of credentials arrives and
  whichever identities are known when, each stored tag, capability and certificate of ownership is filed under its
  own id and passes verification, and the certificate of membership is the empty one or passes verification.\<close>

theorem membership_authentic:
  assumes "membership_new alloc = Inr m0" "(mb_step env)\<^sup>*\<^sup>* m0 m"
  shows "mb_inv env m"
  by (rule mb_inv_steps [OF assms(2) mb_inv_new [OF assms(1)]])

text \<open>C3: once a revocation of a tag is accepted, \<open>getTag\<close> never again returns that tag with a time stamp at or below the
  revoked threshold, whatever the member sends later.\<close>

theorem revoked_tag_stays_revoked:
  assumes "mb_inv env m" "knows env e" "addCredential_rev e r m = Inr (res, m1)"
    and "res = ADD_ACCEPTED_NEW \<or> res = ADD_ACCEPTED_REDUNDANT" "rev_type r = CT_TAG"
    and "(mb_step env)\<^sup>*\<^sup>* m1 m2" "membership_getTag nconf (rev_credentialId r) m2 = Inr (Some t)"
  shows "sint (rev_threshold r) < sint (tag_ts t)"
proof -
  have "ht_inv hc_u64 (mb_revocations m)" using assms(1) by (simp add: mb_inv_def)
  then obtain x where x: "ht_get hc_u64 (mb_revocations m1) (credentialKey CT_TAG (rev_credentialId r)) = Some x"
      "sint (rev_threshold r) \<le> sint x"
    using addCredential_rev_spec [OF _ assms(3)] assms(4,5) by auto
  have 1: "mb_inv env m1" using mb_inv_step [OF step_rev [OF assms(2,3)] assms(1)] .
  obtain y where y: "ht_get hc_u64 (mb_revocations m2) (credentialKey CT_TAG (rev_credentialId r)) = Some y" "sint x \<le> sint y"
    using rev_mono_steps [OF assms(6) 1 x(1)] by blast
  have g: "ht_get hc_u32 (mb_remoteTags m2) (rev_credentialId r) = Some t"
    and v: "isCredentialTimestampValid nconf (mb_revocations m2) CT_TAG (tag_id t) (tag_ts t) = Inr True"
    using assms(7) by (auto simp: membership_getTag_def bindE_def split: option.splits sum.splits if_splits)
  have "tag_id t = rev_credentialId r" using mb_inv_steps [OF assms(6) 1] g by (simp add: mb_inv_def table_ok_def)
  then show ?thesis using v x(2) y by (auto simp: isCredentialTimestampValid_def bindE_def split: sum.splits if_splits)
qed

section \<open>Witnesses\<close>

lemma new_mb0: "membership_new (\<lambda>_. True) = Inr mb0"
  by (simp add: membership_new_def ht_new_def mb0_def eval_nat_numeral)

lemma knows_env1: "knows env1 env1"
  by (simp add: knows_def)

lemma verify_tag1: "tag_verify (ce_sizeof_tag env1) (ce_identity env1) (tag1 ts) = Inr VerifyOK"
proof -
  have "length (pad_bytes @ tag_head (tag1 ts) @ be_bytes 2 (0 :: u16) @ pad_bytes) \<le> 400"
    by (simp add: pad_bytes_def tag_head_def)
  with emits_new [OF emits_tag_sign this] show ?thesis
    by (auto simp: tag_verify_def check_signature_def env1_def tag1_def tag_new_def controllerFor_def address_of_def)
qed

lemma verify_rev1: "rev_verify (ce_sizeof_rev env1) (ce_identity env1) (rev1 ct th) = Inr VerifyOK"
proof -
  have "length (pad_bytes @ rev_head (rev1 ct th) @ be_bytes 2 (0 :: u16) @ pad_bytes) \<le> 264"
    by (simp add: pad_bytes_def rev_head_def)
  with emits_new [OF emits_rev_sign this] show ?thesis
    by (auto simp: rev_verify_def check_signature_def env1_def rev1_def controllerFor_def address_of_def)
qed

lemmas ht_eval = ht_index_def ht_insert_new_def ht_set_def ht_get_def Let_def hc_u32_def hc_u64_def credentialKey_def

lemma store7:
  "ht_get hc_u32 \<lparr>ht_t = [[], [], [], []], ht_bc = 4, ht_s = 0\<rparr> 7 = None"
  "ht_set hc_u32 (\<lambda>_. True) 7 v (snd (ht_index hc_u32 (\<lambda>_. True) d 7 \<lparr>ht_t = [[], [], [], []], ht_bc = 4, ht_s = 0\<rparr>))
    = \<lparr>ht_t = [[], [], [], [(7, v)]], ht_bc = 4, ht_s = Suc 0\<rparr>"
  by (simp_all add: ht_eval)

lemma tag1_sel [simp]: "tag_id (tag1 ts) = 7" "tag_ts (tag1 ts) = ts"
  by (simp_all add: tag1_def tag_new_def)

lemma store_rev:
  "ht_index hc_u64 (\<lambda>_. True) 0 0x300000007 \<lparr>ht_t = [[], [], [], []], ht_bc = 4, ht_s = 0\<rparr>
    = (0, \<lparr>ht_t = [[(0x300000007, 0)], [], [], []], ht_bc = 4, ht_s = Suc 0\<rparr>)"
  "ht_set hc_u64 (\<lambda>_. True) 0x300000007 v \<lparr>ht_t = [[(0x300000007, 0)], [], [], []], ht_bc = 4, ht_s = Suc 0\<rparr>
    = \<lparr>ht_t = [[(0x300000007, v)], [], [], []], ht_bc = 4, ht_s = Suc 0\<rparr>"
  by (simp_all add: ht_eval)

lemma rev1_sel [simp]: "rev_type (rev1 ct th) = ct" "rev_credentialId (rev1 ct th) = 7" "rev_threshold (rev1 ct th) = th"
  by (simp_all add: rev1_def)

lemma key7: "credentialKey 3 7 = 0x300000007"
  by (simp add: credentialKey_def)

lemma alloc_env1 [simp]: "ce_alloc env1 = (\<lambda>_. True)"
  by (simp add: env1_def)

lemma add_rev1: "addCredential_rev env1 (rev1 3 5) mb0 = Inr (ADD_ACCEPTED_NEW, mb1)"
  unfolding addCredential_rev_def verify_rev1
  by (simp add: mb1_def mb0_def key7 store_rev)

lemma add_tag1: "addCredential_tag env1 (tag1 6) mb1 = Inr (ADD_ACCEPTED_NEW, mb2)"
proof -
  have "ht_get hc_u64 \<lparr>ht_t = [[(0x300000007, 5)], [], [], []], ht_bc = 4, ht_s = 1\<rparr> 0x300000007 = Some (5 :: u64)"
    by (simp add: ht_eval)
  then show ?thesis
    unfolding addCredential_tag_def addCredImpl_def tag1_sel key7 verify_tag1 by (simp add: mb2_def mb1_def mb0_def store7)
qed

lemma steps1: "(mb_step env1)\<^sup>*\<^sup>* mb1 mb2" "(mb_step env1)\<^sup>*\<^sup>* mb0 mb2"
  using step_rev [OF knows_env1 add_rev1] step_tag [OF knows_env1 add_tag1] by (auto intro: converse_rtranclp_into_rtranclp)

theorem membership_authentic_witness: "mb_inv env1 mb2 \<and> ht_get hc_u32 (mb_remoteTags mb2) 7 = Some (tag1 6)"
  using membership_authentic [OF new_mb0 steps1(2)] by (simp add: mb2_def ht_get_def hc_u32_def)

theorem revoked_tag_stays_revoked_witness:
  "\<exists>t. membership_getTag nconf1 7 mb2 = Inr (Some t) \<and> sint (5 :: u64) < sint (tag_ts t)"
proof -
  have "ht_get hc_u32 (mb_remoteTags mb2) 7 = Some (tag1 6)" by (simp add: mb2_def ht_get_def hc_u32_def)
  moreover have "isCredentialTimestampValid nconf1 (mb_revocations mb2) 3 7 6 = Inr True"
    by (simp add: isCredentialTimestampValid_def i64_dist_def i64_sub_def nconf1_def mb2_def mb1_def mb0_def ht_get_def hc_u64_def key7)
  ultimately have g: "membership_getTag nconf1 7 mb2 = Inr (Some (tag1 6))" by (simp add: membership_getTag_def)
  have "membership_getTag nconf1 (rev_credentialId (rev1 3 5)) mb2 = Inr (Some (tag1 6))" using g by simp
  from revoked_tag_stays_revoked [OF mb_inv_new [OF new_mb0] knows_env1 add_rev1 _ _ steps1(1) this] g show ?thesis by auto
qed

section \<open>A revocation can undo another\<close>

text \<open>C34: accepting the revocation of a tag overwrites the threshold below which certificates of membership are
  revoked, even with a lower one: a certificate rejected as revoked before is accepted afterwards.\<close>

theorem tag_revocation_unrevokes_com:
  assumes "rev_verify (ce_sizeof_rev env) (ce_identity env) r = Inr VerifyOK" "rev_type r = CT_TAG"
    and "ht_get hc_u64 (mb_revocations m) (credentialKey CT_TAG (rev_credentialId r)) = None" "ht_inv hc_u64 (mb_revocations m)"
    and "0 < sint (rev_threshold r)" "sint (rev_threshold r) < sint (com_timestamp c)"
    and "sint (com_timestamp c) \<le> sint (mb_comRevocationThreshold m)"
    and "sint (com_timestamp (mb_com m)) \<le> sint (com_timestamp c)" "\<not> com_eq (mb_com m) c" "com_verify (ce_identity env) c = VerifyOK"
  shows "fst (addCredential_com env c m) = ADD_REJECTED \<and>
    (\<exists>m'. addCredential_rev env r m = Inr (ADD_ACCEPTED_NEW, m') \<and> addCredential_com env c m' = (ADD_ACCEPTED_NEW, m'\<lparr>mb_com := c\<rparr>))"
proof -
  obtain revs where "ht_index hc_u64 (ce_alloc env) 0 (credentialKey CT_TAG (rev_credentialId r)) (mb_revocations m) = (0, revs)"
    using ht_index_spec [OF assms(4), of "ce_alloc env" 0] assms(3) by (metis option.case(1) prod.collapse)
  then show ?thesis using assms by (simp add: addCredential_rev_def addCredential_com_def Let_def)
qed

theorem tag_revocation_unrevokes_com_witness:
  "fst (addCredential_com env1 (com1 7) (mb0\<lparr>mb_comRevocationThreshold := 10\<rparr>)) = ADD_REJECTED \<and>
   (\<exists>m'. addCredential_rev env1 (rev1 3 5) (mb0\<lparr>mb_comRevocationThreshold := 10\<rparr>) = Inr (ADD_ACCEPTED_NEW, m')
     \<and> fst (addCredential_com env1 (com1 7) m') = ADD_ACCEPTED_NEW)"
proof -
  let ?m = "mb0\<lparr>mb_comRevocationThreshold := 10\<rparr>"
  have i: "ht_inv hc_u64 (mb_revocations ?m)"
    using mb_inv_new [OF new_mb0] by (simp add: mb_inv_def)
  have n: "ht_get hc_u64 (mb_revocations ?m) (credentialKey CT_TAG (rev_credentialId (rev1 3 5))) = None"
    by (simp add: mb0_def ht_get_def hc_u64_def key7)
  have t: "com_timestamp (com1 7) = 7" "com_timestamp (mb_com ?m) = 0" "com_verify (ce_identity env1) (com1 7) = VerifyOK"
      "\<not> com_eq (mb_com ?m) (com1 7)"
    by (simp_all add: com1_def com_timestamp_def com_field_def com_empty_def mb0_def com_verify_def com_networkId_def env1_def
        controllerFor_def address_of_def com_eq_def)
  show ?thesis
    using tag_revocation_unrevokes_com [OF verify_rev1 _ n i, of "com1 7"] t by auto
qed

section \<open>Cleaning\<close>

lemma i64_dist_nonneg:
  assumes "0 \<le> sint a" "0 \<le> sint b"
  shows "\<exists>d. i64_dist a b = Inr d"
  using assms sint_lt [of a] sint_lt [of b] by (auto simp: i64_dist_def i64_sub_def)

text \<open>C27: with time stamps that are not negative, \<open>clean\<close> ends and keeps exactly those credentials that are still valid at the
  configuration's time.\<close>

theorem clean_keeps_valid:
  assumes "mb_inv env m" "0 \<le> sint (nc_timestamp nconf)"
    and "\<forall>k t. ht_get hc_u32 (mb_remoteTags m) k = Some t \<longrightarrow> 0 \<le> sint (tag_ts t)"
    and "\<forall>k t. ht_get hc_u32 (mb_remoteCaps m) k = Some t \<longrightarrow> 0 \<le> sint (cap_ts t)"
    and "\<forall>k t. ht_get hc_u32 (mb_remoteCoos m) k = Some t \<longrightarrow> 0 \<le> sint (coo_ts t)"
  shows "\<exists>m'. membership_clean nconf m = Some (Inr m') \<and> mb_inv env m'
    \<and> (\<forall>k t. ht_get hc_u32 (mb_remoteTags m') k = Some t \<longleftrightarrow> membership_getTag nconf k m = Inr (Some t))
    \<and> (\<forall>k c. ht_get hc_u32 (mb_remoteCaps m') k = Some c \<longleftrightarrow> ht_get hc_u32 (mb_remoteCaps m) k = Some c
         \<and> isCredentialTimestampValid nconf (mb_revocations m) CT_CAPABILITY k (cap_ts c) = Inr True)
    \<and> (\<forall>k c. ht_get hc_u32 (mb_remoteCoos m') k = Some c \<longleftrightarrow> ht_get hc_u32 (mb_remoteCoos m) k = Some c
         \<and> isCredentialTimestampValid nconf (mb_revocations m) CT_COO k (coo_ts c) = Inr True)"
proof -
  let ?v = "isCredentialTimestampValid nconf (mb_revocations m)"
  have v: "\<exists>ok. ?v ct i ts = Inr ok" if "0 \<le> sint ts" for ct i ts
    using i64_dist_nonneg [OF that assms(2)] by (auto simp: isCredentialTimestampValid_def)
  have i: "ht_inv hc_u32 (mb_remoteTags m)" "ht_inv hc_u32 (mb_remoteCaps m)" "ht_inv hc_u32 (mb_remoteCoos m)"
    and k: "\<And>k c. ht_get hc_u32 (mb_remoteTags m) k = Some c \<Longrightarrow> tag_id c = k"
    "\<And>k c. ht_get hc_u32 (mb_remoteCaps m) k = Some c \<Longrightarrow> cap_id c = k"
    "\<And>k c. ht_get hc_u32 (mb_remoteCoos m) k = Some c \<Longrightarrow> coo_id c = k"
    using assms(1) by (simp_all add: mb_inv_def table_ok_def)
  obtain t where t: "cleanCredImpl (\<lambda>t. ?v CT_TAG (tag_id t) (tag_ts t)) (mb_remoteTags m) = Some (Inr t)"
      "\<And>k x. ht_get hc_u32 t k = Some x \<longleftrightarrow> ht_get hc_u32 (mb_remoteTags m) k = Some x \<and> ?v CT_TAG (tag_id x) (tag_ts x) = Inr True"
    using cleanCredImpl_spec [OF i(1), of "\<lambda>t. ?v CT_TAG (tag_id t) (tag_ts t)"] v assms(3) by blast
  obtain c where c: "cleanCredImpl (\<lambda>c. ?v CT_CAPABILITY (cap_id c) (cap_ts c)) (mb_remoteCaps m) = Some (Inr c)"
      "\<And>k x. ht_get hc_u32 c k = Some x \<longleftrightarrow> ht_get hc_u32 (mb_remoteCaps m) k = Some x \<and> ?v CT_CAPABILITY (cap_id x) (cap_ts x) = Inr True"
    using cleanCredImpl_spec [OF i(2), of "\<lambda>c. ?v CT_CAPABILITY (cap_id c) (cap_ts c)"] v assms(4) by blast
  obtain o1 where o1: "cleanCredImpl (\<lambda>c. ?v CT_COO (coo_id c) (coo_ts c)) (mb_remoteCoos m) = Some (Inr o1)"
      "\<And>k x. ht_get hc_u32 o1 k = Some x \<longleftrightarrow> ht_get hc_u32 (mb_remoteCoos m) k = Some x \<and> ?v CT_COO (coo_id x) (coo_ts x) = Inr True"
    using cleanCredImpl_spec [OF i(3), of "\<lambda>c. ?v CT_COO (coo_id c) (coo_ts c)"] v assms(5) by blast
  define m' where "m' = m\<lparr>mb_remoteTags := t, mb_remoteCaps := c, mb_remoteCoos := o1\<rparr>"
  have m': "membership_clean nconf m = Some (Inr m')" using t(1) c(1) o1(1) by (simp add: membership_clean_def m'_def)
  have "membership_getTag nconf k' m = Inr (Some x) \<longleftrightarrow> ht_get hc_u32 (mb_remoteTags m) k' = Some x \<and> ?v CT_TAG (tag_id x) (tag_ts x) = Inr True" for k' x
    by (auto simp: membership_getTag_def bindE_def split: option.splits sum.splits)
  then show ?thesis
    using m' mb_inv_step [OF step_clean [OF m'] assms(1)] t(2) c(2) o1(2) k by (intro exI [of _ m']) (auto simp: m'_def)
qed

theorem clean_keeps_valid_witness:
  "\<exists>m'. membership_clean nconf1 mb2 = Some (Inr m') \<and> ht_get hc_u32 (mb_remoteTags m') 7 = Some (tag1 6)"
proof -
  have g: "ht_get hc_u32 (mb_remoteTags mb2) k = (if k = 7 then Some (tag1 6) else None)" for k
  proof -
    have t: "ht_inv hc_u32 (mb_remoteTags mb2)"
      using mb_inv_steps [OF steps1(2) mb_inv_new [OF new_mb0]] by (simp add: mb_inv_def table_ok_def)
    have "ht_get hc_u32 (mb_remoteTags mb2) k = Some v \<longleftrightarrow> k = 7 \<and> v = tag1 6" for v
      using ht_get_iff [OF t, of k v] by (simp add: mb2_def)
    then show ?thesis by (cases "ht_get hc_u32 (mb_remoteTags mb2) k") auto
  qed
  have e: "ht_get hc_u32 (mb_remoteCaps mb2) k = None" "ht_get hc_u32 (mb_remoteCoos mb2) k = None" for k
    by (simp_all add: mb2_def mb1_def mb0_def ht_get_def nth_Cons' )
  have v: "isCredentialTimestampValid nconf1 (mb_revocations mb2) 3 7 6 = Inr True"
    by (simp add: isCredentialTimestampValid_def i64_dist_def i64_sub_def nconf1_def mb2_def mb1_def mb0_def ht_get_def hc_u64_def key7)
  have "membership_getTag nconf1 7 mb2 = Inr (Some (tag1 6))" using g [of 7] v by (simp add: membership_getTag_def)
  moreover have "0 \<le> sint (nc_timestamp nconf1)" by (simp add: nconf1_def)
  moreover have "\<forall>k t. ht_get hc_u32 (mb_remoteTags mb2) k = Some t \<longrightarrow> 0 \<le> sint (tag_ts t)" using g by auto
  ultimately show ?thesis
    using clean_keeps_valid [OF mb_inv_steps [OF steps1(2) mb_inv_new [OF new_mb0]], of nconf1] e by auto
qed

end
