(* ===== verification/ZT_Rules.thy ===== *)
theory ZT_Rules
  imports ZT_Membership
begin

text \<open>
  The rule filter of \<^verbatim>\<open>node/Network.cpp\<close> (\<open>_doZtFilter\<close>). A list of rules is a sequence of sets, each a run of matches
  followed by an action. The loop keeps whether the current set still matches, whether this node is a target of a
  tee or redirect, and whether the next drop is to be skipped. A frame is its list of bytes, so that \<open>frameLen\<close> is its length;
  reading past the end of a frame is undefined. The trace log is left out.
\<close>

unbundle bit_operations_syntax

section \<open>Random numbers\<close>

text \<open>The xorshift generator of the node; its state is \<open>_prngState\<close>.\<close>

definition node_prng :: "u64 \<times> u64 \<Rightarrow> u64 \<times> (u64 \<times> u64)" where
  "node_prng s =
    (case s of (x0, y) \<Rightarrow>
       let x = x0 XOR push_bit 23 x0;
           z = x XOR y XOR drop_bit 17 x XOR drop_bit 26 y
       in (z + y, (y, z)))"

section \<open>Reading a frame\<close>

definition frame_at :: "bytes \<Rightarrow> nat \<Rightarrow> u8 result" where
  "frame_at frame i = (if i < length frame then Inr (frame ! i) else Inl UndefinedBehaviour)"

definition is_ipv6_option :: "u8 \<Rightarrow> bool" where
  "is_ipv6_option proto \<longleftrightarrow> proto = 0 \<or> proto = 43 \<or> proto = 60 \<or> proto = 135"

text \<open>The loop over extension headers; \<open>None\<close> is the result \<open>false\<close>, otherwise the final \<open>pos\<close> and \<open>proto\<close>.\<close>

function ipv6_payload_loop :: "bytes \<Rightarrow> nat \<Rightarrow> u8 \<Rightarrow> (nat \<times> u8) option" where
  "ipv6_payload_loop frame pos proto =
    (if pos \<le> length frame then
       if is_ipv6_option proto then
         if pos + 8 > length frame then None
         else ipv6_payload_loop frame (pos + (unat (frame ! (pos + 1)) * 8 + 8)) (frame ! pos)
       else Some (pos, proto)
     else None)"
  by pat_completeness auto
termination
  by (relation "measure (\<lambda>(frame, pos, proto). Suc (length frame) - pos)") auto

declare ipv6_payload_loop.simps [simp del]

definition ipv6GetPayload :: "bytes \<Rightarrow> (nat \<times> u8) option" where
  "ipv6GetPayload frame = (if length frame < 40 then None else ipv6_payload_loop frame 40 (frame ! 6))"

section \<open>Evaluation context\<close>

abbreviation (input) ZT_ETHERTYPE_IPV4 :: nat where "ZT_ETHERTYPE_IPV4 \<equiv> 0x0800"
abbreviation (input) ZT_ETHERTYPE_ARP :: nat where "ZT_ETHERTYPE_ARP \<equiv> 0x0806"
abbreviation (input) ZT_ETHERTYPE_IPV6 :: nat where "ZT_ETHERTYPE_IPV6 \<equiv> 0x86dd"

text \<open>The arguments of \<open>_doZtFilter\<close> that it does not change; \<open>fx_self\<close> is the address of this node.\<close>

record filter_ctx =
  fx_self :: address
  fx_nconf :: networkconfig
  fx_membership :: "membership option"
  fx_inbound :: bool
  fx_ztSource :: address
  fx_macSource :: mac
  fx_macDest :: mac
  fx_frame :: bytes
  fx_etherType :: nat
  fx_vlanId :: nat

text \<open>Its local variables, reference arguments and the random state. The \<open>uint8_t\<close> flags only hold 0 and 1.\<close>

record filter_state =
  fs_superAccept :: bool
  fs_set :: bool
  fs_skipDrop :: bool
  fs_ztDest :: address
  fs_cc :: address
  fs_ccLength :: nat
  fs_ccWatch :: bool
  fs_qosBucket :: u8
  fs_prng :: "u64 \<times> u64"

datatype filter_result = FILTER_NO_MATCH | FILTER_DROP | FILTER_REDIRECT | FILTER_ACCEPT | FILTER_SUPER_ACCEPT

text \<open>The NOT and OR bits of a rule. The \<open>hard\<close> results cancel the NOT bit that is applied to every result.\<close>

definition rule_not :: "vnrule \<Rightarrow> bool" where
  "rule_not r \<longleftrightarrow> r_t r AND 0x80 \<noteq> 0"

definition rule_or :: "vnrule \<Rightarrow> bool" where
  "rule_or r \<longleftrightarrow> r_t r AND 0x40 \<noteq> 0"

definition hardYes :: "vnrule \<Rightarrow> bool" where
  "hardYes r = (rule_not r \<noteq> True)"

definition hardNo :: "vnrule \<Rightarrow> bool" where
  "hardNo r = (rule_not r \<noteq> False)"

section \<open>Matches\<close>

definition match_ipv4 :: "nat \<Rightarrow> filter_ctx \<Rightarrow> vnrule \<Rightarrow> bool result" where
  "match_ipv4 off cx r =
    (if fx_etherType cx = ZT_ETHERTYPE_IPV4 \<and> length (fx_frame cx) \<ge> 20 then
       bindE (inet_set (le_bytes 4 (fst (v_ipv4 r))) 4 (unat (snd (v_ipv4 r)))) (\<lambda>net.
       bindE (inet_set (drop off (fx_frame cx)) 4 0) (\<lambda>ip. inet_containsAddress net ip))
     else Inr (hardNo r))"

definition match_ipv6 :: "nat \<Rightarrow> filter_ctx \<Rightarrow> vnrule \<Rightarrow> bool result" where
  "match_ipv6 off cx r =
    (if fx_etherType cx = ZT_ETHERTYPE_IPV6 \<and> length (fx_frame cx) \<ge> 40 then
       bindE (inet_set (fst (v_ipv6 r)) 16 (unat (snd (v_ipv6 r)))) (\<lambda>net.
       bindE (inet_set (drop off (fx_frame cx)) 16 0) (\<lambda>ip. inet_containsAddress net ip))
     else Inr (hardNo r))"

definition match_tos :: "filter_ctx \<Rightarrow> vnrule \<Rightarrow> bool result" where
  "match_tos cx r =
    (case v_ipTos r of (m, v0, v1) \<Rightarrow>
     if fx_etherType cx = ZT_ETHERTYPE_IPV4 \<and> length (fx_frame cx) \<ge> 20 then
       bindE (frame_at (fx_frame cx) 1) (\<lambda>b1.
         let tosMasked = b1 AND m in Inr (tosMasked \<ge> v0 \<and> tosMasked \<le> v1))
     else if fx_etherType cx = ZT_ETHERTYPE_IPV6 \<and> length (fx_frame cx) \<ge> 40 then
       bindE (frame_at (fx_frame cx) 0) (\<lambda>b0. bindE (frame_at (fx_frame cx) 1) (\<lambda>b1.
         let tosMasked = ((push_bit 4 b0 AND 0xf0) OR (drop_bit 4 b1 AND 0x0f)) AND m in
         Inr (tosMasked \<ge> v0 \<and> tosMasked \<le> v1)))
     else Inr (hardNo r))"

definition match_ip_protocol :: "filter_ctx \<Rightarrow> vnrule \<Rightarrow> bool result" where
  "match_ip_protocol cx r =
    (if fx_etherType cx = ZT_ETHERTYPE_IPV4 \<and> length (fx_frame cx) \<ge> 20 then
       bindE (frame_at (fx_frame cx) 9) (\<lambda>p. Inr (v_ipProtocol r = p))
     else if fx_etherType cx = ZT_ETHERTYPE_IPV6 then
       (case ipv6GetPayload (fx_frame cx) of
          Some (pos, proto) \<Rightarrow> Inr (v_ipProtocol r = proto)
        | None \<Rightarrow> Inr (hardNo r))
     else Inr (hardNo r))"

text \<open>Type and code of the ICMP message at \<open>pos\<close>.\<close>

definition match_icmp_at :: "filter_ctx \<Rightarrow> vnrule \<Rightarrow> nat \<Rightarrow> bool result" where
  "match_icmp_at cx r pos =
    (case v_icmp r of (ty, code, flags) \<Rightarrow>
     if length (fx_frame cx) \<ge> pos + 2 then
       bindE (frame_at (fx_frame cx) pos) (\<lambda>t.
         if ty = t then
           if flags AND 0x01 \<noteq> 0 then bindE (frame_at (fx_frame cx) (pos + 1)) (\<lambda>c. Inr (c = code))
           else Inr (hardYes r)
         else Inr (hardNo r))
     else Inr (hardNo r))"

definition match_icmp :: "filter_ctx \<Rightarrow> vnrule \<Rightarrow> bool result" where
  "match_icmp cx r =
    (if fx_etherType cx = ZT_ETHERTYPE_IPV4 \<and> length (fx_frame cx) \<ge> 20 then
       bindE (frame_at (fx_frame cx) 9) (\<lambda>p.
         if p = 0x01 then
           bindE (frame_at (fx_frame cx) 0) (\<lambda>b0. match_icmp_at cx r (unat (b0 AND 0xf) * 4))
         else Inr (hardNo r))
     else if fx_etherType cx = ZT_ETHERTYPE_IPV6 then
       (case ipv6GetPayload (fx_frame cx) of
          Some (pos, proto) \<Rightarrow> if proto = 0x3a then match_icmp_at cx r pos else Inr (hardNo r)
        | None \<Rightarrow> Inr (hardNo r))
     else Inr (hardNo r))"

text \<open>The port at the start of the transport header at \<open>hdr\<close>, or \<open>-1\<close>.\<close>

definition transport_port :: "filter_ctx \<Rightarrow> bool \<Rightarrow> u8 \<Rightarrow> nat \<Rightarrow> int result" where
  "transport_port cx dst proto hdr =
    (if proto = 0x06 \<or> proto = 0x11 \<or> proto = 0x84 \<or> proto = 0x88 then
       if length (fx_frame cx) > hdr + 4 then
         let pos = hdr + (if dst then 2 else 0) in
         bindE (frame_at (fx_frame cx) pos) (\<lambda>h. bindE (frame_at (fx_frame cx) (pos + 1)) (\<lambda>l.
           Inr (uint h * 256 + uint l)))
       else Inr (- 1)
     else Inr (- 1))"

definition in_port_range :: "vnrule \<Rightarrow> int \<Rightarrow> bool" where
  "in_port_range r p \<longleftrightarrow> uint (fst (v_port r)) \<le> p \<and> p \<le> uint (snd (v_port r))"

definition match_port_range :: "bool \<Rightarrow> filter_ctx \<Rightarrow> vnrule \<Rightarrow> bool result" where
  "match_port_range dst cx r =
    (if fx_etherType cx = ZT_ETHERTYPE_IPV4 \<and> length (fx_frame cx) \<ge> 20 then
       bindE (frame_at (fx_frame cx) 0) (\<lambda>b0. bindE (frame_at (fx_frame cx) 9) (\<lambda>proto.
       bindE (transport_port cx dst proto (4 * unat (b0 AND 0xf))) (\<lambda>p.
         Inr (if p \<ge> 0 then in_port_range r p else False))))
     else if fx_etherType cx = ZT_ETHERTYPE_IPV6 then
       (case ipv6GetPayload (fx_frame cx) of
          Some (pos, proto) \<Rightarrow>
            bindE (transport_port cx dst proto pos) (\<lambda>p. Inr (if p > 0 then in_port_range r p else False))
        | None \<Rightarrow> Inr (hardNo r))
     else Inr (hardNo r))"

abbreviation (input) CHARACTERISTICS_INBOUND :: u64 where "CHARACTERISTICS_INBOUND \<equiv> 0x8000000000000000"
abbreviation (input) CHARACTERISTICS_MULTICAST :: u64 where "CHARACTERISTICS_MULTICAST \<equiv> 0x4000000000000000"
abbreviation (input) CHARACTERISTICS_BROADCAST :: u64 where "CHARACTERISTICS_BROADCAST \<equiv> 0x2000000000000000"
abbreviation (input) SENDER_IP_AUTHENTICATED :: u64 where "SENDER_IP_AUTHENTICATED \<equiv> 0x1000000000000000"
abbreviation (input) SENDER_MAC_AUTHENTICATED :: u64 where "SENDER_MAC_AUTHENTICATED \<equiv> 0x0800000000000000"

text \<open>The source address whose ownership is checked, and whether the frame counts as authenticated without one.\<close>

definition sender_ip :: "filter_ctx \<Rightarrow> (inetaddress \<times> bool) result" where
  "sender_ip cx =
    (let f = fx_frame cx in
     if fx_etherType cx = ZT_ETHERTYPE_IPV4 \<and> length f \<ge> 20 then
       bindE (inet_set (drop 12 f) 4 0) (\<lambda>a. Inr (a, False))
     else if fx_etherType cx = ZT_ETHERTYPE_IPV6 \<and> length f \<ge> 40 then
       if length f \<ge> 40 + 8 + 16 \<and> f ! 6 = 0x3a \<and> (f ! 40 = 0x87 \<or> f ! 40 = 0x88) then
         if f ! 40 = 0x87 then Inr (INET_NONE, True)
         else bindE (inet_set (drop (40 + 8) f) 16 0) (\<lambda>a. Inr (a, False))
       else bindE (inet_set (drop 8 f) 16 0) (\<lambda>a. Inr (a, False))
     else if fx_etherType cx = ZT_ETHERTYPE_ARP \<and> length f \<ge> 28 then
       bindE (inet_set (drop 14 f) 4 0) (\<lambda>a. Inr (a, False))
     else Inr (INET_NONE, False))"

fun own_coos :: "inetaddress \<Rightarrow> mac \<Rightarrow> coo list \<Rightarrow> u64 \<Rightarrow> u64 result" where
  "own_coos src macSource [] msk = Inr msk"
| "own_coos src macSource (c # cs) msk =
    bindE (if src \<noteq> INET_NONE then coo_owns_ip c src else Inr False) (\<lambda>i.
    bindE (coo_owns_mac c macSource) (\<lambda>m.
      own_coos src macSource cs
        ((msk OR (if i then SENDER_IP_AUTHENTICATED else 0)) OR (if m then SENDER_MAC_AUTHENTICATED else 0))))"

definition ownershipVerificationMask :: "filter_ctx \<Rightarrow> u64 result" where
  "ownershipVerificationMask cx =
    bindE (sender_ip cx) (\<lambda>(src, ndp).
      let msk = (if ndp then SENDER_IP_AUTHENTICATED else 0) in
      if fx_inbound cx then
        (case fx_membership cx of
           None \<Rightarrow> Inr msk
         | Some m \<Rightarrow>
             bindE (if src \<noteq> INET_NONE then hasCertificateOfOwnershipFor_ip (fx_nconf cx) src m else Inr False) (\<lambda>i.
             bindE (hasCertificateOfOwnershipFor_mac (fx_nconf cx) (fx_macSource cx) m) (\<lambda>k.
               Inr ((msk OR (if i then SENDER_IP_AUTHENTICATED else 0)) OR (if k then SENDER_MAC_AUTHENTICATED else 0)))))
      else own_coos src (fx_macSource cx) (nc_coos (fx_nconf cx)) msk)"

definition tcp_characteristics :: "bytes \<Rightarrow> nat \<Rightarrow> u64 result" where
  "tcp_characteristics frame pos =
    bindE (frame_at frame (pos + 13)) (\<lambda>a. bindE (frame_at frame (pos + 12)) (\<lambda>b.
      Inr (ucast a OR push_bit 8 (ucast (b AND 0x0f)))))"

definition match_characteristics :: "filter_ctx \<Rightarrow> vnrule \<Rightarrow> bool result" where
  "match_characteristics cx r =
    (let f = fx_frame cx;
         cf = (if fx_inbound cx then CHARACTERISTICS_INBOUND else 0);
         cf = (if mac_isMulticast (fx_macDest cx) then cf OR CHARACTERISTICS_MULTICAST else cf);
         cf = (if mac_isBroadcast (fx_macDest cx) then cf OR CHARACTERISTICS_BROADCAST else cf) in
     bindE (ownershipVerificationMask cx) (\<lambda>own.
     bindE (if fx_etherType cx = ZT_ETHERTYPE_IPV4 \<and> length f \<ge> 20 \<and> f ! 9 = 0x06 then
              tcp_characteristics f (4 * unat (f ! 0 AND 0xf))
            else if fx_etherType cx = ZT_ETHERTYPE_IPV6 then
              (case ipv6GetPayload f of
                 Some (pos, proto) \<Rightarrow>
                   if proto = 0x06 \<and> length f > pos + 14 then tcp_characteristics f pos else Inr 0
               | None \<Rightarrow> Inr 0)
            else Inr 0) (\<lambda>tcp.
       Inr ((cf OR own OR tcp) AND v_characteristics r \<noteq> 0))))"

text \<open>The tag of this node, and the remote one that the membership knows of.\<close>

definition local_tag :: "filter_ctx \<Rightarrow> u32 \<Rightarrow> tag option" where
  "local_tag cx i =
    (case tag_lower_bound (nc_tags (fx_nconf cx)) i of
       Some t \<Rightarrow> if tag_id t = i then Some t else None
     | None \<Rightarrow> None)"

definition remote_tag :: "filter_ctx \<Rightarrow> u32 \<Rightarrow> tag option result" where
  "remote_tag cx i = (case fx_membership cx of None \<Rightarrow> Inr None | Some m \<Rightarrow> membership_getTag (fx_nconf cx) i m)"

definition compare_tags :: "u8 \<Rightarrow> u32 \<Rightarrow> u32 \<Rightarrow> u32 \<Rightarrow> vnrule \<Rightarrow> bool" where
  "compare_tags rt ltv rtv val r =
    (if rt = MATCH_TAGS_DIFFERENCE then (if ltv > rtv then ltv - rtv else rtv - ltv) \<le> val
     else if rt = MATCH_TAGS_BITWISE_AND then ltv AND rtv = val
     else if rt = MATCH_TAGS_BITWISE_OR then ltv OR rtv = val
     else if rt = MATCH_TAGS_BITWISE_XOR then ltv XOR rtv = val
     else if rt = MATCH_TAGS_EQUAL then ltv = val \<and> rtv = val
     else hardNo r)"

text \<open>The match result and whether \<open>skipDrop\<close> is set.\<close>

definition match_tags :: "filter_ctx \<Rightarrow> vnrule \<Rightarrow> filter_state \<Rightarrow> (bool \<times> bool) result" where
  "match_tags cx r st =
    (case local_tag cx (fst (v_tag r)) of
       None \<Rightarrow> Inr (hardNo r, False)
     | Some lt \<Rightarrow>
         bindE (remote_tag cx (fst (v_tag r))) (\<lambda>rm.
           case rm of
             Some rt \<Rightarrow> Inr (compare_tags (rule_type (r_t r)) (tag_value lt) (tag_value rt) (snd (v_tag r)) r, False)
           | None \<Rightarrow>
               if fx_inbound cx \<and> \<not> fs_superAccept st then Inr (hardNo r, False)
               else Inr (hardYes r, True)))"

definition match_tag_one :: "filter_ctx \<Rightarrow> vnrule \<Rightarrow> filter_state \<Rightarrow> (bool \<times> bool) result" where
  "match_tag_one cx r st =
    (let rt = rule_type (r_t r) in
     if fs_superAccept st then Inr (hardYes r, True)
     else if rt = MATCH_TAG_SENDER \<and> fx_inbound cx \<or> rt = MATCH_TAG_RECEIVER \<and> \<not> fx_inbound cx then
       bindE (remote_tag cx (fst (v_tag r))) (\<lambda>rm.
         case rm of
           Some t \<Rightarrow> Inr (tag_value t = snd (v_tag r), False)
         | None \<Rightarrow> if rt = MATCH_TAG_RECEIVER then Inr (hardYes r, True) else Inr (hardNo r, False))
     else case local_tag cx (fst (v_tag r)) of
       Some t \<Rightarrow> Inr (tag_value t = snd (v_tag r), False)
     | None \<Rightarrow> Inr (hardNo r, False))"

text \<open>The integer is read only when it lies within the frame, and is 0 otherwise.\<close>

definition int_big :: "bytes \<Rightarrow> u64" where
  "int_big bs = fold (\<lambda>b x. push_bit 8 x OR ucast b) bs 0"

definition int_little :: "bytes \<Rightarrow> u64" where
  "int_little bs = fold (\<lambda>b x. drop_bit 8 x OR push_bit 56 (ucast b)) bs 0"

definition match_integer_range :: "filter_ctx \<Rightarrow> vnrule \<Rightarrow> bool" where
  "match_integer_range cx r =
    (case v_intRange r of (start, len, idx, format) \<Rightarrow>
     let bits = unat (format AND 63) + 1;
         nbytes = (bits + 8 - 1) div 8;
         f = fx_frame cx;
         integer =
           (if format AND 0x80 = 0 then
              let i = unat idx + (8 - nbytes); eof = i + nbytes in
              (if eof \<le> length f then int_big (take nbytes (drop i f)) else 0) AND drop_bit (64 - bits) 0xffffffffffffffff
            else
              let i = unat idx; eof = i + nbytes in
              drop_bit (64 - bits) (if eof \<le> length f then int_little (take nbytes (drop i f)) else 0))
     in start \<le> integer \<and> integer \<le> start + ucast len)"

text \<open>The \<open>switch\<close> over the match types: the result, and the state with \<open>skipDrop\<close> and the random state updated.\<close>

definition with_skip :: "filter_state \<Rightarrow> (bool \<times> bool) result \<Rightarrow> (bool \<times> filter_state) result" where
  "with_skip st x = bindE x (\<lambda>(m, skip). Inr (m, if skip then st\<lparr>fs_skipDrop := True\<rparr> else st))"

definition pure_match :: "filter_state \<Rightarrow> bool result \<Rightarrow> (bool \<times> filter_state) result" where
  "pure_match st x = bindE x (\<lambda>m. Inr (m, st))"

definition match_rule :: "filter_ctx \<Rightarrow> vnrule \<Rightarrow> filter_state \<Rightarrow> (bool \<times> filter_state) result" where
  "match_rule cx r st =
    (let rt = rule_type (r_t r) in
     if rt = MATCH_SOURCE_ZEROTIER_ADDRESS then Inr (v_zt r = fx_ztSource cx, st)
     else if rt = MATCH_DEST_ZEROTIER_ADDRESS then Inr (v_zt r = fs_ztDest st, st)
     else if rt = MATCH_VLAN_ID then Inr (v_vlanId r = of_nat (fx_vlanId cx), st)
     else if rt = MATCH_VLAN_PCP then Inr (v_vlanPcp r = 0, st)
     else if rt = MATCH_VLAN_DEI then Inr (v_vlanDei r = 0, st)
     else if rt = MATCH_MAC_SOURCE then bindE (mac_setTo (v_mac r) 6) (\<lambda>m. Inr (m = fx_macSource cx, st))
     else if rt = MATCH_MAC_DEST then bindE (mac_setTo (v_mac r) 6) (\<lambda>m. Inr (m = fx_macDest cx, st))
     else if rt = MATCH_IPV4_SOURCE then pure_match st (match_ipv4 12 cx r)
     else if rt = MATCH_IPV4_DEST then pure_match st (match_ipv4 16 cx r)
     else if rt = MATCH_IPV6_SOURCE then pure_match st (match_ipv6 8 cx r)
     else if rt = MATCH_IPV6_DEST then pure_match st (match_ipv6 24 cx r)
     else if rt = MATCH_IP_TOS then pure_match st (match_tos cx r)
     else if rt = MATCH_IP_PROTOCOL then pure_match st (match_ip_protocol cx r)
     else if rt = MATCH_ETHERTYPE then Inr (v_etherType r = of_nat (fx_etherType cx), st)
     else if rt = MATCH_ICMP then pure_match st (match_icmp cx r)
     else if rt = MATCH_IP_SOURCE_PORT_RANGE then pure_match st (match_port_range False cx r)
     else if rt = MATCH_IP_DEST_PORT_RANGE then pure_match st (match_port_range True cx r)
     else if rt = MATCH_CHARACTERISTICS then pure_match st (match_characteristics cx r)
     else if rt = MATCH_FRAME_SIZE_RANGE then
       Inr (unat (fst (v_frameSize r)) \<le> length (fx_frame cx) \<and> length (fx_frame cx) \<le> unat (snd (v_frameSize r)), st)
     else if rt = MATCH_RANDOM then
       (case node_prng (fs_prng st) of (z, s) \<Rightarrow>
          Inr (ucast (z AND 0xffffffff) \<le> v_randomProbability r, st\<lparr>fs_prng := s\<rparr>))
     else if rt \<in> {MATCH_TAGS_DIFFERENCE, MATCH_TAGS_BITWISE_AND, MATCH_TAGS_BITWISE_OR, MATCH_TAGS_BITWISE_XOR, MATCH_TAGS_EQUAL} then
       with_skip st (match_tags cx r st)
     else if rt \<in> {MATCH_TAG_SENDER, MATCH_TAG_RECEIVER} then with_skip st (match_tag_one cx r st)
     else if rt = MATCH_INTEGER_RANGE then Inr (match_integer_range cx r, st)
     else Inr (nc_flags (fx_nconf cx) AND 8 \<noteq> 0, st))"

section \<open>Actions\<close>

text \<open>An action whose set matched: \<open>Some\<close> is a return of the filter, \<open>None\<close> a \<open>continue\<close>.\<close>

definition take_action :: "filter_ctx \<Rightarrow> vnrule \<Rightarrow> filter_state \<Rightarrow> filter_result option \<times> filter_state" where
  "take_action cx r st =
    (let rt = rule_type (r_t r) in
     if rt = ACTION_PRIORITY then
       (Some FILTER_ACCEPT, st\<lparr>fs_qosBucket := (if v_qosBucket r \<le> 8 then v_qosBucket r else 4)\<rparr>)
     else if rt = ACTION_DROP then
       (if fs_skipDrop st then (None, st\<lparr>fs_skipDrop := False\<rparr>) else (Some FILTER_DROP, st))
     else if rt = ACTION_ACCEPT then
       (Some (if fs_superAccept st then FILTER_SUPER_ACCEPT else FILTER_ACCEPT), st)
     else if rt \<in> {ACTION_TEE, ACTION_WATCH, ACTION_REDIRECT} then
       (case v_fwd r of (a, fl, len) \<Rightarrow>
        let fwdAddr = address_of a in
        if fwdAddr = fx_ztSource cx then (None, st)
        else if fwdAddr = fx_self cx then (if fx_inbound cx then (Some FILTER_SUPER_ACCEPT, st) else (None, st))
        else if fwdAddr = fs_ztDest st then (None, st)
        else if rt = ACTION_REDIRECT then (Some FILTER_REDIRECT, st\<lparr>fs_ztDest := fwdAddr\<rparr>)
        else (None, st\<lparr>fs_cc := fwdAddr,
                       fs_ccLength := (if len \<noteq> 0 then (if length (fx_frame cx) < unat len then length (fx_frame cx) else unat len)
                                       else length (fx_frame cx)),
                       fs_ccWatch := (rt = ACTION_WATCH)\<rparr>))
     else if rt = ACTION_BREAK then (Some FILTER_NO_MATCH, st)
     else (None, st))"

text \<open>An action whose set did not match.\<close>

definition skip_action :: "filter_ctx \<Rightarrow> vnrule \<Rightarrow> filter_state \<Rightarrow> filter_state" where
  "skip_action cx r st =
    (let st = (if fx_inbound cx \<and> rule_type (r_t r) \<in> {ACTION_TEE, ACTION_WATCH, ACTION_REDIRECT}
                  \<and> address_eq_u64 (fx_self cx) (fst (v_fwd r))
               then st\<lparr>fs_superAccept := True\<rparr> else st)
     in st\<lparr>fs_set := True\<rparr>)"

definition combine :: "vnrule \<Rightarrow> bool \<Rightarrow> bool \<Rightarrow> bool" where
  "combine r s m = (if rule_or r then s \<or> (m \<noteq> rule_not r) else s \<and> (m \<noteq> rule_not r))"

fun filter_loop :: "filter_ctx \<Rightarrow> vnrule list \<Rightarrow> filter_state \<Rightarrow> (filter_result \<times> filter_state) result" where
  "filter_loop cx [] st = Inr (FILTER_NO_MATCH, st)"
| "filter_loop cx (r # rs) st =
    (if rule_type (r_t r) \<le> ACTION__MAX_ID then
       if fs_set st then
         (case take_action cx r st of
            (Some res, st') \<Rightarrow> Inr (res, st')
          | (None, st') \<Rightarrow> filter_loop cx rs st')
       else filter_loop cx rs (skip_action cx r st)
     else if \<not> fs_set st \<and> \<not> rule_or r then filter_loop cx rs st
     else bindE (match_rule cx r st) (\<lambda>(m, st').
       filter_loop cx rs (st'\<lparr>fs_set := combine r (fs_set st') m\<rparr>)))"

definition doZtFilter :: "filter_ctx \<Rightarrow> vnrule list \<Rightarrow> filter_state \<Rightarrow> (filter_result \<times> filter_state) result" where
  "doZtFilter cx rules st =
    filter_loop cx rules (st\<lparr>fs_superAccept := False, fs_set := True, fs_skipDrop := False\<rparr>)"

section \<open>Reference semantics and conditions of safety\<close>

text \<open>The meaning of a rule list, stated without the functions of the source. A rule list is a list of sets, each the matches before an action; matches after the last action have no effect.
  The low six bits of the type byte of a rule tell actions from matches.\<close>

fun blocks :: "vnrule list \<Rightarrow> vnrule list \<Rightarrow> (vnrule list \<times> vnrule) list" where
  "blocks ms [] = []"
| "blocks ms (r # rs) =
    (if unat (r_t r) mod 64 < 16 then (ms, r) # blocks [] rs else blocks (ms @ [r]) rs)"

text \<open>With \<open>mt\<close> the results of the matches, a match holds when its result differs from its NOT bit, bit 7. A set holds when, from its beginning or from a match with the OR bit, bit 6, that holds, all
  matches without the OR bit hold.\<close>

definition set_holds :: "(vnrule \<Rightarrow> bool) \<Rightarrow> vnrule list \<Rightarrow> bool" where
  "set_holds mt ms \<longleftrightarrow> (let holds = (\<lambda>r. mt r \<noteq> bit (r_t r) 7); alt = (\<lambda>r. bit (r_t r) 6) in
    \<exists>xs ys. ms = xs @ ys \<and> (xs = [] \<or> alt (last xs) \<and> holds (last xs)) \<and> (\<forall>r \<in> set ys. \<not> alt r \<longrightarrow> holds r))"

datatype fw_action = FwDrop | FwAccept | FwBreak | FwPriority u8 | FwCopy address nat bool | FwRedirect address | FwNone

definition fw_action_of :: "vnrule \<Rightarrow> fw_action" where
  "fw_action_of r = (case v_fwd r of (a, fl, len) \<Rightarrow>
    let n = unat (r_t r) mod 64; to = take_bit 40 a in
    if n = 0 then FwDrop else if n = 1 then FwAccept else if n = 2 then FwCopy to (unat len) False
    else if n = 3 then FwCopy to (unat len) True else if n = 4 then FwRedirect to else if n = 5 then FwBreak
    else if n = 6 then FwPriority (v_qosBucket r) else FwNone)"

fun fw_target :: "fw_action \<Rightarrow> address option" where
  "fw_target (FwCopy to len w) = Some to"
| "fw_target (FwRedirect to) = Some to"
| "fw_target a = None"

record fw_out =
  fo_result :: filter_result
  fo_dest :: address
  fo_cc :: address
  fo_ccLength :: nat
  fo_ccWatch :: bool
  fo_bucket :: u8

text \<open>The first set that holds and whose action decides determines the result; \<open>super\<close> tells that an earlier set that did not hold would have forwarded the incoming frame to this node. Forwarding to the source, to this node
  when it sends, and to the destination does nothing; to this node when it receives, it accepts the frame whatever its addresses.\<close>

fun decide :: "filter_ctx \<Rightarrow> (bool \<times> fw_action) list \<Rightarrow> bool \<Rightarrow> fw_out \<Rightarrow> fw_out" where
  "decide cx [] super e = e\<lparr>fo_result := FILTER_NO_MATCH\<rparr>"
| "decide cx ((False, a) # bs) super e = decide cx bs (super \<or> fx_inbound cx \<and> fw_target a = Some (fx_self cx)) e"
| "decide cx ((True, FwDrop) # bs) super e = e\<lparr>fo_result := FILTER_DROP\<rparr>"
| "decide cx ((True, FwAccept) # bs) super e = e\<lparr>fo_result := (if super then FILTER_SUPER_ACCEPT else FILTER_ACCEPT)\<rparr>"
| "decide cx ((True, FwBreak) # bs) super e = e\<lparr>fo_result := FILTER_NO_MATCH\<rparr>"
| "decide cx ((True, FwPriority b) # bs) super e = e\<lparr>fo_result := FILTER_ACCEPT, fo_bucket := (if b \<le> 8 then b else 4)\<rparr>"
| "decide cx ((True, FwCopy to len w) # bs) super e =
    (if to \<notin> {fx_ztSource cx, fx_self cx, fo_dest e} then
       decide cx bs super (e\<lparr>fo_cc := to, fo_ccLength := (if len = 0 then length (fx_frame cx) else min len (length (fx_frame cx))), fo_ccWatch := w\<rparr>)
     else if to \<noteq> fx_ztSource cx \<and> to = fx_self cx \<and> fx_inbound cx then e\<lparr>fo_result := FILTER_SUPER_ACCEPT\<rparr>
     else decide cx bs super e)"
| "decide cx ((True, FwRedirect to) # bs) super e =
    (if to \<notin> {fx_ztSource cx, fx_self cx, fo_dest e} then e\<lparr>fo_result := FILTER_REDIRECT, fo_dest := to\<rparr>
     else if to \<noteq> fx_ztSource cx \<and> to = fx_self cx \<and> fx_inbound cx then e\<lparr>fo_result := FILTER_SUPER_ACCEPT\<rparr>
     else decide cx bs super e)"
| "decide cx ((True, FwNone) # bs) super e = decide cx bs super e"

definition fw_out_of :: "filter_result \<Rightarrow> filter_state \<Rightarrow> fw_out" where
  "fw_out_of res st = \<lparr>fo_result = res, fo_dest = fs_ztDest st, fo_cc = fs_cc st, fo_ccLength = fs_ccLength st, fo_ccWatch = fs_ccWatch st, fo_bucket = fs_qosBucket st\<rparr>"

text \<open>Between the loop and its meaning: the actions of the source on whole sets, with the match state of a set by the source's own combination.\<close>

definition set_matches :: "(vnrule \<Rightarrow> bool) \<Rightarrow> vnrule list \<Rightarrow> bool" where
  "set_matches mt ms = fold (\<lambda>r s. combine r s (mt r)) ms True"

fun block_loop :: "filter_ctx \<Rightarrow> (vnrule \<Rightarrow> bool) \<Rightarrow> (vnrule list \<times> vnrule) list \<Rightarrow> filter_state \<Rightarrow> filter_result \<times> filter_state" where
  "block_loop cx mt [] st = (FILTER_NO_MATCH, st)"
| "block_loop cx mt ((ms, a) # bs) st =
    (if set_matches mt ms then
       (case take_action cx a st of (Some res, st') \<Rightarrow> (res, st') | (None, st') \<Rightarrow> block_loop cx mt bs st')
     else block_loop cx mt bs (skip_action cx a st))"

text \<open>A computation that returns.\<close>

definition ok :: "'a result \<Rightarrow> bool" where
  "ok x \<longleftrightarrow> (\<exists>y. x = Inr y)"

text \<open>What the arrays of the configuration and the membership have to satisfy.\<close>

definition cx_safe :: "filter_ctx \<Rightarrow> bool" where
  "cx_safe cx \<longleftrightarrow> 0 \<le> sint (nc_timestamp (fx_nconf cx)) \<and> (\<forall>c \<in> set (nc_coos (fx_nconf cx)). coo_wf c)
     \<and> (case fx_membership cx of None \<Rightarrow> True
        | Some m \<Rightarrow> (\<forall>k t. ht_get hc_u32 (mb_remoteTags m) k = Some t \<longrightarrow> 0 \<le> sint (tag_ts t))
            \<and> (\<forall>(k, c) \<in> set (ht_entries (mb_remoteCoos m)). coo_wf c \<and> 0 \<le> sint (coo_ts c)))"

text \<open>A TCP segment in an IPv4 frame is long enough for the flags to be read.\<close>

definition tcp_complete :: "filter_ctx \<Rightarrow> bool" where
  "tcp_complete cx \<longleftrightarrow> (let f = fx_frame cx in
     fx_etherType cx = ZT_ETHERTYPE_IPV4 \<and> length f \<ge> 20 \<and> f ! 9 = 0x06 \<longrightarrow> 4 * unat (f ! 0 AND 0xf) + 13 < length f)"

definition rule_safe :: "filter_ctx \<Rightarrow> vnrule \<Rightarrow> bool" where
  "rule_safe cx r \<longleftrightarrow> (let rt = rule_type (r_t r) in
     (rt \<in> {MATCH_MAC_SOURCE, MATCH_MAC_DEST} \<longrightarrow> length (v_mac r) = 6)
     \<and> (rt \<in> {MATCH_IPV4_SOURCE, MATCH_IPV4_DEST} \<longrightarrow> snd (v_ipv4 r) \<le> 32)
     \<and> (rt \<in> {MATCH_IPV6_SOURCE, MATCH_IPV6_DEST} \<longrightarrow> snd (v_ipv6 r) \<le> 128 \<and> length (fst (v_ipv6 r)) = 16)
     \<and> (rt = MATCH_CHARACTERISTICS \<longrightarrow> tcp_complete cx))"

definition cx1 :: "nat \<Rightarrow> bytes \<Rightarrow> filter_ctx" where
  "cx1 et f = \<lparr>fx_self = 1, fx_nconf = nconf1\<lparr>nc_tags := [tag1 8]\<rparr>, fx_membership = None, fx_inbound = False, fx_ztSource = 1,
     fx_macSource = 5, fx_macDest = 6, fx_frame = f, fx_etherType = et, fx_vlanId = 0\<rparr>"

definition fs1 :: filter_state where
  "fs1 = \<lparr>fs_superAccept = False, fs_set = True, fs_skipDrop = False, fs_ztDest = 2, fs_cc = 0, fs_ccLength = 0, fs_ccWatch = False,
     fs_qosBucket = 0, fs_prng = (1, 2)\<rparr>"

section \<open>Reference semantics\<close>

lemma combine_hard [simp]:
  "combine r s (hardNo r) = (rule_or r \<and> s)" "combine r s (hardYes r) = (rule_or r \<or> s)"
  by (auto simp: combine_def hardNo_def hardYes_def)

lemma set_matches_snoc: "set_matches mt (ms @ [r]) = combine r (set_matches mt ms) (mt r)"
  by (simp add: set_matches_def)

lemma take_action_None:
  "take_action cx a st = (None, st') \<Longrightarrow> fs_ztDest st' = fs_ztDest st \<and> fs_set st' = fs_set st"
  by (auto simp: take_action_def Let_def split: if_splits prod.splits)

lemma skip_action_dest [simp]: "fs_ztDest (skip_action cx a st) = fs_ztDest st" "fs_set (skip_action cx a st)"
  by (simp_all add: skip_action_def Let_def)

lemma skip_action_set: "skip_action cx a (st\<lparr>fs_set := s\<rparr>) = skip_action cx a st"
  by (auto simp: skip_action_def Let_def)

lemma rule_type_mod: "unat (rule_type t) = unat t mod 64"
proof -
  have "rule_type t = take_bit 6 t" by (simp add: rule_type_def take_bit_eq_mask mask_eq_exp_minus_1)
  then show ?thesis by (simp add: unsigned_take_bit_eq take_bit_nat_def)
qed

lemma rule_type_is: "n < 64 \<Longrightarrow> rule_type t = of_nat n \<longleftrightarrow> unat t mod 64 = n"
  unfolding rule_type_mod [symmetric] by (auto simp: word_unat_eq_iff unat_of_nat)

lemma is_action [simp]: "unat t mod 64 < 16 \<longleftrightarrow> rule_type t \<le> ACTION__MAX_ID"
  unfolding rule_type_mod [symmetric] by (auto simp: word_le_nat_alt)

lemma filter_loop_refines:
  assumes "\<And>r st. r \<in> set rs \<Longrightarrow> ACTION__MAX_ID < rule_type (r_t r) \<Longrightarrow> fs_ztDest st = d \<Longrightarrow> match_rule cx r st = Inr (mt r, st)"
    and "fs_ztDest st = d" "fs_set st" "block_loop cx mt (blocks ms rs) st = (res, st')"
  shows "\<exists>s'. filter_loop cx rs (st\<lparr>fs_set := set_matches mt ms\<rparr>) = Inr (res, st'\<lparr>fs_set := s'\<rparr>)"
  using assms
proof (induction rs arbitrary: ms st)
  case Nil
  then show ?case by auto
next
  case (Cons r rs)
  have IH: "\<exists>s'. filter_loop cx rs (t\<lparr>fs_set := set_matches mt ns\<rparr>) = Inr (res, st'\<lparr>fs_set := s'\<rparr>)"
    if "fs_ztDest t = d" "fs_set t" "block_loop cx mt (blocks ns rs) t = (res, st')" for t ns
    using Cons.IH [of t ns] Cons.prems(1) that by simp
  have e: "set_matches mt []" by (simp add: set_matches_def)
  show ?case
  proof (cases "rule_type (r_t r) \<le> ACTION__MAX_ID")
    case act: True
    show ?thesis
    proof (cases "set_matches mt ms")
      case True
      then have st: "st\<lparr>fs_set := set_matches mt ms\<rparr> = st" using Cons.prems(3) by simp
      obtain o1 t where t: "take_action cx r st = (o1, t)" by force
      show ?thesis
      proof (cases o1)
        case None
        have "fs_ztDest t = d" "fs_set t" using take_action_None [of cx r st t] t None Cons.prems(2,3) by auto
        moreover have "block_loop cx mt (blocks [] rs) t = (res, st')" using Cons.prems(4) act True t None by simp
        moreover have "t\<lparr>fs_set := set_matches mt []\<rparr> = t" using calculation(2) e by simp
        ultimately show ?thesis unfolding st using IH [of t "[]"] act t None Cons.prems(3) by simp
      next
        case (Some x)
        then show ?thesis unfolding st using Cons.prems(3,4) act True t by (auto intro!: exI [of _ "fs_set st'"])
      qed
    next
      case False
      have "block_loop cx mt (blocks [] rs) (skip_action cx r st) = (res, st')" using Cons.prems(4) act False by simp
      moreover have "(skip_action cx r st)\<lparr>fs_set := set_matches mt []\<rparr> = skip_action cx r st"
        using e skip_action_dest(2) [of cx r st] by (cases "skip_action cx r st") simp
      ultimately show ?thesis
        using IH [of "skip_action cx r st" "[]"] act False Cons.prems(2) by (simp add: skip_action_set)
    qed
  next
    case mat: False
    have f: "block_loop cx mt (blocks (ms @ [r]) rs) st = (res, st')" using Cons.prems(4) mat by simp
    have m: "match_rule cx r (st\<lparr>fs_set := x\<rparr>) = Inr (mt r, st\<lparr>fs_set := x\<rparr>)" for x
      using Cons.prems(1) [of r "st\<lparr>fs_set := x\<rparr>"] mat Cons.prems(2) by simp
    show ?thesis
    proof (cases "\<not> set_matches mt ms \<and> \<not> rule_or r")
      case True
      then have "set_matches mt (ms @ [r]) = set_matches mt ms" by (simp add: set_matches_snoc combine_def)
      then show ?thesis using IH [OF Cons.prems(2,3) f] mat True by simp
    next
      case False
      then show ?thesis using IH [OF Cons.prems(2,3) f] mat m by (auto simp: set_matches_snoc)
    qed
  qed
qed

lemma rule_or_bit: "rule_or r = bit (r_t r) 6" and rule_not_bit: "rule_not r = bit (r_t r) 7"
  using and_exp_eq_0_iff_not_bit [of "r_t r" 6] and_exp_eq_0_iff_not_bit [of "r_t r" 7] by (simp_all add: rule_or_def rule_not_def)

lemma set_holds_snoc:
  "set_holds mt (ms @ [r]) \<longleftrightarrow> combine r (set_holds mt ms) (mt r)"
proof -
  define h where "h = (\<lambda>r :: vnrule. mt r \<noteq> bit (r_t r) 7)"
  define alt where "alt = (\<lambda>r :: vnrule. bit (r_t r) 6)"
  have d: "set_holds mt ms \<longleftrightarrow> (\<exists>xs ys. ms = xs @ ys \<and> (xs = [] \<or> alt (last xs) \<and> h (last xs)) \<and> (\<forall>r \<in> set ys. \<not> alt r \<longrightarrow> h r))" for ms
    by (simp add: set_holds_def h_def alt_def)
  have "set_holds mt (ms @ [r]) \<longleftrightarrow> alt r \<and> h r \<or> set_holds mt ms \<and> (alt r \<or> h r)" (is "?l \<longleftrightarrow> ?r")
  proof
    assume ?l
    then obtain xs ys where e: "ms @ [r] = xs @ ys" "xs = [] \<or> alt (last xs) \<and> h (last xs)" "\<forall>r \<in> set ys. \<not> alt r \<longrightarrow> h r" unfolding d by blast
    show ?r
    proof (cases ys rule: rev_cases)
      case Nil
      then have "xs = ms @ [r]" using e(1) by simp
      then show ?thesis using e(2) by auto
    next
      case (snoc zs q)
      then have "ms = xs @ zs" "q = r" using e(1) by simp_all
      then show ?thesis using e(2,3) snoc unfolding d by auto
    qed
  next
    assume ?r
    then show ?l
    proof
      assume "alt r \<and> h r"
      then show ?l unfolding d by (intro exI [of _ "ms @ [r]"] exI [of _ "[]"]) simp
    next
      assume "set_holds mt ms \<and> (alt r \<or> h r)"
      then obtain xs ys where "ms = xs @ ys" "xs = [] \<or> alt (last xs) \<and> h (last xs)" "\<forall>r \<in> set ys. \<not> alt r \<longrightarrow> h r" "alt r \<or> h r" unfolding d by blast
      then show ?l unfolding d by (intro exI [of _ xs] exI [of _ "ys @ [r]"]) auto
    qed
  qed
  then show ?thesis by (auto simp: combine_def rule_or_bit rule_not_bit h_def alt_def)
qed

lemma set_matches_holds: "set_matches mt ms = set_holds mt ms"
proof (induction ms rule: rev_induct)
  case Nil
  show ?case by (simp add: set_matches_def set_holds_def)
next
  case (snoc r ms)
  then show ?case by (simp add: set_matches_snoc set_holds_snoc)
qed

lemma address_of_bits: "address_of a = take_bit 40 a"
  by (simp add: address_of_def take_bit_eq_mask mask_eq_exp_minus_1)

lemma fw_action_cases:
  "fw_action_of r = (case v_fwd r of (a, fl, len) \<Rightarrow>
    let rt = rule_type (r_t r); to = address_of a in
    if rt = ACTION_DROP then FwDrop else if rt = ACTION_ACCEPT then FwAccept else if rt = ACTION_TEE then FwCopy to (unat len) False
    else if rt = ACTION_WATCH then FwCopy to (unat len) True else if rt = ACTION_REDIRECT then FwRedirect to else if rt = ACTION_BREAK then FwBreak
    else if rt = ACTION_PRIORITY then FwPriority (v_qosBucket r) else FwNone)"
  using rule_type_is [of 0 "r_t r"] rule_type_is [of 1 "r_t r"] rule_type_is [of 2 "r_t r"] rule_type_is [of 3 "r_t r"] rule_type_is [of 4 "r_t r"] rule_type_is [of 5 "r_t r"]
    rule_type_is [of 6 "r_t r"]
  by (simp add: fw_action_of_def Let_def address_of_bits split: prod.split)

lemma skip_action_out:
  "fw_out_of x (skip_action cx r st) = fw_out_of x st \<and> fs_prng (skip_action cx r st) = fs_prng st \<and> fs_skipDrop (skip_action cx r st) = fs_skipDrop st
    \<and> fs_superAccept (skip_action cx r st) = (fs_superAccept st \<or> fx_inbound cx \<and> fw_target (fw_action_of r) = Some (fx_self cx))"
  by (auto simp: skip_action_def Let_def fw_out_of_def fw_action_cases address_eq_u64_def address_of_def split: prod.splits)

lemma take_action_out:
  assumes "\<not> fs_skipDrop st" "take_action cx r st = (o1, st')"
  shows "case o1 of
      Some res \<Rightarrow> decide cx ((True, fw_action_of r) # bs) (fs_superAccept st) (fw_out_of x st) = fw_out_of res st' \<and> fs_prng st' = fs_prng st
    | None \<Rightarrow> decide cx ((True, fw_action_of r) # bs) (fs_superAccept st) (fw_out_of x st) = decide cx bs (fs_superAccept st') (fw_out_of x st')
        \<and> \<not> fs_skipDrop st' \<and> fs_prng st' = fs_prng st"
  using assms by (auto simp: take_action_def Let_def fw_out_of_def fw_action_cases min_def unat_eq_zero split: prod.splits if_splits)

lemma block_loop_decide:
  assumes "\<not> fs_skipDrop st" "block_loop cx mt bs st = (res, st')"
  shows "fw_out_of res st' = decide cx (map (\<lambda>(ms, a). (set_holds mt ms, fw_action_of a)) bs) (fs_superAccept st) (fw_out_of x st) \<and> fs_prng st' = fs_prng st"
  using assms
proof (induction bs arbitrary: st)
  case Nil
  then show ?case by (simp add: fw_out_of_def)
next
  case (Cons b bs)
  obtain ms a where b: "b = (ms, a)" by force
  show ?case
  proof (cases "set_holds mt ms")
    case True
    obtain o1 t where t: "take_action cx a st = (o1, t)" by force
    note o = take_action_out [OF Cons.prems(1) t, of "map (\<lambda>(ms, a). (set_holds mt ms, fw_action_of a)) bs" x]
    show ?thesis
    proof (cases o1)
      case None
      then show ?thesis using o Cons.IH [of t] Cons.prems(2) True t b by (simp add: set_matches_holds)
    next
      case (Some r)
      then show ?thesis using o Cons.prems(2) True t b by (simp add: set_matches_holds)
    qed
  next
    case False
    then show ?thesis using Cons.IH [of "skip_action cx a st"] skip_action_out [of x cx a st] Cons.prems b by (simp add: set_matches_holds)
  qed
qed

text \<open>C21: for rules whose matches neither fail nor touch the filter's state, the loop with its running match state and
  short-circuit evaluation computes the meaning of the rules: the sets are tried in order, each by its matches with their NOT and OR bits, and the first one
  that holds and whose action decides determines the result, the destination, the copy and the priority of the frame.\<close>

theorem filter_first_match:
  assumes "\<And>r st. r \<in> set rules \<Longrightarrow> ACTION__MAX_ID < rule_type (r_t r) \<Longrightarrow> fs_ztDest st = fs_ztDest st0 \<Longrightarrow> match_rule cx r st = Inr (mt r, st)"
  shows "\<exists>res st'. doZtFilter cx rules st0 = Inr (res, st') \<and> fs_prng st' = fs_prng st0
    \<and> fw_out_of res st' = decide cx (map (\<lambda>(ms, a). (set_holds mt ms, fw_action_of a)) (blocks [] rules)) False (fw_out_of FILTER_NO_MATCH st0)"
proof -
  let ?st = "st0\<lparr>fs_superAccept := False, fs_set := True, fs_skipDrop := False\<rparr>"
  obtain res st' where b: "block_loop cx mt (blocks [] rules) ?st = (res, st')" by force
  have "?st\<lparr>fs_set := set_matches mt []\<rparr> = ?st" by (simp add: set_matches_def)
  then obtain s' where "doZtFilter cx rules st0 = Inr (res, st'\<lparr>fs_set := s'\<rparr>)"
    using filter_loop_refines [of rules "fs_ztDest st0" cx mt ?st "[]" res st'] assms b by (auto simp: doZtFilter_def)
  moreover have "fw_out_of res (st'\<lparr>fs_set := s'\<rparr>) = fw_out_of res st'" "fw_out_of FILTER_NO_MATCH ?st = fw_out_of FILTER_NO_MATCH st0" by (simp_all add: fw_out_of_def)
  ultimately show ?thesis using block_loop_decide [OF _ b, of FILTER_NO_MATCH] by simp
qed

section \<open>Extension headers\<close>

lemma ipv6_payload_bounds:
  "ipv6_payload_loop frame pos proto = Some (p, q) \<Longrightarrow> pos \<le> p \<and> p \<le> length frame \<and> \<not> is_ipv6_option q"
proof (induction frame pos proto rule: ipv6_payload_loop.induct)
  case (1 frame pos proto)
  from "1.prems" show ?case
    using "1.IH" by (subst (asm) ipv6_payload_loop.simps) (auto split: if_splits)
qed

text \<open>the walk over IPv6 extension headers ends, and when it succeeds the payload starts within the frame, after the
  fixed header, and its protocol is not one of the extension headers skipped.\<close>

theorem ipv6GetPayload_bounds:
  assumes "ipv6GetPayload frame = Some (pos, proto)"
  shows "40 \<le> pos \<and> pos \<le> length frame \<and> \<not> is_ipv6_option proto"
  using assms ipv6_payload_bounds unfolding ipv6GetPayload_def by (auto split: if_splits)

theorem ipv6GetPayload_bounds_witness:
  "ipv6GetPayload (replicate 6 0 @ [58] @ replicate 33 0) = Some (40, 58) \<and> (40 :: nat) \<le> 40"
proof -
  have "ipv6GetPayload (replicate 6 0 @ [58] @ replicate 33 0) = Some (40, 58)"
    unfolding ipv6GetPayload_def by (subst ipv6_payload_loop.simps) (simp add: nth_append is_ipv6_option_def)
  with ipv6GetPayload_bounds [OF this] show ?thesis by simp
qed

section \<open>Safety\<close>

lemma ok_Inr [simp, intro]: "ok (Inr x)"
  by (simp add: ok_def)

lemma okE: "ok x \<Longrightarrow> (\<And>y. x = Inr y \<Longrightarrow> P) \<Longrightarrow> P"
  by (auto simp: ok_def)

lemma ok_bind [intro]: "ok a \<Longrightarrow> (\<And>x. a = Inr x \<Longrightarrow> ok (f x)) \<Longrightarrow> ok (bindE a f)"
  by (auto simp: ok_def)

lemma ok_if [intro]: "(c \<Longrightarrow> ok a) \<Longrightarrow> (\<not> c \<Longrightarrow> ok b) \<Longrightarrow> ok (if c then a else b)"
  by simp

lemma ok_option [intro]: "(x = None \<Longrightarrow> ok a) \<Longrightarrow> (\<And>y. x = Some y \<Longrightarrow> ok (f y)) \<Longrightarrow> ok (case x of None \<Rightarrow> a | Some y \<Rightarrow> f y)"
  by (cases x) auto

lemma ok_prod [intro]: "(\<And>x y. p = (x, y) \<Longrightarrow> ok (f x y)) \<Longrightarrow> ok (case p of (x, y) \<Rightarrow> f x y)"
  by (cases p) auto

lemmas ok_rules = ok_prod ok_option ok_if ok_bind ok_Inr

lemma frame_at_ok [simp]: "ok (frame_at f i) \<longleftrightarrow> i < length f"
  by (simp add: frame_at_def ok_def)

lemma load_le32_ok: "4 \<le> length bs \<Longrightarrow> ok (load_le32 bs)"
  by (cases bs rule: load_le32.cases) auto

lemma inet_set_ok: "n \<le> length bs \<Longrightarrow> ok (inet_set bs n p)"
  using load_le32_ok [of bs] by (auto simp: inet_set_def mem_read_def)

lemma unat_u8_u16: "unat (of_nat (unat (m :: u8)) :: u16) = unat m"
  using unat_bound [of m] by (simp add: unsigned_of_nat take_bit_nat_eq_self del: of_nat_unat)

lemma containsAddress4_ok:
  assumes "m \<le> (32 :: u8)"
  shows "ok (inet_containsAddress (INET4 a (hton16 (of_nat (unat m)))) b)"
proof -
  have "unat m \<le> 32" using assms by (simp add: word_le_nat_alt)
  then show ?thesis
    by (cases b) (auto simp: inet_containsAddress_def inet_netmaskBits_def inet_port_def shr_def Let_def unat_u8_u16 simp del: of_nat_unat)
qed

lemma containsAddress6_ok:
  assumes "m \<le> (128 :: u8)" "length ip = 16"
  shows "ok (inet_containsAddress (INET6 ip (hton16 (of_nat (unat m))) 0 0) b)"
proof -
  have "unat m \<le> 128" using assms by (simp add: word_le_nat_alt)
  then have "unat (ntoh16 (hton16 (of_nat (unat m)))) \<le> 128" by (simp add: unat_u8_u16 del: of_nat_unat)
  with netmask6 [OF assms(2), of "hton16 (of_nat (unat m))" 0 0] show ?thesis
    by (cases b) (auto simp: inet_containsAddress_def)
qed

lemma match_ipv4_ok:
  assumes "snd (v_ipv4 r) \<le> 32" "off \<le> 16"
  shows "ok (match_ipv4 off cx r)"
proof -
  have "ok (inet_containsAddress net ip)" if "inet_set (le_bytes 4 (fst (v_ipv4 r))) 4 (unat (snd (v_ipv4 r))) = Inr net" for net ip
    using that containsAddress4_ok [OF assms(1)] by (auto simp: inet_set_def bindE_def simp del: of_nat_unat split: sum.splits)
  then show ?thesis
    unfolding match_ipv4_def using assms(2) by (intro ok_if ok_bind inet_set_ok ok_Inr) auto
qed

lemma match_ipv6_ok:
  assumes "snd (v_ipv6 r) \<le> 128" "length (fst (v_ipv6 r)) = 16" "off \<le> 24"
  shows "ok (match_ipv6 off cx r)"
proof -
  have "ok (inet_containsAddress net ip)" if "inet_set (fst (v_ipv6 r)) 16 (unat (snd (v_ipv6 r))) = Inr net" for net ip
    using that containsAddress6_ok [OF assms(1,2)] assms(2)
    by (auto simp: inet_set_def bindE_def mem_read_def simp del: of_nat_unat split: sum.splits if_splits)
  then show ?thesis
    unfolding match_ipv6_def using assms(2,3) by (intro ok_if ok_bind inet_set_ok ok_Inr) auto
qed

lemma match_simple_ok: "ok (match_tos cx r)" "ok (match_ip_protocol cx r)" "ok (match_icmp_at cx r pos)"
  unfolding match_tos_def match_ip_protocol_def match_icmp_at_def Let_def by (intro ok_rules; auto)+

lemma match_icmp_ok: "ok (match_icmp cx r)"
  unfolding match_icmp_def by (intro ok_rules match_simple_ok) auto

lemma transport_port_ok: "ok (transport_port cx dst proto hdr)"
  unfolding transport_port_def Let_def by (intro ok_rules) auto

lemma match_port_range_ok: "ok (match_port_range dst cx r)"
  unfolding match_port_range_def by (intro ok_rules transport_port_ok) auto

lemma sender_ip_ok: "ok (sender_ip cx)"
  unfolding sender_ip_def Let_def by (intro ok_if ok_bind inet_set_ok ok_Inr) auto

lemma coo_owns_ok: "coo_wf c \<Longrightarrow> ok (coo_owns t v c)"
  by (simp add: coo_owns_def owns_loop_iff coo_wf_def coo_shape_def)

lemma coo_owns_both_ok: "coo_wf c \<Longrightarrow> ok (coo_owns_ip c src)" "coo_wf c \<Longrightarrow> ok (coo_owns_mac c m)"
  by (auto simp: coo_owns_ip_def coo_owns_mac_def coo_owns_ok split: inetaddress.split)

lemma own_coos_ok: "\<forall>c \<in> set cs. coo_wf c \<Longrightarrow> ok (own_coos src m cs msk)"
  by (induction cs arbitrary: msk) (auto intro!: ok_bind ok_if coo_owns_both_ok)

lemma timestamp_valid_ok:
  "0 \<le> sint ts \<Longrightarrow> 0 \<le> sint (nc_timestamp nconf) \<Longrightarrow> ok (isCredentialTimestampValid nconf revs ct i ts)"
  using i64_dist_nonneg [of ts "nc_timestamp nconf"] by (auto simp: isCredentialTimestampValid_def)

lemma coo_scan_ok:
  assumes "0 \<le> sint (nc_timestamp nconf)" "\<forall>(k, c) \<in> set es. coo_wf c \<and> 0 \<le> sint (coo_ts c)" "\<And>c. coo_wf c \<Longrightarrow> ok (owns c)"
  shows "ok (coo_scan nconf revs owns es)"
  using assms(2)
proof (induction es)
  case (Cons e es)
  obtain k c where e: "e = (k, c)" by force
  show ?case
    unfolding e coo_scan.simps using Cons e assms(1,3) by (intro ok_rules timestamp_valid_ok) auto
qed simp

lemma ownership_ok:
  assumes "cx_safe cx"
  shows "ok (ownershipVerificationMask cx)"
proof -
  have "ok (hasCertificateOfOwnershipFor_ip (fx_nconf cx) src m)" "ok (hasCertificateOfOwnershipFor_mac (fx_nconf cx) mac m)"
    if "fx_membership cx = Some m" for m src mac
    unfolding hasCertificateOfOwnershipFor_ip_def hasCertificateOfOwnershipFor_mac_def
    by (rule ok_bind, use assms that in \<open>auto simp: cx_safe_def intro!: coo_scan_ok coo_owns_both_ok\<close>)+
  moreover have "ok (own_coos src m (nc_coos (fx_nconf cx)) msk)" for src m msk
    using assms by (intro own_coos_ok) (simp add: cx_safe_def)
  ultimately show ?thesis
    unfolding ownershipVerificationMask_def Let_def by (intro ok_bind [OF sender_ip_ok] ok_prod ok_if ok_option ok_bind ok_Inr) auto
qed

lemma match_characteristics_ok:
  assumes "cx_safe cx" "tcp_complete cx"
  shows "ok (match_characteristics cx r)"
proof -
  have t: "ok (tcp_characteristics f pos)" if "pos + 13 < length f" for f pos
    using that unfolding tcp_characteristics_def by (intro ok_rules) auto
  show ?thesis
    unfolding match_characteristics_def Let_def
    by (intro ok_bind [OF ownership_ok [OF assms(1)]] ok_bind ok_if ok_option ok_prod ok_Inr t)
      (use assms(2) in \<open>auto simp: tcp_complete_def Let_def\<close>)
qed

lemma remote_tag_ok:
  assumes "cx_safe cx"
  shows "ok (remote_tag cx i)"
  unfolding remote_tag_def membership_getTag_def
  by (intro ok_option ok_bind ok_Inr timestamp_valid_ok) (use assms in \<open>auto simp: cx_safe_def\<close>)

lemma match_tags_ok: "cx_safe cx \<Longrightarrow> ok (match_tags cx r st)"
  unfolding match_tags_def by (intro ok_option ok_bind remote_tag_ok ok_if ok_Inr)

lemma match_tag_one_ok: "cx_safe cx \<Longrightarrow> ok (match_tag_one cx r st)"
  unfolding match_tag_one_def Let_def by (intro ok_option ok_bind remote_tag_ok ok_if ok_Inr)

lemma mac_setTo_ok: "length bs = 6 \<Longrightarrow> ok (mac_setTo bs 6)"
  by (auto simp: mac_setTo_def length_Suc_conv numeral_eq_Suc)

lemma with_skip_ok: "ok f \<Longrightarrow> ok (with_skip st f)"
  unfolding with_skip_def by auto

lemma pure_match_ok: "ok f \<Longrightarrow> ok (pure_match st f)"
  unfolding pure_match_def by auto

lemma match_rule_ok:
  assumes "cx_safe cx" "rule_safe cx r"
  shows "ok (match_rule cx r st)"
  unfolding match_rule_def Let_def
  by (intro ok_if pure_match_ok with_skip_ok match_simple_ok match_icmp_ok match_port_range_ok match_ipv4_ok match_ipv6_ok
      match_characteristics_ok match_tags_ok match_tag_one_ok ok_bind mac_setTo_ok ok_Inr ok_prod assms(1))
    (use assms(2) in \<open>auto simp: rule_safe_def Let_def\<close>)

lemma filter_loop_ok:
  assumes "cx_safe cx" "\<forall>r \<in> set rs. rule_safe cx r"
  shows "ok (filter_loop cx rs st)"
  using assms(2)
proof (induction rs arbitrary: st)
  case (Cons r rs)
  then show ?case
    unfolding filter_loop.simps using match_rule_ok [OF assms(1), of r]
    by (intro ok_if ok_prod ok_option ok_bind ok_Inr) auto
qed simp


text \<open>C37: the flags of a TCP segment are read without checking that they are there: for an IPv4 frame that ends before
  them a characteristics match reads past the end of the frame.\<close>

theorem characteristics_overread:
  assumes "cx_safe cx" "fx_etherType cx = ZT_ETHERTYPE_IPV4" "20 \<le> length (fx_frame cx)" "fx_frame cx ! 9 = 0x06"
    and "length (fx_frame cx) \<le> 4 * unat (fx_frame cx ! 0 AND 0xf) + 13"
  shows "match_characteristics cx r = Inl UndefinedBehaviour"
proof -
  obtain m where "ownershipVerificationMask cx = Inr m" using ownership_ok [OF assms(1)] by (auto elim: okE)
  then show ?thesis using assms(2-5) by (simp add: match_characteristics_def Let_def tcp_characteristics_def frame_at_def)
qed

lemma cx1_safe: "cx_safe (cx1 et f)"
  by (simp add: cx_safe_def cx1_def nconf1_def)


theorem characteristics_overread_witness:
  "match_characteristics (cx1 0x800 ([0x45] @ replicate 8 0 @ [6] @ replicate 10 0)) (rule0 MATCH_CHARACTERISTICS) = Inl UndefinedBehaviour"
proof -
  let ?f = "[0x45] @ replicate 8 0 @ [6] @ replicate 10 0 :: bytes"
  have "?f ! 9 = 6" "?f ! 0 = 0x45" "length ?f = 20" by (simp_all add: nth_append)
  then show ?thesis
    using characteristics_overread [OF cx1_safe [of "0x800" ?f]] by (simp add: cx1_def)
qed

section \<open>Inapplicable matches\<close>

text \<open>a match on an IP header never holds for a frame that is neither IPv4 nor IPv6, whether or not the rule is negated.\<close>

theorem ip_match_never_holds_on_non_ip:
  assumes "fx_etherType cx \<noteq> ZT_ETHERTYPE_IPV4" "fx_etherType cx \<noteq> ZT_ETHERTYPE_IPV6"
    and "rule_type (r_t r) \<in> {MATCH_IPV4_SOURCE, MATCH_IPV4_DEST, MATCH_IPV6_SOURCE, MATCH_IPV6_DEST, MATCH_IP_TOS, MATCH_IP_PROTOCOL,
           MATCH_ICMP, MATCH_IP_SOURCE_PORT_RANGE, MATCH_IP_DEST_PORT_RANGE}"
  shows "\<exists>m. match_rule cx r st = Inr (m, st) \<and> combine r s m = (rule_or r \<and> s)"
proof -
  have "match_ipv4 off cx r = Inr (hardNo r)" "match_ipv6 off cx r = Inr (hardNo r)" "match_tos cx r = Inr (hardNo r)"
    "match_ip_protocol cx r = Inr (hardNo r)" "match_icmp cx r = Inr (hardNo r)" "match_port_range dst cx r = Inr (hardNo r)" for off dst
    using assms(1,2) by (simp_all add: match_ipv4_def match_ipv6_def match_tos_def match_ip_protocol_def match_icmp_def
        match_port_range_def split: prod.split)
  then have "match_rule cx r st = Inr (hardNo r, st)"
    using assms(3) unfolding match_rule_def Let_def pure_match_def insert_iff empty_iff
    by (elim disjE) (simp_all only: if_True if_False simp_thms, simp_all)
  then show ?thesis by simp
qed

theorem ip_match_never_holds_on_non_ip_witness:
  "\<exists>m. match_rule (cx1 0x806 []) (rule0 (0x80 + 31)) fs1 = Inr (m, fs1) \<and> \<not> combine (rule0 (0x80 + 31)) True m"
  using ip_match_never_holds_on_non_ip [of "cx1 0x806 []" "rule0 (0x80 + 31)" fs1 True]
  by (simp add: cx1_def rule_type_def rule0_def rule_or_def)

section \<open>A drop that is not taken\<close>

text \<open>C38: the flag that suppresses the drop of a set with an unknown remote tag outlives that set. When another match of the
  set fails, the flag stays set and the next unconditional drop is skipped, so that the frame is accepted.\<close>

theorem skipDrop_leaks:
  assumes "fx_membership cx = None" "\<not> fx_inbound cx" "local_tag cx (fst (v_tag r1)) = Some t"
    and "r_t r1 = MATCH_TAGS_EQUAL" "r_t r2 = MATCH_ETHERTYPE" "v_etherType r2 \<noteq> of_nat (fx_etherType cx)"
    and "r_t a1 = ACTION_DROP" "r_t a2 = ACTION_DROP" "r_t a3 = ACTION_ACCEPT"
  shows "\<exists>st'. doZtFilter cx [r1, r2, a1, a2, a3] st = Inr (FILTER_ACCEPT, st')
    \<and> doZtFilter cx [a2, a3] st = Inr (FILTER_DROP, st\<lparr>fs_superAccept := False, fs_set := True, fs_skipDrop := False\<rparr>)"
proof -
  have t: "rule_type (r_t r1) = 48" "rule_type (r_t r2) = 37" "rule_type (r_t a1) = 0" "rule_type (r_t a2) = 0" "rule_type (r_t a3) = 1"
    using assms by (simp_all add: rule_type_def)
  have n: "\<not> rule_not r1" "\<not> rule_or r1" "\<not> rule_not r2" "\<not> rule_or r2" using assms by (simp_all add: rule_not_def rule_or_def)
  show ?thesis
    using assms(1-3,6) by (simp add: doZtFilter_def t n match_rule_def with_skip_def match_tags_def remote_tag_def combine_def hardYes_def
        take_action_def skip_action_def Let_def)
qed

theorem skipDrop_leaks_witness:
  "\<exists>st'. doZtFilter (cx1 0x800 []) [(rule0 MATCH_TAGS_EQUAL)\<lparr>v_tag := (7, 1)\<rparr>, (rule0 MATCH_ETHERTYPE)\<lparr>v_etherType := 0x806\<rparr>,
     rule0 ACTION_DROP, rule0 ACTION_DROP, rule0 ACTION_ACCEPT] fs1 = Inr (FILTER_ACCEPT, st')"
proof -
  have "local_tag (cx1 0x800 []) 7 = Some (tag1 8)" by (simp add: local_tag_def tag_lower_bound_def cx1_def)
  then show ?thesis
    using skipDrop_leaks [of "cx1 0x800 []" "(rule0 MATCH_TAGS_EQUAL)\<lparr>v_tag := (7, 1)\<rparr>" "tag1 8"
        "(rule0 MATCH_ETHERTYPE)\<lparr>v_etherType := 0x806\<rparr>" "rule0 ACTION_DROP" "rule0 ACTION_DROP" "rule0 ACTION_ACCEPT" fs1]
    by (auto simp: cx1_def rule0_def)
qed

theorem filter_first_match_witness:
  "\<exists>st'. doZtFilter (cx1 0x800 []) [(rule0 MATCH_ETHERTYPE)\<lparr>v_etherType := 0x806\<rparr>, rule0 ACTION_ACCEPT, rule0 ACTION_DROP] fs1 = Inr (FILTER_DROP, st')"
proof -
  let ?rs = "[(rule0 MATCH_ETHERTYPE)\<lparr>v_etherType := 0x806\<rparr>, rule0 ACTION_ACCEPT, rule0 ACTION_DROP]"
  have m: "match_rule (cx1 0x800 []) r st = Inr (v_etherType r = 0x800, st)" if "r \<in> set ?rs" "ACTION__MAX_ID < rule_type (r_t r)" for r st
  proof -
    have "r = (rule0 MATCH_ETHERTYPE)\<lparr>v_etherType := 0x806\<rparr>" using that by (auto simp: rule0_def rule_type_def)
    then show ?thesis by (simp add: match_rule_def rule0_def rule_type_def cx1_def)
  qed
  have "\<not> set_holds (\<lambda>r. v_etherType r = 0x800) [(rule0 MATCH_ETHERTYPE)\<lparr>v_etherType := 0x806\<rparr>]" "set_holds (\<lambda>r. v_etherType r = 0x800) []"
    by (simp_all add: set_matches_holds [symmetric] set_matches_def combine_def rule_or_def rule_not_def rule0_def)
  then have "decide (cx1 0x800 []) (map (\<lambda>(ms, a). (set_holds (\<lambda>r. v_etherType r = 0x800) ms, fw_action_of a)) (blocks [] ?rs)) False e = e\<lparr>fo_result := FILTER_DROP\<rparr>" for e
    by (simp add: rule0_def fw_action_of_def)
  then show ?thesis using filter_first_match [OF m, of ?rs fs1] by (auto simp: fw_out_of_def)
qed

end
