(* ===== verification/ZT_Network.thy ===== *)
theory ZT_Network
  imports ZT_Rules
begin

text \<open>
  \<^verbatim>\<open>node/Network\<close>: the state of one network that this node has joined. It applies the rule filter to outgoing and incoming
  frames, with the capabilities of this node and of the sender, hands received credentials to the record of the member
  they are issued to, decides whether a peer may talk on the network at all and keeps the multicast groups. Sent
  packets are part of the results. The mutex that every operation holds makes them atomic.
\<close>

section \<open>The order of multicast groups\<close>

instantiation multicastgroup_ext :: (linorder) linorder
begin

definition less_eq_multicastgroup_ext :: "'a multicastgroup_scheme \<Rightarrow> 'a multicastgroup_scheme \<Rightarrow> bool" where
  "less_eq_multicastgroup_ext a b \<longleftrightarrow> mg_mac a < mg_mac b \<or> mg_mac a = mg_mac b \<and>
     (mg_adi a < mg_adi b \<or> mg_adi a = mg_adi b \<and> multicastgroup.more a \<le> multicastgroup.more b)"

definition less_multicastgroup_ext :: "'a multicastgroup_scheme \<Rightarrow> 'a multicastgroup_scheme \<Rightarrow> bool" where
  "less_multicastgroup_ext a b \<longleftrightarrow> mg_mac a < mg_mac b \<or> mg_mac a = mg_mac b \<and>
     (mg_adi a < mg_adi b \<or> mg_adi a = mg_adi b \<and> multicastgroup.more a < multicastgroup.more b)"

instance
  by standard (auto simp: less_eq_multicastgroup_ext_def less_multicastgroup_ext_def)

end

section \<open>State\<close>

text \<open>\<open>ZT_PROTO_MAX_PACKET_LENGTH\<close> is the capacity of a packet, 51 the length of the header of a packet that carries
  an extended frame up to the frame.\<close>

abbreviation (input) ZT_PROTO_MAX_PACKET_LENGTH :: nat where "ZT_PROTO_MAX_PACKET_LENGTH \<equiv> 10024"

text \<open>One slot for a configuration update that arrives in chunks: \<open>cc_haveChunkIds\<close> holds the first \<open>haveChunks\<close> entries of the
  array and \<open>cc_data\<close> the bytes of the dictionary, as many as its capacity.\<close>

record config_chunk =
  cc_ts :: u64
  cc_updateId :: u64
  cc_haveChunkIds :: "u64 list"
  cc_haveBytes :: u32
  cc_data :: bytes

datatype netconf_failure =
  NETCONF_FAILURE_NONE | NETCONF_FAILURE_ACCESS_DENIED | NETCONF_FAILURE_NOT_FOUND | NETCONF_FAILURE_INIT_FAILED
| NETCONF_FAILURE_AUTHENTICATION_REQUIRED

datatype network_status =
  ZT_NETWORK_STATUS_REQUESTING_CONFIGURATION | ZT_NETWORK_STATUS_OK | ZT_NETWORK_STATUS_ACCESS_DENIED
| ZT_NETWORK_STATUS_NOT_FOUND | ZT_NETWORK_STATUS_PORT_ERROR | ZT_NETWORK_STATUS_CLIENT_TOO_OLD
| ZT_NETWORK_STATUS_AUTHENTICATION_REQUIRED

record network =
  nw_id :: u64
  nw_config :: networkconfig
  nw_memberships :: "(address, membership) hashtable"
  nw_myMulticastGroups :: "multicastgroup list"
  nw_multicastGroupsBehindMe :: "(multicastgroup, u64) hashtable"
  nw_remoteBridgeRoutes :: "(mac, address) hashtable"
  nw_lastConfigUpdate :: u64
  nw_incomingConfigChunks :: "config_chunk list"
  nw_destroyed :: bool
  nw_netconfFailure :: netconf_failure
  nw_portError :: int
  nw_portInitialized :: bool
  nw_outgoing_accepted :: nat
  nw_outgoing_dropped :: nat
  nw_incoming_accepted :: nat
  nw_incoming_dropped :: nat

text \<open>The packets with verb EXT_FRAME the filters send.\<close>

record ext_frame =
  ef_dest :: address
  ef_nwid :: u64
  ef_flags :: u8
  ef_macDest :: mac
  ef_macSource :: mac
  ef_etherType :: u16
  ef_data :: bytes

definition ext_frame_to :: "address \<Rightarrow> u64 \<Rightarrow> u8 \<Rightarrow> filter_ctx \<Rightarrow> nat \<Rightarrow> ext_frame result" where
  "ext_frame_to dest nwid flags cx len =
    (if 51 + len > ZT_PROTO_MAX_PACKET_LENGTH then Inl oob
     else bindE (mem_read (fx_frame cx) 0 len) (\<lambda>d.
       Inr \<lparr>ef_dest = dest, ef_nwid = nwid, ef_flags = flags, ef_macDest = fx_macDest cx, ef_macSource = fx_macSource cx,
            ef_etherType = of_nat (fx_etherType cx), ef_data = d\<rparr>))"

definition send_if :: "bool \<Rightarrow> ext_frame result \<Rightarrow> ext_frame list result" where
  "send_if c f = (if c then bindE f (\<lambda>f. Inr [f]) else Inr [])"

text \<open>\<open>_membership\<close>: the record of a member, constructed when there is none.\<close>

definition network_membership :: "(nat \<Rightarrow> bool) \<Rightarrow> address \<Rightarrow> network \<Rightarrow> (membership \<times> network) result" where
  "network_membership alloc a nw =
    (case ht_get address_hashCode (nw_memberships nw) a of
       Some m \<Rightarrow> Inr (m, nw)
     | None \<Rightarrow> bindE (membership_new alloc) (\<lambda>m.
         Inr (m, nw\<lparr>nw_memberships := snd (ht_index address_hashCode alloc m a (nw_memberships nw))\<rparr>)))"

definition set_membership :: "(nat \<Rightarrow> bool) \<Rightarrow> address \<Rightarrow> membership \<Rightarrow> network \<Rightarrow> network" where
  "set_membership alloc a m nw = nw\<lparr>nw_memberships := ht_set address_hashCode alloc a m (nw_memberships nw)\<rparr>"

section \<open>Outgoing packets\<close>

text \<open>The reference arguments at the start of one evaluation.\<close>

definition fresh_args :: "address \<Rightarrow> filter_state \<Rightarrow> filter_state" where
  "fresh_args dest st = st\<lparr>fs_ztDest := dest, fs_cc := 0, fs_ccLength := 0, fs_ccWatch := False\<rparr>"

fun out_capabilities :: "filter_ctx \<Rightarrow> u64 \<Rightarrow> bool \<Rightarrow> address \<Rightarrow> capability list \<Rightarrow> filter_state \<Rightarrow>
    (bool \<times> ext_frame list \<times> filter_state) result" where
  "out_capabilities cx nwid noTee dest [] st = Inr (False, [], st)"
| "out_capabilities cx nwid noTee dest (c # cs) st =
    bindE (doZtFilter cx (cap_rules c) (fresh_args dest st)) (\<lambda>(res, st').
      if res = FILTER_NO_MATCH \<or> res = FILTER_DROP then out_capabilities cx nwid noTee dest cs st'
      else bindE (send_if (\<not> noTee \<and> fs_cc st' \<noteq> 0)
                    (ext_frame_to (fs_cc st') nwid (if fs_ccWatch st' then 0x16 else 0x02) cx (fs_ccLength st')))
             (\<lambda>fr. Inr (True, fr, st')))"

text \<open>The part after the evaluation: \<open>b\<close> is the state after the base rules, whose tee target is used, and \<open>dest'\<close> the final
  destination.\<close>

definition out_finish :: "filter_ctx \<Rightarrow> bool \<Rightarrow> address \<Rightarrow> address \<Rightarrow> bool \<Rightarrow> filter_state \<Rightarrow> ext_frame list \<Rightarrow> network \<Rightarrow>
    (bool \<times> ext_frame list \<times> network) result" where
  "out_finish cx noTee dest dest' accept b fr nw =
    (if accept then
       bindE (send_if (\<not> noTee \<and> fs_cc b \<noteq> 0)
                (ext_frame_to (fs_cc b) (nw_id nw) (if fs_ccWatch b then 0x16 else 0x02) cx (fs_ccLength b))) (\<lambda>tee.
       bindE (send_if (dest \<noteq> dest' \<and> dest' \<noteq> 0)
                (ext_frame_to dest' (nw_id nw) 0x04 cx (length (fx_frame cx)))) (\<lambda>redir.
         Inr (\<not> (dest \<noteq> dest' \<and> dest' \<noteq> 0), fr @ tee @ redir,
              nw\<lparr>nw_outgoing_accepted := nw_outgoing_accepted nw + 1\<rparr>)))
     else Inr (False, fr, nw\<lparr>nw_outgoing_dropped := nw_outgoing_dropped nw + 1\<rparr>))"

definition filterOutgoingPacket :: "address \<Rightarrow> bool \<Rightarrow> address \<Rightarrow> address \<Rightarrow> mac \<Rightarrow> mac \<Rightarrow> bytes \<Rightarrow> nat \<Rightarrow> nat \<Rightarrow> u8 \<Rightarrow> u64 \<times> u64 \<Rightarrow>
    network \<Rightarrow> (bool \<times> ext_frame list \<times> u8 \<times> (u64 \<times> u64) \<times> network) result" where
  "filterOutgoingPacket self noTee ztSource ztDest macSource macDest frame etherType vlanId qos prng nw =
    (let cx = \<lparr>fx_self = self, fx_nconf = nw_config nw,
               fx_membership = (if ztDest \<noteq> 0 then ht_get address_hashCode (nw_memberships nw) ztDest else None),
               fx_inbound = False, fx_ztSource = ztSource, fx_macSource = macSource, fx_macDest = macDest,
               fx_frame = frame, fx_etherType = etherType, fx_vlanId = vlanId\<rparr>;
         st = \<lparr>fs_superAccept = False, fs_set = True, fs_skipDrop = False, fs_ztDest = ztDest, fs_cc = 0, fs_ccLength = 0,
               fs_ccWatch = False, fs_qosBucket = qos, fs_prng = prng\<rparr> in
     bindE (doZtFilter cx (nc_rules (nw_config nw)) st) (\<lambda>(res, b).
       case res of
         FILTER_DROP \<Rightarrow> Inr (False, [], fs_qosBucket b, fs_prng b, nw)
       | FILTER_NO_MATCH \<Rightarrow>
           bindE (out_capabilities cx (nw_id nw) noTee ztDest (nc_capabilities (nw_config nw)) b) (\<lambda>(accept, fr, e).
           bindE (out_finish cx noTee ztDest (fs_ztDest e) accept b fr nw) (\<lambda>(r, fr, nw).
             Inr (r, fr, fs_qosBucket e, fs_prng e, nw)))
       | _ \<Rightarrow>
           bindE (out_finish cx noTee ztDest (fs_ztDest b) True b [] nw) (\<lambda>(r, fr, nw).
             Inr (r, fr, fs_qosBucket b, fs_prng b, nw))))"

section \<open>Incoming packets\<close>

definition accept_code :: "filter_result \<Rightarrow> nat" where
  "accept_code res =
    (case res of FILTER_NO_MATCH \<Rightarrow> 0 | FILTER_DROP \<Rightarrow> 0 | FILTER_REDIRECT \<Rightarrow> 1 | FILTER_ACCEPT \<Rightarrow> 1 | FILTER_SUPER_ACCEPT \<Rightarrow> 2)"

text \<open>The loop over the \<open>CapabilityIterator\<close> of the sender.\<close>

fun in_capabilities :: "filter_ctx \<Rightarrow> u64 \<Rightarrow> (u64, u64) hashtable \<Rightarrow> address \<Rightarrow> (u32 \<times> capability) list \<Rightarrow> filter_state \<Rightarrow>
    (nat \<times> ext_frame list \<times> filter_state) result" where
  "in_capabilities cx nwid revs dest [] st = Inr (0, [], st)"
| "in_capabilities cx nwid revs dest ((k, c) # es) st =
    bindE (isCredentialTimestampValid (fx_nconf cx) revs CT_CAPABILITY (cap_id c) (cap_ts c)) (\<lambda>valid.
      if \<not> valid then in_capabilities cx nwid revs dest es st
      else bindE (doZtFilter cx (cap_rules c) (fresh_args dest st)) (\<lambda>(res, st').
        if accept_code res = 0 then in_capabilities cx nwid revs dest es st'
        else bindE (send_if (fs_cc st' \<noteq> 0)
                      (ext_frame_to (fs_cc st') nwid (if fs_ccWatch st' then 0x1c else 0x08) cx (fs_ccLength st')))
               (\<lambda>fr. Inr (accept_code res, fr, st'))))"

definition in_finish :: "filter_ctx \<Rightarrow> address \<Rightarrow> address \<Rightarrow> nat \<Rightarrow> filter_state \<Rightarrow> ext_frame list \<Rightarrow> network \<Rightarrow>
    (nat \<times> ext_frame list \<times> network) result" where
  "in_finish cx dest dest' accept b fr nw =
    (if accept \<noteq> 0 then
       bindE (send_if (fs_cc b \<noteq> 0)
                (ext_frame_to (fs_cc b) (nw_id nw) (if fs_ccWatch b then 0x1c else 0x08) cx (fs_ccLength b))) (\<lambda>tee.
       bindE (send_if (dest \<noteq> dest' \<and> dest' \<noteq> 0)
                (ext_frame_to dest' (nw_id nw) 0x0a cx (length (fx_frame cx)))) (\<lambda>redir.
         Inr (if dest \<noteq> dest' \<and> dest' \<noteq> 0 then 0 else accept, fr @ tee @ redir,
              nw\<lparr>nw_incoming_accepted := nw_incoming_accepted nw + 1\<rparr>)))
     else Inr (0, fr, nw\<lparr>nw_incoming_dropped := nw_incoming_dropped nw + 1\<rparr>))"

definition filterIncomingPacket :: "(nat \<Rightarrow> bool) \<Rightarrow> address \<Rightarrow> address \<Rightarrow> address \<Rightarrow> mac \<Rightarrow> mac \<Rightarrow> bytes \<Rightarrow> nat \<Rightarrow> nat \<Rightarrow> u64 \<times> u64 \<Rightarrow>
    network \<Rightarrow> (nat \<times> ext_frame list \<times> (u64 \<times> u64) \<times> network) result" where
  "filterIncomingPacket alloc self source ztDest macSource macDest frame etherType vlanId prng nw =
    bindE (network_membership alloc source nw) (\<lambda>(m, nw).
    let cx = \<lparr>fx_self = self, fx_nconf = nw_config nw, fx_membership = Some m, fx_inbound = True, fx_ztSource = source,
              fx_macSource = macSource, fx_macDest = macDest, fx_frame = frame, fx_etherType = etherType, fx_vlanId = vlanId\<rparr>;
        st = \<lparr>fs_superAccept = False, fs_set = True, fs_skipDrop = False, fs_ztDest = ztDest, fs_cc = 0, fs_ccLength = 0,
              fs_ccWatch = False, fs_qosBucket = 255, fs_prng = prng\<rparr> in
    bindE (doZtFilter cx (nc_rules (nw_config nw)) st) (\<lambda>(res, b).
      case res of
        FILTER_DROP \<Rightarrow> Inr (0, [], fs_prng b, nw)
      | FILTER_NO_MATCH \<Rightarrow>
          bindE (in_capabilities cx (nw_id nw) (mb_revocations m) ztDest (ht_entries (mb_remoteCaps m)) b) (\<lambda>(accept, fr, e).
          bindE (in_finish cx ztDest (fs_ztDest e) accept b fr nw) (\<lambda>(r, fr, nw). Inr (r, fr, fs_prng e, nw)))
      | _ \<Rightarrow>
          bindE (in_finish cx ztDest (fs_ztDest b) (accept_code res) b [] nw) (\<lambda>(r, fr, nw). Inr (r, fr, fs_prng b, nw))))"

section \<open>Credentials\<close>

text \<open>\<open>addCredential\<close> for each kind: credentials of other networks are refused, others go to the record of the member
  they are issued to.\<close>

definition with_member :: "(nat \<Rightarrow> bool) \<Rightarrow> address \<Rightarrow> (membership \<Rightarrow> (add_result \<times> membership) result) \<Rightarrow> network \<Rightarrow>
    (add_result \<times> network) result" where
  "with_member alloc a f nw =
    bindE (network_membership alloc a nw) (\<lambda>(m, nw). bindE (f m) (\<lambda>(r, m'). Inr (r, set_membership alloc a m' nw)))"

definition network_addCredential_com :: "cred_env \<Rightarrow> com \<Rightarrow> network \<Rightarrow> (add_result \<times> network) result" where
  "network_addCredential_com env c nw =
    (if com_networkId c \<noteq> nw_id nw then Inr (ADD_REJECTED, nw)
     else with_member (ce_alloc env) (com_issuedTo c) (\<lambda>m. Inr (addCredential_com env c m)) nw)"

definition network_addCredential_cap :: "cred_env \<Rightarrow> capability \<Rightarrow> network \<Rightarrow> (add_result \<times> network) result" where
  "network_addCredential_cap env c nw =
    (if cap_nwid c \<noteq> nw_id nw then Inr (ADD_REJECTED, nw)
     else with_member (ce_alloc env) (cap_issuedTo c) (addCredential_cap env c) nw)"

definition network_addCredential_tag :: "cred_env \<Rightarrow> tag \<Rightarrow> network \<Rightarrow> (add_result \<times> network) result" where
  "network_addCredential_tag env c nw =
    (if tag_networkId c \<noteq> nw_id nw then Inr (ADD_REJECTED, nw)
     else with_member (ce_alloc env) (tag_issuedTo c) (addCredential_tag env c) nw)"

definition network_addCredential_coo :: "cred_env \<Rightarrow> coo \<Rightarrow> network \<Rightarrow> (add_result \<times> network) result" where
  "network_addCredential_coo env c nw =
    (if coo_networkId c \<noteq> nw_id nw then Inr (ADD_REJECTED, nw)
     else with_member (ce_alloc env) (coo_issuedTo c) (addCredential_coo env c) nw)"

text \<open>A new revocation with the flag set is passed on to every other member; the addresses it is sent to are part of the
  result.\<close>

definition network_addCredential_rev :: "cred_env \<Rightarrow> address \<Rightarrow> revocation \<Rightarrow> network \<Rightarrow> (add_result \<times> address list \<times> network) result" where
  "network_addCredential_rev env sentFrom r nw =
    (if rev_networkId r \<noteq> nw_id nw then Inr (ADD_REJECTED, [], nw)
     else bindE (with_member (ce_alloc env) (rev_target r) (addCredential_rev env r) nw) (\<lambda>(res, nw).
       Inr (res,
            if res = ADD_ACCEPTED_NEW \<and> rev_fastPropagate r then
              map fst (filter (\<lambda>(a, m). a \<noteq> sentFrom \<and> a \<noteq> rev_signedBy r) (ht_entries (nw_memberships nw)))
            else [],
            nw)))"

section \<open>Members and groups\<close>

text \<open>\<open>gate\<close>: the result, the new state and whether the multicast groups are announced to the peer. An exception makes it false.\<close>

definition network_gate :: "(nat \<Rightarrow> bool) \<Rightarrow> u64 \<Rightarrow> address \<Rightarrow> u64 list \<Rightarrow> network \<Rightarrow> (bool \<times> bool \<times> network) result" where
  "network_gate alloc now peer idHash nw =
    (if nc_isSet (nw_config nw) then
       let m = ht_get address_hashCode (nw_memberships nw) peer in
       if nc_isPublic (nw_config nw) \<or> (case m of None \<Rightarrow> False | Some m \<Rightarrow> isAllowedOnNetwork (nw_config nw) idHash m) then
         (case bindE (network_membership alloc peer nw) (\<lambda>(m, nw).
                 bindE (multicastLikeGate now m) (\<lambda>(announce, m'). Inr (True, announce, set_membership alloc peer m' nw))) of
            Inr r \<Rightarrow> Inr r
          | Inl UndefinedBehaviour \<Rightarrow> Inl UndefinedBehaviour
          | Inl (Throw _) \<Rightarrow> Inr (False, False, nw))
       else Inr (False, False, nw)
     else Inr (False, False, nw))"

definition recentlyAssociatedWith :: "int \<Rightarrow> u64 \<Rightarrow> address \<Rightarrow> network \<Rightarrow> bool result" where
  "recentlyAssociatedWith timeout now addr nw =
    (case ht_get address_hashCode (nw_memberships nw) addr of
       None \<Rightarrow> Inr False
     | Some m \<Rightarrow> recentlyAssociated timeout now m)"

text \<open>\<open>std::lower_bound\<close>, \<open>std::upper_bound\<close> and \<open>std::binary_search\<close> as they are defined on the sorted vector.\<close>

definition lower_bound :: "multicastgroup \<Rightarrow> multicastgroup list \<Rightarrow> nat" where
  "lower_bound mg xs = length (takeWhile (\<lambda>x. mg_less x mg) xs)"

definition upper_bound :: "multicastgroup \<Rightarrow> multicastgroup list \<Rightarrow> nat" where
  "upper_bound mg xs = length (takeWhile (\<lambda>x. \<not> mg_less mg x) xs)"

definition binary_search :: "multicastgroup \<Rightarrow> multicastgroup list \<Rightarrow> bool" where
  "binary_search mg xs = (case drop (lower_bound mg xs) xs of [] \<Rightarrow> False | y # _ \<Rightarrow> \<not> mg_less mg y)"

definition subscribedToMulticastGroup :: "multicastgroup \<Rightarrow> bool \<Rightarrow> network \<Rightarrow> bool" where
  "subscribedToMulticastGroup mg includeBridgedGroups nw =
    (if binary_search mg (nw_myMulticastGroups nw) then True
     else if includeBridgedGroups then ht_contains mg_hashCode (nw_multicastGroupsBehindMe nw) mg
     else False)"

text \<open>The second result is whether \<open>_sendUpdatesToMembers\<close> is called for the new group.\<close>

definition multicastSubscribe :: "multicastgroup \<Rightarrow> network \<Rightarrow> network \<times> bool" where
  "multicastSubscribe mg nw =
    (let gs = nw_myMulticastGroups nw in
     if \<not> binary_search mg gs then
       (nw\<lparr>nw_myMulticastGroups := take (upper_bound mg gs) gs @ [mg] @ drop (upper_bound mg gs) gs\<rparr>, True)
     else (nw, False))"

definition multicastUnsubscribe :: "multicastgroup \<Rightarrow> network \<Rightarrow> network" where
  "multicastUnsubscribe mg nw =
    (let gs = nw_myMulticastGroups nw; i = lower_bound mg gs in
     if i < length gs \<and> gs ! i = mg then nw\<lparr>nw_myMulticastGroups := take i gs @ drop (i + 1) gs\<rparr> else nw)"

definition learnBridgedMulticastGroup :: "(nat \<Rightarrow> bool) \<Rightarrow> multicastgroup \<Rightarrow> u64 \<Rightarrow> network \<Rightarrow> network \<times> bool" where
  "learnBridgedMulticastGroup alloc mg now nw =
    (let t = ht_set mg_hashCode alloc mg now (nw_multicastGroupsBehindMe nw) in
     (nw\<lparr>nw_multicastGroupsBehindMe := t\<rparr>, ht_size (nw_multicastGroupsBehindMe nw) \<noteq> ht_size t))"

definition BROADCAST :: multicastgroup where
  "BROADCAST = \<lparr>mg_mac = mac_of 0xffffffffffff, mg_adi = 0\<rparr>"

definition allMulticastGroups :: "network \<Rightarrow> multicastgroup list" where
  "allMulticastGroups nw =
    remdups_adj (sort (ht_appendKeys (nw_multicastGroupsBehindMe nw) (nw_myMulticastGroups nw)
      @ (if nc_isSet (nw_config nw) \<and> nc_enableBroadcast (nw_config nw) then [BROADCAST] else [])))"

section \<open>Bridge routes\<close>

definition network_controller :: "network \<Rightarrow> address" where
  "network_controller nw = address_of (drop_bit 24 (nw_id nw))"

definition findBridgeTo :: "mac \<Rightarrow> network \<Rightarrow> address" where
  "findBridgeTo m nw = (case ht_get mac_hashCode (nw_remoteBridgeRoutes nw) m of Some a \<Rightarrow> a | None \<Rightarrow> 0)"

abbreviation (input) ZT_MAX_BRIDGE_ROUTES :: nat where "ZT_MAX_BRIDGE_ROUTES \<equiv> 67108864"

text \<open>The search for the address with the most routes: \<open>counts\<close>, \<open>maxAddr\<close> and \<open>maxCount\<close> are the local variables, \<open>unsigned long\<close>
  has 32 bits.\<close>

fun count_routes :: "(nat \<Rightarrow> bool) \<Rightarrow> (mac \<times> address) list \<Rightarrow> (address, u32) hashtable \<Rightarrow> address \<Rightarrow> u32 \<Rightarrow> address" where
  "count_routes alloc [] counts maxAddr maxCount = maxAddr"
| "count_routes alloc ((m, a) # es) counts maxAddr maxCount =
    (let (c0, counts1) = ht_index address_hashCode alloc 0 a counts;
         c = c0 + 1; counts2 = ht_set address_hashCode alloc a c counts1 in
     if c > maxCount then count_routes alloc es counts2 a c else count_routes alloc es counts2 maxAddr maxCount)"

text \<open>One round of the circuit breaker. \<open>None\<close> would be an erase loop that did not end.\<close>

definition kill_spammer :: "(nat \<Rightarrow> bool) \<Rightarrow> (mac, address) hashtable \<Rightarrow> (mac, address) hashtable result option" where
  "kill_spammer alloc t =
    (case ht_new alloc 64 of
       Inl e \<Rightarrow> Some (Inl e)
     | Inr counts \<Rightarrow>
         let maxAddr = count_routes alloc (ht_entries t) counts 0 0 in
         clean_loop mac_hashCode (ht_size t + 1) (\<lambda>a. Inr (a \<noteq> maxAddr)) t (ht_iterator t))"

fun bridge_breaker :: "nat \<Rightarrow> (nat \<Rightarrow> bool) \<Rightarrow> (mac, address) hashtable \<Rightarrow> (mac, address) hashtable result option" where
  "bridge_breaker 0 alloc t = None"
| "bridge_breaker (Suc n) alloc t =
    (if ht_size t > ZT_MAX_BRIDGE_ROUTES then
       (case kill_spammer alloc t of
          Some (Inr t') \<Rightarrow> bridge_breaker n alloc t'
        | r \<Rightarrow> r)
     else Some (Inr t))"

definition learnBridgeRoute :: "nat \<Rightarrow> (nat \<Rightarrow> bool) \<Rightarrow> mac \<Rightarrow> address \<Rightarrow> network \<Rightarrow> network result option" where
  "learnBridgeRoute fuel alloc m a nw =
    (let t = ht_set mac_hashCode alloc m a (snd (ht_index mac_hashCode alloc 0 m (nw_remoteBridgeRoutes nw))) in
     map_option (\<lambda>r. bindE r (\<lambda>t. Inr (nw\<lparr>nw_remoteBridgeRoutes := t\<rparr>))) (bridge_breaker fuel alloc t))"

section \<open>Cleaning and status\<close>

text \<open>The loop over the members erases the unknown ones and cleans the others in place.\<close>

fun clean_members :: "nat \<Rightarrow> (nat \<Rightarrow> bool) \<Rightarrow> (address \<Rightarrow> bool) \<Rightarrow> networkconfig \<Rightarrow> (address, membership) hashtable \<Rightarrow>
    (address, membership) ht_iter \<Rightarrow> (address, membership) hashtable result option" where
  "clean_members 0 alloc havePeer nconf t it = None"
| "clean_members (Suc n) alloc havePeer nconf t it =
    (case ht_next t it of
       (None, _) \<Rightarrow> Some (Inr t)
     | (Some (a, m), it') \<Rightarrow>
         if \<not> havePeer a then clean_members n alloc havePeer nconf (snd (ht_erase address_hashCode a t)) it'
         else (case membership_clean nconf m of
             None \<Rightarrow> None
           | Some (Inl e) \<Rightarrow> Some (Inl e)
           | Some (Inr m') \<Rightarrow> clean_members n alloc havePeer nconf (ht_set address_hashCode alloc a m' t) it'))"

definition network_clean :: "(nat \<Rightarrow> bool) \<Rightarrow> (address \<Rightarrow> bool) \<Rightarrow> u64 \<Rightarrow> network \<Rightarrow> network result option" where
  "network_clean alloc havePeer now nw =
    (if nw_destroyed nw then Some (Inr nw)
     else
       let g = nw_multicastGroupsBehindMe nw in
       case clean_loop mg_hashCode (ht_size g + 1) (\<lambda>ts. Inr (\<not> (now - ts > 1200000))) g (ht_iterator g) of
         Some (Inr g') \<Rightarrow>
           map_option (\<lambda>r. bindE r (\<lambda>t. Inr (nw\<lparr>nw_multicastGroupsBehindMe := g', nw_memberships := t\<rparr>)))
             (clean_members (ht_size (nw_memberships nw) + 1) alloc havePeer (nw_config nw) (nw_memberships nw)
                (ht_iterator (nw_memberships nw)))
       | Some (Inl e) \<Rightarrow> Some (Inl e)
       | None \<Rightarrow> None)"

definition network_destroy :: "network \<Rightarrow> network" where
  "network_destroy nw = nw\<lparr>nw_destroyed := True\<rparr>"

definition network_status_of :: "network \<Rightarrow> network_status" where
  "network_status_of nw =
    (if nw_portError nw \<noteq> 0 then ZT_NETWORK_STATUS_PORT_ERROR
     else case nw_netconfFailure nw of
       NETCONF_FAILURE_ACCESS_DENIED \<Rightarrow> ZT_NETWORK_STATUS_ACCESS_DENIED
     | NETCONF_FAILURE_NOT_FOUND \<Rightarrow> ZT_NETWORK_STATUS_NOT_FOUND
     | NETCONF_FAILURE_NONE \<Rightarrow> (if nc_isSet (nw_config nw) then ZT_NETWORK_STATUS_OK else ZT_NETWORK_STATUS_REQUESTING_CONFIGURATION)
     | NETCONF_FAILURE_AUTHENTICATION_REQUIRED \<Rightarrow> ZT_NETWORK_STATUS_AUTHENTICATION_REQUIRED
     | _ \<Rightarrow> ZT_NETWORK_STATUS_PORT_ERROR)"

definition setAccessDenied :: "network \<Rightarrow> network" where
  "setAccessDenied nw = nw\<lparr>nw_netconfFailure := NETCONF_FAILURE_ACCESS_DENIED\<rparr>"

definition setNotFound :: "network \<Rightarrow> network" where
  "setNotFound nw = nw\<lparr>nw_netconfFailure := NETCONF_FAILURE_NOT_FOUND\<rparr>"

section \<open>Invariant and steps\<close>

definition member_inv :: "cred_env \<Rightarrow> u64 \<Rightarrow> address \<Rightarrow> membership \<Rightarrow> bool" where
  "member_inv env nwid a m \<longleftrightarrow> mb_inv env m
     \<and> (mb_com m = com_empty \<or> com_networkId (mb_com m) = nwid \<and> com_issuedTo (mb_com m) = a)
     \<and> (\<forall>k t. ht_get hc_u32 (mb_remoteTags m) k = Some t \<longrightarrow> tag_networkId t = nwid \<and> tag_issuedTo t = a)
     \<and> (\<forall>k c. ht_get hc_u32 (mb_remoteCaps m) k = Some c \<longrightarrow> cap_nwid c = nwid \<and> cap_issuedTo c = a)
     \<and> (\<forall>k c. ht_get hc_u32 (mb_remoteCoos m) k = Some c \<longrightarrow> coo_networkId c = nwid \<and> coo_issuedTo c = a)"

definition net_inv :: "cred_env \<Rightarrow> network \<Rightarrow> bool" where
  "net_inv env nw \<longleftrightarrow> ht_inv address_hashCode (nw_memberships nw)
     \<and> (\<forall>a m. ht_get address_hashCode (nw_memberships nw) a = Some m \<longrightarrow> member_inv env (nw_id nw) a m)"

definition net_w0 :: network where
  "net_w0 = \<lparr>nw_id = 0x1000000, nw_config = nconf1\<lparr>nc_rules := [rule0 ACTION_ACCEPT]\<rparr>,
     nw_memberships = \<lparr>ht_t = [[], [], [], []], ht_bc = 4, ht_s = 0\<rparr>, nw_myMulticastGroups = [BROADCAST],
     nw_multicastGroupsBehindMe = \<lparr>ht_t = [[]], ht_bc = 1, ht_s = 0\<rparr>,
     nw_remoteBridgeRoutes = \<lparr>ht_t = [[], [(5, 2)]], ht_bc = 2, ht_s = 1\<rparr>, nw_lastConfigUpdate = 0,
     nw_incomingConfigChunks = [], nw_destroyed = False, nw_netconfFailure = NETCONF_FAILURE_NONE, nw_portError = 0,
     nw_portInitialized = True, nw_outgoing_accepted = 0, nw_outgoing_dropped = 0, nw_incoming_accepted = 0, nw_incoming_dropped = 0\<rparr>"

definition net_w1 :: network where
  "net_w1 = net_w0\<lparr>nw_memberships := \<lparr>ht_t = [[], [(1, mb0\<lparr>mb_remoteTags := \<lparr>ht_t = [[], [], [], [(7, tag1 6)]], ht_bc = 4, ht_s = 1\<rparr>\<rparr>)], [], []],
     ht_bc = 4, ht_s = 1\<rparr>\<rparr>"

text \<open>The arguments an evaluation of rules starts from, and what its result means for a frame that comes in.\<close>

definition filter_start :: "address \<Rightarrow> u8 \<Rightarrow> u64 \<times> u64 \<Rightarrow> filter_state" where
  "filter_start dest bucket prng = \<lparr>fs_superAccept = False, fs_set = True, fs_skipDrop = False, fs_ztDest = dest, fs_cc = 0, fs_ccLength = 0,
     fs_ccWatch = False, fs_qosBucket = bucket, fs_prng = prng\<rparr>"

definition admits :: "nat \<Rightarrow> filter_result \<Rightarrow> bool" where
  "admits r res \<longleftrightarrow> r = 1 \<and> (res = FILTER_ACCEPT \<or> res = FILTER_REDIRECT) \<or> r = 2 \<and> res = FILTER_SUPER_ACCEPT"

definition rules_admit :: "filter_ctx \<Rightarrow> vnrule list \<Rightarrow> address \<Rightarrow> nat \<Rightarrow> bool" where
  "rules_admit cx rules dest r \<longleftrightarrow> (\<exists>bucket rng res b. doZtFilter cx rules (filter_start dest bucket rng) = Inr (res, b) \<and> admits r res)"

text \<open>The steps of a network: the credentials and packets that arrive, the packets that leave and the cleaning. Updates of the configuration, which leave the members as they are, are not among them.\<close>

inductive nw_step :: "cred_env \<Rightarrow> network \<Rightarrow> network \<Rightarrow> bool" for env where
  nw_com: "knows env e \<Longrightarrow> network_addCredential_com e c nw = Inr (r, nw') \<Longrightarrow> nw_step env nw nw'"
| nw_cap: "knows env e \<Longrightarrow> network_addCredential_cap e p nw = Inr (r, nw') \<Longrightarrow> nw_step env nw nw'"
| nw_tag: "knows env e \<Longrightarrow> network_addCredential_tag e t nw = Inr (r, nw') \<Longrightarrow> nw_step env nw nw'"
| nw_coo: "knows env e \<Longrightarrow> network_addCredential_coo e o1 nw = Inr (r, nw') \<Longrightarrow> nw_step env nw nw'"
| nw_rev: "knows env e \<Longrightarrow> network_addCredential_rev e src v nw = Inr (r, sent, nw') \<Longrightarrow> nw_step env nw nw'"
| nw_gate: "network_gate alloc now peer h nw = Inr (b, ann, nw') \<Longrightarrow> nw_step env nw nw'"
| nw_in: "filterIncomingPacket alloc self src dst ms md f et vl prng nw = Inr (acc, sent, prng', nw') \<Longrightarrow> nw_step env nw nw'"
| nw_out: "filterOutgoingPacket self noTee src dst ms md f et vl q prng nw = Inr (acc, sent, q', prng', nw') \<Longrightarrow> nw_step env nw nw'"
| nw_clean: "network_clean alloc havePeer now nw = Some (Inr nw') \<Longrightarrow> nw_step env nw nw'"

section \<open>Order of groups\<close>

lemma mg_less_iff [simp]: "mg_less a b \<longleftrightarrow> a < b"
  by (auto simp: mg_less_def less_multicastgroup_ext_def)

lemma sorted_takeWhile_less: "sorted_wrt (<) xs \<Longrightarrow> takeWhile (\<lambda>x. x < (m :: 'a::linorder)) xs = filter (\<lambda>x. x < m) xs"
  by (induction xs) (auto simp: filter_empty_conv intro!: filter_False [symmetric] dest: order.strict_trans)

section \<open>Subscriptions\<close>

lemma takeWhile_closed:
  "sorted_wrt (\<lambda>x y. P y \<longrightarrow> P x) xs \<Longrightarrow> takeWhile P xs = filter P xs \<and> dropWhile P xs = filter (\<lambda>x. \<not> P x) xs"
proof (induction xs)
  case (Cons x xs)
  show ?case
  proof (cases "P x")
    case True
    then show ?thesis using Cons by simp
  next
    case False
    then have "\<forall>y \<in> set xs. \<not> P y" using Cons.prems by auto
    then show ?thesis using False by (auto simp: filter_id_conv filter_empty_conv)
  qed
qed simp

lemma split_takeWhile: "take (length (takeWhile P xs)) xs = takeWhile P xs" "drop (length (takeWhile P xs)) xs = dropWhile P xs"
  by (metis append_eq_conv_conj takeWhile_dropWhile_id)+

lemma lower_split:
  assumes "sorted_wrt (<) gs"
  shows "take (lower_bound mg gs) gs = filter (\<lambda>x. x < mg) gs \<and> drop (lower_bound mg gs) gs = filter (\<lambda>x. \<not> x < mg) gs"
proof -
  have "sorted_wrt (\<lambda>x y. y < mg \<longrightarrow> x < mg) gs" by (rule sorted_wrt_mono_rel [OF _ assms]) auto
  from takeWhile_closed [OF this] show ?thesis unfolding lower_bound_def mg_less_iff split_takeWhile by blast
qed

lemma upper_split:
  assumes "sorted_wrt (<) gs"
  shows "take (upper_bound mg gs) gs = filter (\<lambda>x. \<not> mg < x) gs \<and> drop (upper_bound mg gs) gs = filter (\<lambda>x. \<not> \<not> mg < x) gs"
proof -
  have "sorted_wrt (\<lambda>x y. \<not> mg < y \<longrightarrow> \<not> mg < x) gs" by (rule sorted_wrt_mono_rel [OF _ assms]) auto
  from takeWhile_closed [OF this] show ?thesis unfolding upper_bound_def mg_less_iff split_takeWhile by blast
qed

lemma binary_search_iff:
  assumes "sorted_wrt (<) xs"
  shows "binary_search mg xs \<longleftrightarrow> mg \<in> set xs"
proof -
  have d: "drop (lower_bound mg xs) xs = filter (\<lambda>x. \<not> x < mg) xs" using lower_split [OF assms] by blast
  have s: "sorted_wrt (<) (filter (\<lambda>x. \<not> x < mg) xs)" using assms by (rule sorted_wrt_filter)
  show ?thesis
  proof (cases "filter (\<lambda>x. \<not> x < mg) xs")
    case Nil
    then show ?thesis using d by (auto simp: binary_search_def filter_empty_conv)
  next
    case (Cons y ys)
    then have y: "y \<in> set xs" "\<not> y < mg" and ys: "\<forall>z \<in> set ys. y < z" using s by (auto simp: filter_eq_Cons_iff)
    have "mg \<in> set xs \<longleftrightarrow> mg \<in> set (filter (\<lambda>x. \<not> x < mg) xs)" by auto
    also have "\<dots> \<longleftrightarrow> mg = y" using Cons ys y(2) by (auto simp: not_less)
    finally show ?thesis using d Cons y(2) by (auto simp: binary_search_def)
  qed
qed

lemma subscribe_list:
  assumes "sorted_wrt (<) gs" "mg \<notin> set gs"
  shows "sorted_wrt (<) (take (upper_bound mg gs) gs @ [mg] @ drop (upper_bound mg gs) gs)"
    and "set (take (upper_bound mg gs) gs @ [mg] @ drop (upper_bound mg gs) gs) = insert mg (set gs)"
proof -
  note t = upper_split [OF assms(1), of mg, THEN conjunct1] upper_split [OF assms(1), of mg, THEN conjunct2]
  show "sorted_wrt (<) (take (upper_bound mg gs) gs @ [mg] @ drop (upper_bound mg gs) gs)"
    unfolding t using assms by (auto simp: sorted_wrt_append sorted_wrt_filter not_less order.order_iff_strict dest: order.strict_trans)
  show "set (take (upper_bound mg gs) gs @ [mg] @ drop (upper_bound mg gs) gs) = insert mg (set gs)"
    unfolding t by auto
qed

lemma unsubscribe_list:
  assumes "sorted_wrt (<) gs"
  shows "let i = lower_bound mg gs; gs' = (if i < length gs \<and> gs ! i = mg then take i gs @ drop (i + 1) gs else gs)
    in gs' = filter (\<lambda>x. x \<noteq> mg) gs"
proof -
  define i where "i = lower_bound mg gs"
  have d: "take i gs = filter (\<lambda>x. x < mg) gs" "drop i gs = filter (\<lambda>x. \<not> x < mg) gs"
    using lower_split [OF assms, of mg] by (simp_all add: i_def)
  show ?thesis
  proof (cases "mg \<in> set gs")
    case False
    then have "\<not> (i < length gs \<and> gs ! i = mg)" by (metis nth_mem)
    moreover have "filter (\<lambda>x. x \<noteq> mg) gs = gs" using False by (auto simp: filter_id_conv)
    ultimately show ?thesis unfolding Let_def i_def [symmetric] by auto
  next
    case True
    then obtain y ys where y: "drop i gs = y # ys" unfolding d by (cases "filter (\<lambda>x. \<not> x < mg) gs") (auto simp: filter_empty_conv)
    have s: "sorted_wrt (<) (y # ys)" using assms y d(2) sorted_wrt_filter by metis
    have "mg \<in> set (y # ys)" "\<not> y < mg" using True y d(2) by (auto simp: filter_eq_Cons_iff) 
    then have ym: "y = mg" using s by (auto simp: not_less)
    have i: "i < length gs" "gs ! i = mg" using y ym by (metis drop_eq_Nil linorder_not_le list.distinct(1), metis hd_drop_conv_nth list.sel(1) drop_eq_Nil linorder_not_le list.distinct(1))
    have g: "gs = take i gs @ mg # ys" using append_take_drop_id [of i gs] y ym by simp
    have n: "mg \<notin> set (take i gs)" "mg \<notin> set ys" using d(1) s ym by auto
    have f: "filter (\<lambda>x. x \<noteq> mg) zs = zs" if "mg \<notin> set zs" for zs using that by (auto simp: filter_id_conv)
    have "filter (\<lambda>x. x \<noteq> mg) gs = take i gs @ ys"
      using n f by (subst g) simp
    moreover have "drop (i + 1) gs = ys" using y by (metis Suc_eq_plus1 drop_Suc list.sel(3) tl_drop)
    ultimately show ?thesis unfolding Let_def i_def [symmetric] using i by simp
  qed
qed

text \<open>C28: the vector of subscribed groups stays strictly sorted, and on such a vector subscribing adds the group,
  unsubscribing removes it and the binary search finds exactly the groups subscribed.\<close>

theorem multicast_subscriptions:
  assumes "sorted_wrt (<) (nw_myMulticastGroups nw)"
  shows "sorted_wrt (<) (nw_myMulticastGroups (fst (multicastSubscribe mg nw)))
    \<and> sorted_wrt (<) (nw_myMulticastGroups (multicastUnsubscribe mg nw))
    \<and> (subscribedToMulticastGroup g False (fst (multicastSubscribe mg nw)) \<longleftrightarrow> g = mg \<or> subscribedToMulticastGroup g False nw)
    \<and> (subscribedToMulticastGroup g False (multicastUnsubscribe mg nw) \<longleftrightarrow> g \<noteq> mg \<and> subscribedToMulticastGroup g False nw)"
proof -
  let ?gs = "nw_myMulticastGroups nw"
  have sub: "subscribedToMulticastGroup g False n \<longleftrightarrow> g \<in> set (nw_myMulticastGroups n)" if "sorted_wrt (<) (nw_myMulticastGroups n)" for n
    using binary_search_iff [OF that] by (simp add: subscribedToMulticastGroup_def)
  have u: "nw_myMulticastGroups (multicastUnsubscribe mg nw) = filter (\<lambda>x. x \<noteq> mg) ?gs"
    using unsubscribe_list [OF assms, of mg] by (auto simp: multicastUnsubscribe_def Let_def split: if_splits)
  then have 1: "sorted_wrt (<) (nw_myMulticastGroups (multicastUnsubscribe mg nw))" using assms by (simp add: sorted_wrt_filter)
  have s: "sorted_wrt (<) (nw_myMulticastGroups (fst (multicastSubscribe mg nw)))
      \<and> set (nw_myMulticastGroups (fst (multicastSubscribe mg nw))) = insert mg (set ?gs)"
    using subscribe_list [OF assms, of mg] assms binary_search_iff [OF assms, of mg] by (auto simp: multicastSubscribe_def Let_def)
  show ?thesis using s u 1 sub assms by auto
qed

theorem multicast_subscriptions_witness:
  "subscribedToMulticastGroup BROADCAST False (fst (multicastSubscribe \<lparr>mg_mac = 7, mg_adi = 0\<rparr> net_w0))"
  by (subst multicast_subscriptions [THEN conjunct2, THEN conjunct2, THEN conjunct1])
    (simp_all add: net_w0_def subscribedToMulticastGroup_def binary_search_def lower_bound_def)

section \<open>Credentials of members\<close>

lemma member_inv_new: "membership_new alloc = Inr m \<Longrightarrow> member_inv env nwid a m"
proof -
  assume m: "membership_new alloc = Inr m"
  then have "mb_com m = com_empty" "ht_get hc_u32 (mb_remoteTags m) k = None" "ht_get hc_u32 (mb_remoteCaps m) k = None"
    "ht_get hc_u32 (mb_remoteCoos m) k = None" for k
    by (auto simp: membership_new_def ht_new_def bindE_def split: if_splits sum.splits)
  then show ?thesis using mb_inv_new [OF m] by (simp add: member_inv_def)
qed

lemma network_membership_inv:
  assumes "net_inv env nw" "network_membership alloc a nw = Inr (m, nw1)"
  shows "net_inv env nw1 \<and> ht_get address_hashCode (nw_memberships nw1) a = Some m \<and> nw_id nw1 = nw_id nw \<and> nw_config nw1 = nw_config nw"
proof (cases "ht_get address_hashCode (nw_memberships nw) a")
  case (Some m')
  then show ?thesis using assms by (simp add: network_membership_def)
next
  case None
  then have m: "membership_new alloc = Inr m" "nw1 = nw\<lparr>nw_memberships := snd (ht_index address_hashCode alloc m a (nw_memberships nw))\<rparr>"
    using assms(2) by (auto simp: network_membership_def bindE_def split: sum.splits)
  have i: "ht_inv address_hashCode (nw_memberships nw)" using assms(1) by (simp add: net_inv_def)
  show ?thesis using ht_index_spec [OF i, of alloc m a] None assms(1) m(2) member_inv_new [OF m(1)]
    by (auto simp: net_inv_def)
qed

lemma set_membership_inv:
  assumes "net_inv env nw" "member_inv env (nw_id nw) a m"
  shows "net_inv env (set_membership alloc a m nw)"
  using assms ht_set_spec [of address_hashCode "nw_memberships nw" alloc a m]
  by (auto simp: net_inv_def set_membership_def)

lemma with_member_inv:
  assumes "net_inv env nw" "with_member alloc a f nw = Inr (r, nw')"
    and "\<And>m r m'. member_inv env (nw_id nw) a m \<Longrightarrow> f m = Inr (r, m') \<Longrightarrow> member_inv env (nw_id nw) a m'"
  shows "net_inv env nw'"
proof -
  obtain m nw1 m' where m: "network_membership alloc a nw = Inr (m, nw1)" "f m = Inr (r, m')" "nw' = set_membership alloc a m' nw1"
    using assms(2) by (auto simp: with_member_def bindE_def split: sum.splits)
  note 1 = network_membership_inv [OF assms(1) m(1)]
  then have "member_inv env (nw_id nw) a m" by (metis net_inv_def)
  then show ?thesis using assms(3) [OF _ m(2)] 1 set_membership_inv m(3) by metis
qed

lemma addCred_member_inv:
  assumes "knows env e" "member_inv env nwid a m"
  shows "com_networkId c = nwid \<Longrightarrow> com_issuedTo c = a \<Longrightarrow> addCredential_com e c m = (r, m') \<Longrightarrow> member_inv env nwid a m'"
    and "tag_networkId t = nwid \<Longrightarrow> tag_issuedTo t = a \<Longrightarrow> addCredential_tag e t m = Inr (r, m') \<Longrightarrow> member_inv env nwid a m'"
    and "cap_nwid p = nwid \<Longrightarrow> cap_issuedTo p = a \<Longrightarrow> addCredential_cap e p m = Inr (r, m') \<Longrightarrow> member_inv env nwid a m'"
    and "coo_networkId o1 = nwid \<Longrightarrow> coo_issuedTo o1 = a \<Longrightarrow> addCredential_coo e o1 m = Inr (r, m') \<Longrightarrow> member_inv env nwid a m'"
    and "addCredential_rev e v m = Inr (r, m') \<Longrightarrow> member_inv env nwid a m'"
proof -
  have i: "mb_inv env m" "ht_inv hc_u32 (mb_remoteTags m)" "ht_inv hc_u32 (mb_remoteCaps m)" "ht_inv hc_u32 (mb_remoteCoos m)"
    "ht_inv hc_u64 (mb_revocations m)"
    using assms(2) by (simp_all add: member_inv_def mb_inv_def table_ok_def)
  show "member_inv env nwid a m'" if h: "com_networkId c = nwid" "com_issuedTo c = a" "addCredential_com e c m = (r, m')"
    using h assms(2) mb_inv_step [OF step_com [OF assms(1) h(3)] i(1)]
    by (auto simp: addCredential_com_def member_inv_def Let_def split: if_splits verify_result.splits)
  show "member_inv env nwid a m'" if h: "tag_networkId t = nwid" "tag_issuedTo t = a" "addCredential_tag e t m = Inr (r, m')"
  proof -
    obtain t' where t': "addCredImpl (ce_alloc e) CT_TAG tag_id tag_ts (tag_verify (ce_sizeof_tag e) (ce_identity e)) (tag_new 0 0 0 0 0)
      (mb_revocations m) t (mb_remoteTags m) = Inr (r, t')" "m' = m\<lparr>mb_remoteTags := t'\<rparr>"
      using h(3) by (auto simp: addCredential_tag_def bindE_def split: sum.splits)
    then show ?thesis using addCredImpl_spec [OF i(2) t'(1)] mb_inv_step [OF step_tag [OF assms(1) h(3)] i(1)] assms(2) h(1,2)
      by (auto simp: member_inv_def stored_def split: if_splits)
  qed
  show "member_inv env nwid a m'" if h: "cap_nwid p = nwid" "cap_issuedTo p = a" "addCredential_cap e p m = Inr (r, m')"
  proof -
    obtain t' where t': "addCredImpl (ce_alloc e) CT_CAPABILITY cap_id cap_ts (cap_verify (ce_sizeof_cap e) (ce_identity e)) cap_zero
      (mb_revocations m) p (mb_remoteCaps m) = Inr (r, t')" "m' = m\<lparr>mb_remoteCaps := t'\<rparr>"
      using h(3) by (auto simp: addCredential_cap_def bindE_def split: sum.splits)
    then show ?thesis using addCredImpl_spec [OF i(3) t'(1)] mb_inv_step [OF step_cap [OF assms(1) h(3)] i(1)] assms(2) h(1,2)
      by (auto simp: member_inv_def stored_def split: if_splits)
  qed
  show "member_inv env nwid a m'" if h: "coo_networkId o1 = nwid" "coo_issuedTo o1 = a" "addCredential_coo e o1 m = Inr (r, m')"
  proof -
    obtain t' where t': "addCredImpl (ce_alloc e) CT_COO coo_id coo_ts (coo_verify (ce_sizeof_coo e) (ce_identity e)) (coo_new 0 0 0 0)
      (mb_revocations m) o1 (mb_remoteCoos m) = Inr (r, t')" "m' = m\<lparr>mb_remoteCoos := t'\<rparr>"
      using h(3) by (auto simp: addCredential_coo_def bindE_def split: sum.splits)
    then show ?thesis using addCredImpl_spec [OF i(4) t'(1)] mb_inv_step [OF step_coo [OF assms(1) h(3)] i(1)] assms(2) h(1,2)
      by (auto simp: member_inv_def stored_def split: if_splits)
  qed
  show "member_inv env nwid a m'" if h: "addCredential_rev e v m = Inr (r, m')"
    using addCredential_rev_spec [OF i(5) h] mb_inv_step [OF step_rev [OF assms(1) h] i(1)] assms(2)
    by (auto simp: member_inv_def)
qed

lemma clean_sub:
  assumes "cleanCredImpl valid t = Some (Inr t')" "ht_inv hc_u32 t" "ht_get hc_u32 t' k = Some c"
  shows "ht_get hc_u32 t k = Some c"
  using clean_loop_sub [OF assms(1) [unfolded cleanCredImpl_def] assms(2)] assms(3) by (metis domI map_le_def)

lemma clean_member_inv:
  assumes "member_inv env nwid a m" "membership_clean nconf m = Some (Inr m')"
  shows "member_inv env nwid a m'"
proof -
  have i: "mb_inv env m" "ht_inv hc_u32 (mb_remoteTags m)" "ht_inv hc_u32 (mb_remoteCaps m)" "ht_inv hc_u32 (mb_remoteCoos m)"
    using assms(1) by (simp_all add: member_inv_def mb_inv_def table_ok_def)
  obtain t c o1 v1 v2 v3 where x: "cleanCredImpl v1 (mb_remoteTags m) = Some (Inr t)" "cleanCredImpl v2 (mb_remoteCaps m) = Some (Inr c)"
    "cleanCredImpl v3 (mb_remoteCoos m) = Some (Inr o1)" "m' = m\<lparr>mb_remoteTags := t, mb_remoteCaps := c, mb_remoteCoos := o1\<rparr>"
    using clean_Some [OF assms(2)] by blast
  note s = clean_sub [OF x(1) i(2)] clean_sub [OF x(2) i(3)] clean_sub [OF x(3) i(4)]
  show ?thesis
    using mb_inv_step [OF step_clean [OF assms(2)] i(1)] assms(1) x(4) unfolding member_inv_def by (auto dest: s)
qed

lemma set_rest:
  assumes "ht_inv hc t" "ht_get hc t k = Some v0" "k \<notin> fst ` set (it_rest t it)"
  shows "it_rest (ht_set hc alloc k v t) it = it_rest t it"
proof -
  define i where "i = unat (hc k) mod ht_bc t"
  have i: "i < length (ht_t t)" using ht_inv_idx [OF assms(1)] by (simp add: i_def)
  have c: "chain_get k (ht_t t ! i) = Some v0" using assms(2) by (simp add: ht_get_def i_def)
  then have k: "k \<in> fst ` set (ht_t t ! i)" by (force simp: chain_get_map_of dest: map_of_SomeD)
  have "i < it_idx it + 1"
  proof (rule ccontr)
    assume "\<not> i < it_idx it + 1"
    then have "ht_t t ! i \<in> set (drop (it_idx it + 1) (ht_t t))"
      using i by (auto simp: in_set_conv_nth intro!: exI [of _ "i - (it_idx it + 1)"])
    with k have "k \<in> fst ` set (it_rest t it)" by (auto simp: it_rest_def)
    with assms(3) show False by simp
  qed
  then show ?thesis using k by (auto simp: ht_set_def Let_def it_rest_def i_def [symmetric] chain_set_None split: option.split)
qed

lemma clean_members_inv:
  assumes "clean_members n alloc havePeer nconf t it = Some (Inr t')" "ht_inv address_hashCode t"
    and "\<forall>a m. ht_get address_hashCode t a = Some m \<longrightarrow> member_inv env nwid a m"
    and "\<forall>(a, m) \<in> set (it_rest t it). ht_get address_hashCode t a = Some m" "distinct (map fst (it_rest t it))"
  shows "ht_inv address_hashCode t' \<and> (\<forall>a m. ht_get address_hashCode t' a = Some m \<longrightarrow> member_inv env nwid a m)"
  using assms
proof (induction n arbitrary: t it)
  case (Suc n)
  have len: "length (ht_t t) = ht_bc t" using Suc.prems(2) by (simp add: ht_inv_def)
  obtain r it' where r: "ht_next t it = (r, it')" by force
  show ?case
  proof (cases "it_rest t it")
    case Nil
    then show ?thesis using ht_next_spec [OF len, of it] r Suc.prems by auto
  next
    case (Cons b bs)
    obtain k v where b: "b = (k, v)" by force
    have n: "r = Some (k, v)" "it_rest t it' = bs" using ht_next_spec [OF len, of it] r Cons b by auto
    have kv: "ht_get address_hashCode t k = Some v" using Suc.prems(4) Cons b by simp
    have kbs: "k \<notin> fst ` set bs" using Suc.prems(5) Cons b by simp
    show ?thesis
    proof (cases "havePeer k")
      case False
      let ?t = "snd (ht_erase address_hashCode k t)"
      have t1: "ht_inv address_hashCode ?t" "it_rest ?t it' = bs" "ht_get address_hashCode ?t = (ht_get address_hashCode t)(k := None)"
        using ht_erase_spec [OF Suc.prems(2), of k] erase_rest [OF Suc.prems(2), of k it'] kbs n(2) by auto
      have "\<forall>(a, m) \<in> set bs. ht_get address_hashCode ?t a = Some m" using Suc.prems(4) Cons kbs t1(3) by force
      moreover have "clean_members n alloc havePeer nconf ?t it' = Some (Inr t')" using Suc.prems(1) r n(1) False by simp
      moreover have "\<forall>a m. ht_get address_hashCode ?t a = Some m \<longrightarrow> member_inv env nwid a m" using Suc.prems(3) t1(3) by simp
      moreover have "distinct (map fst bs)" using Suc.prems(5) Cons by simp
      ultimately show ?thesis using Suc.IH [of ?t it'] t1(1,2) by metis
    next
      case True
      then obtain v' where v': "membership_clean nconf v = Some (Inr v')"
        and rec: "clean_members n alloc havePeer nconf (ht_set address_hashCode alloc k v' t) it' = Some (Inr t')"
        using Suc.prems(1) r n(1) by (auto split: option.splits sum.splits)
      let ?t = "ht_set address_hashCode alloc k v' t"
      have t1: "ht_inv address_hashCode ?t" "it_rest ?t it' = bs" "ht_get address_hashCode ?t = (ht_get address_hashCode t)(k \<mapsto> v')"
        using ht_set_spec [OF Suc.prems(2), of alloc k v'] set_rest [OF Suc.prems(2) kv, of it' alloc v'] kbs n(2) by auto
      have "\<forall>(a, m) \<in> set bs. ht_get address_hashCode ?t a = Some m" using Suc.prems(4) Cons kbs t1(3) by force
      moreover have "member_inv env nwid k v'" using clean_member_inv [OF _ v'] Suc.prems(3) kv by blast
      then have "\<forall>a m. ht_get address_hashCode ?t a = Some m \<longrightarrow> member_inv env nwid a m" using Suc.prems(3) t1(3) by simp
      moreover have "distinct (map fst bs)" using Suc.prems(5) Cons by simp
      ultimately show ?thesis using Suc.IH [OF rec t1(1)] t1(2) by metis
    qed
  qed
qed simp

lemma net_inv_cong: "nw_memberships nw' = nw_memberships nw \<Longrightarrow> nw_id nw' = nw_id nw \<Longrightarrow> net_inv env nw' = net_inv env nw"
  by (simp add: net_inv_def)

lemma network_clean_inv:
  assumes "net_inv env nw" "network_clean alloc havePeer now nw = Some (Inr nw')"
  shows "net_inv env nw'"
proof (cases "nw_destroyed nw")
  case True
  then show ?thesis using assms by (simp add: network_clean_def)
next
  case False
  let ?t = "nw_memberships nw"
  have i: "ht_inv address_hashCode ?t" using assms(1) by (simp add: net_inv_def)
  obtain t' where t': "clean_members (ht_size ?t + 1) alloc havePeer (nw_config nw) ?t (ht_iterator ?t) = Some (Inr t')"
    "nw_memberships nw' = t'" "nw_id nw' = nw_id nw"
    using assms(2) False by (auto simp: network_clean_def Let_def bindE_eq_Inr simp del: clean_members.simps clean_loop.simps split: option.splits sum.splits)
  have "length (ht_t ?t) = ht_bc ?t" "0 < ht_bc ?t" using i by (auto simp: ht_inv_def)
  then obtain c cs where c: "ht_t ?t = c # cs" by (cases "ht_t ?t") auto
  have rest: "it_rest ?t (ht_iterator ?t) = concat (ht_t ?t)" by (simp add: it_rest_def ht_iterator_def c)
  have "\<forall>(a, m) \<in> set (it_rest ?t (ht_iterator ?t)). ht_get address_hashCode ?t a = Some m"
    unfolding rest using ht_get_iff [OF i] by blast
  from clean_members_inv [OF t'(1) i _ this, of env "nw_id nw"] show ?thesis
    using assms(1) t'(2,3) ht_distinct [OF i] unfolding rest net_inv_def by metis
qed


lemma in_finish_nw: "in_finish cx d d' acc b fr nw = Inr (r, fr', nw') \<Longrightarrow> nw_memberships nw' = nw_memberships nw \<and> nw_id nw' = nw_id nw"
  by (auto simp: in_finish_def bindE_eq_Inr split: if_splits)

lemma out_finish_nw: "out_finish cx nt d d' acc b fr nw = Inr (r, fr', nw') \<Longrightarrow> nw_memberships nw' = nw_memberships nw \<and> nw_id nw' = nw_id nw"
  by (auto simp: out_finish_def bindE_eq_Inr split: if_splits)

lemma filterIncoming_nw:
  assumes "filterIncomingPacket alloc self src dst ms md f et vl prng nw = Inr (acc, sent, prng', nw')"
  shows "\<exists>m nw1. network_membership alloc src nw = Inr (m, nw1) \<and> nw_memberships nw' = nw_memberships nw1 \<and> nw_id nw' = nw_id nw1"
proof -
  obtain m nw1 where 1: "network_membership alloc src nw = Inr (m, nw1)" and nw': "nw_memberships nw' = nw_memberships nw1 \<and> nw_id nw' = nw_id nw1"
    using assms unfolding filterIncomingPacket_def bindE_eq_Inr Let_def
    by (auto simp: bindE_eq_Inr split: filter_result.splits dest: in_finish_nw) (meson filter_result.exhaust)
  then show ?thesis by blast
qed

lemma filterOutgoing_nw:
  assumes "filterOutgoingPacket self nt src dst ms md f et vl q prng nw = Inr (acc, sent, q', prng', nw')"
  shows "nw_memberships nw' = nw_memberships nw \<and> nw_id nw' = nw_id nw"
  using assms unfolding filterOutgoingPacket_def Let_def
  by (auto simp: bindE_eq_Inr split: filter_result.splits dest: out_finish_nw) (meson filter_result.exhaust)+

lemma network_gate_inv:
  assumes "net_inv env nw" "network_gate alloc now peer h nw = Inr (b, ann, nw')"
  shows "net_inv env nw'"
proof -
  consider "nw' = nw" | m nw1 m' where "network_membership alloc peer nw = Inr (m, nw1)" "multicastLikeGate now m = Inr (ann, m')"
      "nw' = set_membership alloc peer m' nw1"
    using assms(2) by (auto simp: network_gate_def Let_def bindE_eq_Inr split: if_splits sum.splits fault.splits)
  then show ?thesis
  proof cases
    case 2
    note 1 = network_membership_inv [OF assms(1) 2(1)]
    then have "member_inv env (nw_id nw1) peer m" by (metis net_inv_def)
    then have "member_inv env (nw_id nw1) peer m'"
      using mb_inv_step [OF step_gate [OF 2(2)], of env] 2(2)
      by (auto simp: member_inv_def multicastLikeGate_def bindE_def split: sum.splits if_splits)
    then show ?thesis using 1 2(3) set_membership_inv by metis
  qed (use assms(1) in simp)
qed

lemma net_inv_step: "nw_step env nw nw' \<Longrightarrow> net_inv env nw \<Longrightarrow> net_inv env nw'"
proof (induction rule: nw_step.cases)
  case (nw_com e c nw r nw')
  then show ?case using with_member_inv [of env nw "ce_alloc e" "com_issuedTo c" "\<lambda>m. Inr (addCredential_com e c m)" r nw'] addCred_member_inv(1)
    by (auto simp: network_addCredential_com_def split: if_splits)
next
  case (nw_cap e c nw r nw')
  then show ?case using with_member_inv [of env nw "ce_alloc e" "cap_issuedTo c" "addCredential_cap e c" r nw'] addCred_member_inv(3)
    by (auto simp: network_addCredential_cap_def split: if_splits)
next
  case (nw_tag e c nw r nw')
  then show ?case using with_member_inv [of env nw "ce_alloc e" "tag_issuedTo c" "addCredential_tag e c" r nw'] addCred_member_inv(2)
    by (auto simp: network_addCredential_tag_def split: if_splits)
next
  case (nw_coo e c nw r nw')
  then show ?case using with_member_inv [of env nw "ce_alloc e" "coo_issuedTo c" "addCredential_coo e c" r nw'] addCred_member_inv(4)
    by (auto simp: network_addCredential_coo_def split: if_splits)
next
  case (nw_rev e src v nw r sent nw')
  then show ?case using with_member_inv [of env nw "ce_alloc e" "rev_target v" "addCredential_rev e v" r nw'] addCred_member_inv(5)
    by (auto simp: network_addCredential_rev_def bindE_eq_Inr split: if_splits)
next
  case (nw_gate alloc now peer h nw b ann nw')
  then show ?case using network_gate_inv by blast
next
  case (nw_in alloc self src dst ms md f et vl prng nw acc sent prng' nw')
  obtain m nw1 where "network_membership alloc src nw = Inr (m, nw1)" "nw_memberships nw' = nw_memberships nw1" "nw_id nw' = nw_id nw1"
    using filterIncoming_nw [OF nw_in(3)] by blast
  then show ?case using network_membership_inv nw_in(1,2,4) net_inv_cong by blast
next
  case (nw_out self nt src dst ms md f et vl q prng nw acc sent q' prng' nw')
  then show ?case using filterOutgoing_nw [OF nw_out(3)] net_inv_cong [of nw' nw] by simp
next
  case (nw_clean alloc havePeer now nw nw')
  then show ?case using network_clean_inv by blast
qed

lemma net_inv_steps: "(nw_step env)\<^sup>*\<^sup>* nw nw' \<Longrightarrow> net_inv env nw \<Longrightarrow> net_inv env nw'"
  by (induction rule: rtranclp_induct) (auto intro: net_inv_step)

lemma doZtFilter_start: "doZtFilter cx rs (fresh_args dest st) = doZtFilter cx rs (filter_start dest (fs_qosBucket st) (fs_prng st))"
  by (cases st) (simp add: doZtFilter_def fresh_args_def filter_start_def)

lemma accept_admits: "accept_code res = r \<Longrightarrow> r \<noteq> 0 \<Longrightarrow> admits r res"
  by (cases res) (auto simp: accept_code_def admits_def)

lemma in_capabilities_accept:
  "in_capabilities cx nwid revs dest es st = Inr (r, fr, e) \<Longrightarrow> r \<noteq> 0 \<Longrightarrow>
   \<exists>k c. (k, c) \<in> set es \<and> isCredentialTimestampValid (fx_nconf cx) revs CT_CAPABILITY (cap_id c) (cap_ts c) = Inr True
     \<and> rules_admit cx (cap_rules c) dest r"
proof (induction cx nwid revs dest es st rule: in_capabilities.induct)
  case (2 cx nwid revs dest k c es st)
  obtain valid where v: "isCredentialTimestampValid (fx_nconf cx) revs CT_CAPABILITY (cap_id c) (cap_ts c) = Inr valid"
    using "2.prems"(1) by (auto simp: bindE_eq_Inr)
  show ?case
  proof (cases valid)
    case False
    then show ?thesis using "2.IH"(1) [OF False] "2.prems" v by (simp) blast
  next
    case True
    obtain res st' where f: "doZtFilter cx (cap_rules c) (fresh_args dest st) = Inr (res, st')"
      using "2.prems"(1) v True by (auto simp: bindE_eq_Inr)
    show ?thesis
    proof (cases "accept_code res = 0")
      case True
      then have "in_capabilities cx nwid revs dest es st' = Inr (r, fr, e)" using "2.prems"(1) v f \<open>valid\<close> by simp
      then show ?thesis using "2.IH"(2) \<open>valid\<close> True "2.prems"(2) by fastforce
    next
      case False
      then have "accept_code res = r" using "2.prems"(1) v f \<open>valid\<close> by (auto simp: bindE_eq_Inr)
      then have "admits r res" using accept_admits "2.prems"(2) by blast
      then have "rules_admit cx (cap_rules c) dest r" using f unfolding doZtFilter_start rules_admit_def by blast
      then show ?thesis using v \<open>valid\<close> by (intro exI [of _ k] exI [of _ c]) simp
    qed
  qed
qed simp


lemma entries_iff:
  assumes "ht_inv hc t"
  shows "(k, v) \<in> set (ht_entries t) \<longleftrightarrow> ht_get hc t k = Some v"
  proof -
  have "ht_entries t = concat (ht_t t)" using assms by (auto simp: ht_entries_def ht_inv_def)
  then show ?thesis using ht_get_iff [OF assms] by simp
qed

lemma incoming_authorised:
  assumes "filterIncomingPacket alloc self src dst ms md f et vl prng nw = Inr (r, sent, prng', nw')" "r \<noteq> 0"
    and "network_membership alloc src nw = Inr (m, nw1)" "nw_config nw1 = nw_config nw"
  defines "cx \<equiv> \<lparr>fx_self = self, fx_nconf = nw_config nw, fx_membership = Some m, fx_inbound = True, fx_ztSource = src,
              fx_macSource = ms, fx_macDest = md, fx_frame = f, fx_etherType = et, fx_vlanId = vl\<rparr>"
  shows "\<exists>res b. doZtFilter cx (nc_rules (nw_config nw)) (filter_start dst 255 prng) = Inr (res, b) \<and>
    (admits r res \<or> res = FILTER_NO_MATCH \<and> (\<exists>k c. (k, c) \<in> set (ht_entries (mb_remoteCaps m))
       \<and> isCredentialTimestampValid (nw_config nw) (mb_revocations m) CT_CAPABILITY (cap_id c) (cap_ts c) = Inr True
       \<and> rules_admit cx (cap_rules c) dst r))"
proof -
  have fin: "r' = r" if "in_finish cx d d' r' b fr nw1 = Inr (r, fr', n)" for d d' r' b fr fr' n
    using that assms(2) by (auto simp: in_finish_def bindE_eq_Inr split: if_splits)
  let ?st = "filter_start dst 255 prng"
  obtain res b where b: "doZtFilter cx (nc_rules (nw_config nw)) ?st = Inr (res, b)"
    and rest: "(case res of
        FILTER_DROP \<Rightarrow> Inr (0, [], fs_prng b, nw1)
      | FILTER_NO_MATCH \<Rightarrow>
          bindE (in_capabilities cx (nw_id nw1) (mb_revocations m) dst (ht_entries (mb_remoteCaps m)) b) (\<lambda>(accept, fr, e).
          bindE (in_finish cx dst (fs_ztDest e) accept b fr nw1) (\<lambda>(r, fr, nw). Inr (r, fr, fs_prng e, nw)))
      | _ \<Rightarrow>
          bindE (in_finish cx dst (fs_ztDest b) (accept_code res) b [] nw1) (\<lambda>(r, fr, nw). Inr (r, fr, fs_prng b, nw)))
      = Inr (r, sent, prng', nw')"
    using assms(1) unfolding filterIncomingPacket_def assms(3) bindE_Inr Let_def prod.case assms(4) cx_def [symmetric] filter_start_def [symmetric] bindE_eq_Inr
    by auto
  show ?thesis
  proof (cases "res = FILTER_NO_MATCH")
    case True
    then obtain a fr e n fr' where "in_capabilities cx (nw_id nw1) (mb_revocations m) dst (ht_entries (mb_remoteCaps m)) b = Inr (a, fr, e)"
      "in_finish cx dst (fs_ztDest e) a b fr nw1 = Inr (r, fr', n)"
      using rest by (auto simp: bindE_eq_Inr)
    then have "in_capabilities cx (nw_id nw1) (mb_revocations m) dst (ht_entries (mb_remoteCaps m)) b = Inr (r, fr, e)"
      using fin by blast
    from in_capabilities_accept [OF this assms(2)] show ?thesis using b True by (simp add: cx_def)
  next
    case False
    then have "accept_code res = r" using rest assms(2) fin [of dst "fs_ztDest b" "accept_code res" b "[]"]
      by (cases res) (auto simp: bindE_eq_Inr)
    then have "admits r res" using accept_admits assms(2) by blast
    then show ?thesis using b by (intro exI [of _ res] exI [of _ b]) simp
  qed
qed

lemma net_inv_fresh:
  assumes "ht_new alloc bc = Inr (nw_memberships nw)" "0 < bc"
  shows "net_inv env nw"
proof -
  have t: "nw_memberships nw = \<lparr>ht_t = replicate bc [], ht_bc = bc, ht_s = 0\<rparr>"
    using assms(1) by (auto simp: ht_new_def split: if_splits)
  show ?thesis using ht_new_inv [OF assms(2)] assms(2) unfolding net_inv_def t by (simp add: ht_get_def)
qed

text \<open>C2: in every state a network can reach from its creation, whatever credentials and packets arrive, the record of a member
  holds only credentials that pass verification, are for this network and are issued to that member.\<close>

theorem network_members_authentic:
  assumes "ht_new alloc bc = Inr (nw_memberships nw0)" "0 < bc" "(nw_step env)\<^sup>*\<^sup>* nw0 nw"
  shows "net_inv env nw"
  using net_inv_steps [OF assms(3) net_inv_fresh [OF assms(1,2)]] .

text \<open>C1: a frame received from a member for a destination is let in only when the network's own rules, evaluated for that destination, accept it, or when they do not match and the rules of a capability,
  evaluated for the same destination, accept it; the capability passes verification, is for this network and issued to the sender, and is neither expired nor revoked. The answer 1 means accept or redirect, 2 super-accept.
  The random generator is where the call found it for the network's rules, and where earlier capabilities left it for those of a capability.\<close>

theorem incoming_needs_authorisation:
  assumes "net_inv env nw" "filterIncomingPacket alloc self src dst ms md f et vl prng nw = Inr (r, sent, prng', nw')" "r \<noteq> 0"
  shows "\<exists>m res b. ht_get address_hashCode (nw_memberships nw') src = Some m \<and>
    (let cx = \<lparr>fx_self = self, fx_nconf = nw_config nw, fx_membership = Some m, fx_inbound = True, fx_ztSource = src,
              fx_macSource = ms, fx_macDest = md, fx_frame = f, fx_etherType = et, fx_vlanId = vl\<rparr> in
     doZtFilter cx (nc_rules (nw_config nw)) (filter_start dst 255 prng) = Inr (res, b) \<and>
     (admits r res \<or> res = FILTER_NO_MATCH \<and>
       (\<exists>c. cap_verify (ce_sizeof_cap env) (ce_identity env) c = Inr VerifyOK \<and> cap_nwid c = nw_id nw \<and> cap_issuedTo c = src
         \<and> isCredentialTimestampValid (nw_config nw) (mb_revocations m) CT_CAPABILITY (cap_id c) (cap_ts c) = Inr True
         \<and> rules_admit cx (cap_rules c) dst r)))"
proof -
  obtain m nw1 where m: "network_membership alloc src nw = Inr (m, nw1)" "nw_memberships nw' = nw_memberships nw1"
    using filterIncoming_nw [OF assms(2)] by blast
  note 1 = network_membership_inv [OF assms(1) m(1)]
  then have mi: "member_inv env (nw_id nw) src m" by (metis net_inv_def)
  then have t: "table_ok cap_id (cap_verify (ce_sizeof_cap env) (ce_identity env)) (mb_remoteCaps m)"
    by (simp add: member_inv_def mb_inv_def)
  then have "ht_inv hc_u32 (mb_remoteCaps m)" by (simp add: table_ok_def)
  note e = entries_iff [OF this]
  have c: "cap_verify (ce_sizeof_cap env) (ce_identity env) c = Inr VerifyOK \<and> cap_nwid c = nw_id nw \<and> cap_issuedTo c = src"
    if "(k, c) \<in> set (ht_entries (mb_remoteCaps m))" for k c
    using that mi t unfolding e by (auto simp: member_inv_def table_ok_def)
  show ?thesis
    using incoming_authorised [OF assms(2,3) m(1)] 1 m(2) c unfolding Let_def by metis
qed


lemma store_member:
  "ht_get address_hashCode \<lparr>ht_t = [[], [], [], []], ht_bc = 4, ht_s = 0\<rparr> 1 = None"
  "snd (ht_index address_hashCode (\<lambda>_. True) d 1 \<lparr>ht_t = [[], [], [], []], ht_bc = 4, ht_s = 0\<rparr>)
     = \<lparr>ht_t = [[], [(1, d)], [], []], ht_bc = 4, ht_s = Suc 0\<rparr>"
  "ht_set address_hashCode (\<lambda>_. True) 1 v \<lparr>ht_t = [[], [(1, d)], [], []], ht_bc = 4, ht_s = Suc 0\<rparr>
     = \<lparr>ht_t = [[], [(1, v)], [], []], ht_bc = 4, ht_s = Suc 0\<rparr>"
  by (simp_all add: ht_index_def ht_insert_new_def ht_set_def ht_get_def Let_def address_hashCode_def)

lemma add_tag_mb0: "addCredential_tag env1 (tag1 6) mb0
    = Inr (ADD_ACCEPTED_NEW, mb0\<lparr>mb_remoteTags := \<lparr>ht_t = [[], [], [], [(7, tag1 6)]], ht_bc = 4, ht_s = Suc 0\<rparr>\<rparr>)"
proof -
  have "ht_get hc_u64 \<lparr>ht_t = [[], [], [], []], ht_bc = 4, ht_s = 0\<rparr> 0x300000007 = (None :: u64 option)"
    by (simp add: ht_eval)
  then show ?thesis
    unfolding addCredential_tag_def addCredImpl_def tag1_sel key7 verify_tag1 by (simp add: mb0_def store7)
qed

lemma tag1_ids [simp]: "tag_networkId (tag1 ts) = 0x1000000" "tag_issuedTo (tag1 ts) = 1"
  by (simp_all add: tag1_def tag_new_def)

lemma add_tag_w0: "network_addCredential_tag env1 (tag1 6) net_w0 = Inr (ADD_ACCEPTED_NEW, net_w1)"
  by (simp add: network_addCredential_tag_def with_member_def network_membership_def set_membership_def net_w0_def net_w1_def store_member
      new_mb0 add_tag_mb0)

lemma fresh_w0: "ht_new (\<lambda>_. True) 4 = Inr (nw_memberships net_w0)"
  by (simp add: ht_new_def net_w0_def eval_nat_numeral)

theorem network_members_authentic_witness:
  "net_inv env1 net_w1 \<and> (\<exists>m. ht_get address_hashCode (nw_memberships net_w1) 1 = Some m \<and> ht_get hc_u32 (mb_remoteTags m) 7 = Some (tag1 6))"
proof -
  have "(nw_step env1)\<^sup>*\<^sup>* net_w0 net_w1" using nw_tag [OF knows_env1 add_tag_w0] by blast
  then have "net_inv env1 net_w1" using network_members_authentic [OF fresh_w0] by simp
  then show ?thesis by (simp add: net_w1_def ht_get_def address_hashCode_def hc_u32_def)
qed

lemma net_inv_nw1: "net_inv env1 net_w1"
  using net_inv_step [OF nw_tag [OF knows_env1 add_tag_w0]] net_inv_fresh [OF fresh_w0] by simp

lemma filter_nw1:
  "filterIncomingPacket (\<lambda>_. True) 9 1 2 5 6 [1, 2] 0x800 0 (1, 2) net_w1 = Inr (1, [], (1, 2), net_w1\<lparr>nw_incoming_accepted := 1\<rparr>)"
  by (simp add: filterIncomingPacket_def network_membership_def net_w1_def net_w0_def ht_get_def address_hashCode_def doZtFilter_def
      rule0_def rule_type_def take_action_def in_finish_def send_if_def accept_code_def)

theorem incoming_needs_authorisation_witness:
  "\<exists>m res b. ht_get address_hashCode (nw_memberships net_w1) 1 = Some m \<and>
    doZtFilter \<lparr>fx_self = 9, fx_nconf = nw_config net_w1, fx_membership = Some m, fx_inbound = True, fx_ztSource = 1,
              fx_macSource = 5, fx_macDest = 6, fx_frame = [1, 2], fx_etherType = 0x800, fx_vlanId = 0\<rparr>
      (nc_rules (nw_config net_w1)) (filter_start 2 255 (1, 2)) = Inr (res, b) \<and> (res = FILTER_ACCEPT \<or> res = FILTER_REDIRECT \<or> res = FILTER_NO_MATCH)"
proof -
  have "nw_memberships (net_w1\<lparr>nw_incoming_accepted := 1\<rparr>) = nw_memberships net_w1" by simp
  then show ?thesis using incoming_needs_authorisation [OF net_inv_nw1 filter_nw1 one_neq_zero] unfolding Let_def admits_def by auto
qed

section \<open>Bridge routes stay bounded\<close>

lemma count_routes_max:
  assumes "ht_inv address_hashCode counts" "\<forall>b. (case ht_get address_hashCode counts b of None \<Rightarrow> 0 | Some c \<Rightarrow> c) = of_nat (cnt b)"
    and "maxCount = of_nat (cnt maxAddr)" "\<forall>b. cnt b \<le> cnt maxAddr" "\<forall>b. cnt b + length es < 2 ^ 32"
  shows "cnt b + count_list (map snd es) b \<le> cnt (count_routes alloc es counts maxAddr maxCount)
      + count_list (map snd es) (count_routes alloc es counts maxAddr maxCount)"
  using assms
proof (induction es arbitrary: counts maxAddr maxCount cnt)
  case (Cons e es)
  obtain m a where e: "e = (m, a)" by force
  obtain c0 counts1 where c0: "ht_index address_hashCode alloc 0 a counts = (c0, counts1)" by force
  define counts2 where "counts2 = ht_set address_hashCode alloc a (c0 + 1) counts1"
  define cnt' where "cnt' = cnt(a := Suc (cnt a))"
  have i: "ht_inv address_hashCode counts1" "c0 = of_nat (cnt a)"
      "(ht_get address_hashCode counts1)(a \<mapsto> v) = (ht_get address_hashCode counts)(a \<mapsto> v)" for v
    using ht_index_spec [OF Cons.prems(1), of alloc 0 a] c0 Cons.prems(2) [rule_format, of a] by (auto split: option.splits)
  have 2: "ht_inv address_hashCode counts2" "ht_get address_hashCode counts2 = (ht_get address_hashCode counts)(a \<mapsto> c0 + 1)"
    using ht_set_spec [OF i(1), of alloc a "c0 + 1"] i(3) by (auto simp: counts2_def)
  have get: "\<forall>b. (case ht_get address_hashCode counts2 b of None \<Rightarrow> 0 | Some c \<Rightarrow> c) = of_nat (cnt' b)"
    using Cons.prems(2) i(2) by (auto simp: 2(2) cnt'_def)
  have small: "cnt b < 2 ^ 32" "Suc (cnt b) < 2 ^ 32" "cnt' b + length es < 2 ^ 32" for b
    using Cons.prems(5) [rule_format, of b] by (auto simp: cnt'_def)
  have gt: "c0 + 1 > maxCount \<longleftrightarrow> Suc (cnt a) > cnt maxAddr"
  proof -
    have "c0 + 1 = of_nat (Suc (cnt a))" using i(2) by simp
    then have "unat (c0 + 1) = Suc (cnt a)" "unat maxCount = cnt maxAddr"
      using small(2) [of a] small(1) [of maxAddr] Cons.prems(3) by (simp_all only: unat_of_nat) simp_all
    then show ?thesis by (simp add: word_less_nat_alt)
  qed
  let ?r = "count_routes alloc ((m, a) # es) counts maxAddr maxCount"
  have step: "cnt' b + count_list (map snd es) b \<le> cnt' ?r + count_list (map snd es) ?r"
  proof (cases "c0 + 1 > maxCount")
    case True
    then have "\<forall>b. cnt' b \<le> cnt' a" "c0 + 1 = of_nat (cnt' a)" using gt Cons.prems(4) i(2) by (auto simp: cnt'_def le_Suc_eq intro: le_SucI order_trans)
    from Cons.IH [OF 2(1) get this(2,1), of] small(3) True show ?thesis by (simp add: c0 counts2_def [symmetric] Let_def)
  next
    case False
    then have "maxAddr \<noteq> a" using gt by auto
    then have "\<forall>b. cnt' b \<le> cnt' maxAddr" "maxCount = of_nat (cnt' maxAddr)" using False gt Cons.prems(3,4) by (auto simp: cnt'_def)
    from Cons.IH [OF 2(1) get this(2,1)] small(3) False show ?thesis by (simp add: c0 counts2_def [symmetric] Let_def)
  qed
  have "cnt' x + count_list (map snd es) x = cnt x + count_list (map snd ((m, a) # es)) x" for x by (auto simp: cnt'_def)
  then show ?case using step unfolding e by metis
qed simp

lemma count_list_filter: "count_list (map snd es) b = length (filter (\<lambda>x. snd x = b) es)"
  by (induction es) auto

lemma count_entries:
  assumes "ht_inv hc t"
  shows "count_list (map snd (ht_entries t)) b = card {k. ht_get hc t k = Some b}"
proof -
  have e: "ht_entries t = concat (ht_t t)" using assms by (auto simp: ht_entries_def ht_inv_def)
  let ?es = "filter (\<lambda>x. snd x = b) (concat (ht_t t))"
  have "count_list (map snd (ht_entries t)) b = length ?es"
    unfolding e by (rule count_list_filter)
  also have "\<dots> = card (fst ` set ?es)"
    using ht_distinct [OF assms] by (metis distinct_card distinct_map_filter length_map set_map)
  also have "fst ` set ?es = {k. ht_get hc t k = Some b}" using ht_get_iff [OF assms] by force
  finally show ?thesis .
qed

lemma ht_get_new: "0 < bc \<Longrightarrow> ht_get hc \<lparr>ht_t = replicate bc [], ht_bc = bc, ht_s = 0\<rparr> k = None"
  by (simp add: ht_get_def)

lemma kill_spammer_spec:
  assumes "ht_inv mac_hashCode t" "alloc 64" "ht_size t < 2 ^ 32"
  shows "\<exists>t' a. kill_spammer alloc t = Some (Inr t') \<and> ht_inv mac_hashCode t'
    \<and> (\<forall>b. card {k. ht_get mac_hashCode t k = Some b} \<le> card {k. ht_get mac_hashCode t k = Some a})
    \<and> ht_get mac_hashCode t' = (\<lambda>k. if ht_get mac_hashCode t k = Some a then None else ht_get mac_hashCode t k)"
proof -
  let ?c0 = "\<lparr>ht_t = replicate 64 [], ht_bc = 64, ht_s = 0\<rparr> :: (address, u32) hashtable"
  define a where "a = count_routes alloc (ht_entries t) ?c0 0 0"
  have e: "ht_entries t = concat (ht_t t)" "length (ht_entries t) = ht_size t"
    using assms(1) by (auto simp: ht_entries_def ht_inv_def ht_size_def)
  have c0: "ht_inv address_hashCode ?c0" "ht_get address_hashCode ?c0 b = None" for b
    by (rule ht_new_inv, simp) (rule ht_get_new, simp)
  have max: "count_list (map snd (ht_entries t)) b \<le> count_list (map snd (ht_entries t)) a" for b
    using count_routes_max [OF c0(1), of "\<lambda>_. 0" 0 0 "ht_entries t" b alloc] assms(3) c0(2) e(2) by (simp add: a_def)
  have len: "length (ht_t t) = ht_bc t" "0 < ht_bc t" using assms(1) by (auto simp: ht_inv_def)
  then obtain c cs where c: "ht_t t = c # cs" by (cases "ht_t t") auto
  have rest: "it_rest t (ht_iterator t) = concat (ht_t t)" by (simp add: it_rest_def ht_iterator_def c)
  have g: "(k, v) \<in> set (concat (ht_t t)) \<longleftrightarrow> ht_get mac_hashCode t k = Some v" for k v using ht_get_iff [OF assms(1)] by blast
  have all: "\<forall>(k, v) \<in> set (it_rest t (ht_iterator t)). ht_get mac_hashCode t k = Some v \<and> (\<exists>ok. (Inr (v \<noteq> a) :: bool result) = Inr ok)"
    unfolding rest using g by (auto simp del: set_concat)
  have d: "length (it_rest t (ht_iterator t)) < ht_size t + 1" "distinct (map fst (it_rest t (ht_iterator t)))"
    unfolding rest using ht_distinct [OF assms(1)] e by simp_all
  obtain t' where t': "clean_loop mac_hashCode (ht_size t + 1) (\<lambda>v. Inr (v \<noteq> a)) t (ht_iterator t) = Some (Inr t')" "ht_inv mac_hashCode t'"
    "ht_get mac_hashCode t' = (\<lambda>k. if \<exists>v. (k, v) \<in> set (concat (ht_t t)) \<and> (Inr (v \<noteq> a) :: bool result) = Inr False then None else ht_get mac_hashCode t k)"
    using clean_loop_spec [OF d(1) assms(1) d(2) all] unfolding rest by blast
  have "kill_spammer alloc t = Some (Inr t')"
    using t'(1) assms(2) unfolding kill_spammer_def ht_new_def a_def Let_def by (simp del: clean_loop.simps)
  moreover have "ht_get mac_hashCode t' = (\<lambda>k. if ht_get mac_hashCode t k = Some a then None else ht_get mac_hashCode t k)"
    unfolding t'(3) g by auto
  ultimately show ?thesis using t'(2) max unfolding count_entries [OF assms(1)] by blast
qed

lemma removed_size:
  assumes "finite (dom f)" "f k = Some b" "\<forall>b. card {k. f k = Some b} \<le> card {k. f k = Some a}"
  shows "card (dom (\<lambda>k. if f k = Some a then None else f k)) < card (dom f)"
proof -
  have fin: "finite {k. f k = Some b}" for b by (rule finite_subset [OF _ assms(1)]) auto
  have "0 < card {k. f k = Some b}" using assms(2) fin by (auto simp: card_gt_0_iff)
  then have "0 < card {k. f k = Some a}" using assms(3) [rule_format, of b] by linarith
  then obtain k where "f k = Some a" using fin by (auto simp: card_gt_0_iff)
  then have "dom (\<lambda>k. if f k = Some a then None else f k) \<subset> dom f" by (auto simp: dom_def)
  then show ?thesis using psubset_card_mono [OF assms(1)] by blast
qed

text \<open>C26: learning a bridge route keeps the table within its limit. Below the limit the route is just recorded; beyond it
  every route of one address is dropped, an address that holds the most routes, and one round of the loop is enough.\<close>

theorem learnBridgeRoute_bounded:
  fixes nw :: network and m :: mac and a :: address
  assumes "ht_inv mac_hashCode (nw_remoteBridgeRoutes nw)" "ht_size (nw_remoteBridgeRoutes nw) \<le> ZT_MAX_BRIDGE_ROUTES" "alloc 64"
  defines "routes \<equiv> (ht_get mac_hashCode (nw_remoteBridgeRoutes nw))(m \<mapsto> a)"
  shows "\<exists>t. learnBridgeRoute 2 alloc m a nw = Some (Inr (nw\<lparr>nw_remoteBridgeRoutes := t\<rparr>))
    \<and> ht_inv mac_hashCode t \<and> ht_size t \<le> ZT_MAX_BRIDGE_ROUTES
    \<and> (if card (dom routes) \<le> ZT_MAX_BRIDGE_ROUTES then ht_get mac_hashCode t = routes
       else \<exists>s. (\<forall>b. card {k. routes k = Some b} \<le> card {k. routes k = Some s})
              \<and> ht_get mac_hashCode t = (\<lambda>k. if routes k = Some s then None else routes k))"
proof -
  define t where "t = ht_set mac_hashCode alloc m a (snd (ht_index mac_hashCode alloc 0 m (nw_remoteBridgeRoutes nw)))"
  have t: "ht_inv mac_hashCode t" "ht_get mac_hashCode t = routes"
    using ht_index_spec [OF assms(1), of alloc 0 m] ht_set_spec [of mac_hashCode _ alloc m a]
    by (auto simp: t_def routes_def split: option.splits)
  note sz = ht_size_dom [OF t(1), unfolded t(2)]
  have "finite (dom (ht_get mac_hashCode (nw_remoteBridgeRoutes nw)))" using ht_size_dom [OF assms(1)] by blast
  then have le: "ht_size t \<le> ZT_MAX_BRIDGE_ROUTES + 1"
    using sz ht_size_dom [OF assms(1)] assms(2) card_insert_le_m1 [of "ZT_MAX_BRIDGE_ROUTES + 1"] by (auto simp: routes_def card_insert_if)
  have l: "learnBridgeRoute 2 alloc m a nw = map_option (\<lambda>r. bindE r (\<lambda>t. Inr (nw\<lparr>nw_remoteBridgeRoutes := t\<rparr>))) (bridge_breaker 2 alloc t)"
    by (simp add: learnBridgeRoute_def t_def Let_def)
  have two: "2 = Suc (Suc 0)" by simp
  show ?thesis
  proof (cases "ht_size t \<le> ZT_MAX_BRIDGE_ROUTES")
    case True
    then have "bridge_breaker 2 alloc t = Some (Inr t)" unfolding two by simp
    then show ?thesis using True t sz l by auto
  next
    case False
    have "ht_size t < 2 ^ 32" using le by simp
    from kill_spammer_spec [of t alloc, OF t(1) assms(3) this] obtain t' s where t': "kill_spammer alloc t = Some (Inr t')" "ht_inv mac_hashCode t'"
      "\<forall>b. card {k. routes k = Some b} \<le> card {k. routes k = Some s}"
      "ht_get mac_hashCode t' = (\<lambda>k. if routes k = Some s then None else routes k)" unfolding t(2) by blast
    have "ht_size t' < ht_size t"
      using removed_size [of routes m a s] t'(3) sz ht_size_dom [OF t'(2)] unfolding t'(4) by (simp add: routes_def)
    then have "ht_size t' \<le> ZT_MAX_BRIDGE_ROUTES" using le by linarith
    then have "bridge_breaker 2 alloc t = Some (Inr t')" using False t'(1) unfolding two by simp
    then show ?thesis using l t'(2,3,4) \<open>ht_size t' \<le> ZT_MAX_BRIDGE_ROUTES\<close> False sz by auto
  qed
qed

theorem learnBridgeRoute_bounded_witness:
  "\<exists>t. learnBridgeRoute 2 (\<lambda>_. True) 6 3 net_w0 = Some (Inr (net_w0\<lparr>nw_remoteBridgeRoutes := t\<rparr>))
     \<and> ht_get mac_hashCode t 6 = Some 3 \<and> ht_get mac_hashCode t 5 = Some 2"
proof -
  let ?t = "nw_remoteBridgeRoutes net_w0"
  have r: "?t = \<lparr>ht_t = [[], [(5, 2)]], ht_bc = 2, ht_s = 1\<rparr>" by (simp add: net_w0_def)
  have i: "ht_inv mac_hashCode ?t" unfolding r by (auto simp: ht_inv_def mac_hashCode_def nth_Cons' less_2_cases_iff)
  have s: "ht_size ?t = 1" "ht_get mac_hashCode ?t 5 = Some 2" unfolding r by (simp_all add: ht_size_def ht_get_def mac_hashCode_def)
  have "card (dom ((ht_get mac_hashCode ?t)(6 \<mapsto> 3))) \<le> 2" using ht_size_dom [OF i] s(1) by (simp add: card_insert_if)
  then have "card (dom ((ht_get mac_hashCode ?t)(6 \<mapsto> 3))) \<le> 67108864" by simp
  with learnBridgeRoute_bounded [OF i, of "\<lambda>_. True" 6 3] s show ?thesis by auto
qed

end
