(* ===== verification/ZT_ConfigUpdate.thy ===== *)
theory ZT_ConfigUpdate
  imports ZT_Network "HOL-Library.Multiset"
begin

text \<open>
  \<^verbatim>\<open>Network::setConfiguration\<close> and \<^verbatim>\<open>Network::handleConfigChunk\<close>: a controller sends a network's configuration as a dictionary cut
  into signed chunks. Three slots collect the chunks of updates under way; when a slot has as many bytes as the
  update announces, the dictionary is decoded and the configuration replaced. Decoding, \<open>NetworkConfig::fromDictionary\<close>, is
  a parameter, with \<open>None\<close> for a dictionary it refuses or an exception it throws.
\<close>

section \<open>Setting the configuration\<close>

text \<open>\<open>self\<close> is the address of this node, \<open>now\<close> the time and \<open>port\<close> the value the port configuration callback returns.\<close>

definition setConfiguration :: "address \<Rightarrow> u64 \<Rightarrow> int \<Rightarrow> networkconfig \<Rightarrow> network \<Rightarrow> nat \<times> network" where
  "setConfiguration self now port nconf nw =
    (if nw_destroyed nw then (0, nw)
     else if nc_issuedTo nconf \<noteq> self \<or> nc_networkId nconf \<noteq> nw_id nw then (0, nw)
     else if nw_config nw = nconf then (1, nw)
     else (2, nw\<lparr>nw_config := nconf, nw_lastConfigUpdate := now, nw_netconfFailure := NETCONF_FAILURE_NONE,
                nw_portInitialized := True, nw_portError := port\<rparr>))"

section \<open>Slots\<close>

text \<open>The chunk's own id is the exclusive or of the first two words of its signature, in memory order.\<close>

definition signature_chunk_id :: "bytes \<Rightarrow> u64" where
  "signature_chunk_id sig = foldl (\<lambda>cid i. cid XOR push_bit (8 * (i mod 8)) (ucast (sig ! i))) 0 [0..<16]"

text \<open>The search for the slot of an update: \<open>None\<close> when the chunk is a duplicate, otherwise the slot with this update or, if there is
  none, the one with the lowest \<open>ts\<close>. \<open>best\<close> is the pointer \<open>c\<close> with its \<open>ts\<close>.\<close>

definition older :: "nat \<Rightarrow> u64 \<Rightarrow> (nat \<times> u64) option \<Rightarrow> (nat \<times> u64) option" where
  "older i ts best = (case best of None \<Rightarrow> Some (i, ts) | Some (j, t) \<Rightarrow> if ts < t then Some (i, ts) else best)"

fun find_slot :: "u64 \<Rightarrow> u64 \<Rightarrow> config_chunk list \<Rightarrow> nat \<Rightarrow> (nat \<times> u64) option \<Rightarrow> nat option option" where
  "find_slot updateId chunkId [] i best = Some (map_option fst best)"
| "find_slot updateId chunkId (s # ss) i best =
    (if cc_updateId s = updateId then (if chunkId \<in> set (cc_haveChunkIds s) then None else Some (Some i))
     else find_slot updateId chunkId ss (i + 1) (older i (cc_ts s) best))"

fun oldest_slot :: "config_chunk list \<Rightarrow> nat \<Rightarrow> (nat \<times> u64) option \<Rightarrow> nat option" where
  "oldest_slot [] i best = map_option fst best"
| "oldest_slot (s # ss) i best = oldest_slot ss (i + 1) (older i (cc_ts s) best)"

text \<open>Storing a chunk in its slot; the result tells whether the update is complete. The capacity of the dictionary is the
  length of \<^const>\<open>cc_data\<close>.\<close>

definition max_update_chunks :: "config_chunk \<Rightarrow> nat" where
  "max_update_chunks c = length (cc_data c) div 1024 + 1"

definition slot_store :: "u64 \<Rightarrow> u64 \<Rightarrow> nat \<Rightarrow> bytes \<Rightarrow> nat \<Rightarrow> config_chunk \<Rightarrow> (config_chunk \<times> bool) result" where
  "slot_store updateId chunkId chunkIndex chunkData totalLength c =
    (let c = c\<lparr>cc_ts := cc_ts c + 1\<rparr>;
         c = (if cc_updateId c \<noteq> updateId then c\<lparr>cc_updateId := updateId, cc_haveChunkIds := [], cc_haveBytes := 0\<rparr> else c) in
     if length (cc_haveChunkIds c) \<ge> max_update_chunks c then Inr (c, False)
     else bindE (mem_write (cc_data c) chunkIndex chunkData) (\<lambda>d.
       let c = c\<lparr>cc_haveChunkIds := cc_haveChunkIds c @ [chunkId], cc_data := d,
                 cc_haveBytes := cc_haveBytes c + of_nat (length chunkData)\<rparr> in
       if unat (cc_haveBytes c) = totalLength then
         bindE (mem_write (cc_data c) (unat (cc_haveBytes c)) [0]) (\<lambda>d. Inr (c\<lparr>cc_data := d\<rparr>, True))
       else Inr (c, False)))"

section \<open>Receiving a chunk\<close>

record parsed_chunk =
  pc_slot :: nat
  pc_updateId :: u64
  pc_chunkId :: u64
  pc_chunkIndex :: nat
  pc_totalLength :: nat
  pc_forwarded :: bool

text \<open>The branch for a signed chunk, from the flags at \<open>ptr\<close>; \<open>None\<close> is \<open>return 0\<close>. The sum of index and length is an
  \<open>unsigned long\<close> of 32 bits.\<close>

definition signed_chunk :: "(address \<Rightarrow> verifier option) \<Rightarrow> buffer \<Rightarrow> nat \<Rightarrow> nat \<Rightarrow> nat \<Rightarrow> nat \<Rightarrow> network \<Rightarrow> parsed_chunk option result" where
  "signed_chunk getIdentity chunk start ptr chunkLen cap nw =
    bindE (rd_u8 chunk ptr) (\<lambda>(flags, ptr).
    bindE (rd 8 chunk ptr) (\<lambda>(configUpdateId :: u64, ptr).
    bindE (rd 4 chunk ptr) (\<lambda>(totalLength :: u32, ptr).
    bindE (rd 4 chunk ptr) (\<lambda>(chunkIndex :: u32, ptr).
      if uadd (unat chunkIndex) chunkLen > unat totalLength \<or> unat totalLength \<ge> cap then Inr None
      else bindE (buf_index chunk ptr) (\<lambda>one.
        if one \<noteq> 1 then Inr None
        else bindE (buf_at 2 chunk (ptr + 1)) (\<lambda>len :: u16.
          if len \<noteq> 96 then Inr None
          else bindE (buf_get chunk (ptr + 3) 96) (\<lambda>sig.
            let chunkId = signature_chunk_id sig in
            case find_slot configUpdateId chunkId (nw_incomingConfigChunks nw) 0 None of
              None \<Rightarrow> Inr None
            | Some None \<Rightarrow> Inl UndefinedBehaviour
            | Some (Some c) \<Rightarrow>
                (case getIdentity (network_controller nw) of
                   None \<Rightarrow> Inr None
                 | Some verify \<Rightarrow>
                     bindE (buf_get chunk start (ptr - start)) (\<lambda>data.
                       if \<not> verify data sig then Inr None
                       else Inr (Some \<lparr>pc_slot = c, pc_updateId = configUpdateId, pc_chunkId = chunkId,
                              pc_chunkIndex = unat chunkIndex, pc_totalLength = unat totalLength,
                              pc_forwarded = (flags AND 0x01 \<noteq> 0)\<rparr>))))))))))"

definition legacy_chunk :: "u64 \<Rightarrow> nat \<Rightarrow> nat \<Rightarrow> network \<Rightarrow> parsed_chunk option result" where
  "legacy_chunk packetId chunkLen cap nw =
    (if chunkLen \<ge> cap then Inr None
     else case oldest_slot (nw_incomingConfigChunks nw) 0 None of
       None \<Rightarrow> Inl UndefinedBehaviour
     | Some c \<Rightarrow> Inr (Some \<lparr>pc_slot = c, pc_updateId = packetId, pc_chunkId = packetId, pc_chunkIndex = 0,
                            pc_totalLength = chunkLen, pc_forwarded = False\<rparr>))"

text \<open>Everything after the chunk is accepted. The result is the returned id, the members the chunk is forwarded to and the new
  state.\<close>

definition accept_chunk :: "(bytes \<Rightarrow> networkconfig option) \<Rightarrow> address \<Rightarrow> u64 \<Rightarrow> int \<Rightarrow> address \<Rightarrow> bytes \<Rightarrow> parsed_chunk \<Rightarrow> network \<Rightarrow>
    (u64 \<times> address list \<times> network) result" where
  "accept_chunk fromDictionary self now port source chunkData p nw =
    (let fwd = (if pc_forwarded p then
           map fst (filter (\<lambda>(a, m). a \<noteq> source \<and> a \<noteq> network_controller nw) (ht_entries (nw_memberships nw))) else []) in
     bindE (slot_store (pc_updateId p) (pc_chunkId p) (pc_chunkIndex p) chunkData (pc_totalLength p)
              (nw_incomingConfigChunks nw ! pc_slot p)) (\<lambda>(c, complete).
       let nw = nw\<lparr>nw_incomingConfigChunks := (nw_incomingConfigChunks nw)[pc_slot p := c]\<rparr> in
       if complete then
         (case fromDictionary (cc_data c) of
            None \<Rightarrow> Inr (0, fwd, nw)
          | Some nc \<Rightarrow> Inr (pc_updateId p, fwd, snd (setConfiguration self now port nc nw)))
       else Inr (0, fwd, nw)))"

definition handleConfigChunk :: "(address \<Rightarrow> verifier option) \<Rightarrow> (bytes \<Rightarrow> networkconfig option) \<Rightarrow> address \<Rightarrow> u64 \<Rightarrow> int \<Rightarrow> nat \<Rightarrow>
    u64 \<Rightarrow> address \<Rightarrow> buffer \<Rightarrow> nat \<Rightarrow> network \<Rightarrow> (u64 \<times> address list \<times> network) result" where
  "handleConfigChunk getIdentity fromDictionary self now port cap packetId source chunk ptr nw =
    (if nw_destroyed nw then Inr (0, [], nw)
     else
       let start = ptr in
       bindE (rd 2 chunk (ptr + 8)) (\<lambda>(chunkLen :: u16, ptr).
       bindE (rd_bytes (unat chunkLen) chunk ptr) (\<lambda>(chunkData, ptr).
       bindE (if ptr < buf_size chunk then signed_chunk getIdentity chunk start ptr (unat chunkLen) cap nw
              else if source = network_controller nw \<or> source = 0 then legacy_chunk packetId (unat chunkLen) cap nw
              else Inr None) (\<lambda>p.
         case p of
           None \<Rightarrow> Inr (0, [], nw)
         | Some p \<Rightarrow> accept_chunk fromDictionary self now port source chunkData p nw))))"

section \<open>Runs of chunks\<close>

text \<open>The chunks of a dictionary cut into pieces, with their offsets, and storing a list of chunks with their ids one after
  another; the results tell which of them completed the update.\<close>

fun layout :: "nat \<Rightarrow> bytes list \<Rightarrow> (nat \<times> bytes) list" where
  "layout o1 [] = []"
| "layout o1 (p # ps) = (o1, p) # layout (o1 + length p) ps"

fun slot_run :: "u64 \<Rightarrow> nat \<Rightarrow> (u64 \<times> nat \<times> bytes) list \<Rightarrow> config_chunk \<Rightarrow> (config_chunk \<times> bool list) result" where
  "slot_run updateId n [] c = Inr (c, [])"
| "slot_run updateId n ((i, o1, p) # cs) c =
    bindE (slot_store updateId i o1 p n c) (\<lambda>(c', done).
    bindE (slot_run updateId n cs c') (\<lambda>(c'', ds). Inr (c'', done # ds)))"

text \<open>A piece is consistent with the whole when it is what the whole has at its offset.\<close>

definition piece_of :: "bytes \<Rightarrow> nat \<times> bytes \<Rightarrow> bool" where
  "piece_of full x \<longleftrightarrow> fst x + length (snd x) \<le> length full \<and> take (length (snd x)) (drop (fst x) full) = snd x"

text \<open>Bytes of the slot that agree with the whole.\<close>

definition agree :: "bytes \<Rightarrow> bytes \<Rightarrow> (nat \<times> bytes) set \<Rightarrow> bool" where
  "agree full d X \<longleftrightarrow> length full < length d \<and> (\<forall>x \<in> X. piece_of full x \<and> (\<forall>i. fst x \<le> i \<and> i < fst x + length (snd x) \<longrightarrow> d ! i = full ! i))"

definition net_w2 :: network where
  "net_w2 = net_w0\<lparr>nw_incomingConfigChunks := [\<lparr>cc_ts = 0, cc_updateId = 0, cc_haveChunkIds = [], cc_haveBytes = 0, cc_data = [0, 0, 0, 0]\<rparr>]\<rparr>"

section \<open>Chunks arriving in any order\<close>

lemma layout_pieces:
  "x \<in> set (layout (length pre) ps) \<Longrightarrow> piece_of (pre @ concat ps @ post) x"
proof (induction ps arbitrary: pre)
  case (Cons p ps)
  show ?case
  proof (cases "x = (length pre, p)")
    case True
    then show ?thesis by (simp add: piece_of_def)
  next
    case False
    then have "x \<in> set (layout (length (pre @ p)) ps)" using Cons.prems by simp
    from Cons.IH [OF this] show ?thesis by simp
  qed
qed simp

lemma layout_cover:
  "o1 \<le> i \<Longrightarrow> i < o1 + length (concat ps) \<Longrightarrow> \<exists>x \<in> set (layout o1 ps). fst x \<le> i \<and> i < fst x + length (snd x)"
proof (induction ps arbitrary: o1)
  case (Cons p ps)
  then show ?case using Cons.IH [of "o1 + length p"] by (cases "i < o1 + length p") auto
qed simp

lemma layout_sum: "sum_list (map (\<lambda>x. length (snd x)) (layout o1 ps)) = length (concat ps)"
  by (induction ps arbitrary: o1) auto

lemma layout_snd: "map snd (layout o1 ps) = ps"
  by (induction ps arbitrary: o1) auto

lemma agree_write:
  assumes "agree full d X" "piece_of full (o1, p)"
  shows "\<exists>d'. mem_write d o1 p = Inr d' \<and> length d' = length d \<and> agree full d' (insert (o1, p) X)"
proof -
  have l: "o1 + length p \<le> length full" "length full < length d" using assms by (auto simp: piece_of_def agree_def)
  define d' where "d' = take o1 d @ p @ drop (o1 + length p) d"
  have n: "d' ! i = (if o1 \<le> i \<and> i < o1 + length p then full ! i else d ! i)" if "i < length d" for i
  proof -
    have "p ! (i - o1) = full ! i" if "o1 \<le> i" "i < o1 + length p"
    proof -
      have "p ! (i - o1) = take (length p) (drop o1 full) ! (i - o1)" using assms(2) by (simp add: piece_of_def)
      then show ?thesis using that l by simp
    qed
    then show ?thesis using l that by (auto simp: d'_def nth_append)
  qed
  have "\<forall>x \<in> X. \<forall>i. fst x \<le> i \<and> i < fst x + length (snd x) \<longrightarrow> d' ! i = full ! i"
  proof (intro ballI allI impI)
    fix x i assume x: "x \<in> X" "fst x \<le> i \<and> i < fst x + length (snd x)"
    then have "d ! i = full ! i" using assms(1) by (auto simp: agree_def)
    moreover have "i < length d" using assms(1) x by (auto simp: agree_def piece_of_def)
    ultimately show "d' ! i = full ! i" using n [of i] by simp
  qed
  moreover have "\<forall>i. o1 \<le> i \<and> i < o1 + length p \<longrightarrow> d' ! i = full ! i" using n l by simp
  moreover have "length d' = length d" using l by (simp add: d'_def)
  ultimately have "agree full d' (insert (o1, p) X)" using assms l(2) by (auto simp: agree_def)
  then show ?thesis using l \<open>length d' = length d\<close> by (intro exI [of _ d']) (auto simp: mem_write_def d'_def)
qed

lemma slot_run_spec:
  assumes "agree full (cc_data c) X" "cc_updateId c = upd" "unat (cc_haveBytes c) + sum_list (map (\<lambda>x. length (snd (snd x))) cs) = length full"
    and "\<forall>x \<in> set cs. piece_of full (snd x) \<and> snd (snd x) \<noteq> []" "length (cc_haveChunkIds c) + length cs \<le> max_update_chunks c"
    and "length full < 2 ^ 32" "cs \<noteq> []"
  shows "\<exists>c'. slot_run upd (length full) cs c = Inr (c', replicate (length cs - 1) False @ [True])
    \<and> agree full (cc_data c') (X \<union> snd ` set cs) \<and> cc_data c' ! length full = 0
    \<and> cc_haveChunkIds c' = cc_haveChunkIds c @ map fst cs \<and> cc_updateId c' = upd \<and> length (cc_data c') = length (cc_data c)"
  using assms
proof (induction cs arbitrary: c X)
  case (Cons x cs)
  obtain i o1 p where x: "x = (i, o1, p)" by (cases x) auto
  obtain d where d: "mem_write (cc_data c) o1 p = Inr d" "length d = length (cc_data c)" "agree full d (insert (o1, p) X)"
    using agree_write [OF Cons.prems(1), of o1 p] Cons.prems(4) x by auto
  define c1 where "c1 = c\<lparr>cc_ts := cc_ts c + 1, cc_haveChunkIds := cc_haveChunkIds c @ [i], cc_data := d,
      cc_haveBytes := cc_haveBytes c + of_nat (length p)\<rparr>"
  have len: "unat (cc_haveBytes c) + length p \<le> length full" using Cons.prems(3) x by simp
  have "unat (of_nat (length p) :: u32) = length p" using len Cons.prems(6) by (simp add: unat_of_nat)
  then have hb: "unat (cc_haveBytes c1) = unat (cc_haveBytes c) + length p"
    using len Cons.prems(6) by (simp add: c1_def unat_word_ariths)
  have room: "\<not> length (cc_haveChunkIds c) \<ge> max_update_chunks c" using Cons.prems(5) by simp
  have st: "slot_store upd i o1 p (length full) c =
      (if unat (cc_haveBytes c1) = length full then bindE (mem_write d (length full) [0]) (\<lambda>d. Inr (c1\<lparr>cc_data := d\<rparr>, True)) else Inr (c1, False))"
    using room Cons.prems(2) d(1) by (simp add: slot_store_def Let_def max_update_chunks_def c1_def)
  show ?case
  proof (cases "cs = []")
    case True
    have full: "unat (cc_haveBytes c1) = length full" using Cons.prems(3) hb True x by simp
    have lt: "length full < length d" using d(3) by (simp add: agree_def)
    let ?d = "d[length full := 0]"
    have "mem_write d (length full) [0] = Inr ?d" using lt by (simp add: mem_write_def upd_conv_take_nth_drop)
    moreover have "agree full ?d (insert (o1, p) X)"
      using d(3) lt by (auto simp: agree_def piece_of_def nth_list_update)
    ultimately show ?thesis using True full st lt d(2) Cons.prems(2) unfolding x by (auto simp: c1_def)
  next
    case False
    then obtain y ys where "cs = y # ys" by (cases cs) auto
    then have "0 < sum_list (map (\<lambda>x. length (snd (snd x))) cs)" using Cons.prems(4) by auto
    then have nf: "unat (cc_haveBytes c1) \<noteq> length full" using Cons.prems(3) hb x by simp
    have 1: "agree full (cc_data c1) (insert (o1, p) X)" "cc_updateId c1 = upd" "length (cc_haveChunkIds c1) + length cs \<le> max_update_chunks c1"
      using d Cons.prems(2,5) by (simp_all add: c1_def max_update_chunks_def)
    have 2: "unat (cc_haveBytes c1) + sum_list (map (\<lambda>x. length (snd (snd x))) cs) = length full" using Cons.prems(3) hb x by simp
    have 3: "\<forall>x \<in> set cs. piece_of full (snd x) \<and> snd (snd x) \<noteq> []" using Cons.prems(4) by simp
    obtain c' where c': "slot_run upd (length full) cs c1 = Inr (c', replicate (length cs - 1) False @ [True])"
      "agree full (cc_data c') (insert (o1, p) X \<union> snd ` set cs)" "cc_data c' ! length full = 0"
      "cc_haveChunkIds c' = cc_haveChunkIds c1 @ map fst cs" "cc_updateId c' = upd" "length (cc_data c') = length (cc_data c1)"
      using Cons.IH [OF 1(1,2) 2 3 1(3) Cons.prems(6) False] by blast
    have "replicate (length cs) False = False # replicate (length cs - 1) False" using False by (cases cs) auto
    then show ?thesis using c' nf st d(2) unfolding x by (auto simp: c1_def)
  qed
qed simp

text \<open>C19: the chunks of a configuration update may arrive in any order: when all pieces of a dictionary have arrived in a slot that is new to
  the update, exactly the last one completes it, and the slot then holds the whole dictionary, terminated by a zero byte.\<close>

theorem config_reassembly:
  assumes "length (concat ps) < length (cc_data c)" "length (cc_data c) < 2 ^ 32" "ps \<noteq> []" "[] \<notin> set ps"
    and "length ps \<le> max_update_chunks c" "cc_updateId c \<noteq> upd" "mset (map snd cs) = mset (layout 0 ps)"
  shows "\<exists>c'. slot_run upd (length (concat ps)) cs c = Inr (c', replicate (length ps - 1) False @ [True])
    \<and> take (length (concat ps)) (cc_data c') = concat ps \<and> cc_data c' ! length (concat ps) = 0"
proof -
  define c0 where "c0 = c\<lparr>cc_updateId := upd, cc_haveChunkIds := [], cc_haveBytes := 0\<rparr>"
  have set_cs: "snd ` set cs = set (layout 0 ps)" using arg_cong [OF assms(7), of set_mset] by simp
  have n: "length cs = length ps" using arg_cong [OF assms(7), of size] layout_snd [of 0 ps] by (metis length_map size_mset)
  have sum: "sum_list (map (\<lambda>x. length (snd (snd x))) cs) = length (concat ps)"
  proof -
    let ?f = "\<lambda>x :: nat \<times> bytes. length (snd x)"
    have "sum_mset (image_mset ?f (mset (map snd cs))) = sum_mset (image_mset ?f (mset (layout 0 ps)))" by (simp only: assms(7))
    then have "sum_list (map ?f (map snd cs)) = sum_list (map ?f (layout 0 ps))" by (simp only: mset_map [symmetric] sum_mset_sum_list)
    then show ?thesis by (simp add: layout_sum comp_def)
  qed
  have pieces: "\<forall>x \<in> set cs. piece_of (concat ps) (snd x) \<and> snd (snd x) \<noteq> []"
  proof
    fix x assume "x \<in> set cs"
    then have x: "snd x \<in> set (layout (length []) ps)" using set_cs by auto
    then have "snd (snd x) \<in> set ps" using layout_snd [of 0 ps] by (metis image_eqI list.set_map list.size(3))
    then show "piece_of (concat ps) (snd x) \<and> snd (snd x) \<noteq> []" using layout_pieces [OF x, of "[]"] assms(4) by auto
  qed
  have "cs \<noteq> []" using n assms(3) by auto
  have same: "slot_run upd (length (concat ps)) cs c = slot_run upd (length (concat ps)) cs c0"
    using \<open>cs \<noteq> []\<close> assms(6) by (cases c; cases cs) (auto simp: slot_store_def c0_def max_update_chunks_def)
  obtain c' where c': "slot_run upd (length (concat ps)) cs c0 = Inr (c', replicate (length cs - 1) False @ [True])"
    "agree (concat ps) (cc_data c') (snd ` set cs)" "cc_data c' ! length (concat ps) = 0"
    using slot_run_spec [of "concat ps" c0 "{}" upd cs] assms(1,2,5) sum pieces n \<open>cs \<noteq> []\<close>
    by (auto simp: c0_def agree_def max_update_chunks_def)
  have "cc_data c' ! i = concat ps ! i" if "i < length (concat ps)" for i
    using layout_cover [of 0 i ps] that c'(2) unfolding set_cs agree_def by fastforce
  then have "take (length (concat ps)) (cc_data c') = concat ps"
    using c'(2) by (intro nth_equalityI) (auto simp: agree_def)
  then show ?thesis using c' same n by auto
qed

theorem config_reassembly_witness:
  "\<exists>c'. slot_run 5 3 [(8, 2, [7]), (9, 0, [5, 6])] \<lparr>cc_ts = 0, cc_updateId = 0, cc_haveChunkIds = [], cc_haveBytes = 0, cc_data = replicate 2048 0\<rparr>
      = Inr (c', [False, True]) \<and> take 3 (cc_data c') = [5, 6, 7]"
proof -
  let ?c = "\<lparr>cc_ts = 0, cc_updateId = 0, cc_haveChunkIds = [], cc_haveBytes = 0, cc_data = replicate 2048 0\<rparr>"
  have m: "mset (map snd [(8, 2, [7 :: u8]), (9 :: u64, 0, [5, 6])]) = mset (layout 0 [[5, 6], [7]])" by (simp add: numeral_2_eq_2)
  have l: "length (concat [[5, 6], [7 :: u8]]) = 3" "replicate (length [[5, 6], [7 :: u8]] - 1) False @ [True] = [False, True]"
    "concat [[5, 6], [7 :: u8]] = [5, 6, 7]" by simp_all
  have "\<exists>c'. slot_run 5 3 [(8, 2, [7]), (9, 0, [5, 6])] ?c = Inr (c', [False, True]) \<and> take 3 (cc_data c') = [5, 6, 7] \<and> cc_data c' ! 3 = 0"
    using config_reassembly [OF _ _ _ _ _ _ m, of ?c 5, unfolded l] by (simp add: max_update_chunks_def numeral_3_eq_3 [symmetric] del: slot_run.simps)
  then show ?thesis by blast
qed

section \<open>Who may change the configuration\<close>

lemma signed_chunk_verified:
  assumes "signed_chunk gi chunk start ptr len cap nw = Inr (Some p)"
  shows "\<exists>vf data sig. gi (network_controller nw) = Some vf \<and> buf_get chunk start (ptr + 17 - start) = Inr data
    \<and> buf_get chunk (ptr + 20) 96 = Inr sig \<and> vf data sig"
  using assms unfolding signed_chunk_def rd_def rd_u8_def Let_def
  by (clarsimp simp: bindE_eq_Inr split: if_split_asm) (auto simp: bindE_eq_Inr add.commute [of ptr] split: option.split_asm if_split_asm)

lemma setConfiguration_config:
  assumes "nw_config (snd (setConfiguration self now port nc nw)) \<noteq> nw_config nw"
  shows "nc_networkId (nw_config (snd (setConfiguration self now port nc nw))) = nw_id nw
    \<and> nc_issuedTo (nw_config (snd (setConfiguration self now port nc nw))) = self"
  using assms by (auto simp: setConfiguration_def split: if_splits)

lemma accept_chunk_config:
  assumes "accept_chunk fd self now port src data p nw = Inr (r, sent, nw')" "nw_config nw' \<noteq> nw_config nw"
  shows "nc_networkId (nw_config nw') = nw_id nw \<and> nc_issuedTo (nw_config nw') = self"
proof -
  obtain nc cs where "nw' = snd (setConfiguration self now port nc (nw\<lparr>nw_incomingConfigChunks := cs\<rparr>))"
    using assms by (auto simp: accept_chunk_def Let_def bindE_eq_Inr split: if_split_asm option.split_asm)
  then show ?thesis using setConfiguration_config [of self now port nc "nw\<lparr>nw_incomingConfigChunks := cs\<rparr>"] assms(2) by simp
qed

lemma handleConfigChunk_accepts:
  assumes "handleConfigChunk gi fd self now port cap pid src chunk ptr nw = Inr (r, sent, nw')" "nw' \<noteq> nw"
  shows "\<exists>len data p. buf_at 2 chunk (ptr + 8) = Inr (len :: u16) \<and> buf_get chunk (ptr + 10) (unat len) = Inr data
    \<and> (if ptr + 10 + unat len < buf_size chunk then signed_chunk gi chunk ptr (ptr + 10 + unat len) (unat len) cap nw
       else if src = network_controller nw \<or> src = 0 then legacy_chunk pid (unat len) cap nw else Inr None) = Inr (Some p)
    \<and> accept_chunk fd self now port src data p nw = Inr (r, sent, nw')"
proof -
  have "\<not> nw_destroyed nw" using assms by (auto simp: handleConfigChunk_def)
  obtain len :: u16 where len: "buf_at 2 chunk (ptr + 8) = Inr len"
    using assms(1) \<open>\<not> nw_destroyed nw\<close> by (auto simp: handleConfigChunk_def rd_def bindE_eq_Inr)
  obtain data where data: "buf_get chunk (ptr + 10) (unat len) = Inr data"
    using assms(1) \<open>\<not> nw_destroyed nw\<close> len by (auto simp: handleConfigChunk_def rd_def rd_bytes_def bindE_eq_Inr add.commute [of ptr 10])
  define q where "q = (if ptr + 10 + unat len < buf_size chunk then signed_chunk gi chunk ptr (ptr + 10 + unat len) (unat len) cap nw
       else if src = network_controller nw \<or> src = 0 then legacy_chunk pid (unat len) cap nw else Inr None)"
  have e: "ptr + 8 + 2 = ptr + 10" by simp
  have "bindE q (\<lambda>p. case p of None \<Rightarrow> Inr (0, [], nw) | Some p \<Rightarrow> accept_chunk fd self now port src data p nw) = Inr (r, sent, nw')"
    using assms(1) \<open>\<not> nw_destroyed nw\<close> unfolding handleConfigChunk_def rd_def rd_bytes_def len data Let_def bindE_Inr prod.case e q_def by simp
  then obtain p where "q = Inr (Some p)" "accept_chunk fd self now port src data p nw = Inr (r, sent, nw')"
    using assms(2) by (auto simp: bindE_eq_Inr split: option.split_asm)
  then show ?thesis using len data unfolding q_def by blast
qed

text \<open>C20: a received chunk changes the configuration of a network only to one that is for this network and this node. When anything follows the data in the chunk, the controller's identity must verify
  the 96 bytes behind the fields that follow as a signature over all before it but the signature's header: the network id, the data, the flags, the update id, the length and the position the chunk announces.
  A chunk that ends with its data, in the old format without a signature, must come from the controller or carry the nil source address with which a node on the controller itself is called.\<close>

theorem config_needs_controller:
  assumes "handleConfigChunk gi fd self now port cap pid src chunk ptr nw = Inr (r, sent, nw')" "nw_config nw' \<noteq> nw_config nw"
  shows "nc_networkId (nw_config nw') = nw_id nw \<and> nc_issuedTo (nw_config nw') = self
    \<and> (\<exists>len :: u16. buf_at 2 chunk (ptr + 8) = Inr len
        \<and> (if ptr + 10 + unat len < buf_size chunk
           then \<exists>vf data sig. gi (network_controller nw) = Some vf \<and> buf_get chunk ptr (unat len + 27) = Inr data
                  \<and> buf_get chunk (ptr + unat len + 30) 96 = Inr sig \<and> vf data sig
           else src = network_controller nw \<or> src = 0))"
proof -
  have "nw' \<noteq> nw" using assms(2) by auto
  then obtain len data p where len: "buf_at 2 chunk (ptr + 8) = Inr (len :: u16)"
    and p: "(if ptr + 10 + unat len < buf_size chunk then signed_chunk gi chunk ptr (ptr + 10 + unat len) (unat len) cap nw
              else if src = network_controller nw \<or> src = 0 then legacy_chunk pid (unat len) cap nw
              else Inr None) = Inr (Some p)"
    and c: "accept_chunk fd self now port src data p nw = Inr (r, sent, nw')"
    using handleConfigChunk_accepts [OF assms(1)] by blast
  note c = accept_chunk_config [OF c assms(2)]
  show ?thesis
  proof (cases "ptr + 10 + unat len < buf_size chunk")
    case True
    then have "signed_chunk gi chunk ptr (ptr + 10 + unat len) (unat len) cap nw = Inr (Some p)" using p by simp
    from signed_chunk_verified [OF this] obtain vf data sig where "gi (network_controller nw) = Some vf" "buf_get chunk ptr (unat len + 27) = Inr data"
      "buf_get chunk (ptr + unat len + 30) 96 = Inr sig" "vf data sig" by (auto simp: ac_simps)
    then show ?thesis using c len True by auto
  next
    case False
    then show ?thesis using p c len by (auto split: if_splits)
  qed
qed

lemma handle_w2:
  "handleConfigChunk (\<lambda>_. None) (\<lambda>_. Some nconf1) 1 9 0 4 77 1 \<lparr>buf_b = [0, 0, 0, 0, 1, 0, 0, 0, 0, 1, 65], buf_l = 11\<rparr> 0 net_w2
   = Inr (77, [], net_w2\<lparr>nw_incomingConfigChunks := [\<lparr>cc_ts = 1, cc_updateId = 77, cc_haveChunkIds = [77], cc_haveBytes = 1, cc_data = [65, 0, 0, 0]\<rparr>],
        nw_config := nconf1, nw_lastConfigUpdate := 9\<rparr>)"
  by (simp add: handleConfigChunk_def net_w2_def net_w0_def rd_def rd_bytes_def buf_at_def uadd_def mem_read_def be_word_def be_step_def
      buf_get_def buf_field_def buf_size_def network_controller_def address_of_def legacy_chunk_def older_def accept_chunk_def slot_store_def
      max_update_chunks_def mem_write_def setConfiguration_def nconf1_def rule0_def)

theorem config_needs_controller_witness:
  "nc_networkId nconf1 = nw_id net_w2 \<and> nc_issuedTo nconf1 = 1
    \<and> handleConfigChunk (\<lambda>_. None) (\<lambda>_. Some nconf1) 1 9 0 4 77 1 \<lparr>buf_b = [0, 0, 0, 0, 1, 0, 0, 0, 0, 1, 65], buf_l = 11\<rparr> 0 net_w2 \<noteq> Inr (0, [], net_w2)"
  using config_needs_controller [OF handle_w2] by (simp add: handle_w2) (simp add: net_w2_def net_w0_def nconf1_def)

section \<open>An index that wraps\<close>

lemma wrap_unsafe:
  assumes "2 ^ 32 \<le> unat (idx :: u32) + length data" "length (cc_data c) \<le> 2 ^ 31" "data \<noteq> []"
    and "length (cc_haveChunkIds c) < max_update_chunks c \<or> cc_updateId c \<noteq> upd"
  shows "slot_store upd cid (unat idx) data n c = Inl UndefinedBehaviour"
proof -
  have "length (cc_data c) < unat idx + length data" using assms(1,2) by simp
  then show ?thesis using assms(4) by (auto simp: slot_store_def Let_def mem_write_def max_update_chunks_def)
qed

text \<open>C36: the check that a chunk fits is made on a sum of 32 bits: a signed chunk whose index is so large that the sum wraps around is accepted and
  copied to a place outside the slot.\<close>

theorem chunk_index_wraps:
  fixes idx n :: u32 and upd nwid :: u64 and len :: u16 and data :: bytes and flags :: u8
  defines "body \<equiv> be_bytes 8 nwid @ be_bytes 2 len @ data @ [flags] @ be_bytes 8 upd @ be_bytes 4 n @ be_bytes 4 idx"
  assumes "located chunk ptr (body @ [1] @ be_bytes 2 (96 :: u16) @ sig)" "length data = unat len" "length sig = 96"
    and "2 ^ 32 \<le> unat idx + unat len" "unat idx + unat len - 2 ^ 32 \<le> unat n" "unat n < cap"
    and "\<not> nw_destroyed nw" "find_slot upd (signature_chunk_id sig) (nw_incomingConfigChunks nw) 0 None = Some (Some k)"
    and "gi (network_controller nw) = Some vf" "vf body sig" "length (cc_data (nw_incomingConfigChunks nw ! k)) \<le> 2 ^ 31"
    and "length (cc_haveChunkIds (nw_incomingConfigChunks nw ! k)) < max_update_chunks (nw_incomingConfigChunks nw ! k)"
  shows "handleConfigChunk gi fd self now port cap pid src chunk ptr nw = Inl UndefinedBehaviour"
proof -
  let ?q = "ptr + 10 + unat len"
  have len: "0 < unat len" using assms(5) unat_bound [of idx] by (cases "unat len = 0") auto
  have lsig: "length body = unat len + 27" using assms(3) by (simp add: body_def)
  note l = assms(2) [unfolded body_def append_assoc located_append length_append length_be_bytes assms(3) length_Cons list.size(3)]
  have r: "buf_at 2 chunk (ptr + 8) = Inr len" "buf_get chunk (ptr + 8 + 2) (unat len) = Inr data" "buf_index chunk ?q = Inr flags"
    "buf_at 8 chunk (?q + 1) = Inr upd" "buf_at 4 chunk (?q + 1 + 8) = Inr n" "buf_at 4 chunk (?q + 1 + 8 + 4) = Inr idx"
    "buf_index chunk (?q + 1 + 8 + 4 + 4) = Inr 1" "buf_at 2 chunk (?q + 1 + 8 + 4 + 4 + 1) = Inr (96 :: u16)"
    "buf_get chunk (?q + 1 + 8 + 4 + 4 + 3) 96 = Inr sig"
    using l len unat_bound [of len] assms(3,4)
    by (auto intro!: located_at located_get located_index simp: add.assoc add.left_commute [of ptr] simp del: be_bytes_numeral)
  have g: "buf_get chunk ptr (?q + 1 + 8 + 4 + 4 - ptr) = Inr body"
    using assms(2) lsig unat_bound [of len] by (intro located_get) (auto simp: located_append)
  have sz: "?q < buf_size chunk" using l by (auto simp: located_def buf_size_def)
  have u: "uadd (unat idx) (unat len) = unat idx + unat len - 2 ^ 32"
    using assms(5) unat_bound [of idx] unat_bound [of len] by (simp add: uadd_def le_mod_geq)
  have s: "signed_chunk gi chunk ptr ?q (unat len) cap nw = Inr (Some \<lparr>pc_slot = k, pc_updateId = upd, pc_chunkId = signature_chunk_id sig,
      pc_chunkIndex = unat idx, pc_totalLength = unat n, pc_forwarded = (flags AND 0x01 \<noteq> 0)\<rparr>)"
    unfolding signed_chunk_def rd_u8_def rd_def r bindE_Inr prod.case u Let_def assms(9,10) g using assms(6,7,11) by simp
  have "slot_store upd (signature_chunk_id sig) (unat idx) data (unat n) (nw_incomingConfigChunks nw ! k) = Inl UndefinedBehaviour"
    using assms(3,5,12,13) len by (intro wrap_unsafe) auto
  moreover have e: "ptr + 8 + 2 + unat len = ?q" by simp
  ultimately show ?thesis
    using assms(8) sz s unfolding handleConfigChunk_def rd_def rd_bytes_def Let_def r bindE_Inr prod.case e
    by (simp add: accept_chunk_def Let_def)
qed

theorem chunk_index_wraps_witness:
  "\<exists>chunk. handleConfigChunk (\<lambda>_. Some (\<lambda>_ _. True)) (\<lambda>_. None) 1 9 0 4 77 1 chunk 0 net_w2 = Inl UndefinedBehaviour"
proof -
  let ?body = "be_bytes 8 (0x1000000 :: u64) @ be_bytes 2 (1 :: u16) @ [65] @ [0] @ be_bytes 8 (5 :: u64) @ be_bytes 4 (3 :: u32) @ be_bytes 4 (0xffffffff :: u32)"
  let ?all = "?body @ [1] @ be_bytes 2 (96 :: u16) @ replicate 96 0"
  let ?chunk = "\<lparr>buf_b = ?all, buf_l = length ?all\<rparr>"
  have l: "located ?chunk 0 ?all" by (simp add: located_def buf_inv_def buf_capacity_def buf_data_def del: be_bytes_numeral)
  have f: "find_slot 5 (signature_chunk_id (replicate 96 0)) (nw_incomingConfigChunks net_w2) 0 None = Some (Some 0)"
    by (simp add: net_w2_def older_def)
  have "handleConfigChunk (\<lambda>_. Some (\<lambda>_ _. True)) (\<lambda>_. None) 1 9 0 4 77 1 ?chunk 0 net_w2 = Inl UndefinedBehaviour"
    using l f by (intro chunk_index_wraps [where nwid = "0x1000000" and len = 1 and data = "[65]" and flags = 0 and upd = 5 and n = 3
        and idx = "0xffffffff" and sig = "replicate 96 0" and k = 0])
      (simp_all add: net_w2_def net_w0_def max_update_chunks_def)
  then show ?thesis by blast
qed

end
