(* ===== verification/ZT_Dictionary.thy ===== *)
theory ZT_Dictionary
  imports ZT_Utils
begin

text \<open>
  \<^verbatim>\<open>node/Dictionary.hpp\<close>: the text dictionary that carries network configurations, lines \<open>key=value\<close> in a fixed array of bytes that
  ends at the first zero, with escapes for the bytes that structure it. A pointer into the array is the part of the array
  from there on, so \<open>++p == eof\<close> is that the rest is empty and reading at the empty rest is undefined.
\<close>

section \<open>State and loading\<close>

definition dict_new :: "nat \<Rightarrow> bytes" where
  "dict_new C = replicate C 0"

definition dict_isSet :: "bytes \<Rightarrow> bool result" where
  "dict_isSet d = bindE (mem_read d 0 1) (\<lambda>bs. Inr (hd bs \<noteq> 0))"

text \<open>\<open>load\<close> copies a C string and zeroes the rest; the loop runs over the \<open>i\<close> slots that are left, \<open>s\<close> is the source with its terminator or
  \<open>None\<close> once it was copied.\<close>

fun load_loop :: "nat \<Rightarrow> bytes option \<Rightarrow> (bytes \<times> bytes option) result" where
  "load_loop 0 s = Inr ([], s)"
| "load_loop (Suc i) None = bindE (load_loop i None) (\<lambda>(d, s). Inr (0 # d, s))"
| "load_loop (Suc i) (Some []) = Inl UndefinedBehaviour"
| "load_loop (Suc i) (Some (c # s)) = bindE (load_loop i (if c = 0 then None else Some s)) (\<lambda>(d, s). Inr (c # d, s))"

definition dict_load :: "nat \<Rightarrow> bytes \<Rightarrow> (bytes \<times> bool) result" where
  "dict_load C s = bindE (load_loop C (Some s)) (\<lambda>(d, s'). Inr (d[C - 1 := 0], s' = None))"

definition dict_sizeBytes :: "bytes \<Rightarrow> nat" where
  "dict_sizeBytes d = (if terminated d then length (cstr d) else length d - 1)"

section \<open>Looking up a key\<close>

text \<open>What \<open>get\<close> stores: nothing, with the result -1, or the bytes before the terminator, whose number it returns.\<close>

datatype dict_value = dict_absent | dict_found bytes

abbreviation (input) CR :: u8 where "CR \<equiv> 13"
abbreviation (input) LF :: u8 where "LF \<equiv> 10"
abbreviation (input) EQUALS :: u8 where "EQUALS \<equiv> 61"
abbreviation (input) BACKSLASH :: u8 where "BACKSLASH \<equiv> 92"

text \<open>The comparison with the key; \<open>None\<close> when the end of the array is met.\<close>

fun key_match :: "bytes \<Rightarrow> bytes \<Rightarrow> (bytes \<times> bytes) option result" where
  "key_match [] p = Inr (Some ([], p))"
| "key_match (c # k) [] = Inl UndefinedBehaviour"
| "key_match (c # k) (x # p) =
    (if x = 0 \<or> x \<noteq> c then Inr (Some (c # k, x # p)) else if p = [] then Inr None else key_match k p)"

definition unescape_char :: "u8 \<Rightarrow> u8" where
  "unescape_char x = (if x = 0x72 then CR else if x = 0x6e then LF else if x = 0x30 then 0 else if x = 0x65 then EQUALS else x)"

fun read_value :: "bytes \<Rightarrow> bool \<Rightarrow> bytes \<Rightarrow> nat \<Rightarrow> dict_value result" where
  "read_value [] esc dest destlen = Inl UndefinedBehaviour"
| "read_value (x # p) esc dest destlen =
    (if x = 0 \<or> x = CR \<or> x = LF then Inr (dict_found dest)
     else if \<not> esc \<and> x = BACKSLASH then (if p = [] then Inr dict_absent else read_value p True dest destlen)
     else let dest = dest @ [if esc then unescape_char x else x] in
       if length dest = destlen then Inr (dict_found (butlast dest))
       else if p = [] then Inr dict_absent else read_value p False dest destlen)"

text \<open>The rest of a line is skipped; \<open>None\<close> when there is no line after it.\<close>

fun skip_line :: "bytes \<Rightarrow> bytes option result" where
  "skip_line [] = Inl UndefinedBehaviour"
| "skip_line (x # p) =
    (if x = 0 then Inr None
     else if x = CR \<or> x = LF then Inr (if p = [] then None else Some p)
     else if p = [] then Inr None else skip_line p)"

lemma key_match_length: "key_match k p = Inr (Some (k', p')) \<Longrightarrow> length p' \<le> length p"
  by (induction k p rule: key_match.induct) (auto split: if_splits)

lemma skip_line_length: "skip_line p = Inr (Some p') \<Longrightarrow> length p' < length p"
  by (induction p rule: skip_line.induct) (auto split: if_splits)

lemma next_line_length:
  "key_match k p = Inr (Some (k', p')) \<Longrightarrow> skip_line p' = Inr (Some p'') \<Longrightarrow> length p'' < length p"
  using key_match_length skip_line_length less_le_trans by blast

function get_loop :: "bytes \<Rightarrow> bytes \<Rightarrow> nat \<Rightarrow> dict_value result" where
  "get_loop key p destlen =
    (case p of
       [] \<Rightarrow> Inl UndefinedBehaviour
     | x # _ \<Rightarrow>
         if x = 0 then Inr dict_absent
         else (case key_match key p of
             Inl e \<Rightarrow> Inl e
           | Inr None \<Rightarrow> Inr dict_absent
           | Inr (Some (k, p1)) \<Rightarrow>
               if k = [] \<and> p1 \<noteq> [] \<and> hd p1 = EQUALS then read_value (tl p1) False [] destlen
               else (case skip_line p1 of
                   Inl e \<Rightarrow> Inl e
                 | Inr None \<Rightarrow> Inr dict_absent
                 | Inr (Some p2) \<Rightarrow> get_loop key p2 destlen)))"
  by pat_completeness auto

termination
  by (relation "measure (\<lambda>(key, p, n). length p)") (auto dest: next_line_length)

definition dict_get :: "bytes \<Rightarrow> bytes \<Rightarrow> nat \<Rightarrow> dict_value result" where
  "dict_get key d destlen = (if destlen = 0 then Inr dict_absent else get_loop key d destlen)"

definition dict_getB :: "bytes \<Rightarrow> bool \<Rightarrow> bytes \<Rightarrow> bool result" where
  "dict_getB key dfl d =
    bindE (dict_get key d 4) (\<lambda>r. case r of
      dict_absent \<Rightarrow> Inr dfl
    | dict_found v \<Rightarrow> Inr (let c = hd (v @ [0]) in c = 0x31 \<or> c = 0x74 \<or> c = 0x54))"

definition dict_getUI :: "bytes \<Rightarrow> u64 \<Rightarrow> bytes \<Rightarrow> u64 result" where
  "dict_getUI key dfl d =
    bindE (dict_get key d 128) (\<lambda>r. case r of
      dict_absent \<Rightarrow> Inr dfl
    | dict_found v \<Rightarrow> Inr (if length v \<ge> 1 then hexStrToU64 (v @ [0]) else dfl))"

definition dict_getI :: "bytes \<Rightarrow> u64 \<Rightarrow> bytes \<Rightarrow> u64 result" where
  "dict_getI key dfl d =
    bindE (dict_get key d 128) (\<lambda>r. case r of
      dict_absent \<Rightarrow> Inr dfl
    | dict_found v \<Rightarrow> Inr (if length v \<ge> 1 then hexStrTo64 (v @ [0]) else dfl))"

definition dict_contains :: "bytes \<Rightarrow> bytes \<Rightarrow> bool result" where
  "dict_contains key d = bindE (dict_get key d 2) (\<lambda>r. Inr (r \<noteq> dict_absent))"

section \<open>Adding an entry\<close>

text \<open>The bytes an entry is written as, one write of \<open>_d[j++]\<close> each.\<close>

definition escape_char :: "u8 \<Rightarrow> bytes" where
  "escape_char c =
    (if c = 0 then [BACKSLASH, 0x30] else if c = CR then [BACKSLASH, 0x72] else if c = LF then [BACKSLASH, 0x6e]
     else if c = BACKSLASH then [BACKSLASH, BACKSLASH] else if c = EQUALS then [BACKSLASH, 0x65] else [c])"

definition escape :: "bytes \<Rightarrow> bytes" where
  "escape v = concat (map escape_char v)"

text \<open>The writes from \<open>j\<close> on, each followed by the test for the end of the array; \<open>None\<close> is the failure there.\<close>

fun dict_write :: "bytes \<Rightarrow> nat \<Rightarrow> bytes \<Rightarrow> bytes \<times> nat option" where
  "dict_write [] j d = (d, Some j)"
| "dict_write (c # cs) j d =
    (let d = d[j := c] in if j + 1 = length d then (d, None) else dict_write cs (j + 1) d)"

definition dict_add :: "bytes \<Rightarrow> bytes \<Rightarrow> bytes \<Rightarrow> bytes \<times> bool" where
  "dict_add key value d =
    (if \<not> terminated d then (d, False)
     else let i = length (cstr d) in
       case dict_write ((if i > 0 then [LF] else []) @ key @ [EQUALS] @ escape value) i d of
         (d, None) \<Rightarrow> (d[i := 0], False)
       | (d, Some j) \<Rightarrow> (d[j := 0], True))"

definition dict_add_bool :: "bytes \<Rightarrow> bool \<Rightarrow> bytes \<Rightarrow> bytes \<times> bool" where
  "dict_add_bool key value d = dict_add key (if value then [0x31] else [0x30]) d"

definition dict_add_u64 :: "bytes \<Rightarrow> u64 \<Rightarrow> bytes \<Rightarrow> bytes \<times> bool" where
  "dict_add_u64 key value d = dict_add key (cstr (hex64 value)) d"

text \<open>Negating the lowest value overflows.\<close>

definition dict_add_i64 :: "bytes \<Rightarrow> u64 \<Rightarrow> bytes \<Rightarrow> (bytes \<times> bool) result" where
  "dict_add_i64 key value d =
    (if sint value \<ge> 0 then Inr (dict_add key (cstr (hex64 value)) d)
     else if sint value = - (2 ^ 63) then Inl UndefinedBehaviour
     else Inr (dict_add key (0x2d # cstr (hex64 (- value))) d))"

section \<open>Lines of a dictionary\<close>

abbreviation line_end :: "u8 \<Rightarrow> bool" where "line_end z \<equiv> z = 0 \<or> z = CR \<or> z = LF"

definition line :: "bytes \<Rightarrow> bool" where
  "line l \<longleftrightarrow> (\<forall>x \<in> set l. \<not> line_end x)"

text \<open>The part of the key and of the line left where they differ.\<close>

fun diverge :: "bytes \<Rightarrow> bytes \<Rightarrow> bytes \<times> bytes" where
  "diverge [] l = ([], l)"
| "diverge (c # k) [] = (c # k, [])"
| "diverge (c # k) (x # l) = (if x = c then diverge k l else (c # k, x # l))"

declare get_loop.simps [simp del]

section \<open>Lines\<close>

lemma line_simps [simp]: "line []" "line (x # l) \<longleftrightarrow> \<not> line_end x \<and> line l" "line (k @ l) \<longleftrightarrow> line k \<and> line l"
  by (auto simp: line_def)

lemma diverge_Nil: "fst (diverge k l) = [] \<Longrightarrow> l = k @ snd (diverge k l)"
  by (induction k l rule: diverge.induct) (auto split: if_splits)

lemma diverge_line: "line l \<Longrightarrow> line (snd (diverge k l))"
  by (induction k l rule: diverge.induct) auto

lemma key_match_line:
  "line l \<Longrightarrow> line k \<Longrightarrow> line_end z \<Longrightarrow> key_match k (l @ z # w) = Inr (Some (fst (diverge k l), snd (diverge k l) @ z # w))"
  by (induction k l rule: diverge.induct) auto

lemma skip_line_line:
  "line l \<Longrightarrow> line_end z \<Longrightarrow> skip_line (l @ z # w) = Inr (if z = 0 \<or> w = [] then None else Some w)"
  by (induction l) auto

lemma read_value_end:
  "line l \<Longrightarrow> line_end z \<Longrightarrow> line_end z' \<Longrightarrow> read_value (l @ z # w) e dest n = read_value (l @ z' # w') e dest n"
  by (induction l arbitrary: e dest) (auto simp: Let_def)

lemma read_value_found: "line l \<Longrightarrow> line_end z \<Longrightarrow> \<exists>v. read_value (l @ z # w) e dest n = Inr (dict_found v)"
  by (induction l arbitrary: e dest) (auto simp: Let_def)

text \<open>What the search does with the first line.\<close>

lemma get_line_match:
  assumes "line (k @ EQUALS # v)" "line_end z"
  shows "get_loop k ((k @ EQUALS # v) @ z # w) n = read_value (v @ z # w) False [] n"
proof -
  have d: "diverge k (k @ EQUALS # v) = ([], EQUALS # v)" by (induction k) auto
  have "key_match k ((k @ EQUALS # v) @ z # w) = Inr (Some ([], EQUALS # v @ z # w))"
    using key_match_line [of "k @ EQUALS # v" k z w] assms d by simp
  then show ?thesis using assms by (subst get_loop.simps) (cases k; auto)
qed

lemma get_line_next:
  assumes "line l" "line k" "line_end z" "\<nexists>v. l = k @ EQUALS # v"
  shows "get_loop k (l @ z # w) n = (if z = 0 \<or> w = [] then Inr dict_absent else get_loop k w n)"
proof (cases "l = [] \<and> z = 0")
  case True
  then show ?thesis by (subst get_loop.simps) simp
next
  case False
  define k1 p1 where "k1 = fst (diverge k l)" "p1 = snd (diverge k l)"
  have m: "key_match k (l @ z # w) = Inr (Some (k1, p1 @ z # w))"
    using key_match_line [OF assms(1,2,3)] by (simp add: k1_p1_def)
  have p1: "line p1" using diverge_line [OF assms(1)] by (simp add: k1_p1_def)
  have n: "\<not> (k1 = [] \<and> hd (p1 @ z # w) = EQUALS)"
  proof
    assume a: "k1 = [] \<and> hd (p1 @ z # w) = EQUALS"
    then have "l = k @ p1" using diverge_Nil by (simp add: k1_p1_def)
    moreover obtain v where "p1 = EQUALS # v" using a assms(3) by (cases p1) auto
    ultimately show False using assms(4) by blast
  qed
  obtain x xs where x: "l @ z # w = x # xs" "x \<noteq> 0" using False assms(1) by (cases l) auto
  have "get_loop k (l @ z # w) n = (case skip_line (p1 @ z # w) of
                   Inl e \<Rightarrow> Inl e
                 | Inr None \<Rightarrow> Inr dict_absent
                 | Inr (Some p2) \<Rightarrow> get_loop k p2 n)"
    unfolding get_loop.simps [of k "l @ z # w"] m using x n by auto
  then show ?thesis using skip_line_line [OF p1 assms(3)] by simp
qed

section \<open>Searching after an entry is appended\<close>

lemma get_append:
  assumes "0 \<notin> set t" "line k" "w \<noteq> []"
  shows "get_loop k (t @ LF # w) n = (case get_loop k (t @ 0 # r) n of Inr dict_absent \<Rightarrow> get_loop k w n | x \<Rightarrow> x)"
  using assms(1)
proof (induction "length t" arbitrary: t rule: less_induct)
  case less
  define l where "l = takeWhile (\<lambda>x. \<not> line_end x) t"
  have l: "line l" by (auto simp: l_def line_def dest: set_takeWhileD)
  show ?case
  proof (cases "dropWhile (\<lambda>x. \<not> line_end x) t")
    case Nil
    have t: "t = l" using takeWhile_dropWhile_id [of "\<lambda>x. \<not> line_end x" t] unfolding Nil l_def append_Nil2 by (rule sym)
    show ?thesis
    proof (cases "\<exists>v. l = k @ EQUALS # v")
      case True
      then obtain v where v: "l = k @ EQUALS # v" by blast
      then have "line v" using l by simp
      then show ?thesis using get_line_match [of k v] l v t read_value_end [of v LF 0 w False "[]" n r] read_value_found [of v 0 r False "[]" n] by auto
    next
      case False
      then show ?thesis using get_line_next [OF l assms(2), of LF w n] get_line_next [OF l assms(2), of 0 r n] t assms(3) by simp
    qed
  next
    case (Cons c u)
    have t: "t = l @ c # u" using takeWhile_dropWhile_id [of "\<lambda>x. \<not> line_end x" t] unfolding Cons l_def by (rule sym)
    have c: "line_end c" using hd_dropWhile [of "\<lambda>x. \<not> line_end x" t] unfolding Cons by simp
    have c0: "c \<noteq> 0" "0 \<notin> set u" using less.prems t by auto
    show ?thesis
    proof (cases "\<exists>v. l = k @ EQUALS # v")
      case True
      then obtain v where v: "l = k @ EQUALS # v" by blast
      then have lv: "line v" using l by simp
      have "get_loop k (t @ LF # w) n = read_value (v @ c # u @ LF # w) False [] n" "get_loop k (t @ 0 # r) n = read_value (v @ c # u @ 0 # r) False [] n"
        using get_line_match [of k v c] l v c unfolding t by simp_all
      then show ?thesis using read_value_end [OF lv c c, of "u @ LF # w" False "[]" n "u @ 0 # r"] read_value_found [OF lv c, of "u @ 0 # r" False "[]" n] by auto
    next
      case False
      then have "get_loop k (t @ LF # w) n = get_loop k (u @ LF # w) n" "get_loop k (t @ 0 # r) n = get_loop k (u @ 0 # r) n"
        using get_line_next [OF l assms(2) c] c0 unfolding t by simp_all
      then show ?thesis using less.hyps [of u] c0 t by simp
    qed
  qed
qed

lemma unescape_escape:
  assumes "line_end z" "length dest + length v < n"
  shows "read_value (escape v @ z # w) False dest n = Inr (dict_found (dest @ v))"
  using assms(2)
proof (induction v arbitrary: dest)
  case Nil
  then show ?case using assms(1) by (auto simp: escape_def)
next
  case (Cons c v)
  have "read_value (escape_char c @ escape v @ z # w) False dest n = read_value (escape v @ z # w) False (dest @ [c]) n"
    using Cons.prems by (auto simp: escape_char_def unescape_char_def Let_def)
  then show ?case using Cons by (simp add: escape_def)
qed

lemma line_escape: "line (escape v)"
  by (induction v) (auto simp: escape_def escape_char_def)

lemma dict_write_spec:
  assumes "j + length cs < length d \<or> j < length d \<and> length d \<le> j + length cs"
  shows "dict_write cs j d = (if j + length cs < length d then (take j d @ cs @ drop (j + length cs) d, Some (j + length cs))
    else (take j d @ take (length d - j) cs, None))"
  using assms
proof (induction cs arbitrary: j d)
  case (Cons c cs)
  have "j < length d" using Cons.prems by auto
  then have "take (Suc j) (d[j := c]) = take j d @ [c]" by (simp add: take_Suc_conv_app_nth)
  then show ?case using Cons.prems Cons.IH [of "Suc j" "d[j := c]"]
    by (auto simp: Let_def take_Cons' Suc_diff_Suc)
qed auto

text \<open>The contents of the array after an entry is added, or not.\<close>

lemma dict_add_spec:
  fixes key v d :: bytes
  assumes "terminated d"
  defines "e \<equiv> (if cstr d = [] then [] else [LF]) @ key @ [EQUALS] @ escape v"
  shows "\<exists>r r'. d = cstr d @ 0 # r \<and> length (fst (dict_add key v d)) = length d \<and>
    (if length (cstr d) + length e < length d then snd (dict_add key v d) \<and> fst (dict_add key v d) = cstr d @ e @ 0 # r'
     else \<not> snd (dict_add key v d) \<and> fst (dict_add key v d) = cstr d @ 0 # r')"
proof -
  obtain r where r: "d = cstr d @ 0 # r" using terminated_decomp [OF assms(1)] by blast
  let ?i = "length (cstr d)"
  have i: "?i < length d" "take ?i d = cstr d" by (subst (2) r, simp, metis append_eq_conv_conj r)
  have a: "dict_add key v d = (case dict_write e ?i d of (d, None) \<Rightarrow> (d[?i := 0], False) | (d, Some j) \<Rightarrow> (d[j := 0], True))"
    using assms(1) by (auto simp: dict_add_def Let_def e_def)
  show ?thesis
  proof (cases "?i + length e < length d")
    case True
    then have "dict_write e ?i d = (cstr d @ e @ drop (?i + length e) d, Some (?i + length e))" using dict_write_spec [of ?i e d] i(2) by simp
    moreover obtain x xs where x: "drop (?i + length e) d = x # xs" using True by (cases "drop (?i + length e) d") auto
    ultimately have "dict_add key v d = (cstr d @ e @ 0 # xs, True)" using a by (simp add: list_update_append)
    moreover have "length (cstr d @ e @ 0 # xs) = length d" using arg_cong [OF x, of length] True by simp
    ultimately show ?thesis using True r by auto
  next
    case False
    then have w: "dict_write e ?i d = (cstr d @ take (length d - ?i) e, None)" using dict_write_spec [of ?i e d] i by simp
    obtain x xs where x: "take (length d - ?i) e = x # xs" using False i(1) by (cases "take (length d - ?i) e") auto
    then have "dict_add key v d = (cstr d @ 0 # xs, False)" using a w by (simp add: list_update_append)
    moreover have "length (cstr d @ 0 # xs) = length d" using arg_cong [OF x, of length] False i(1) by simp
    ultimately show ?thesis using False r by auto
  qed
qed

lemma get_zero: "get_loop k (0 # w) n = Inr dict_absent"
  by (subst get_loop.simps) simp

lemma get_contents: "0 \<notin> set t \<Longrightarrow> line k \<Longrightarrow> get_loop k (t @ 0 # r) n = get_loop k (t @ 0 # r') n"
proof -
  assume t: "0 \<notin> set t" "line k"
  have "get_loop k (t @ LF # [0]) n = (case get_loop k (t @ 0 # r) n of Inr dict_absent \<Rightarrow> Inr dict_absent | x \<Rightarrow> x)" for r
    using get_append [OF t, of "[0]" n r] unfolding get_zero by simp
  then have "(case get_loop k (t @ 0 # r) n of Inr dict_absent \<Rightarrow> Inr dict_absent | x \<Rightarrow> x)
      = (case get_loop k (t @ 0 # r') n of Inr dict_absent \<Rightarrow> Inr dict_absent | x \<Rightarrow> x)" by metis
  then show ?thesis by (auto split: sum.splits dict_value.splits)
qed

lemma dict_add_lookup:
  assumes "terminated d" "set key \<inter> {0, CR, LF, EQUALS} = {}" "set key' \<inter> {0, CR, LF, EQUALS} = {}" "length v < n"
  shows "terminated (fst (dict_add key v d)) \<and>
    dict_get key' (fst (dict_add key v d)) n =
      (if snd (dict_add key v d) \<and> key' = key \<and> dict_get key d n = Inr dict_absent then Inr (dict_found v) else dict_get key' d n)"
proof -
  let ?e = "(if cstr d = [] then [] else [LF]) @ key @ [EQUALS] @ escape v" and ?d = "fst (dict_add key v d)"
  have k: "line key" "line key'" using assms(2,3) by (auto simp: line_def)
  obtain r r' where r: "d = cstr d @ 0 # r" and
    c: "if length (cstr d) + length ?e < length d then snd (dict_add key v d) \<and> ?d = cstr d @ ?e @ 0 # r'
     else \<not> snd (dict_add key v d) \<and> ?d = cstr d @ 0 # r'"
    using dict_add_spec [OF assms(1), of key v] by blast
  have n: "dict_get x y n = get_loop x y n" for x y using assms(4) by (simp add: dict_get_def)
  show ?thesis
  proof (cases "snd (dict_add key v d)")
    case False
    then have "?d = cstr d @ 0 # r'" using c by (auto split: if_splits)
    then show ?thesis using False get_contents [of "cstr d" key' r' n r] k(2) r n by (auto simp: terminated_def)
  next
    case True
    then have d: "?d = cstr d @ ?e @ 0 # r'" using c by (auto split: if_splits)
    let ?l = "key @ EQUALS # escape v"
    have l: "line ?l" using k(1) line_escape by simp
    have g: "get_loop key' (?l @ 0 # r') n = (if key' = key then Inr (dict_found v) else Inr dict_absent)"
    proof (cases "key' = key")
      case True
      then show ?thesis using get_line_match [OF l, of 0 r' n] unescape_escape [of 0 "[]" v n r'] assms(4) by simp
    next
      case False
      have "\<nexists>u. ?l = key' @ EQUALS # u"
      proof
        assume "\<exists>u. ?l = key' @ EQUALS # u"
        then obtain u where u: "key @ EQUALS # escape v = key' @ EQUALS # u" by blast
        have "takeWhile (\<lambda>x. x \<noteq> EQUALS) (k @ EQUALS # z) = k" if "EQUALS \<notin> set k" for k z using that by (induction k) auto
        then show False using arg_cong [OF u, of "takeWhile (\<lambda>x. x \<noteq> EQUALS)"] assms(2,3) False by auto
      qed
      then show ?thesis using get_line_next [OF l k(2), of 0 r' n] False by simp
    qed
    show ?thesis
    proof (cases "cstr d = []")
      case True
      then have "get_loop x d n = Inr dict_absent" for x using r get_zero by (metis append_Nil)
      then show ?thesis using d g True \<open>snd (dict_add key v d)\<close> n by (auto simp: terminated_def)
    next
      case False
      have "get_loop key' ?d n = (case get_loop key' d n of Inr dict_absent \<Rightarrow> get_loop key' (?l @ 0 # r') n | x \<Rightarrow> x)"
        using get_append [OF cstr_no_zero k(2), of "?l @ 0 # r'" d n r] False r d by simp
      then show ?thesis using g n d \<open>snd (dict_add key v d)\<close> by (auto simp: terminated_def split: sum.splits dict_value.splits)
    qed
  qed
qed

text \<open>C32: for keys without special characters and a destination that is longer than the value: after \<open>add\<close> succeeds, \<open>get\<close> returns the value for its key if the key had none, and the value it had otherwise, however many bytes of it need escaping, and the answer
  for every other key is unchanged; when there is no room the answers for all keys are unchanged.\<close>

theorem dict_add_get:
  assumes "terminated d" "set key \<inter> {0, CR, LF, EQUALS} = {}" "set key' \<inter> {0, CR, LF, EQUALS} = {}" "length v < n"
  shows "terminated (fst (dict_add key v d)) \<and>
    dict_get key' (fst (dict_add key v d)) n =
      (if snd (dict_add key v d) \<and> key' = key \<and> dict_get key d n = Inr dict_absent then Inr (dict_found v) else dict_get key' d n)"
  by (rule dict_add_lookup [OF assms])

theorem dict_add_get_witness:
  "dict_get [98] (fst (dict_add [97] [LF, 0] (dict_new 20))) 5 = Inr dict_absent
   \<and> dict_get [97] (fst (dict_add [97] [LF, 0] (dict_new 20))) 5 = Inr (dict_found [LF, 0])"
proof -
  have t: "terminated (dict_new 20)" by (simp add: terminated_def dict_new_def)
  have a: "snd (dict_add [97] [LF, 0] (dict_new 20))" by code_simp
  have n: "dict_get k (dict_new 20) 5 = Inr dict_absent" for k by (simp add: dict_get_def dict_new_def get_zero eval_nat_numeral del: get_loop.simps)
  show ?thesis using dict_add_get [OF t, of "[97]" "[98]" "[LF, 0]" 5] dict_add_get [OF t, of "[97]" "[97]" "[LF, 0]" 5] a n by simp
qed

text \<open>an unsigned integer added under a new key is read back by \<open>getUI\<close>.\<close>

theorem dict_u64_roundtrip:
  assumes "terminated d" "set key \<inter> {0, CR, LF, EQUALS} = {}" "dict_get key d 128 = Inr dict_absent" "snd (dict_add_u64 key x d)"
  shows "dict_getUI key dfl (fst (dict_add_u64 key x d)) = Inr x"
proof -
  have "\<forall>c \<in> set (hex_digits 16 x). c \<noteq> 0" using hex_digits_chars hexchar(2) by metis
  then have h: "cstr (hex64 x) = hex_digits 16 x" unfolding hex64_hex_digits by (intro cstr_append_zero) auto
  have l: "length (hex_digits 16 x) = 16" by simp
  have "dict_get key (fst (dict_add_u64 key x d)) 128 = Inr (dict_found (hex_digits 16 x))"
    using dict_add_lookup [OF assms(1,2,2), of "hex_digits 16 x" 128] assms(3,4) unfolding dict_add_u64_def h by (simp add: l del: hex_digits_numeral)
  then show ?thesis using hexStrToU64_hex64 [of x] unfolding dict_getUI_def hex64_hex_digits by (simp add: l del: hex_digits_numeral)
qed

theorem dict_u64_roundtrip_witness: "dict_getUI [110] 0 (fst (dict_add_u64 [110] 0x1234 (dict_new 64))) = Inr 0x1234"
proof -
  have "dict_get [110] (dict_new 64) 128 = Inr dict_absent" by (simp add: dict_get_def dict_new_def get_zero eval_nat_numeral)
  moreover have "snd (dict_add_u64 [110] 0x1234 (dict_new 64))" by code_simp
  ultimately show ?thesis using dict_u64_roundtrip [of "dict_new 64" "[110]"] by (simp add: terminated_def dict_new_def)
qed

end
