(* ===== verification/ZT_Packet.thy ===== *)
theory ZT_Packet
  imports ZT_Codec
begin

text \<open>
  \<^verbatim>\<open>node/Packet.hpp\<close>: the header of a packet and the fragments a packet too large for a path is cut into. A packet is a
  \<^typ>\<open>buffer\<close>; its header holds the initialisation vector, which is also the packet id, the destination, the source, a byte
  of flags, cipher suite and hop count, the message authentication code and the verb. The initialisation vector
  \<open>iv\<close> of a new packet, random bytes, and the memory \<open>mem\<close> a new packet lies in are arguments.
\<close>

abbreviation (input) IDX_IV :: nat where "IDX_IV \<equiv> 0"
abbreviation (input) IDX_DEST :: nat where "IDX_DEST \<equiv> 8"
abbreviation (input) IDX_SOURCE :: nat where "IDX_SOURCE \<equiv> 13"
abbreviation (input) IDX_FLAGS :: nat where "IDX_FLAGS \<equiv> 18"
abbreviation (input) IDX_MAC :: nat where "IDX_MAC \<equiv> 19"
abbreviation (input) IDX_VERB :: nat where "IDX_VERB \<equiv> 27"
abbreviation (input) IDX_PAYLOAD :: nat where "IDX_PAYLOAD \<equiv> 28"
abbreviation (input) MIN_PACKET_LENGTH :: nat where "MIN_PACKET_LENGTH \<equiv> 28"
abbreviation (input) MAX_PACKET_LENGTH :: nat where "MAX_PACKET_LENGTH \<equiv> 10024"
abbreviation (input) FRAGMENT_IDX_INDICATOR :: nat where "FRAGMENT_IDX_INDICATOR \<equiv> 13"
abbreviation (input) FRAGMENT_IDX_NO :: nat where "FRAGMENT_IDX_NO \<equiv> 14"
abbreviation (input) FRAGMENT_IDX_HOPS :: nat where "FRAGMENT_IDX_HOPS \<equiv> 15"
abbreviation (input) MIN_FRAGMENT_LENGTH :: nat where "MIN_FRAGMENT_LENGTH \<equiv> 16"
abbreviation (input) FRAGMENT_INDICATOR :: u8 where "FRAGMENT_INDICATOR \<equiv> 0xff"
abbreviation (input) FLAG_FRAGMENTED :: u8 where "FLAG_FRAGMENTED \<equiv> 0x40"
abbreviation (input) FLAG_EXTENDED_ARMOR :: u8 where "FLAG_EXTENDED_ARMOR \<equiv> 0x80"
abbreviation (input) CIPHER_POLY1305_SALSA2012 :: nat where "CIPHER_POLY1305_SALSA2012 \<equiv> 1"
abbreviation (input) CIPHER_TRUSTED_PATH :: nat where "CIPHER_TRUSTED_PATH \<equiv> 2"
abbreviation (input) CIPHER_AES_GMAC_SIV :: nat where "CIPHER_AES_GMAC_SIV \<equiv> 3"

section \<open>Header fields\<close>

text \<open>Copying bytes to a field and replacing one byte through \<open>operator[]\<close>.\<close>

definition buf_poke :: "nat \<Rightarrow> bytes \<Rightarrow> buffer \<Rightarrow> buffer result" where
  "buf_poke i bs b =
    bindE (buf_field b i (length bs)) (\<lambda>p. bindE (mem_write (buf_b b) p bs) (\<lambda>m. Inr (b\<lparr>buf_b := m\<rparr>)))"

definition buf_modify :: "nat \<Rightarrow> (u8 \<Rightarrow> u8) \<Rightarrow> buffer \<Rightarrow> buffer result" where
  "buf_modify i f b = bindE (buf_index b i) (\<lambda>v. buf_index_set b i (f v))"

definition packet_setDestination :: "address \<Rightarrow> buffer \<Rightarrow> buffer result" where
  "packet_setDestination dest = buf_poke IDX_DEST (address_octets dest)"

definition packet_setSource :: "address \<Rightarrow> buffer \<Rightarrow> buffer result" where
  "packet_setSource source = buf_poke IDX_SOURCE (address_octets source)"

definition packet_newIV :: "bytes \<Rightarrow> buffer \<Rightarrow> buffer result" where
  "packet_newIV iv = buf_poke IDX_IV (take 8 iv)"

definition packet_setVerb :: "u8 \<Rightarrow> buffer \<Rightarrow> buffer result" where
  "packet_setVerb v p = buf_index_set p IDX_VERB v"

definition packet_reset :: "bytes \<Rightarrow> address \<Rightarrow> address \<Rightarrow> u8 \<Rightarrow> buffer \<Rightarrow> buffer result" where
  "packet_reset iv dest source v p =
    bindE (buf_setSize MIN_PACKET_LENGTH p)
      (bseq [packet_newIV iv, packet_setDestination dest, packet_setSource source, \<lambda>p. buf_index_set p IDX_FLAGS 0,
             packet_setVerb v])"

definition packet_new :: "bytes \<Rightarrow> bytes \<Rightarrow> address \<Rightarrow> address \<Rightarrow> u8 \<Rightarrow> buffer result" where
  "packet_new mem iv dest source v =
    bindE (buf_new_size mem MIN_PACKET_LENGTH)
      (bseq [packet_newIV iv, packet_setDestination dest, packet_setSource source, \<lambda>p. buf_index_set p IDX_FLAGS 0,
             packet_setVerb v])"

text \<open>A copy of a packet for another destination.\<close>

definition packet_retarget :: "bytes \<Rightarrow> address \<Rightarrow> buffer \<Rightarrow> buffer result" where
  "packet_retarget iv dest = bseq [packet_newIV iv, packet_setDestination dest]"

definition packet_destination :: "buffer \<Rightarrow> address result" where
  "packet_destination p = bindE (buf_get p IDX_DEST 5) (\<lambda>bs. address_setTo bs 5)"

definition packet_source :: "buffer \<Rightarrow> address result" where
  "packet_source p = bindE (buf_get p IDX_SOURCE 5) (\<lambda>bs. address_setTo bs 5)"

definition packet_lengthValid :: "buffer \<Rightarrow> bool" where
  "packet_lengthValid p \<longleftrightarrow> buf_size p \<ge> MIN_PACKET_LENGTH"

definition packet_fragmented :: "buffer \<Rightarrow> bool result" where
  "packet_fragmented p = bindE (buf_index p IDX_FLAGS) (\<lambda>b. Inr (b AND FLAG_FRAGMENTED \<noteq> 0))"

definition packet_setFragmented :: "bool \<Rightarrow> buffer \<Rightarrow> buffer result" where
  "packet_setFragmented f =
    (if f then buf_modify IDX_FLAGS (\<lambda>b. b OR FLAG_FRAGMENTED) else buf_modify IDX_FLAGS (\<lambda>b. b AND NOT FLAG_FRAGMENTED))"

definition packet_extendedArmor :: "buffer \<Rightarrow> bool result" where
  "packet_extendedArmor p = bindE (buf_index p IDX_FLAGS) (\<lambda>b. Inr (b AND FLAG_EXTENDED_ARMOR \<noteq> 0))"

definition packet_setExtendedArmor :: "bool \<Rightarrow> buffer \<Rightarrow> buffer result" where
  "packet_setExtendedArmor f =
    (if f then buf_modify IDX_FLAGS (\<lambda>b. b OR FLAG_EXTENDED_ARMOR) else buf_modify IDX_FLAGS (\<lambda>b. b AND NOT FLAG_EXTENDED_ARMOR))"

definition packet_compressed :: "buffer \<Rightarrow> bool result" where
  "packet_compressed p = bindE (buf_index p IDX_VERB) (\<lambda>b. Inr (b AND 0x80 \<noteq> 0))"

definition packet_hops :: "buffer \<Rightarrow> nat result" where
  "packet_hops p = bindE (buf_index p IDX_FLAGS) (\<lambda>b. Inr (unat (b AND 0x07)))"

definition packet_incrementHops :: "buffer \<Rightarrow> buffer result" where
  "packet_incrementHops = buf_modify IDX_FLAGS (\<lambda>b. (b AND 0xf8) OR ((b + 1) AND 0x07))"

definition packet_cipher :: "buffer \<Rightarrow> nat result" where
  "packet_cipher p = bindE (buf_index p IDX_FLAGS) (\<lambda>b. Inr (unat (drop_bit 3 (b AND 0x38))))"

definition packet_isEncrypted :: "buffer \<Rightarrow> bool result" where
  "packet_isEncrypted p = bindE (packet_cipher p) (\<lambda>c. Inr (c = CIPHER_POLY1305_SALSA2012 \<or> c = CIPHER_AES_GMAC_SIV))"

definition packet_setCipher :: "nat \<Rightarrow> buffer \<Rightarrow> buffer result" where
  "packet_setCipher c = buf_modify IDX_FLAGS (\<lambda>b. (b AND 0xc7) OR (push_bit 3 (of_nat c) AND 0x38))"

definition packet_trustedPathId :: "buffer \<Rightarrow> u64 result" where
  "packet_trustedPathId p = buf_at 8 p IDX_MAC"

definition packet_setTrusted :: "u64 \<Rightarrow> buffer \<Rightarrow> buffer result" where
  "packet_setTrusted tpid p = bindE (packet_setCipher CIPHER_TRUSTED_PATH p) (\<lambda>p. buf_setAt 8 p IDX_MAC tpid)"

definition packet_packetId :: "buffer \<Rightarrow> u64 result" where
  "packet_packetId p = buf_at 8 p IDX_IV"

definition packet_verb :: "buffer \<Rightarrow> u8 result" where
  "packet_verb p = bindE (buf_index p IDX_VERB) (\<lambda>b. Inr (b AND 0x1f))"

definition packet_payloadLength :: "buffer \<Rightarrow> nat" where
  "packet_payloadLength p = (if buf_size p < MIN_PACKET_LENGTH then 0 else buf_size p - MIN_PACKET_LENGTH)"

definition packet_payload :: "buffer \<Rightarrow> bytes result" where
  "packet_payload p = bindE (buf_field p IDX_PAYLOAD (usub (buf_size p) IDX_PAYLOAD))
    (\<lambda>i. mem_read (buf_b p) i (packet_payloadLength p))"

text \<open>\<open>_salsa20MangleKey\<close> reads the array without bounds checks; \<open>k\<close> is the key of 32 bytes.\<close>

definition salsa20MangleKey :: "bytes \<Rightarrow> buffer \<Rightarrow> bytes result" where
  "salsa20MangleKey k p =
    (if length k \<noteq> 32 then Inl UndefinedBehaviour
     else bindE (mem_read (buf_b p) 0 19) (\<lambda>d.
       Inr (map2 (XOR) (take 18 k) (take 18 d)
            @ [k ! 18 XOR (d ! IDX_FLAGS AND 0xf8), k ! 19 XOR of_nat (buf_size p mod 256),
               k ! 20 XOR of_nat (buf_size p div 256 mod 256)]
            @ drop 21 k)))"

section \<open>Fragments\<close>

text \<open>\<open>b\<close> is the fragment's own buffer before; \<open>fragStart + fragLen\<close> is a 32-bit sum.\<close>

definition fragment_init :: "buffer \<Rightarrow> nat \<Rightarrow> nat \<Rightarrow> nat \<Rightarrow> nat \<Rightarrow> buffer \<Rightarrow> buffer result" where
  "fragment_init p fragStart fragLen fragNo fragTotal b =
    (if uadd fragStart fragLen > buf_size p then Inl oob
     else bindE (buf_setSize (uadd fragLen MIN_FRAGMENT_LENGTH) b) (\<lambda>b.
       bindE (buf_get p IDX_IV 13) (\<lambda>hd13.
       bseq [buf_poke 0 hd13,
             \<lambda>b. buf_index_set b FRAGMENT_IDX_INDICATOR FRAGMENT_INDICATOR,
             \<lambda>b. buf_index_set b FRAGMENT_IDX_NO (push_bit 4 (of_nat fragTotal AND 0xf) OR (of_nat fragNo AND 0xf)),
             \<lambda>b. buf_index_set b FRAGMENT_IDX_HOPS 0,
             \<lambda>b. bindE (buf_get p fragStart fragLen) (\<lambda>bs. buf_poke MIN_FRAGMENT_LENGTH bs b)] b)))"

definition fragment_destination :: "buffer \<Rightarrow> address result" where
  "fragment_destination f = bindE (buf_get f 8 5) (\<lambda>bs. address_setTo bs 5)"

definition fragment_lengthValid :: "buffer \<Rightarrow> bool" where
  "fragment_lengthValid f \<longleftrightarrow> buf_size f \<ge> MIN_FRAGMENT_LENGTH"

definition fragment_packetId :: "buffer \<Rightarrow> u64 result" where
  "fragment_packetId f = buf_at 8 f 0"

definition fragment_totalFragments :: "buffer \<Rightarrow> nat result" where
  "fragment_totalFragments f = bindE (buf_index f FRAGMENT_IDX_NO) (\<lambda>b. Inr (unat (drop_bit 4 b AND 0xf)))"

definition fragment_fragmentNumber :: "buffer \<Rightarrow> nat result" where
  "fragment_fragmentNumber f = bindE (buf_index f FRAGMENT_IDX_NO) (\<lambda>b. Inr (unat (b AND 0xf)))"

definition fragment_hops :: "buffer \<Rightarrow> nat result" where
  "fragment_hops f = bindE (buf_index f FRAGMENT_IDX_HOPS) (\<lambda>b. Inr (unat b))"

definition fragment_incrementHops :: "buffer \<Rightarrow> buffer result" where
  "fragment_incrementHops = buf_modify FRAGMENT_IDX_HOPS (\<lambda>b. (b + 1) AND 7)"

definition fragment_payloadLength :: "buffer \<Rightarrow> nat" where
  "fragment_payloadLength f = (if buf_size f > MIN_FRAGMENT_LENGTH then buf_size f - MIN_FRAGMENT_LENGTH else 0)"

text \<open>The bytes behind the pointer \<open>payload()\<close>, as many as \<open>payloadLength()\<close> says.\<close>

definition fragment_payload :: "buffer \<Rightarrow> bytes result" where
  "fragment_payload f = bindE (buf_field f MIN_FRAGMENT_LENGTH (usub (buf_size f) MIN_FRAGMENT_LENGTH))
    (\<lambda>i. mem_read (buf_b f) i (fragment_payloadLength f))"

section \<open>Contents of packets and fragments\<close>

definition buf_upd :: "nat \<Rightarrow> bytes \<Rightarrow> buffer \<Rightarrow> buffer" where
  "buf_upd i bs b = b\<lparr>buf_b := take i (buf_b b) @ bs @ drop (i + length bs) (buf_b b)\<rparr>"

definition patch :: "nat \<Rightarrow> bytes \<Rightarrow> bytes \<Rightarrow> bytes" where
  "patch i bs d = take i d @ bs @ drop (i + length bs) d"

definition fragment_wire :: "bytes \<Rightarrow> nat \<Rightarrow> nat \<Rightarrow> nat \<Rightarrow> nat \<Rightarrow> bytes" where
  "fragment_wire d fragStart fragLen fragNo fragTotal =
    take 13 d @ [0xff, of_nat (16 * fragTotal + fragNo), 0] @ take fragLen (drop fragStart d)"

section \<open>The contents of a buffer under the header operations\<close>

lemma buf_l_upd [simp]: "buf_l (buf_upd i bs b) = buf_l b"
  by (simp add: buf_upd_def)

lemma buf_size_upd [simp]: "buf_size (buf_upd i bs b) = buf_size b"
  by (simp add: buf_size_def)

lemma buf_capacity_upd [simp]: "i + length bs \<le> buf_capacity b \<Longrightarrow> buf_capacity (buf_upd i bs b) = buf_capacity b"
  by (simp add: buf_upd_def buf_capacity_def)

lemma buf_capacity_upd_l [simp]: "buf_inv b \<Longrightarrow> i + length bs \<le> buf_l b \<Longrightarrow> buf_capacity (buf_upd i bs b) = buf_capacity b"
  by (simp add: buf_inv_def)

lemma buf_inv_upd [simp]: "buf_inv b \<Longrightarrow> i + length bs \<le> buf_l b \<Longrightarrow> buf_inv (buf_upd i bs b)"
  by (simp add: buf_inv_def)

lemma buf_data_upd [simp]: "buf_inv b \<Longrightarrow> i + length bs \<le> buf_l b \<Longrightarrow> buf_data (buf_upd i bs b) = patch i bs (buf_data b)"
  by (simp add: buf_data_def buf_upd_def patch_def buf_inv_def buf_capacity_def drop_take min.absorb1 min.absorb2)

lemma length_patch [simp]: "i + length bs \<le> length d \<Longrightarrow> length (patch i bs d) = length d"
  by (simp add: patch_def)

lemma nth_patch:
  "j < length d \<Longrightarrow> i + length bs \<le> length d \<Longrightarrow> patch i bs d ! j = (if i \<le> j \<and> j < i + length bs then bs ! (j - i) else d ! j)"
  by (auto simp: patch_def nth_append min_def)

lemma take_patch [simp]: "n \<le> i \<Longrightarrow> i \<le> length d \<Longrightarrow> take n (patch i bs d) = take n d"
  by (simp add: patch_def min_def)

lemma drop_patch [simp]: "i + length bs \<le> n \<Longrightarrow> i \<le> length d \<Longrightarrow> drop n (patch i bs d) = drop n d"
  by (simp add: patch_def)

lemma buf_poke_upd: "buf_inv b \<Longrightarrow> i + length bs \<le> buf_l b \<Longrightarrow> buf_poke i bs b = Inr (buf_upd i bs b)"
  by (simp add: buf_poke_def buf_field_def buf_upd_def mem_write_def buf_inv_def buf_capacity_def)

lemma buf_index_set_upd: "buf_inv b \<Longrightarrow> i < buf_l b \<Longrightarrow> buf_index_set b i v = Inr (buf_upd i [v] b)"
  by (simp add: buf_index_set_def buf_upd_def mem_write_def buf_inv_def buf_capacity_def)

lemma buf_modify_upd: "buf_inv b \<Longrightarrow> i < buf_l b \<Longrightarrow> buf_modify i f b = Inr (buf_upd i [f (buf_data b ! i)] b)"
  by (simp add: buf_modify_def buf_index_data buf_index_set_upd)

lemma buf_get_data:
  "buf_inv b \<Longrightarrow> p + n \<le> buf_l b \<Longrightarrow> buf_get b p n = Inr (take n (drop p (buf_data b)))"
  by (simp add: buf_get_def buf_field_def mem_read_def buf_inv_def buf_capacity_def buf_data_def drop_take min_def)

lemma buf_setAt_upd:
  "buf_inv b \<Longrightarrow> i + sz \<le> buf_l b \<Longrightarrow> buf_setAt sz b i v = Inr (buf_upd i (be_bytes sz v) b)"
  by (simp add: buf_setAt_def buf_upd_def mem_write_def buf_inv_def buf_capacity_def)

lemmas buf_upd_eqs = buf_poke_upd buf_index_set_upd buf_modify_upd buf_get_data buf_setAt_upd

section \<open>The flags byte\<close>

lemma flag_masks:
  "(0x07::u8) = mask 3" "(0xf8::u8) = NOT (mask 3)" "(0x38::u8) = push_bit 3 (mask 3)" "(0xc7::u8) = NOT (push_bit 3 (mask 3))"
  by (simp_all add: mask_eq_exp_minus_1)

lemma flag_bits: "bit (0x40::int) n = (n = 6)" "bit (0x80::int) n = (n = 7)"
  using bit_exp_iff [of 6 n, where ?'a = int] bit_exp_iff [of 7 n, where ?'a = int] by auto

lemma hops_bits:
  fixes x :: u8
  defines "y \<equiv> (x AND 0xf8) OR ((x + 1) AND 0x07)"
  shows "y AND 0xf8 = x AND 0xf8" "unat (y AND 0x07) = (unat (x AND 0x07) + 1) mod 8" "y AND 0x38 = x AND 0x38"
    "y AND 0x40 = x AND 0x40" "y AND 0x80 = x AND 0x80"
proof -
  have "y AND 0x07 = (x + 1) AND 0x07"
    unfolding y_def flag_masks by (rule bit_word_eqI) (auto simp: bit_simps flag_bits)
  then have "y AND 0x07 = take_bit 3 (x + 1)" unfolding flag_masks by (simp add: take_bit_eq_mask)
  then show "unat (y AND 0x07) = (unat (x AND 0x07) + 1) mod 8"
    unfolding flag_masks by (simp add: zt_bits take_bit_eq_mask [symmetric] unat_word_ariths mod_mod_cancel mod_simps)
qed (unfold y_def flag_masks, (rule bit_word_eqI, auto simp: bit_simps flag_bits)+)

lemma cipher_bits:
  fixes x :: u8
  assumes "c < 8"
  defines "y \<equiv> (x AND 0xc7) OR (push_bit 3 (of_nat c) AND 0x38)"
  shows "y AND 0x07 = x AND 0x07" "unat (drop_bit 3 (y AND 0x38)) = c" "y AND 0x40 = x AND 0x40" "y AND 0x80 = x AND 0x80"
proof -
  have "drop_bit 3 (y AND 0x38) = take_bit 3 (of_nat c)"
    unfolding y_def flag_masks by (rule bit_word_eqI) (auto simp: bit_simps flag_bits)
  then show "unat (drop_bit 3 (y AND 0x38)) = c" using assms(1) by (simp add: zt_bits unat_of_nat)
qed (unfold y_def flag_masks, (rule bit_word_eqI, auto simp: bit_simps flag_bits)+)

lemma fragmented_bits:
  fixes x :: u8 and f :: bool
  defines "y \<equiv> (if f then x OR 0x40 else x AND NOT 0x40)"
  shows "y AND 0x07 = x AND 0x07" "y AND 0x38 = x AND 0x38" "(y AND 0x40 \<noteq> 0) = f" "y AND 0x80 = x AND 0x80"
proof -
  have "y AND 0x40 = (if f then 0x40 else 0)"
    unfolding y_def flag_masks by (rule bit_word_eqI) (auto simp: bit_simps flag_bits)
  then show "(y AND 0x40 \<noteq> 0) = f" by simp
qed (unfold y_def flag_masks, (rule bit_word_eqI, auto simp: bit_simps flag_bits)+)

lemmas header_getters = packet_hops_def packet_cipher_def packet_fragmented_def packet_extendedArmor_def

lemma mangle_data:
  assumes "buf_inv p" "19 \<le> buf_l p" "length k = 32"
  shows "salsa20MangleKey k p = Inr (map2 (XOR) (take 18 k) (take 18 (buf_data p))
     @ [k ! 18 XOR (buf_data p ! 18 AND 0xf8), k ! 19 XOR of_nat (buf_size p mod 256), k ! 20 XOR of_nat (buf_size p div 256 mod 256)]
     @ drop 21 k)"
  using assms by (simp add: salsa20MangleKey_def mem_read_def buf_inv_def buf_capacity_def buf_data_def min_def)

text \<open>the flags, the cipher suite and the hop count share one byte of the header, and each setter changes its own field only; a relay that increments the hop count
  changes no other byte and not the key the packet is encrypted with.\<close>

theorem packet_header_fields:
  assumes "buf_inv p" "MIN_PACKET_LENGTH \<le> buf_size p" "length k = 32" "packet_hops p = Inr h" "packet_cipher p = Inr c"
    "packet_fragmented p = Inr fr" "packet_extendedArmor p = Inr ea" "c' < 8"
  shows "\<exists>p1 p2 p3. packet_incrementHops p = Inr p1 \<and> packet_setCipher c' p = Inr p2 \<and> packet_setFragmented f p = Inr p3
    \<and> packet_hops p1 = Inr ((h + 1) mod 8) \<and> packet_cipher p1 = Inr c \<and> packet_fragmented p1 = Inr fr \<and> packet_extendedArmor p1 = Inr ea
    \<and> salsa20MangleKey k p1 = salsa20MangleKey k p
    \<and> take IDX_FLAGS (buf_data p1) = take IDX_FLAGS (buf_data p) \<and> drop IDX_MAC (buf_data p1) = drop IDX_MAC (buf_data p)
    \<and> packet_hops p2 = Inr h \<and> packet_cipher p2 = Inr c' \<and> packet_fragmented p2 = Inr fr \<and> packet_extendedArmor p2 = Inr ea
    \<and> packet_hops p3 = Inr h \<and> packet_cipher p3 = Inr c \<and> packet_fragmented p3 = Inr f \<and> packet_extendedArmor p3 = Inr ea"
proof -
  define x where "x = buf_data p ! 18"
  have l: "18 < buf_l p" "19 \<le> buf_l p" using assms(2) by (simp_all add: buf_size_def)
  have get: "h = unat (x AND 0x07)" "c = unat (drop_bit 3 (x AND 0x38))" "fr = (x AND 0x40 \<noteq> 0)" "ea = (x AND 0x80 \<noteq> 0)"
    using assms(1,4-7) l by (simp_all add: header_getters buf_index_data x_def)
  have f3: "(x OR 64) AND 7 = x AND 7 \<and> (x OR 64) AND 56 = x AND 56 \<and> (x OR 64) AND 64 \<noteq> 0 \<and> (x OR 64) AND 128 = x AND 128"
    "(x AND NOT 64) AND 7 = x AND 7 \<and> (x AND NOT 64) AND 56 = x AND 56 \<and> (x AND NOT 64) AND 64 = 0 \<and> (x AND NOT 64) AND 128 = x AND 128"
    using fragmented_bits [of True x] fragmented_bits [of False x] by simp_all
  note set = packet_incrementHops_def packet_setCipher_def packet_setFragmented_def buf_modify_upd [OF assms(1) l(1)]
  show ?thesis
    using assms(1,3,8) l hops_bits [of x] cipher_bits [OF assms(8), of x] f3
    by (simp add: set header_getters buf_index_data nth_patch get x_def [symmetric] mangle_data del: drop_bit_and)
qed

theorem packet_header_fields_witness:
  "\<exists>p1. packet_incrementHops \<lparr>buf_b = replicate 28 1, buf_l = 28\<rparr> = Inr p1 \<and> packet_hops p1 = Inr 2
    \<and> salsa20MangleKey (replicate 32 7) p1 = salsa20MangleKey (replicate 32 7) \<lparr>buf_b = replicate 28 1, buf_l = 28\<rparr>"
proof -
  let ?p = "\<lparr>buf_b = replicate 28 1, buf_l = 28\<rparr>"
  have h: "packet_hops ?p = Inr 1" "packet_cipher ?p = Inr 0" "packet_fragmented ?p = Inr False" "packet_extendedArmor ?p = Inr False"
    by (simp_all add: header_getters buf_index_def mem_read_def)
  have c: "(1::nat) < 8" by simp
  have inv: "buf_inv ?p" "28 \<le> buf_size ?p" "length (replicate 32 (7 :: u8)) = 32"
    by (simp_all add: buf_inv_def buf_capacity_def buf_size_def)
  obtain p1 where p1: "packet_incrementHops ?p = Inr p1" "packet_hops p1 = Inr ((1 + 1) mod 8)"
    "salsa20MangleKey (replicate 32 7) p1 = salsa20MangleKey (replicate 32 7) ?p"
    using packet_header_fields [OF inv h c, of True] by blast
  have "(1 + 1) mod 8 = (2 :: nat)" by simp
  with p1 show ?thesis by metis
qed

section \<open>The contents of fragments\<close>

lemma patch_drop: "length xs = i \<Longrightarrow> patch i bs (xs @ drop i e) = (xs @ bs) @ drop (i + length bs) e"
  by (simp add: patch_def ac_simps)

lemma patch_0: "patch 0 bs e = bs @ drop (length bs) e"
  by (simp add: patch_def)

lemma nibbles:
  assumes "n < 16" "t < 16"
  shows "push_bit 4 (of_nat t) AND 0xf0 OR (of_nat n AND 0xf) = (of_nat (16 * t + n) :: u8)"
proof -
  have s: "of_nat k AND 0xf = (of_nat k :: u8)" if "k < 16" for k
    using that by (simp add: and_15 take_bit_of_nat take_bit_nat_eq_self)
  have b: "bit n k \<Longrightarrow> k < 4" for k
    using assms(1) bit_take_bit_iff [of 4 n k] by (simp add: take_bit_nat_eq_self)
  have "(of_nat (16 * t + n) :: u8) = push_bit 4 (of_nat t) + of_nat n" by (simp add: push_bit_eq_mult)
  also have "\<dots> = push_bit 4 (of_nat t) OR of_nat n"
    by (rule disjunctive_add) (auto simp: bit_simps dest: b)
  finally have "(of_nat (16 * t + n) :: u8) = push_bit 4 (of_nat t AND 0xf) OR (of_nat n AND 0xf)" by (simp only: s assms)
  then show ?thesis by simp
qed

lemma nibble_fields:
  assumes "n < 16" "t < 16"
  shows "unat (drop_bit 4 (of_nat (16 * t + n) :: u8) AND 0xf) = t" "unat ((of_nat (16 * t + n) :: u8) AND 0xf) = n"
proof -
  define y where "y = (of_nat (16 * t + n) :: u8)"
  have "16 * t + n < 256" using assms by simp
  then have u: "unat y = 16 * t + n" using unat_of_nat [of "16 * t + n", where ?'a = 8] by (simp add: y_def del: of_nat_add of_nat_mult)
  show "unat (drop_bit 4 (of_nat (16 * t + n) :: u8) AND 0xf) = t" "unat ((of_nat (16 * t + n) :: u8) AND 0xf) = n"
    unfolding y_def [symmetric] using assms by (simp_all add: and_15 zt_bits u)
qed

lemma fragment_init_data:
  assumes "buf_inv p" "buf_inv b" "13 \<le> buf_l p" "s + n \<le> buf_l p" "n + 16 \<le> buf_capacity b" "no < 16" "t < 16"
  shows "\<exists>f. fragment_init p s n no t b = Inr f \<and> buf_inv f \<and> buf_capacity f = buf_capacity b
    \<and> buf_l f = n + 16 \<and> buf_data f = fragment_wire (buf_data p) s n no t"
proof -
  have small: "uadd s n = s + n" "uadd n 16 = n + 16"
    using assms by (auto intro!: uadd_small simp: buf_inv_def)
  define b0 where "b0 = b\<lparr>buf_l := n + 16\<rparr>"
  have b0: "buf_setSize (n + 16) b = Inr b0" "buf_inv b0" "buf_l b0 = n + 16" "buf_capacity b0 = buf_capacity b"
    using assms(2,5) by (auto simp: b0_def buf_setSize_def buf_inv_def buf_capacity_def)
  define d where "d = buf_data p"
  have d: "length (take 13 d) = 13" "length (take n (drop s d)) = n" using assms by (simp_all add: d_def)
  define e where "e = buf_data b0"
  have e: "length e = n + 16" using b0(2,3) by (simp add: e_def)
  have "patch 16 (take n (drop s d)) (patch 15 [0] (patch 14 [x] (patch 13 [0xff] (patch 0 (take 13 d) e))))
      = take 13 d @ [0xff, x, 0] @ take n (drop s d)" for x
    using d e by (simp add: patch_0 patch_drop [of _ 13] patch_drop [of _ 14] patch_drop [of _ 15] patch_drop [of _ 16] del: append_assoc)
  then show ?thesis
    using assms small b0 d
    by (simp add: fragment_init_def buf_size_def buf_upd_eqs d_def [symmetric] e_def [symmetric] nibbles fragment_wire_def)
qed

lemma fragment_payload_data:
  assumes "buf_inv f" "16 \<le> buf_capacity f"
  shows "fragment_payload f = Inr (drop 16 (buf_data f))"
proof (cases "16 \<le> buf_l f")
  case True
  moreover have "buf_l f < 2 ^ 32" using assms(1) by (auto simp: buf_inv_def)
  ultimately show ?thesis
    using assms by (simp add: fragment_payload_def fragment_payloadLength_def buf_size_def buf_field_def mem_read_def buf_inv_def
      buf_capacity_def buf_data_def drop_take)
next
  case False
  then have "uadd 16 (usub (buf_l f) 16) = buf_l f" by (simp add: uadd_def usub_def)
  then show ?thesis
    using assms False by (simp add: fragment_payload_def fragment_payloadLength_def buf_size_def buf_field_def mem_read_def buf_inv_def
      buf_capacity_def buf_data_def)
qed

text \<open>What the accessors read from a fragment with the given contents.\<close>

lemma fragment_fields:
  assumes "buf_inv f" "buf_data f = fragment_wire d s n no t" "13 \<le> length d" "s + n \<le> length d" "no < 16" "t < 16"
  shows "fragment_packetId f = Inr (be_word (take 8 d))" "fragment_destination f = Inr (be_word (take 5 (drop 8 d)))"
    "fragment_totalFragments f = Inr t" "fragment_fragmentNumber f = Inr no" "fragment_hops f = Inr 0"
    "fragment_payload f = Inr (take n (drop s d))"
proof -
  have d: "length (take 13 d) = 13" "length (take n (drop s d)) = n" using assms(3,4) by simp_all
  have l: "buf_l f = n + 16" using assms(1,2) d buf_data_length [OF assms(1)] by (simp add: fragment_wire_def)
  have w: "buf_data f ! 14 = of_nat (16 * t + no)" "buf_data f ! 15 = 0" "take 8 (buf_data f) = take 8 d"
    "take 5 (drop 8 (buf_data f)) = take 5 (drop 8 d)" "drop 16 (buf_data f) = take n (drop s d)"
    using assms(2,3) d by (simp_all add: fragment_wire_def nth_append min_def drop_take) arith
  show "fragment_packetId f = Inr (be_word (take 8 d))"
    using assms(1) l w by (simp add: fragment_packetId_def buf_at_data)
  show "fragment_destination f = Inr (be_word (take 5 (drop 8 d)))"
    using assms(1,3) l w by (simp add: fragment_destination_def buf_get_data address_setTo_be)
  show "fragment_totalFragments f = Inr t" "fragment_fragmentNumber f = Inr no" "fragment_hops f = Inr 0"
    using assms(1) l w nibble_fields [OF assms(5,6)]
    by (simp_all add: fragment_totalFragments_def fragment_fragmentNumber_def fragment_hops_def buf_index_data)
  show "fragment_payload f = Inr (take n (drop s d))"
    using assms(1) l w(5) by (subst fragment_payload_data) (auto simp: buf_inv_def)
qed

lemma packet_new_data:
  assumes "28 \<le> length mem" "length mem \<le> 2 ^ 31" "8 \<le> length iv"
  shows "\<exists>p. packet_new mem iv dest src v = Inr p \<and> buf_inv p \<and> buf_l p = 28 \<and> buf_capacity p = length mem
    \<and> packet_destination p = Inr (take_bit 40 dest) \<and> packet_source p = Inr (take_bit 40 src) \<and> packet_verb p = Inr (v AND 0x1f)
    \<and> packet_hops p = Inr 0 \<and> packet_cipher p = Inr 0 \<and> packet_fragmented p = Inr False \<and> packet_extendedArmor p = Inr False"
proof -
  define b0 where "b0 = \<lparr>buf_b = mem, buf_l = 28\<rparr>"
  have b0: "buf_inv b0" "buf_l b0 = 28" "buf_capacity b0 = length mem" using assms by (simp_all add: b0_def buf_inv_def buf_capacity_def)
  define p where "p = buf_upd 27 [v] (buf_upd 18 [0] (buf_upd 13 (be_bytes 5 src) (buf_upd 8 (be_bytes 5 dest) (buf_upd 0 (take 8 iv) b0))))"
  have n: "packet_new mem iv dest src v = Inr p"
    using assms b0 by (simp add: packet_new_def buf_new_size_def b0_def [symmetric] packet_newIV_def packet_setDestination_def
      packet_setSource_def packet_setVerb_def buf_upd_eqs address_octets_be p_def min_def del: be_bytes_numeral)
  have i: "buf_inv p" "buf_l p = 28" "buf_capacity p = length mem"
    using assms b0 by (simp_all add: p_def min_def del: be_bytes_numeral)
  have d: "buf_data p = patch 27 [v] (patch 18 [0] (patch 13 (be_bytes 5 src) (patch 8 (be_bytes 5 dest) (patch 0 (take 8 iv) (buf_data b0)))))"
    using assms b0 by (simp add: p_def min_def del: be_bytes_numeral)
  have l: "length (buf_data b0) = 28" using b0 by simp
  have "take 5 (drop 8 (buf_data p)) = be_bytes 5 dest" "take 5 (drop 13 (buf_data p)) = be_bytes 5 src" "buf_data p ! 18 = 0" "buf_data p ! 27 = v"
    using l assms(3) by (simp_all add: d patch_def drop_take nth_append min_def del: be_bytes_numeral)
  then show ?thesis
    using n i by (simp add: packet_destination_def packet_source_def buf_get_data address_setTo_be be_word_be_bytes packet_verb_def
      header_getters buf_index_data del: be_bytes_numeral)
qed

end
