(* ===== verification/ZT_Switch.thy ===== *)
theory ZT_Switch
  imports ZT_Packet ZT_Membership "HOL-Library.Multiset"
begin

text \<open>
  \<^verbatim>\<open>node/Switch.hpp\<close> and \<^verbatim>\<open>node/Switch.cpp\<close>: the receive queue that reassembles fragmented packets, relaying, the cutting of a packet into
  fragments, the transmit queue of packets whose destination is not known yet, and the rate-limited requests for
  identities. Peers, paths and the decoding of a whole packet are other components: what they answer
  are the fields of \<open>sw_env\<close>, and what the switch asks of them is the list of events an operation returns. Exceptions inside
  \<open>onRemotePacket\<close> are swallowed there and leave the state as it was when they were thrown.
\<close>

section \<open>State\<close>

type_synonym path = "u64 \<times> inetaddress"

text \<open>\<open>IncomingPacket\<close> is a packet with the time and the path it came by.\<close>

record incoming_packet =
  ip_packet :: buffer
  ip_receiveTime :: u64
  ip_path :: path
  ip_authenticated :: bool

record rx_entry =
  rq_timestamp :: u64
  rq_packetId :: u64
  rq_frag0 :: incoming_packet
  rq_frags :: "buffer list"
  rq_totalFragments :: nat
  rq_haveFragments :: u32
  rq_complete :: bool

record tx_entry =
  tx_dest :: address
  tx_nwid :: u64
  tx_creationTime :: u64
  tx_packet :: buffer
  tx_encrypt :: bool

type_synonym unite_key = "u64 \<times> u64"

record switch =
  sw_lastCheckedQueues :: u64
  sw_lastSentWhois :: "(address, u64) hashtable"
  sw_rxQueue :: "rx_entry list"
  sw_rxQueuePtr :: u32
  sw_txQueue :: "tx_entry list"
  sw_lastUnite :: "(unite_key, u64) hashtable"

text \<open>The answers of the other components during an operation: this node's address, the time, whether this node is an upstream, the
  trust in a path, the known peers, the results of sending to a peer directly and through any path,
  the upstream for a network, and the decoder, which may change the packet and says whether it is done with it. \<open>se_mem\<close> and
  \<open>se_iv\<close> are the memory and the random bytes of a new packet.\<close>

record sw_env =
  se_self :: address
  se_now :: u64
  se_amUpstream :: bool
  se_trustEstablished :: "path \<Rightarrow> bool"
  se_peer :: "address \<Rightarrow> bool"
  se_sendDirect :: "address \<Rightarrow> bytes \<Rightarrow> bool \<Rightarrow> bool"
  se_trySend :: "buffer \<Rightarrow> bool \<Rightarrow> u64 \<Rightarrow> bool"
  se_upstream :: "u64 \<Rightarrow> address option"
  se_tryDecode :: "incoming_packet \<Rightarrow> incoming_packet \<times> bool"
  se_alloc :: "nat \<Rightarrow> bool"
  se_mem :: bytes
  se_iv :: bytes

datatype sw_event =
    TryDecode bytes
  | SendDirect address bytes bool
  | Introduce address address
  | Sent bytes bool u64

abbreviation (input) RX_QUEUE_SIZE :: nat where "RX_QUEUE_SIZE \<equiv> 32"
abbreviation (input) TX_QUEUE_SIZE :: nat where "TX_QUEUE_SIZE \<equiv> 32"
abbreviation (input) MAX_PACKET_FRAGMENTS :: nat where "MAX_PACKET_FRAGMENTS \<equiv> 7"
abbreviation (input) RELAY_MAX_HOPS :: nat where "RELAY_MAX_HOPS \<equiv> 3"
abbreviation (input) WHOIS_RETRY_DELAY :: nat where "WHOIS_RETRY_DELAY \<equiv> 500"
abbreviation (input) TRANSMIT_QUEUE_TIMEOUT :: nat where "TRANSMIT_QUEUE_TIMEOUT \<equiv> 5000"
abbreviation (input) MIN_UNITE_INTERVAL :: nat where "MIN_UNITE_INTERVAL \<equiv> 30000"

section \<open>The receive queue\<close>

definition ip_init :: "bytes \<Rightarrow> path \<Rightarrow> u64 \<Rightarrow> incoming_packet \<Rightarrow> incoming_packet result" where
  "ip_init data path now h =
    bindE (buf_copyFrom (ip_packet h) data (length data)) (\<lambda>b.
      Inr \<lparr>ip_packet = b, ip_receiveTime = now, ip_path = path, ip_authenticated = False\<rparr>)"

fun find_rx :: "rx_entry list \<Rightarrow> u32 \<Rightarrow> u64 \<Rightarrow> nat list \<Rightarrow> nat option" where
  "find_rx q current packetId [] = None"
| "find_rx q current packetId (k # ks) =
    (let i = unat (current - of_nat k) mod RX_QUEUE_SIZE in
     if rq_packetId (q ! i) = packetId \<and> rq_timestamp (q ! i) \<noteq> 0 then Some i else find_rx q current packetId ks)"

definition findRXQueueEntry :: "u64 \<Rightarrow> switch \<Rightarrow> nat \<times> switch" where
  "findRXQueueEntry packetId sw =
    (let current = sw_rxQueuePtr sw in
     case find_rx (sw_rxQueue sw) current packetId [1..<RX_QUEUE_SIZE + 1] of
       Some i \<Rightarrow> (i, sw)
     | None \<Rightarrow> (unat current mod RX_QUEUE_SIZE, sw\<lparr>sw_rxQueuePtr := current + 1\<rparr>))"

definition nextRXQueueEntry :: "switch \<Rightarrow> nat \<times> switch" where
  "nextRXQueueEntry sw =
    (let v = sw_rxQueuePtr sw + 1 in (unat (v - 1) mod RX_QUEUE_SIZE, sw\<lparr>sw_rxQueuePtr := v\<rparr>))"

text \<open>The appends of an assembly; \<open>False\<close> when one throws for lack of room, with what was appended before.\<close>

fun append_frags :: "buffer list \<Rightarrow> buffer \<Rightarrow> (buffer \<times> bool) result" where
  "append_frags [] b = Inr (b, True)"
| "append_frags (f # fs) b =
    (case bindE (fragment_payload f) (\<lambda>bs. buf_append_bytes bs (fragment_payloadLength f) b) of
       Inl (Throw e) \<Rightarrow> Inr (b, False)
     | Inl UndefinedBehaviour \<Rightarrow> Inl UndefinedBehaviour
     | Inr b' \<Rightarrow> append_frags fs b')"

text \<open>\<open>tryDecode\<close> first reads the source outside of its own exception handler, so a packet without a header makes it throw; \<open>se_tryDecode\<close> is the rest.\<close>

definition tryDecode :: "sw_env \<Rightarrow> incoming_packet \<Rightarrow> (incoming_packet \<times> bool) result" where
  "tryDecode E h = bindE (packet_source (ip_packet h)) (\<lambda>sourceAddress. Inr (se_tryDecode E h))"

definition run_decode :: "sw_env \<Rightarrow> rx_entry \<Rightarrow> (rx_entry \<times> sw_event list) result" where
  "run_decode E rq =
    (case tryDecode E (rq_frag0 rq) of
       Inl (Throw e) \<Rightarrow> Inr (rq, [])
     | Inl UndefinedBehaviour \<Rightarrow> Inl UndefinedBehaviour
     | Inr (h, done) \<Rightarrow>
         Inr (if done then rq\<lparr>rq_frag0 := h, rq_timestamp := 0\<rparr> else rq\<lparr>rq_frag0 := h, rq_complete := True\<rparr>,
              [TryDecode (buf_data (ip_packet (rq_frag0 rq)))]))"

definition finish_rx :: "sw_env \<Rightarrow> rx_entry \<Rightarrow> (rx_entry \<times> sw_event list) result" where
  "finish_rx E rq =
    (if rq_totalFragments rq - 1 > length (rq_frags rq) then Inl UndefinedBehaviour
     else bindE (append_frags (take (rq_totalFragments rq - 1) (rq_frags rq)) (ip_packet (rq_frag0 rq))) (\<lambda>(b, ok).
       let rq = rq\<lparr>rq_frag0 := (rq_frag0 rq)\<lparr>ip_packet := b\<rparr>\<rparr> in
       if ok then run_decode E rq else Inr (rq, [])))"

definition rx_fragment :: "sw_env \<Rightarrow> buffer \<Rightarrow> u64 \<Rightarrow> nat \<Rightarrow> nat \<Rightarrow> rx_entry \<Rightarrow> (rx_entry \<times> sw_event list) result" where
  "rx_fragment E fragment packetId fragmentNumber totalFragments rq =
    (if rq_packetId rq \<noteq> packetId then
       Inr (rq\<lparr>rq_timestamp := se_now E, rq_packetId := packetId, rq_frags := (rq_frags rq)[fragmentNumber - 1 := fragment],
              rq_totalFragments := totalFragments, rq_haveFragments := push_bit fragmentNumber 1, rq_complete := False\<rparr>, [])
     else if rq_haveFragments rq AND push_bit fragmentNumber 1 = 0 then
       let rq = rq\<lparr>rq_frags := (rq_frags rq)[fragmentNumber - 1 := fragment], rq_totalFragments := totalFragments,
                   rq_haveFragments := rq_haveFragments rq OR push_bit fragmentNumber 1\<rparr> in
       if unat (countBits32 (rq_haveFragments rq)) = totalFragments then finish_rx E rq else Inr (rq, [])
     else Inr (rq, []))"

text \<open>An exception of \<open>init\<close> leaves the entry as it is at the call.\<close>

definition rx_head :: "sw_env \<Rightarrow> path \<Rightarrow> bytes \<Rightarrow> u64 \<Rightarrow> rx_entry \<Rightarrow> (rx_entry \<times> sw_event list) result" where
  "rx_head E path data packetId rq =
    (if rq_packetId rq \<noteq> packetId then
       let rq = rq\<lparr>rq_timestamp := se_now E, rq_packetId := packetId\<rparr> in
       (case ip_init data path (se_now E) (rq_frag0 rq) of
          Inl (Throw e) \<Rightarrow> Inr (rq, [])
        | Inl UndefinedBehaviour \<Rightarrow> Inl UndefinedBehaviour
        | Inr h \<Rightarrow> Inr (rq\<lparr>rq_frag0 := h, rq_totalFragments := 0, rq_haveFragments := 1, rq_complete := False\<rparr>, []))
     else if rq_haveFragments rq AND 1 = 0 then
       let rq = (if rq_totalFragments rq > 1 then rq\<lparr>rq_haveFragments := rq_haveFragments rq OR 1\<rparr> else rq) in
       (case ip_init data path (se_now E) (rq_frag0 rq) of
          Inl (Throw e) \<Rightarrow> Inr (rq, [])
        | Inl UndefinedBehaviour \<Rightarrow> Inl UndefinedBehaviour
        | Inr h \<Rightarrow>
            let rq = rq\<lparr>rq_frag0 := h\<rparr> in
            if rq_totalFragments rq > 1 \<and> unat (countBits32 (rq_haveFragments rq)) = rq_totalFragments rq
            then finish_rx E rq else Inr (rq, []))
     else Inr (rq, []))"

section \<open>Relaying\<close>

definition unite_key_of :: "address \<Rightarrow> address \<Rightarrow> unite_key" where
  "unite_key_of a1 a2 = (if a1 > a2 then (a2, a1) else (a1, a2))"

definition unite_hash :: "unite_key \<Rightarrow> u32" where
  "unite_hash k = ucast (fst k) XOR ucast (snd k)"

definition shouldUnite :: "sw_env \<Rightarrow> address \<Rightarrow> address \<Rightarrow> switch \<Rightarrow> bool \<times> switch" where
  "shouldUnite E source destination sw =
    (let k = unite_key_of source destination;
         (ts, t) = ht_index unite_hash (se_alloc E) 0 k (sw_lastUnite sw) in
     if unat (se_now E - ts) \<ge> MIN_UNITE_INTERVAL
     then (True, sw\<lparr>sw_lastUnite := ht_set unite_hash (se_alloc E) k (se_now E) t\<rparr>)
     else (False, sw\<lparr>sw_lastUnite := t\<rparr>))"

definition relay_fragment :: "sw_env \<Rightarrow> path \<Rightarrow> buffer \<Rightarrow> address \<Rightarrow> sw_event list result" where
  "relay_fragment E path fragment destination =
    (if \<not> se_amUpstream E \<and> \<not> se_trustEstablished E path then Inr []
     else bindE (fragment_hops fragment) (\<lambda>hops.
       if hops < RELAY_MAX_HOPS then
         bindE (fragment_incrementHops fragment) (\<lambda>fragment.
           let data = buf_data fragment in
           if se_peer E destination \<and> se_sendDirect E destination data False then Inr [SendDirect destination data False]
           else Inr ((if se_peer E destination then [SendDirect destination data False] else [])
             @ (case se_upstream E 0 of None \<Rightarrow> [] | Some u \<Rightarrow> [SendDirect u data True])))
       else Inr []))"

definition introduce_source :: "sw_env \<Rightarrow> address \<Rightarrow> address \<Rightarrow> sw_event list" where
  "introduce_source E relayTo source = (if se_peer E source then [Introduce relayTo source] else [])"

definition relay_packet :: "sw_env \<Rightarrow> path \<Rightarrow> bytes \<Rightarrow> address \<Rightarrow> address \<Rightarrow> switch \<Rightarrow> (switch \<times> sw_event list) result" where
  "relay_packet E path data destination source sw =
    (if \<not> se_amUpstream E \<and> \<not> se_trustEstablished E path \<and> source \<noteq> se_self E then Inr (sw, [])
     else bindE (buf_copyFrom (buf_new (se_mem E)) data (length data)) (\<lambda>packet.
       bindE (packet_hops packet) (\<lambda>hops.
       if hops < RELAY_MAX_HOPS then
         bindE (packet_incrementHops packet) (\<lambda>packet.
           let data = buf_data packet in
           if se_peer E destination \<and> se_sendDirect E destination data False then
             (if source \<noteq> se_self E then
                let (unite, sw) = shouldUnite E source destination sw in
                Inr (sw, SendDirect destination data False # (if unite then introduce_source E destination source else []))
              else Inr (sw, [SendDirect destination data False]))
           else
             let tried = (if se_peer E destination then [SendDirect destination data False] else []) in
             (case se_upstream E 0 of
                None \<Rightarrow> Inr (sw, tried)
              | Some u \<Rightarrow>
                  if u \<noteq> source then
                    Inr (sw, tried @ SendDirect u data True # (if se_sendDirect E u data True then introduce_source E u source else []))
                  else Inr (sw, tried)))
       else Inr (sw, []))))"

section \<open>Receiving a datagram\<close>

definition on_entry :: "nat \<times> switch \<Rightarrow> (rx_entry \<Rightarrow> (rx_entry \<times> sw_event list) result) \<Rightarrow> (switch \<times> sw_event list) result" where
  "on_entry i_sw f =
    (let (i, sw) = i_sw in
     bindE (f (sw_rxQueue sw ! i)) (\<lambda>(rq, ev). Inr (sw\<lparr>sw_rxQueue := (sw_rxQueue sw)[i := rq]\<rparr>, ev)))"

definition remote_fragment :: "sw_env \<Rightarrow> path \<Rightarrow> bytes \<Rightarrow> switch \<Rightarrow> (switch \<times> sw_event list) result" where
  "remote_fragment E path data sw =
    bindE (buf_copyFrom (buf_new (se_mem E)) data (length data)) (\<lambda>fragment.
    bindE (fragment_destination fragment) (\<lambda>destination.
      if destination \<noteq> se_self E then bindE (relay_fragment E path fragment destination) (\<lambda>ev. Inr (sw, ev))
      else
        bindE (fragment_packetId fragment) (\<lambda>packetId.
        bindE (fragment_fragmentNumber fragment) (\<lambda>fragmentNumber.
        bindE (fragment_totalFragments fragment) (\<lambda>totalFragments.
          if totalFragments \<le> MAX_PACKET_FRAGMENTS \<and> fragmentNumber < MAX_PACKET_FRAGMENTS \<and> fragmentNumber > 0 \<and> totalFragments > 1
          then on_entry (findRXQueueEntry packetId sw) (rx_fragment E fragment packetId fragmentNumber totalFragments)
          else Inr (sw, []))))))"

text \<open>A packet in one piece that could not be decoded yet.\<close>

definition rx_whole :: "sw_env \<Rightarrow> bytes \<Rightarrow> incoming_packet \<Rightarrow> rx_entry \<Rightarrow> (rx_entry \<times> sw_event list) result" where
  "rx_whole E data h rq =
    (let rq = rq\<lparr>rq_timestamp := se_now E\<rparr> in
     case packet_packetId (ip_packet h) of
       Inl (Throw e) \<Rightarrow> Inr (rq, [TryDecode data])
     | Inl UndefinedBehaviour \<Rightarrow> Inl UndefinedBehaviour
     | Inr packetId \<Rightarrow>
         Inr (rq\<lparr>rq_packetId := packetId, rq_frag0 := h, rq_totalFragments := 1, rq_haveFragments := 1, rq_complete := True\<rparr>,
              [TryDecode data]))"

definition remote_packet :: "sw_env \<Rightarrow> path \<Rightarrow> bytes \<Rightarrow> switch \<Rightarrow> (switch \<times> sw_event list) result" where
  "remote_packet E path data sw =
    bindE (address_setTo (drop 8 data) 5) (\<lambda>destination.
    bindE (address_setTo (drop 13 data) 5) (\<lambda>source.
      if source = se_self E then Inr (sw, [])
      else if destination \<noteq> se_self E then relay_packet E path data destination source sw
      else if data ! IDX_FLAGS AND FLAG_FRAGMENTED \<noteq> 0 then
        let packetId = be_word (take 8 data) in
        on_entry (findRXQueueEntry packetId sw) (rx_head E path data packetId)
      else
        bindE (buf_copyFrom (buf_new (se_mem E)) data (length data)) (\<lambda>b.
          let p = \<lparr>ip_packet = b, ip_receiveTime = se_now E, ip_path = path, ip_authenticated = False\<rparr>;
              (h, done) = se_tryDecode E p in
          if done then Inr (sw, [TryDecode data])
          else on_entry (nextRXQueueEntry sw) (rx_whole E data h))))"

text \<open>The handler: whatever is thrown is caught, and in the branches below nothing has changed then.\<close>

definition onRemotePacket :: "sw_env \<Rightarrow> path \<Rightarrow> bytes \<Rightarrow> switch \<Rightarrow> (switch \<times> sw_event list) result" where
  "onRemotePacket E path data sw =
    (if length data > MIN_FRAGMENT_LENGTH then
       (case (if data ! FRAGMENT_IDX_INDICATOR = FRAGMENT_INDICATOR then remote_fragment E path data sw
              else if length data \<ge> MIN_PACKET_LENGTH then remote_packet E path data sw
              else Inr (sw, [])) of
          Inl (Throw e) \<Rightarrow> Inr (sw, [])
        | r \<Rightarrow> r)
     else Inr (sw, []))"

section \<open>Sending\<close>

text \<open>The fragments behind the head; \<open>left\<close> is the number of rounds of the loop still to run, \<open>fno\<close> its counter. Each fragment is a new
  object in the memory \<open>mem\<close>.\<close>

fun send_fragments :: "bytes \<Rightarrow> buffer \<Rightarrow> nat \<Rightarrow> nat \<Rightarrow> nat \<Rightarrow> nat \<Rightarrow> nat \<Rightarrow> nat \<Rightarrow> bytes list result" where
  "send_fragments mem packet mtu totalFragments 0 fno fragStart remaining = Inr []"
| "send_fragments mem packet mtu totalFragments (Suc left) fno fragStart remaining =
    (let chunkSize = min remaining (usub mtu MIN_FRAGMENT_LENGTH) in
     bindE (fragment_init packet fragStart chunkSize fno totalFragments (buf_new mem)) (\<lambda>frag.
     bindE (send_fragments mem packet mtu totalFragments left (fno + 1) (fragStart + chunkSize) (remaining - chunkSize)) (\<lambda>ds.
       Inr (buf_data frag # ds))))"

text \<open>The number of fragments behind the head, \<open>per\<close> bytes each.\<close>

definition fragsRemaining :: "nat \<Rightarrow> nat \<Rightarrow> nat" where
  "fragsRemaining remaining per =
    (let n = remaining div per in if (n * per) mod 2 ^ 32 < remaining then n + 1 else n)"

text \<open>The datagrams a packet is sent as: \<open>sent\<close> is what sending the head returned. A maximal size of 16 divides by zero.\<close>

definition send_datagrams :: "bytes \<Rightarrow> bool \<Rightarrow> nat \<Rightarrow> buffer \<Rightarrow> bytes list result" where
  "send_datagrams mem sent mtu packet =
    (let size = buf_size packet; chunkSize = min size mtu; head = take chunkSize (buf_data packet) in
     if sent \<and> chunkSize < size then
       let remaining = size - chunkSize; per = usub mtu MIN_FRAGMENT_LENGTH in
       if per = 0 then Inl UndefinedBehaviour
       else
         let n = fragsRemaining remaining per in
         bindE (send_fragments mem packet mtu (n + 1) n 1 chunkSize remaining) (\<lambda>ds. Inr (head # ds))
     else Inr [head])"

text \<open>\<open>physmtu\<close> and \<open>trustedPathId\<close> are what the topology says about the path, \<open>armor\<close> encrypts and authenticates the packet.\<close>

definition sendViaSpecificPath :: "(buffer \<Rightarrow> buffer result) \<Rightarrow> bytes \<Rightarrow> bool \<Rightarrow> nat \<Rightarrow> u64 \<Rightarrow> nat \<Rightarrow> buffer \<Rightarrow> (buffer \<times> bytes list) result" where
  "sendViaSpecificPath armor mem sent physmtu trustedPathId userSpecifiedMtu packet =
    (let mtu = (if userSpecifiedMtu > 0 then userSpecifiedMtu else physmtu) in
     bindE (packet_setFragmented (min (buf_size packet) mtu < buf_size packet) packet) (\<lambda>packet.
     bindE (if trustedPathId \<noteq> 0 then packet_setTrusted trustedPathId packet
            else bindE (packet_isEncrypted packet) (\<lambda>enc. if enc then Inr packet else armor packet)) (\<lambda>packet.
     bindE (send_datagrams mem sent mtu packet) (\<lambda>ds. Inr (packet, ds)))))"

text \<open>\<open>send\<close> queues a packet that cannot be sent yet and asks for the identity of its destination; \<open>whois\<close> is \<open>requestWhois\<close>, which
  itself sends a packet.\<close>

definition switch_send :: "(address \<Rightarrow> switch \<Rightarrow> (switch \<times> sw_event list) result option) \<Rightarrow> sw_env \<Rightarrow> buffer \<Rightarrow> bool \<Rightarrow> u64 \<Rightarrow> switch \<Rightarrow>
    (switch \<times> sw_event list) result option" where
  "switch_send whois E packet encrypt nwid sw =
    (case packet_destination packet of
       Inl e \<Rightarrow> Some (Inl e)
     | Inr dest \<Rightarrow>
         if dest = se_self E then Some (Inr (sw, []))
         else if se_trySend E packet encrypt nwid then Some (Inr (sw, [Sent (buf_data packet) encrypt nwid]))
         else
           let q = (if length (sw_txQueue sw) \<ge> TX_QUEUE_SIZE then tl (sw_txQueue sw) else sw_txQueue sw);
               sw = sw\<lparr>sw_txQueue := q @ [\<lparr>tx_dest = dest, tx_nwid = nwid, tx_creationTime = se_now E, tx_packet = packet,
                                           tx_encrypt = encrypt\<rparr>]\<rparr> in
           if \<not> se_peer E dest then whois dest sw else Some (Inr (sw, [])))"

definition whois_packet :: "sw_env \<Rightarrow> address \<Rightarrow> address \<Rightarrow> buffer result" where
  "whois_packet E upstream addr =
    bindE (packet_new (se_mem E) (se_iv E) upstream (se_self E) 0x04) (address_appendTo addr)"

text \<open>\<open>requestWhois\<close> and \<open>send\<close> call each other: the first argument bounds the depth of the calls, and \<open>None\<close> is that the bound was too small.
  The table entry \<open>operator[]\<close> makes for a new address holds 0.\<close>

primrec requestWhois :: "nat \<Rightarrow> sw_env \<Rightarrow> address \<Rightarrow> switch \<Rightarrow> (switch \<times> sw_event list) result option" where
  "requestWhois 0 E addr sw = None"
| "requestWhois (Suc n) E addr sw =
    (if addr = se_self E then Some (Inr (sw, []))
     else let (last, t) = ht_index address_hashCode (se_alloc E) 0 addr (sw_lastSentWhois sw) in
       if sint (se_now E - last) < int WHOIS_RETRY_DELAY then Some (Inr (sw\<lparr>sw_lastSentWhois := t\<rparr>, []))
       else
         let sw = sw\<lparr>sw_lastSentWhois := ht_set address_hashCode (se_alloc E) addr (se_now E) t\<rparr> in
         (case se_upstream E 0 of
            None \<Rightarrow> Some (Inr (sw, []))
          | Some u \<Rightarrow>
              (case whois_packet E u addr of
                 Inl e \<Rightarrow> Some (Inl e)
               | Inr outp \<Rightarrow> switch_send (requestWhois n E) E outp True 0 sw)))"

section \<open>Timers\<close>

text \<open>A complete entry of the receive queue is tried again and dropped when it is decoded or too old.\<close>

definition rx_retry :: "sw_env \<Rightarrow> rx_entry \<Rightarrow> (rx_entry \<times> sw_event list) result" where
  "rx_retry E rq =
    (if rq_timestamp rq \<noteq> 0 \<and> rq_complete rq then
       bindE (tryDecode E (rq_frag0 rq)) (\<lambda>(h, done).
         let ev = [TryDecode (buf_data (ip_packet (rq_frag0 rq)))] in
         if done \<or> sint (se_now E - rq_timestamp rq) > 5000 then Inr (rq\<lparr>rq_frag0 := h, rq_timestamp := 0\<rparr>, ev)
         else Inr (rq\<lparr>rq_frag0 := h\<rparr>, ev))
     else Inr (rq, []))"

fun rx_retries :: "sw_env \<Rightarrow> rx_entry list \<Rightarrow> (rx_entry list \<times> sw_event list) result" where
  "rx_retries E [] = Inr ([], [])"
| "rx_retries E (rq # rqs) =
    bindE (rx_retry E rq) (\<lambda>(rq, ev). bindE (rx_retries E rqs) (\<lambda>(rqs, evs). Inr (rq # rqs, ev @ evs)))"

fun tx_peer :: "sw_env \<Rightarrow> address \<Rightarrow> tx_entry list \<Rightarrow> tx_entry list \<times> sw_event list" where
  "tx_peer E addr [] = ([], [])"
| "tx_peer E addr (x # xs) =
    (let (ys, ev) = tx_peer E addr xs in
     if tx_dest x = addr \<and> se_trySend E (tx_packet x) (tx_encrypt x) (tx_nwid x)
     then (ys, Sent (buf_data (tx_packet x)) (tx_encrypt x) (tx_nwid x) # ev) else (x # ys, ev))"

definition doAnythingWaitingForPeer :: "sw_env \<Rightarrow> address \<Rightarrow> switch \<Rightarrow> (switch \<times> sw_event list) result" where
  "doAnythingWaitingForPeer E peer sw =
    bindE (rx_retries E (sw_rxQueue sw)) (\<lambda>(rx, rxev).
      let (tx, txev) = tx_peer E peer (sw_txQueue sw) in
      Inr (sw\<lparr>sw_lastSentWhois := snd (ht_erase address_hashCode peer (sw_lastSentWhois sw)), sw_rxQueue := rx, sw_txQueue := tx\<rparr>,
           rxev @ txev))"

text \<open>The transmit queue on the timer: what is left, the destinations to ask for and the events.\<close>

fun tx_timer :: "sw_env \<Rightarrow> tx_entry list \<Rightarrow> tx_entry list \<times> address list \<times> sw_event list" where
  "tx_timer E [] = ([], [], [])"
| "tx_timer E (x # xs) =
    (let (ys, need, ev) = tx_timer E xs in
     if se_trySend E (tx_packet x) (tx_encrypt x) 0 then (ys, need, Sent (buf_data (tx_packet x)) (tx_encrypt x) 0 # ev)
     else if unat (se_now E - tx_creationTime x) > TRANSMIT_QUEUE_TIMEOUT then (ys, need, ev)
     else (x # ys, if \<not> se_peer E (tx_dest x) then tx_dest x # need else need, ev))"

text \<open>Running steps one after the other.\<close>

fun run_steps :: "(switch \<Rightarrow> (switch \<times> sw_event list) result option) list \<Rightarrow> switch \<Rightarrow> (switch \<times> sw_event list) result option" where
  "run_steps [] sw = Some (Inr (sw, []))"
| "run_steps (f # fs) sw =
    (case f sw of
       None \<Rightarrow> None
     | Some (Inl e) \<Rightarrow> Some (Inl e)
     | Some (Inr (sw, ev)) \<Rightarrow>
         (case run_steps fs sw of
            Some (Inr (sw, ev')) \<Rightarrow> Some (Inr (sw, ev @ ev'))
          | r \<Rightarrow> r))"

definition rx_timer :: "nat \<Rightarrow> sw_env \<Rightarrow> nat \<Rightarrow> switch \<Rightarrow> (switch \<times> sw_event list) result option" where
  "rx_timer depth E i sw =
    (let rq = sw_rxQueue sw ! i in
     case rx_retry E rq of
       Inl e \<Rightarrow> Some (Inl e)
     | Inr (rq', ev) \<Rightarrow>
         let sw = sw\<lparr>sw_rxQueue := (sw_rxQueue sw)[i := rq']\<rparr> in
         if rq_timestamp rq \<noteq> 0 \<and> rq_complete rq \<and> rq_timestamp rq' \<noteq> 0 then
           (case packet_source (ip_packet (rq_frag0 rq')) of
              Inl e \<Rightarrow> Some (Inl e)
            | Inr src \<Rightarrow>
                if \<not> se_peer E src then
                  (case requestWhois depth E src sw of
                     Some (Inr (sw, ev')) \<Rightarrow> Some (Inr (sw, ev @ ev'))
                   | r \<Rightarrow> r)
                else Some (Inr (sw, ev)))
         else Some (Inr (sw, ev)))"

definition clean_unite :: "sw_env \<Rightarrow> switch \<Rightarrow> (switch \<times> sw_event list) result option" where
  "clean_unite E sw =
    (let t = sw_lastUnite sw in
     case clean_loop unite_hash (ht_size t + 1) (\<lambda>v. Inr (unat (se_now E - v) < MIN_UNITE_INTERVAL * 8)) t (ht_iterator t) of
       None \<Rightarrow> None
     | Some r \<Rightarrow> Some (bindE r (\<lambda>t. Inr (sw\<lparr>sw_lastUnite := t\<rparr>, []))))"

definition clean_whois :: "sw_env \<Rightarrow> switch \<Rightarrow> (switch \<times> sw_event list) result option" where
  "clean_whois E sw =
    (let t = sw_lastSentWhois sw in
     case clean_loop address_hashCode (ht_size t + 1) (\<lambda>v. Inr (sint (se_now E - v) \<le> int (WHOIS_RETRY_DELAY * 2))) t (ht_iterator t) of
       None \<Rightarrow> None
     | Some r \<Rightarrow> Some (bindE r (\<lambda>t. Inr (sw\<lparr>sw_lastSentWhois := t\<rparr>, []))))"

text \<open>The result is the delay until the next call with the new state and the events.\<close>

definition doTimerTasks :: "nat \<Rightarrow> sw_env \<Rightarrow> switch \<Rightarrow> (nat \<times> switch \<times> sw_event list) result option" where
  "doTimerTasks depth E sw =
    (let timeSinceLastCheck = unat (se_now E - sw_lastCheckedQueues sw) in
     if timeSinceLastCheck < WHOIS_RETRY_DELAY then Some (Inr (WHOIS_RETRY_DELAY - timeSinceLastCheck, sw, []))
     else
       let (tx, need, ev) = tx_timer E (sw_txQueue sw);
           sw = sw\<lparr>sw_lastCheckedQueues := se_now E, sw_txQueue := tx\<rparr> in
       case run_steps (map (requestWhois depth E) need @ map (rx_timer depth E) [0..<RX_QUEUE_SIZE] @ [clean_unite E, clean_whois E]) sw of
         None \<Rightarrow> None
       | Some r \<Rightarrow> Some (bindE r (\<lambda>(sw, ev'). Inr (WHOIS_RETRY_DELAY, sw, ev @ ev'))))"

section \<open>Invariant of the switch\<close>

definition packet_ok :: "nat \<Rightarrow> buffer \<Rightarrow> bool" where
  "packet_ok cap b \<longleftrightarrow> buf_inv b \<and> buf_capacity b = cap"

definition rx_inv :: "nat \<Rightarrow> rx_entry \<Rightarrow> bool" where
  "rx_inv cap rq \<longleftrightarrow> packet_ok cap (ip_packet (rq_frag0 rq)) \<and> length (rq_frags rq) = MAX_PACKET_FRAGMENTS - 1
     \<and> (\<forall>f \<in> set (rq_frags rq). packet_ok cap f) \<and> rq_totalFragments rq \<le> MAX_PACKET_FRAGMENTS
     \<and> (rq_complete rq \<longrightarrow> IDX_FLAGS \<le> buf_l (ip_packet (rq_frag0 rq)))"

definition sw_inv :: "nat \<Rightarrow> switch \<Rightarrow> bool" where
  "sw_inv cap sw \<longleftrightarrow> length (sw_rxQueue sw) = RX_QUEUE_SIZE \<and> (\<forall>rq \<in> set (sw_rxQueue sw). rx_inv cap rq)
     \<and> length (sw_txQueue sw) \<le> TX_QUEUE_SIZE
     \<and> ht_inv address_hashCode (sw_lastSentWhois sw) \<and> ht_inv unite_hash (sw_lastUnite sw)"

text \<open>What the switch relies on: new packets lie in an array of the capacity, and the decoder leaves a packet a packet with its
  header.\<close>

definition env_ok :: "nat \<Rightarrow> sw_env \<Rightarrow> bool" where
  "env_ok cap E \<longleftrightarrow> 64 \<le> cap \<and> cap \<le> 2 ^ 31 \<and> length (se_mem E) = cap \<and> 8 \<le> length (se_iv E)
     \<and> (\<forall>h. packet_ok cap (ip_packet h) \<longrightarrow> packet_ok cap (ip_packet (fst (se_tryDecode E h))))
     \<and> (\<forall>h. IDX_FLAGS \<le> buf_l (ip_packet h) \<longrightarrow> IDX_FLAGS \<le> buf_l (ip_packet (fst (se_tryDecode E h))))"

text \<open>The hop count of a fragment is a byte of its own; that of a packet shares the flags byte.\<close>

definition hop_index :: "bytes \<Rightarrow> nat" where
  "hop_index data = (if data ! FRAGMENT_IDX_INDICATOR = FRAGMENT_INDICATOR then FRAGMENT_IDX_HOPS else IDX_FLAGS)"

definition hop_count :: "bytes \<Rightarrow> nat" where
  "hop_count data = unat (data ! hop_index data AND 7)"

definition rx_w :: rx_entry where
  "rx_w = \<lparr>rq_timestamp = 0, rq_packetId = 0,
     rq_frag0 = \<lparr>ip_packet = buf_new (replicate 64 0), ip_receiveTime = 0, ip_path = (0, INET_NONE), ip_authenticated = False\<rparr>,
     rq_frags = replicate 6 (buf_new (replicate 64 0)), rq_totalFragments = 0, rq_haveFragments = 0, rq_complete = False\<rparr>"

definition sw_w :: switch where
  "sw_w = \<lparr>sw_lastCheckedQueues = 0, sw_lastSentWhois = \<lparr>ht_t = replicate 64 [], ht_bc = 64, ht_s = 0\<rparr>, sw_rxQueue = replicate 32 rx_w,
     sw_rxQueuePtr = 0, sw_txQueue = [], sw_lastUnite = \<lparr>ht_t = replicate 8 [], ht_bc = 8, ht_s = 0\<rparr>\<rparr>"

definition env_w :: sw_env where
  "env_w = \<lparr>se_self = 1, se_now = 1000, se_amUpstream = True, se_trustEstablished = (\<lambda>_. False), se_peer = (\<lambda>a. a = 3),
     se_sendDirect = (\<lambda>_ _ _. True), se_trySend = (\<lambda>_ _ _. False), se_upstream = (\<lambda>_. Some 5), se_tryDecode = (\<lambda>h. (h, True)),
     se_alloc = (\<lambda>_. True), se_mem = replicate 64 0, se_iv = replicate 8 7\<rparr>"

definition packet_w :: "u8 \<Rightarrow> u8 \<Rightarrow> buffer" where
  "packet_w dest flags = \<lparr>buf_b = [0, 0, 0, 0, 0, 0, 0, 9, 0, 0, 0, 0, dest, 0, 0, 0, 0, 2, flags, 0, 0, 0, 0, 0, 0, 0, 0, 6, 1, 2], buf_l = 30\<rparr>"

section \<open>Every entry stays well formed\<close>

lemma copyFrom_fits:
  assumes "length data \<le> buf_capacity b" "buf_capacity b \<le> 2 ^ 31"
  shows "\<exists>b'. buf_copyFrom b data (length data) = Inr b' \<and> packet_ok (buf_capacity b) b' \<and> buf_data b' = data"
  using assms by (auto simp: buf_copyFrom_def mem_read_def mem_write_def packet_ok_def buf_inv_def buf_capacity_def buf_data_def)

lemma copyFrom_full: "buf_capacity b < length data \<Longrightarrow> buf_copyFrom b data (length data) = Inl oob"
  by (simp add: buf_copyFrom_def)

lemma append_one:
  assumes "packet_ok cap f" "packet_ok cap b" "16 \<le> cap"
  shows "bindE (fragment_payload f) (\<lambda>bs. buf_append_bytes bs (fragment_payloadLength f) b) =
    (if buf_fits (drop 16 (buf_data f)) b then Inr (buf_put (drop 16 (buf_data f)) b) else Inl oob)"
proof -
  have f: "buf_inv f" "16 \<le> buf_capacity f" using assms by (auto simp: packet_ok_def)
  have l: "fragment_payloadLength f = length (drop 16 (buf_data f))" "length (drop 16 (buf_data f)) < 2 ^ 31"
    using f by (auto simp: fragment_payloadLength_def buf_size_def buf_inv_def)
  show ?thesis
    using fragment_payload_data [OF f] buf_append_bytes_eq [of b "fragment_payloadLength f" "drop 16 (buf_data f)"] assms(2) l
    by (simp add: packet_ok_def)
qed

lemma append_frags_spec:
  assumes "\<forall>f \<in> set fs. packet_ok cap f" "packet_ok cap b" "16 \<le> cap"
  shows "\<exists>b' ok. append_frags fs b = Inr (b', ok) \<and> packet_ok cap b' \<and> buf_l b \<le> buf_l b'
    \<and> (length (buf_data b @ concat (map (\<lambda>f. drop 16 (buf_data f)) fs)) \<le> cap
       \<longrightarrow> ok \<and> buf_data b' = buf_data b @ concat (map (\<lambda>f. drop 16 (buf_data f)) fs))"
  using assms
proof (induction fs arbitrary: b)
  case (Cons f fs)
  let ?d = "drop 16 (buf_data f)"
  have one: "bindE (fragment_payload f) (\<lambda>bs. buf_append_bytes bs (fragment_payloadLength f) b)
      = (if buf_fits ?d b then Inr (buf_put ?d b) else Inl oob)"
    using append_one [of cap f b] Cons.prems by simp
  show ?case
  proof (cases "buf_fits ?d b")
    case True
    have ok: "packet_ok cap (buf_put ?d b)" using True Cons.prems(2) by (simp add: packet_ok_def)
    show ?thesis
      using Cons.IH [OF _ ok Cons.prems(3)] Cons.prems(1,2) one True by (auto simp: packet_ok_def)
  next
    case False
    then have "cap < length (buf_data b @ concat (map (\<lambda>f. drop 16 (buf_data f)) (f # fs)))"
      using Cons.prems(2) by (simp add: buf_fits_def packet_ok_def)
    moreover have "append_frags (f # fs) b = Inr (b, False)" using one False by simp
    ultimately show ?thesis using Cons.prems(2) by (intro exI [of _ b] exI [of _ False]) simp
  qed
qed auto

lemma packet_source_data:
  assumes "buf_inv p"
  shows "packet_source p = (if 18 \<le> buf_l p then Inr (be_word (take 5 (drop 13 (buf_data p)))) else Inl oob)"
proof (cases "18 \<le> buf_l p")
  case True
  then show ?thesis using assms by (simp add: packet_source_def buf_get_data address_setTo_be)
qed (simp add: packet_source_def buf_get_def buf_field_def)

lemma tryDecode_eq:
  "packet_ok cap (ip_packet h) \<Longrightarrow> tryDecode E h = (if 18 \<le> buf_l (ip_packet h) then Inr (se_tryDecode E h) else Inl oob)"
  by (simp add: tryDecode_def packet_source_data packet_ok_def)

text \<open>What the decoder leaves behind.\<close>

lemma decoded_ok:
  assumes "env_ok cap E" "packet_ok cap (ip_packet h)" "18 \<le> buf_l (ip_packet h)" "se_tryDecode E h = (h', dn)"
  shows "packet_ok cap (ip_packet h')" "18 \<le> buf_l (ip_packet h')"
proof -
  have "packet_ok cap (ip_packet (fst (se_tryDecode E h)))" "18 \<le> buf_l (ip_packet (fst (se_tryDecode E h)))"
    using assms(1-3) unfolding env_ok_def by blast+
  then show "packet_ok cap (ip_packet h')" "18 \<le> buf_l (ip_packet h')" using assms(4) by simp_all
qed

lemma run_decode_ok:
  assumes "rx_inv cap rq" "env_ok cap E"
  shows "\<exists>rq' ev. run_decode E rq = Inr (rq', ev) \<and> rx_inv cap rq'"
proof -
  obtain h dn where d: "se_tryDecode E (rq_frag0 rq) = (h, dn)" by force
  have p: "packet_ok cap (ip_packet (rq_frag0 rq))" using assms(1) by (simp add: rx_inv_def)
  show ?thesis
  proof (cases "18 \<le> buf_l (ip_packet (rq_frag0 rq))")
    case True
    note ok = decoded_ok [OF assms(2) p True d]
    show ?thesis using assms(1) ok by (cases dn) (auto simp: run_decode_def tryDecode_eq [OF p] True d rx_inv_def)
  qed (use assms(1) in \<open>simp add: run_decode_def tryDecode_eq [OF p]\<close>)
qed

lemma finish_rx_ok:
  assumes "rx_inv cap rq" "env_ok cap E"
  shows "\<exists>rq' ev. finish_rx E rq = Inr (rq', ev) \<and> rx_inv cap rq'"
proof -
  have p: "\<forall>f \<in> set (take (rq_totalFragments rq - 1) (rq_frags rq)). packet_ok cap f" "packet_ok cap (ip_packet (rq_frag0 rq))" "16 \<le> cap"
    using assms by (auto simp: rx_inv_def env_ok_def dest: in_set_takeD)
  obtain b ok where a: "append_frags (take (rq_totalFragments rq - 1) (rq_frags rq)) (ip_packet (rq_frag0 rq)) = Inr (b, ok)" "packet_ok cap b" "buf_l (ip_packet (rq_frag0 rq)) \<le> buf_l b"
    using append_frags_spec [OF p] by blast
  define rq' where "rq' = rq\<lparr>rq_frag0 := (rq_frag0 rq)\<lparr>ip_packet := b\<rparr>\<rparr>"
  have i: "rx_inv cap rq'" using assms(1) a(2,3) by (auto simp: rx_inv_def rq'_def)
  have "\<not> rq_totalFragments rq - 1 > length (rq_frags rq)" using assms(1) by (auto simp: rx_inv_def)
  then have "finish_rx E rq = (if ok then run_decode E rq' else Inr (rq', []))" by (simp add: finish_rx_def a(1) [simplified] rq'_def)
  then show ?thesis using i run_decode_ok [OF i assms(2)] by (cases ok) simp_all
qed

lemma rx_fragment_ok:
  assumes "rx_inv cap rq" "env_ok cap E" "packet_ok cap f" "t \<le> 7"
  shows "\<exists>rq' ev. rx_fragment E f pid no t rq = Inr (rq', ev) \<and> rx_inv cap rq'"
proof -
  have "\<forall>g \<in> set ((rq_frags rq)[no - 1 := f]). packet_ok cap g"
    using assms(1,3) set_update_subset_insert [of "rq_frags rq" "no - 1" f] by (auto simp: rx_inv_def)
  then have i: "rx_inv cap (rq\<lparr>rq_frags := (rq_frags rq)[no - 1 := f], rq_totalFragments := t, rq_haveFragments := hv\<rparr>)"
    "rx_inv cap (rq\<lparr>rq_timestamp := ts, rq_packetId := pid, rq_frags := (rq_frags rq)[no - 1 := f], rq_totalFragments := t,
       rq_haveFragments := hv, rq_complete := False\<rparr>)" for hv ts
    using assms(1,4) by (simp_all add: rx_inv_def)
  show ?thesis using assms(1) i finish_rx_ok [OF i(1) assms(2)] by (auto simp: rx_fragment_def Let_def)
qed

lemma ip_init_cases:
  assumes "packet_ok cap (ip_packet h)"
  shows "ip_init data path now h = Inl oob \<or>
    (\<exists>b. ip_init data path now h = Inr \<lparr>ip_packet = b, ip_receiveTime = now, ip_path = path, ip_authenticated = False\<rparr>
       \<and> packet_ok cap b \<and> buf_data b = data)"
proof (cases "length data \<le> buf_capacity (ip_packet h)")
  case True
  then show ?thesis using copyFrom_fits [OF True] assms by (auto simp: ip_init_def packet_ok_def buf_inv_def)
qed (simp add: ip_init_def copyFrom_full)

lemma rx_head_ok:
  assumes "rx_inv cap rq" "env_ok cap E" "18 \<le> length data"
  shows "\<exists>rq' ev. rx_head E path data pid rq = Inr (rq', ev) \<and> rx_inv cap rq'"
proof -
  have h: "packet_ok cap (ip_packet (rq_frag0 rq))" using assms(1) by (simp add: rx_inv_def)
  have i: "rx_inv cap (rq\<lparr>rq_haveFragments := hv, rq_frag0 := h'\<rparr>)" "rx_inv cap (rq\<lparr>rq_frag0 := h'\<rparr>)"
    "rx_inv cap (rq\<lparr>rq_timestamp := ts, rq_packetId := pid, rq_frag0 := h', rq_totalFragments := 0, rq_haveFragments := hv, rq_complete := False\<rparr>)"
    if "packet_ok cap (ip_packet h')" "18 \<le> buf_l (ip_packet h')" for h' hv ts
    using that assms(1) by (simp_all add: rx_inv_def)
  have k: "rx_inv cap (rq\<lparr>rq_timestamp := ts, rq_packetId := pid\<rparr>)" "rx_inv cap (rq\<lparr>rq_haveFragments := hv\<rparr>)" for ts hv
    using assms(1) by (simp_all add: rx_inv_def)
  from ip_init_cases [OF h, of data path "se_now E"] show ?thesis
  proof
    assume "ip_init data path (se_now E) (rq_frag0 rq) = Inl oob"
    then show ?thesis using assms(1) k by (simp add: rx_head_def Let_def)
  next
    assume "\<exists>b. ip_init data path (se_now E) (rq_frag0 rq)
       = Inr \<lparr>ip_packet = b, ip_receiveTime = se_now E, ip_path = path, ip_authenticated = False\<rparr> \<and> packet_ok cap b \<and> buf_data b = data"
    then obtain h' where h': "ip_init data path (se_now E) (rq_frag0 rq) = Inr h'" "packet_ok cap (ip_packet h')" "buf_data (ip_packet h') = data" by auto
    then have "18 \<le> buf_l (ip_packet h')" using assms(3) by (auto simp: packet_ok_def)
    note i = i [OF h'(2) this]
    show ?thesis using assms(1) h'(1) i finish_rx_ok [OF i(1) assms(2)] by (simp add: rx_head_def Let_def)
  qed
qed

lemma findRX_bound: "fst (findRXQueueEntry pid sw) < 32" "fst (nextRXQueueEntry sw) < 32"
proof -
  have "find_rx q c pid ks = Some i \<Longrightarrow> i < 32" for q c ks i
    by (induction ks) (auto simp: Let_def split: if_splits)
  then show "fst (findRXQueueEntry pid sw) < 32" by (auto simp: findRXQueueEntry_def Let_def split: option.split)
qed (simp add: nextRXQueueEntry_def)

lemma findRX_state:
  "\<exists>v. snd (findRXQueueEntry pid sw) = sw\<lparr>sw_rxQueuePtr := v\<rparr>" "\<exists>v. snd (nextRXQueueEntry sw) = sw\<lparr>sw_rxQueuePtr := v\<rparr>"
  by (auto simp: findRXQueueEntry_def nextRXQueueEntry_def Let_def split: option.split intro: exI [of _ "sw_rxQueuePtr sw"])

lemma on_entry_ok:
  assumes "sw_inv cap sw" "i < 32" "\<And>rq. rx_inv cap rq \<Longrightarrow> \<exists>rq' ev. f rq = Inr (rq', ev) \<and> rx_inv cap rq'"
  shows "\<exists>sw' ev. on_entry (i, sw\<lparr>sw_rxQueuePtr := v\<rparr>) f = Inr (sw', ev) \<and> sw_inv cap sw'"
proof -
  have "rx_inv cap (sw_rxQueue sw ! i)" using assms(1,2) by (simp add: sw_inv_def)
  then obtain rq' ev where r: "f (sw_rxQueue sw ! i) = Inr (rq', ev)" "rx_inv cap rq'" using assms(3) by blast
  have "\<forall>rq \<in> set ((sw_rxQueue sw)[i := rq']). rx_inv cap rq"
    using assms(1) r(2) set_update_subset_insert [of "sw_rxQueue sw" i rq'] by (auto simp: sw_inv_def)
  then show ?thesis using assms(1) r(1) by (auto simp: on_entry_def sw_inv_def)
qed

lemma fragment_reads:
  assumes "packet_ok cap f" "buf_data f = data" "16 \<le> length data"
  shows "fragment_destination f = Inr (be_word (take 5 (drop 8 data)))" "fragment_packetId f = Inr (be_word (take 8 data))"
    "fragment_fragmentNumber f = Inr (unat (data ! 14 AND 0xf))" "fragment_totalFragments f = Inr (unat (drop_bit 4 (data ! 14) AND 0xf))"
    "fragment_hops f = Inr (unat (data ! 15))" "fragment_incrementHops f = Inr (buf_upd 15 [(data ! 15 + 1) AND 7] f)"
proof -
  have f: "buf_inv f" "16 \<le> buf_l f" using assms buf_data_length [of f] by (auto simp: packet_ok_def)
  show "fragment_destination f = Inr (be_word (take 5 (drop 8 data)))"
    using f assms(2,3) by (simp add: fragment_destination_def buf_get_data address_setTo_be)
  show "fragment_packetId f = Inr (be_word (take 8 data))" using f assms(2) by (simp add: fragment_packetId_def buf_at_data)
  show "fragment_fragmentNumber f = Inr (unat (data ! 14 AND 0xf))" "fragment_totalFragments f = Inr (unat (drop_bit 4 (data ! 14) AND 0xf))"
    "fragment_hops f = Inr (unat (data ! 15))" "fragment_incrementHops f = Inr (buf_upd 15 [(data ! 15 + 1) AND 7] f)"
    using f assms(2) by (simp_all add: fragment_fragmentNumber_def fragment_totalFragments_def fragment_hops_def fragment_incrementHops_def
        buf_index_data buf_modify_upd)
qed

lemma relay_fragment_eq:
  assumes "packet_ok cap f" "buf_data f = data" "16 \<le> length data"
  shows "relay_fragment E path f dest =
    Inr (if (se_amUpstream E \<or> se_trustEstablished E path) \<and> unat (data ! 15) < 3 then
           let d = patch 15 [(data ! 15 + 1) AND 7] data in
           if se_peer E dest \<and> se_sendDirect E dest d False then [SendDirect dest d False]
           else (if se_peer E dest then [SendDirect dest d False] else [])
             @ (case se_upstream E 0 of None \<Rightarrow> [] | Some u \<Rightarrow> [SendDirect u d True])
         else [])"
proof -
  have f: "buf_inv f" "16 \<le> buf_l f" using assms buf_data_length [of f] by (auto simp: packet_ok_def)
  show ?thesis
    using f assms(2) by (simp add: relay_fragment_def fragment_reads [OF assms] Let_def split: option.split)
qed

lemma shouldUnite_ok:
  assumes "ht_inv unite_hash (sw_lastUnite sw)"
  shows "\<exists>b t. shouldUnite E s d sw = (b, sw\<lparr>sw_lastUnite := t\<rparr>) \<and> ht_inv unite_hash t"
proof -
  obtain ts t where i: "ht_index unite_hash (se_alloc E) 0 (unite_key_of s d) (sw_lastUnite sw) = (ts, t)" by force
  then have t: "ht_inv unite_hash t" using ht_index_spec [OF assms, of "se_alloc E" 0 "unite_key_of s d"] by simp
  then have "ht_inv unite_hash (ht_set unite_hash (se_alloc E) (unite_key_of s d) (se_now E) t)" by (simp add: ht_set_spec)
  with t show ?thesis by (auto simp: shouldUnite_def i Let_def)
qed

lemma relay_packet_cases:
  assumes "env_ok cap E" "28 \<le> length data" "ht_inv unite_hash (sw_lastUnite sw)"
  shows "relay_packet E path data dest src sw = Inl oob \<or>
    (\<exists>t ev. relay_packet E path data dest src sw = Inr (sw\<lparr>sw_lastUnite := t\<rparr>, ev) \<and> ht_inv unite_hash t
       \<and> (ev \<noteq> [] \<longrightarrow> (se_amUpstream E \<or> se_trustEstablished E path \<or> src = se_self E) \<and> unat (data ! 18 AND 7) < 3
            \<and> (\<forall>a d fc. SendDirect a d fc \<in> set ev \<longrightarrow> d = patch 18 [(data ! 18 AND 0xf8) OR ((data ! 18 + 1) AND 7)] data)))"
proof (cases "length data \<le> cap")
  case False
  then have "buf_copyFrom (buf_new (se_mem E)) data (length data) = Inl oob"
    using assms(1) by (simp add: env_ok_def copyFrom_full buf_capacity_def buf_new_def)
  then show ?thesis using assms(3) by (auto simp: relay_packet_def intro!: exI [of _ "sw_lastUnite sw"])
next
  case True
  define d where "d = patch 18 [(data ! 18 AND 0xf8) OR ((data ! 18 + 1) AND 7)] data"
  have "buf_capacity (buf_new (se_mem E)) = cap" using assms(1) by (simp add: env_ok_def buf_new_def buf_capacity_def)
  then obtain p where p: "buf_copyFrom (buf_new (se_mem E)) data (length data) = Inr p" "packet_ok cap p" "buf_data p = data"
    using copyFrom_fits [of data "buf_new (se_mem E)"] True assms(1) by (auto simp: env_ok_def)
  have i: "buf_inv p" "28 \<le> buf_l p" using p(2,3) assms(2) buf_data_length [of p] by (auto simp: packet_ok_def)
  have h: "packet_hops p = Inr (unat (data ! 18 AND 7))"
    "packet_incrementHops p = Inr (buf_upd 18 [(data ! 18 AND 0xf8) OR ((data ! 18 + 1) AND 7)] p)"
    using i p(3) by (simp_all add: packet_hops_def packet_incrementHops_def buf_index_data buf_modify_upd)
  have dd: "buf_data (buf_upd 18 [(data ! 18 AND 0xf8) OR ((data ! 18 + 1) AND 7)] p) = d" using i p(3) by (simp add: d_def)
  obtain un t where u: "shouldUnite E src dest sw = (un, sw\<lparr>sw_lastUnite := t\<rparr>)" "ht_inv unite_hash t"
    using shouldUnite_ok [OF assms(3)] by blast
  show ?thesis
    unfolding d_def [symmetric]
    using assms(3) u(2)
    by (auto simp: relay_packet_def p(1) h dd u(1) Let_def introduce_source_def split: option.split
        intro: exI [of _ "sw_lastUnite sw"] exI [of _ t])
qed

section \<open>Receiving\<close>

lemma buf_new_mem: "env_ok cap E \<Longrightarrow> buf_capacity (buf_new (se_mem E)) = cap"
  by (simp add: env_ok_def buf_new_def buf_capacity_def)

lemma remote_copy:
  assumes "env_ok cap E"
  shows "buf_copyFrom (buf_new (se_mem E)) data (length data) = Inl oob \<and> cap < length data \<or>
    (\<exists>b. buf_copyFrom (buf_new (se_mem E)) data (length data) = Inr b \<and> packet_ok cap b \<and> buf_data b = data)"
  using copyFrom_fits [of data "buf_new (se_mem E)"] copyFrom_full [of "buf_new (se_mem E)" data] buf_new_mem [OF assms] assms
  by (cases "length data \<le> cap") (auto simp: env_ok_def)

lemma remote_fragment_ok:
  assumes "sw_inv cap sw" "env_ok cap E" "16 \<le> length data"
  shows "remote_fragment E path data sw = Inl oob \<or> (\<exists>sw' ev. remote_fragment E path data sw = Inr (sw', ev) \<and> sw_inv cap sw')"
  using remote_copy [OF assms(2), of data]
proof
  assume "\<exists>b. buf_copyFrom (buf_new (se_mem E)) data (length data) = Inr b \<and> packet_ok cap b \<and> buf_data b = data"
  then obtain f where f: "buf_copyFrom (buf_new (se_mem E)) data (length data) = Inr f" "packet_ok cap f" "buf_data f = data" by blast
  let ?pid = "be_word (take 8 data)" and ?no = "unat (data ! 14 AND 0xf)" and ?t = "unat (drop_bit 4 (data ! 14) AND 0xf)"
  obtain i v where e: "findRXQueueEntry ?pid sw = (i, sw\<lparr>sw_rxQueuePtr := v\<rparr>)" "i < 32"
    using findRX_bound(1) [of ?pid sw] findRX_state(1) [of ?pid sw] by (metis fst_conv prod.collapse)
  have "\<exists>sw' ev. on_entry (i, sw\<lparr>sw_rxQueuePtr := v\<rparr>) (rx_fragment E f ?pid ?no ?t) = Inr (sw', ev) \<and> sw_inv cap sw'" if "?t \<le> 7"
    by (rule on_entry_ok [OF assms(1) e(2)]) (rule rx_fragment_ok [OF _ assms(2) f(2) that])
  then show ?thesis
    using assms(1) by (simp add: remote_fragment_def f(1) fragment_reads [OF f(2,3) assms(3)] relay_fragment_eq [OF f(2,3) assms(3)] e(1))
qed (simp add: remote_fragment_def)

lemma rx_whole_ok: "rx_inv cap rq \<Longrightarrow> packet_ok cap (ip_packet p) \<Longrightarrow> 18 \<le> buf_l (ip_packet p) \<Longrightarrow> \<exists>rq' ev. rx_whole E data p rq = Inr (rq', ev) \<and> rx_inv cap rq'"
  by (auto simp: rx_whole_def packet_packetId_def packet_ok_def buf_at_data rx_inv_def)

lemma remote_packet_ok:
  assumes "sw_inv cap sw" "env_ok cap E" "28 \<le> length data"
  shows "remote_packet E path data sw = Inl oob \<or> (\<exists>sw' ev. remote_packet E path data sw = Inr (sw', ev) \<and> sw_inv cap sw')"
proof -
  let ?pid = "be_word (take 8 data)" and ?d = "be_word (take 5 (drop 8 data))" and ?s = "be_word (take 5 (drop 13 data))"
  have a: "address_setTo (drop 8 data) 5 = Inr ?d" "address_setTo (drop 13 data) 5 = Inr ?s"
    using assms(3) by (simp_all add: address_setTo_be)
  have u: "ht_inv unite_hash (sw_lastUnite sw)" using assms(1) by (simp add: sw_inv_def)
  have r: "relay_packet E path data ?d ?s sw = Inl oob \<or> (\<exists>sw' ev. relay_packet E path data ?d ?s sw = Inr (sw', ev) \<and> sw_inv cap sw')"
    using relay_packet_cases [OF assms(2,3) u, of path ?d ?s] assms(1) by (auto simp: sw_inv_def)
  obtain i v where e: "findRXQueueEntry ?pid sw = (i, sw\<lparr>sw_rxQueuePtr := v\<rparr>)" "i < 32"
    using findRX_bound(1) [of ?pid sw] findRX_state(1) [of ?pid sw] by (metis fst_conv prod.collapse)
  have h: "\<exists>sw' ev. on_entry (i, sw\<lparr>sw_rxQueuePtr := v\<rparr>) (rx_head E path data ?pid) = Inr (sw', ev) \<and> sw_inv cap sw'"
    by (rule on_entry_ok [OF assms(1) e(2)]) (rule rx_head_ok [OF _ assms(2)], use assms(3) in simp_all)
  obtain j w where n: "nextRXQueueEntry sw = (j, sw\<lparr>sw_rxQueuePtr := w\<rparr>)" "j < 32"
    using findRX_bound(2) [of sw] findRX_state(2) [of sw] by (metis fst_conv prod.collapse)
  consider (full) "buf_copyFrom (buf_new (se_mem E)) data (length data) = Inl oob"
    | (copy) b where "buf_copyFrom (buf_new (se_mem E)) data (length data) = Inr b" "packet_ok cap b" "buf_data b = data"
    using remote_copy [OF assms(2), of data] by blast
  then show ?thesis
  proof cases
    case full
    then show ?thesis using assms(1) r h by (auto simp: remote_packet_def a e(1) Let_def)
  next
    case copy
    let ?p = "\<lparr>ip_packet = b, ip_receiveTime = se_now E, ip_path = path, ip_authenticated = False\<rparr>"
    obtain p dn where d: "se_tryDecode E ?p = (p, dn)" by force
    have "18 \<le> buf_l b" using copy(2,3) assms(3) by (auto simp: packet_ok_def)
    then have p: "packet_ok cap (ip_packet p)" "18 \<le> buf_l (ip_packet p)" using decoded_ok [OF assms(2) _ _ d] copy(2) by simp_all
    have "\<exists>sw' ev. on_entry (j, sw\<lparr>sw_rxQueuePtr := w\<rparr>) (rx_whole E data p) = Inr (sw', ev) \<and> sw_inv cap sw'"
      by (rule on_entry_ok [OF assms(1) n(2)]) (rule rx_whole_ok [OF _ p])
    then show ?thesis
      using assms(1) r h by (simp add: remote_packet_def a e(1) n(1) copy(1) d Let_def)
  qed
qed


section \<open>Relaying\<close>

lemma finish_rx_events: "finish_rx E rq = Inr (rq', ev) \<Longrightarrow> ev = [] \<or> (\<exists>d. ev = [TryDecode d])"
  by (auto simp: finish_rx_def run_decode_def bindE_eq_Inr Let_def split: if_splits prod.splits sum.splits fault.splits)

lemma rx_events:
  "rx_fragment E f pid no t rq = Inr (rq', ev) \<Longrightarrow> ev = [] \<or> (\<exists>d. ev = [TryDecode d])"
  "rx_head E path data pid rq = Inr (rq', ev) \<Longrightarrow> ev = [] \<or> (\<exists>d. ev = [TryDecode d])"
  "rx_whole E data h rq = Inr (rq', ev) \<Longrightarrow> ev = [] \<or> (\<exists>d. ev = [TryDecode d])"
  by (auto simp: rx_fragment_def rx_head_def rx_whole_def Let_def dest: finish_rx_events split: if_splits sum.splits fault.splits)

lemma on_entry_events:
  assumes "on_entry x f = Inr (sw', ev)" "\<And>rq rq' ev. f rq = Inr (rq', ev) \<Longrightarrow> ev = [] \<or> (\<exists>d. ev = [TryDecode d])"
  shows "SendDirect a d fc \<notin> set ev"
  using assms(1) by (auto simp: on_entry_def bindE_eq_Inr split: prod.splits dest!: assms(2))

lemma fragment_hop_bits:
  fixes x :: u8
  assumes "unat x < 3"
  shows "unat (x AND 7) < 3 \<and> unat ((x + 1) AND 7 AND 7) = unat (x AND 7) + 1"
proof -
  have m: "y AND 7 = take_bit 3 y" for y :: u8 by (simp add: take_bit_eq_mask mask_eq_exp_minus_1)
  have "unat (x + 1) = unat x + 1" using assms by (simp add: unat_word_ariths)
  then show ?thesis using assms by (simp add: m zt_bits)
qed

lemma packet_hop_bits:
  fixes x :: u8
  assumes "unat (x AND 7) < 3"
  shows "unat (((x AND 0xf8) OR ((x + 1) AND 7)) AND 7) = unat (x AND 7) + 1"
  using hops_bits(2) [of x] assms by simp

lemma relayed_fragment:
  assumes "env_ok cap E" "16 < length data" "remote_fragment E path data sw = Inr (sw', ev)" "SendDirect a d fc \<in> set ev"
  shows "(se_amUpstream E \<or> se_trustEstablished E path) \<and> unat (data ! 15) < 3 \<and> d = patch 15 [(data ! 15 + 1) AND 7] data"
proof -
  obtain f where f: "buf_copyFrom (buf_new (se_mem E)) data (length data) = Inr f" "packet_ok cap f" "buf_data f = data"
    using remote_copy [OF assms(1), of data] assms(3) by (auto simp: remote_fragment_def)
  have l: "16 \<le> length data" using assms(2) by simp
  show ?thesis
  proof (cases "be_word (take 5 (drop 8 data)) = se_self E")
    case True
    then have "SendDirect a d fc \<notin> set ev"
      using assms(3) by (auto simp: remote_fragment_def f(1) fragment_reads [OF f(2,3) l] split: if_splits dest: on_entry_events rx_events)
    then show ?thesis using assms(4) by simp
  next
    case False
    then have "ev = (case relay_fragment E path f (be_word (take 5 (drop 8 data))) of Inr ev \<Rightarrow> ev)"
      using assms(3) by (auto simp: remote_fragment_def f(1) fragment_reads [OF f(2,3) l] bindE_eq_Inr)
    then show ?thesis
      using assms(4) by (auto simp: relay_fragment_eq [OF f(2,3) l] Let_def split: if_splits option.splits)
  qed
qed

lemma relayed_packet:
  assumes "sw_inv cap sw" "env_ok cap E" "28 \<le> length data" "remote_packet E path data sw = Inr (sw', ev)" "SendDirect a d fc \<in> set ev"
  shows "(se_amUpstream E \<or> se_trustEstablished E path) \<and> unat (data ! 18 AND 7) < 3
    \<and> d = patch 18 [(data ! 18 AND 0xf8) OR ((data ! 18 + 1) AND 7)] data"
proof -
  let ?d = "be_word (take 5 (drop 8 data))" and ?s = "be_word (take 5 (drop 13 data))"
  have a: "address_setTo (drop 8 data) 5 = Inr ?d" "address_setTo (drop 13 data) 5 = Inr ?s"
    using assms(3) by (simp_all add: address_setTo_be)
  have u: "ht_inv unite_hash (sw_lastUnite sw)" using assms(1) by (simp add: sw_inv_def)
  have s: "?s \<noteq> se_self E" using assms(4,5) by (auto simp: remote_packet_def a)
  have "?d \<noteq> se_self E"
  proof
    assume d: "?d = se_self E"
    have "SendDirect a d fc \<notin> set ev"
    proof (cases "data ! 18 AND 0x40 = 0")
      case True
      then obtain b p dn where "buf_copyFrom (buf_new (se_mem E)) data (length data) = Inr b"
        "se_tryDecode E \<lparr>ip_packet = b, ip_receiveTime = se_now E, ip_path = path, ip_authenticated = False\<rparr> = (p, dn)"
        using assms(4) d s by (auto simp: remote_packet_def a bindE_eq_Inr) (metis surj_pair)
      then show ?thesis
        using assms(4) d s True by (cases dn) (auto simp: remote_packet_def a Let_def dest: on_entry_events rx_events)
    next
      case False
      then show ?thesis using assms(4) d s by (auto simp: remote_packet_def a Let_def dest: on_entry_events rx_events)
    qed
    then show False using assms(5) by simp
  qed
  then have "relay_packet E path data ?d ?s sw = Inr (sw', ev)" using assms(4) s by (simp add: remote_packet_def a)
  then show ?thesis using relay_packet_cases [OF assms(2,3) u, of path ?d ?s] assms(5) s by auto
qed

text \<open>C12: a datagram is forwarded only by an upstream or when it came by a trusted path, only while its hop count is below the limit, and the forwarded copy differs in
  the hop count alone, which is one higher.\<close>

theorem relay_limited:
  assumes "sw_inv cap sw" "env_ok cap E" "onRemotePacket E path data sw = Inr (sw', ev)" "SendDirect a d fc \<in> set ev"
  shows "(se_amUpstream E \<or> se_trustEstablished E path) \<and> hop_count data < RELAY_MAX_HOPS \<and> length d = length data
    \<and> hop_count d = hop_count data + 1 \<and> (\<forall>j < length data. j \<noteq> hop_index data \<longrightarrow> d ! j = data ! j)"
proof (cases "data ! 13 = 0xff")
  case True
  have r: "remote_fragment E path data sw = Inr (sw', ev)" and l: "16 < length data"
    using assms(3,4) True by (auto simp: onRemotePacket_def split: if_splits sum.splits fault.splits)
  have d: "(se_amUpstream E \<or> se_trustEstablished E path) \<and> unat (data ! 15) < 3" "d = patch 15 [(data ! 15 + 1) AND 7] data"
    using relayed_fragment [OF assms(2) l r assms(4)] by auto
  have "d ! 13 = 0xff" "d ! 15 = (data ! 15 + 1) AND 7" using d(2) l True by (simp_all add: nth_patch)
  then show ?thesis
    using d fragment_hop_bits [of "data ! 15"] l True by (auto simp: hop_count_def hop_index_def nth_patch)
next
  case False
  have r: "remote_packet E path data sw = Inr (sw', ev)" and l: "28 \<le> length data"
    using assms(3,4) False by (auto simp: onRemotePacket_def split: if_splits sum.splits fault.splits)
  have d: "(se_amUpstream E \<or> se_trustEstablished E path) \<and> unat (data ! 18 AND 7) < 3"
    "d = patch 18 [(data ! 18 AND 0xf8) OR ((data ! 18 + 1) AND 7)] data"
    using relayed_packet [OF assms(1,2) l r assms(4)] by auto
  have "d ! 13 = data ! 13" "d ! 18 = (data ! 18 AND 0xf8) OR ((data ! 18 + 1) AND 7)" using d(2) l by (simp_all add: nth_patch)
  then show ?thesis
    using d packet_hop_bits [of "data ! 18"] l False by (auto simp: hop_count_def hop_index_def nth_patch)
qed

section \<open>A switch at work\<close>

lemma sw_w_inv: "sw_inv 64 sw_w"
  by (simp add: sw_inv_def sw_w_def rx_inv_def rx_w_def packet_ok_def buf_inv_def buf_new_def buf_capacity_def ht_new_inv)

lemma env_w_ok: "env_ok 64 env_w"
  by (simp add: env_ok_def env_w_def)

lemma packet_w_facts:
  "buf_inv (packet_w x fl)" "buf_l (packet_w x fl) = 30" "be_word (take 8 (buf_data (packet_w x fl))) = (9 :: u64)"
  "be_word (take 5 (drop 13 (buf_data (packet_w x fl)))) = (2 :: u64)" "be_word (take 5 (drop 8 (buf_data (packet_w x fl)))) = (ucast x :: u64)"
  "buf_data (packet_w x fl) ! 13 = 0" "buf_data (packet_w x fl) ! 18 = fl" "length (buf_data (packet_w x fl)) = 30"
  by (simp_all add: packet_w_def buf_inv_def buf_capacity_def buf_data_def be_word_def be_step_def)


theorem relay_limited_witness:
  "\<exists>sw' ev d. onRemotePacket env_w (0, INET_NONE) (buf_data (packet_w 3 1)) sw_w = Inr (sw', ev) \<and> SendDirect 3 d False \<in> set ev \<and> hop_count d = 2"
proof -
  let ?d = "buf_data (packet_w 3 1)"
  have a: "address_setTo (drop 8 ?d) 5 = Inr 3" "address_setTo (drop 13 ?d) 5 = Inr 2"
    by (simp_all add: address_setTo_be packet_w_facts)
  obtain p where p: "buf_copyFrom (buf_new (se_mem env_w)) ?d (length ?d) = Inr p" "packet_ok 64 p" "buf_data p = ?d"
    using remote_copy [OF env_w_ok, of ?d] by (auto simp: packet_w_facts)
  have i: "buf_inv p" "buf_l p = 30" using p(2,3) packet_w_facts(8) [of 3 1] buf_data_length [of p] by (auto simp: packet_ok_def)
  obtain un t where u: "shouldUnite env_w 2 3 sw_w = (un, sw_w\<lparr>sw_lastUnite := t\<rparr>)"
    using shouldUnite_ok [of sw_w env_w 2 3] sw_w_inv by (auto simp: sw_inv_def)
  obtain sw' ev d where r: "onRemotePacket env_w (0, INET_NONE) ?d sw_w = Inr (sw', ev)" "SendDirect 3 d False \<in> set ev"
    using p(1) i by (auto simp: onRemotePacket_def remote_packet_def a packet_w_facts env_w_def relay_packet_def packet_hops_def
      packet_incrementHops_def buf_index_data buf_modify_upd p(3) Let_def u [unfolded env_w_def])
  have "hop_count ?d = 1" by (simp add: hop_count_def hop_index_def packet_w_facts)
  then have "hop_count d = 2" using relay_limited [OF sw_w_inv env_w_ok r] by simp
  then show ?thesis using r by blast
qed

section \<open>Times of requests\<close>

text \<open>The times of requests after an operation: no address is forgotten, and only the present time is added.\<close>

definition whois_later :: "sw_env \<Rightarrow> switch \<Rightarrow> switch \<Rightarrow> bool" where
  "whois_later E sw sw' \<longleftrightarrow> (\<forall>a t. ht_get address_hashCode (sw_lastSentWhois sw) a = Some t
     \<longrightarrow> ht_get address_hashCode (sw_lastSentWhois sw') a \<in> {Some t, Some (se_now E)})"

text \<open>The last request for an address is less than the retry delay ago.\<close>

definition whois_recent :: "sw_env \<Rightarrow> address \<Rightarrow> switch \<Rightarrow> bool" where
  "whois_recent E addr sw \<longleftrightarrow>
    (case ht_get address_hashCode (sw_lastSentWhois sw) addr of None \<Rightarrow> False | Some t \<Rightarrow> sint (se_now E - t) < int WHOIS_RETRY_DELAY)"

lemma whois_packet_ok:
  assumes "env_ok cap E"
  shows "\<exists>p. whois_packet E u addr = Inr p \<and> packet_destination p = Inr (take_bit 40 u)"
proof -
  have m: "28 \<le> length (se_mem E)" "length (se_mem E) \<le> 2 ^ 31" "8 \<le> length (se_iv E)" "64 \<le> length (se_mem E)" using assms by (auto simp: env_ok_def)
  obtain p where p: "packet_new (se_mem E) (se_iv E) u (se_self E) 4 = Inr p" "buf_inv p" "buf_l p = 28" "buf_capacity p = length (se_mem E)"
    "packet_destination p = Inr (take_bit 40 u)"
    using packet_new_data [OF m(1-3), of u "se_self E" 4] by blast
  have f: "buf_fits (be_bytes 5 addr) p" using p m(4) by (simp add: buf_fits_def)
  have "packet_destination (buf_put (be_bytes 5 addr) p) = packet_destination p"
    using p(2,3) f by (simp add: packet_destination_def buf_get_data del: be_bytes_numeral)
  moreover have "address_appendTo addr p = Inr (buf_put (be_bytes 5 addr) p)" using emitsD [OF emits_address p(2)] f by simp
  ultimately show ?thesis using p by (simp add: whois_packet_def)
qed

lemma switch_send_spec:
  assumes "sw_inv cap sw" "packet_destination p = Inr dest"
    "\<And>sw. sw_inv cap sw \<Longrightarrow> sw_lastSentWhois sw = sw_lastSentWhois sw0 \<Longrightarrow> dest \<noteq> se_self E \<Longrightarrow>
       \<exists>sw' ev. whois dest sw = Some (Inr (sw', ev)) \<and> sw_inv cap sw' \<and> whois_later E sw sw'"
    "sw_lastSentWhois sw = sw_lastSentWhois sw0"
  shows "\<exists>sw' ev. switch_send whois E p enc nwid sw = Some (Inr (sw', ev)) \<and> sw_inv cap sw' \<and> whois_later E sw sw'"
proof -
  let ?q = "if length (sw_txQueue sw) \<ge> 32 then tl (sw_txQueue sw) else sw_txQueue sw"
  let ?sw = "sw\<lparr>sw_txQueue := ?q @ [\<lparr>tx_dest = dest, tx_nwid = nwid, tx_creationTime = se_now E, tx_packet = p, tx_encrypt = enc\<rparr>]\<rparr>"
  have i: "sw_inv cap ?sw" using assms(1) by (auto simp: sw_inv_def)
  have refl: "whois_later E sw sw" "whois_later E sw ?sw" by (auto simp: whois_later_def)
  have eq: "switch_send whois E p enc nwid sw = (if dest = se_self E then Some (Inr (sw, []))
      else if se_trySend E p enc nwid then Some (Inr (sw, [Sent (buf_data p) enc nwid]))
      else if \<not> se_peer E dest then whois dest ?sw else Some (Inr (?sw, [])))"
    by (simp add: switch_send_def assms(2) Let_def)
  show ?thesis
  proof (cases "dest = se_self E \<or> se_trySend E p enc nwid \<or> se_peer E dest")
    case True
    then show ?thesis using assms(1) i refl by (auto simp: eq)
  next
    case False
    then obtain sw' ev where "whois dest ?sw = Some (Inr (sw', ev))" "sw_inv cap sw'" "whois_later E ?sw sw'"
      using assms(3) [OF i] assms(4) by auto
    moreover have "whois_later E ?sw sw' = whois_later E sw sw'" by (simp add: whois_later_def)
    ultimately show ?thesis using False by (auto simp: eq)
  qed
qed

text \<open>One round of a request: it is refused when the last one is recent, otherwise it stamps the address and sends.\<close>

lemma whois_round:
  assumes "sw_inv cap sw" "addr \<noteq> se_self E"
  shows "\<exists>last t. ht_index address_hashCode (se_alloc E) 0 addr (sw_lastSentWhois sw) = (last, t)
    \<and> last = (case ht_get address_hashCode (sw_lastSentWhois sw) addr of None \<Rightarrow> 0 | Some v \<Rightarrow> v)
    \<and> sw_inv cap (sw\<lparr>sw_lastSentWhois := t\<rparr>) \<and> whois_later E sw (sw\<lparr>sw_lastSentWhois := t\<rparr>)
    \<and> ht_get address_hashCode t addr = Some last
    \<and> sw_inv cap (sw\<lparr>sw_lastSentWhois := ht_set address_hashCode (se_alloc E) addr (se_now E) t\<rparr>)
    \<and> whois_later E sw (sw\<lparr>sw_lastSentWhois := ht_set address_hashCode (se_alloc E) addr (se_now E) t\<rparr>)
    \<and> ht_get address_hashCode (ht_set address_hashCode (se_alloc E) addr (se_now E) t) addr = Some (se_now E)"
proof -
  let ?w = "sw_lastSentWhois sw"
  have w: "ht_inv address_hashCode ?w" using assms(1) by (simp add: sw_inv_def)
  obtain last t where x: "ht_index address_hashCode (se_alloc E) 0 addr ?w = (last, t)" by force
  have t: "ht_inv address_hashCode t" "last = (case ht_get address_hashCode ?w addr of None \<Rightarrow> 0 | Some v \<Rightarrow> v)"
    "ht_get address_hashCode t = (case ht_get address_hashCode ?w addr of None \<Rightarrow> (ht_get address_hashCode ?w)(addr \<mapsto> 0) | Some v \<Rightarrow> ht_get address_hashCode ?w)"
    using ht_index_spec [OF w, of "se_alloc E" 0 addr] x by simp_all
  have s: "ht_inv address_hashCode (ht_set address_hashCode (se_alloc E) addr (se_now E) t)"
    "ht_get address_hashCode (ht_set address_hashCode (se_alloc E) addr (se_now E) t) = (ht_get address_hashCode t)(addr \<mapsto> se_now E)"
    using ht_set_spec [OF t(1), of "se_alloc E" addr "se_now E"] by simp_all
  show ?thesis
    using x t s assms(1) by (auto simp: sw_inv_def whois_later_def split: option.splits)
qed

lemma whois_refused:
  assumes "sw_inv cap sw" "addr \<noteq> se_self E" "sint (se_now E - (case ht_get address_hashCode (sw_lastSentWhois sw) addr of None \<Rightarrow> 0 | Some v \<Rightarrow> v)) < 500"
  shows "\<exists>t. requestWhois (Suc n) E addr sw = Some (Inr (sw\<lparr>sw_lastSentWhois := t\<rparr>, [])) \<and> sw_inv cap (sw\<lparr>sw_lastSentWhois := t\<rparr>)
    \<and> whois_later E sw (sw\<lparr>sw_lastSentWhois := t\<rparr>)"
  using whois_round [OF assms(1,2)] assms(2,3) by (auto simp: Let_def)

lemma whois_sent:
  assumes "sw_inv cap sw" "env_ok cap E" "addr \<noteq> se_self E"
    and rec: "\<And>u sw'. se_upstream E 0 = Some u \<Longrightarrow> take_bit 40 u \<noteq> se_self E \<Longrightarrow> sw_inv cap sw'
      \<Longrightarrow> ht_get address_hashCode (sw_lastSentWhois sw') addr = Some (se_now E) \<Longrightarrow> whois_later E sw sw'
      \<Longrightarrow> \<exists>sw'' ev. requestWhois n E (take_bit 40 u) sw' = Some (Inr (sw'', ev)) \<and> sw_inv cap sw'' \<and> whois_later E sw' sw''"
  shows "\<exists>sw' ev. requestWhois (Suc n) E addr sw = Some (Inr (sw', ev)) \<and> sw_inv cap sw' \<and> whois_later E sw sw' \<and> whois_recent E addr sw'"
proof -
  obtain last t where x: "ht_index address_hashCode (se_alloc E) 0 addr (sw_lastSentWhois sw) = (last, t)"
    "sw_inv cap (sw\<lparr>sw_lastSentWhois := t\<rparr>)" "whois_later E sw (sw\<lparr>sw_lastSentWhois := t\<rparr>)"
    "ht_get address_hashCode t addr = Some last"
    "sw_inv cap (sw\<lparr>sw_lastSentWhois := ht_set address_hashCode (se_alloc E) addr (se_now E) t\<rparr>)"
    "whois_later E sw (sw\<lparr>sw_lastSentWhois := ht_set address_hashCode (se_alloc E) addr (se_now E) t\<rparr>)"
    "ht_get address_hashCode (ht_set address_hashCode (se_alloc E) addr (se_now E) t) addr = Some (se_now E)"
    using whois_round [OF assms(1,3)] by blast
  define sw1 where "sw1 = sw\<lparr>sw_lastSentWhois := ht_set address_hashCode (se_alloc E) addr (se_now E) t\<rparr>"
  show ?thesis
  proof (cases "sint (se_now E - last) < 500")
    case True
    then show ?thesis using x(1-4) assms(3) by (simp add: whois_recent_def)
  next
    case limit: False
    show ?thesis
    proof (cases "se_upstream E 0")
      case None
      then show ?thesis using x limit assms(3) by (simp add: whois_recent_def)
    next
      case (Some u)
      obtain p where p: "whois_packet E u addr = Inr p" "packet_destination p = Inr (take_bit 40 u)" using whois_packet_ok [OF assms(2)] by blast
      have "requestWhois (Suc n) E addr sw = switch_send (requestWhois n E) E p True 0 sw1"
        using x(1) limit Some p(1) assms(3) by (simp add: sw1_def)
      moreover have "\<exists>sw' ev. switch_send (requestWhois n E) E p True 0 sw1 = Some (Inr (sw', ev)) \<and> sw_inv cap sw' \<and> whois_later E sw1 sw'"
      proof (rule switch_send_spec [OF _ p(2) _ refl])
        show "sw_inv cap sw1" using x(5) by (simp add: sw1_def)
        fix sw2 assume s: "sw_inv cap sw2" "sw_lastSentWhois sw2 = sw_lastSentWhois sw1" "take_bit 40 u \<noteq> se_self E"
        moreover have "whois_later E sw sw2" "ht_get address_hashCode (sw_lastSentWhois sw2) addr = Some (se_now E)"
          using x(6,7) s(2) by (simp_all add: sw1_def whois_later_def)
        ultimately show "\<exists>sw' ev. requestWhois n E (take_bit 40 u) sw2 = Some (Inr (sw', ev)) \<and> sw_inv cap sw' \<and> whois_later E sw2 sw'"
          using rec [OF Some] by blast
      qed
      moreover have "whois_later E sw sw' \<and> whois_recent E addr sw'" if "whois_later E sw1 sw'" for sw'
      proof -
        have g: "ht_get address_hashCode (sw_lastSentWhois sw1) addr = Some (se_now E)" using x(7) by (simp add: sw1_def)
        have "ht_get address_hashCode (sw_lastSentWhois sw') addr = Some (se_now E)"
          using that g unfolding whois_later_def by fastforce
        moreover have "whois_later E sw sw'"
          unfolding whois_later_def
        proof (intro allI impI)
          fix a t assume "ht_get address_hashCode (sw_lastSentWhois sw) a = Some t"
          then have "ht_get address_hashCode (sw_lastSentWhois sw1) a \<in> {Some t, Some (se_now E)}"
            using x(6) by (auto simp: whois_later_def sw1_def)
          then show "ht_get address_hashCode (sw_lastSentWhois sw') a \<in> {Some t, Some (se_now E)}"
            using that unfolding whois_later_def by auto
        qed
        ultimately show ?thesis by (simp add: whois_recent_def)
      qed
      ultimately show ?thesis by metis
    qed
  qed
qed

lemma whois_again:
  assumes "sw_inv cap sw" "addr \<noteq> se_self E" "ht_get address_hashCode (sw_lastSentWhois sw) addr = Some (se_now E)"
  shows "\<exists>sw' ev. requestWhois (Suc n) E addr sw = Some (Inr (sw', ev)) \<and> sw_inv cap sw' \<and> whois_later E sw sw'"
  using whois_refused [OF assms(1,2), of n] assms(3) by auto

lemma whois_depth:
  assumes "sw_inv cap sw" "env_ok cap E" "addr \<noteq> se_self E"
  shows "\<exists>sw' ev. requestWhois 3 E addr sw = Some (Inr (sw', ev)) \<and> sw_inv cap sw' \<and> whois_later E sw sw' \<and> whois_recent E addr sw'"
  unfolding numeral_3_eq_3
proof (rule whois_sent [OF assms])
  fix u sw1 assume 1: "se_upstream E 0 = Some u" "take_bit 40 u \<noteq> se_self E" "sw_inv cap sw1"
  show "\<exists>sw'' ev. requestWhois (Suc (Suc 0)) E (take_bit 40 u) sw1 = Some (Inr (sw'', ev)) \<and> sw_inv cap sw'' \<and> whois_later E sw1 sw''"
  proof -
    have "\<exists>sw'' ev. requestWhois (Suc (Suc 0)) E (take_bit 40 u) sw1 = Some (Inr (sw'', ev)) \<and> sw_inv cap sw'' \<and> whois_later E sw1 sw''
        \<and> whois_recent E (take_bit 40 u) sw''"
    proof (rule whois_sent [OF 1(3) assms(2) 1(2)])
    fix v sw2 assume "se_upstream E 0 = Some v" "sw_inv cap sw2" "ht_get address_hashCode (sw_lastSentWhois sw2) (take_bit 40 u) = Some (se_now E)"
    then show "\<exists>sw'' ev. requestWhois (Suc 0) E (take_bit 40 v) sw2 = Some (Inr (sw'', ev)) \<and> sw_inv cap sw'' \<and> whois_later E sw2 sw''"
      using whois_again [of cap sw2 "take_bit 40 u" E 0] 1(1,2) by simp
    qed
    then show ?thesis by blast
  qed
qed

text \<open>C13: requesting an identity sends a packet, which may again request an identity, of the upstream; this ends, three calls deep at most. Afterwards the address is marked, and
  until the retry delay has passed another request for it sends and queues nothing.\<close>

theorem whois_terminates:
  assumes "sw_inv cap sw" "env_ok cap E" "addr \<noteq> se_self E"
  shows "\<exists>sw' ev. requestWhois 3 E addr sw = Some (Inr (sw', ev)) \<and> sw_inv cap sw' \<and> whois_recent E addr sw'
    \<and> (\<forall>E'. se_self E' = se_self E \<and> whois_recent E' addr sw' \<longrightarrow>
         (\<exists>t. requestWhois 1 E' addr sw' = Some (Inr (sw'\<lparr>sw_lastSentWhois := t\<rparr>, []))))"
proof -
  obtain sw' ev where r: "requestWhois 3 E addr sw = Some (Inr (sw', ev))" "sw_inv cap sw'" "whois_recent E addr sw'"
    using whois_depth [OF assms] by blast
  have "\<exists>t. requestWhois 1 E' addr sw' = Some (Inr (sw'\<lparr>sw_lastSentWhois := t\<rparr>, []))"
    if "se_self E' = se_self E" "whois_recent E' addr sw'" for E'
    using whois_refused [OF r(2), of addr E' 0] that assms(3) by (auto simp: whois_recent_def split: option.splits)
  then show ?thesis using r by blast
qed

theorem whois_terminates_witness:
  "\<exists>sw' ev. requestWhois 3 env_w 7 sw_w = Some (Inr (sw', ev)) \<and> whois_recent env_w 7 sw'"
  using whois_terminates [OF sw_w_inv env_w_ok, of 7] by (auto simp: env_w_def)

section \<open>Freshness of the queues\<close>

definition rx_fresh :: "sw_env \<Rightarrow> rx_entry \<Rightarrow> bool" where
  "rx_fresh E rq \<longleftrightarrow> (rq_timestamp rq \<noteq> 0 \<and> rq_complete rq \<longrightarrow> sint (se_now E - rq_timestamp rq) \<le> 5000)"

definition tx_fresh :: "sw_env \<Rightarrow> tx_entry \<Rightarrow> bool" where
  "tx_fresh E x \<longleftrightarrow> unat (se_now E - tx_creationTime x) \<le> TRANSMIT_QUEUE_TIMEOUT"

definition env_t :: sw_env where
  "env_t = env_w\<lparr>se_tryDecode := (\<lambda>h. (h, False)), se_now := 9000\<rparr>"

definition sw_t :: switch where
  "sw_t = sw_w\<lparr>sw_txQueue := [\<lparr>tx_dest = 3, tx_nwid = 0, tx_creationTime = 1000, tx_packet = packet_w 3 0, tx_encrypt = False\<rparr>]\<rparr>"

definition timer_inv :: "nat \<Rightarrow> sw_env \<Rightarrow> nat \<Rightarrow> switch \<Rightarrow> bool" where
  "timer_inv cap E k sw \<longleftrightarrow> sw_inv cap sw \<and> sw_lastCheckedQueues sw = se_now E \<and> (\<forall>x \<in> set (sw_txQueue sw). tx_fresh E x)
     \<and> (\<forall>i < k. rx_fresh E (sw_rxQueue sw ! i))"

section \<open>The timer\<close>

lemma requestWhois_frame:
  "requestWhois n E a sw = Some (Inr (sw', ev)) \<Longrightarrow> sw_rxQueue sw' = sw_rxQueue sw \<and> sw_lastCheckedQueues sw' = sw_lastCheckedQueues sw
    \<and> set (sw_txQueue sw') \<subseteq> set (sw_txQueue sw) \<union> {x. tx_creationTime x = se_now E}"
proof (induction n arbitrary: a sw sw' ev)
  case (Suc n)
  have send: "sw_rxQueue s' = sw_rxQueue s \<and> sw_lastCheckedQueues s' = sw_lastCheckedQueues s
      \<and> set (sw_txQueue s') \<subseteq> set (sw_txQueue s) \<union> {x. tx_creationTime x = se_now E}"
    if "switch_send (requestWhois n E) E p enc nwid s = Some (Inr (s', ev'))" for p enc nwid s s' ev'
    using that Suc.IH by (fastforce simp: switch_send_def Let_def split: sum.splits if_splits dest: list.set_sel(2) [rotated])
  show ?case
    using Suc.prems send by (fastforce simp: Let_def split: prod.splits if_splits option.splits sum.splits)
qed simp

lemma whois_timer:
  assumes "sw_inv cap sw" "env_ok cap E"
  shows "\<exists>sw' ev. requestWhois 3 E a sw = Some (Inr (sw', ev)) \<and> sw_inv cap sw' \<and> sw_rxQueue sw' = sw_rxQueue sw
    \<and> sw_lastCheckedQueues sw' = sw_lastCheckedQueues sw
    \<and> set (sw_txQueue sw') \<subseteq> set (sw_txQueue sw) \<union> {x. tx_creationTime x = se_now E}"
proof (cases "a = se_self E")
  case True
  then show ?thesis using assms(1) by (simp add: numeral_3_eq_3)
next
  case False
  then show ?thesis using whois_depth [OF assms] requestWhois_frame by metis
qed

lemma run_steps_append:
  "run_steps fs sw = Some (Inr (sw1, ev1)) \<Longrightarrow> run_steps gs sw1 = Some (Inr (sw2, ev2)) \<Longrightarrow> run_steps (fs @ gs) sw = Some (Inr (sw2, ev1 @ ev2))"
  by (induction fs arbitrary: sw ev1) (auto split: option.splits sum.splits)

lemma run_steps_keep:
  assumes "\<And>f s. f \<in> set fs \<Longrightarrow> P s \<Longrightarrow> \<exists>s' ev. f s = Some (Inr (s', ev)) \<and> P s'" "P sw"
  shows "\<exists>sw' ev. run_steps fs sw = Some (Inr (sw', ev)) \<and> P sw'"
  using assms
proof (induction fs arbitrary: sw)
  case (Cons f fs)
  obtain s' ev where s: "f sw = Some (Inr (s', ev))" "P s'" using Cons.prems by fastforce
  obtain s'' ev' where "run_steps fs s' = Some (Inr (s'', ev'))" "P s''" using Cons.IH [OF _ s(2)] Cons.prems(1) by (metis list.set_intros(2))
  then show ?case using s by simp
qed simp

lemma rx_retry_ok:
  assumes "rx_inv cap rq" "env_ok cap E"
  shows "\<exists>rq' ev. rx_retry E rq = Inr (rq', ev) \<and> rx_inv cap rq' \<and> rx_fresh E rq'"
proof (cases "rq_timestamp rq \<noteq> 0 \<and> rq_complete rq")
  case True
  obtain h dn where d: "se_tryDecode E (rq_frag0 rq) = (h, dn)" by force
  have p: "packet_ok cap (ip_packet (rq_frag0 rq))" "18 \<le> buf_l (ip_packet (rq_frag0 rq))" using assms(1) True by (auto simp: rx_inv_def)
  note ok = decoded_ok [OF assms(2) p d]
  show ?thesis using assms(1) ok True by (auto simp: rx_retry_def tryDecode_eq [OF p(1)] p(2) d rx_inv_def rx_fresh_def Let_def)
qed (use assms(1) in \<open>auto simp: rx_retry_def rx_fresh_def\<close>)

lemma timer_whois:
  assumes "timer_inv cap E k sw" "env_ok cap E"
  shows "\<exists>sw' ev. requestWhois 3 E a sw = Some (Inr (sw', ev)) \<and> timer_inv cap E k sw'"
proof -
  obtain sw' ev where r: "requestWhois 3 E a sw = Some (Inr (sw', ev))" "sw_inv cap sw'" "sw_rxQueue sw' = sw_rxQueue sw"
    "sw_lastCheckedQueues sw' = sw_lastCheckedQueues sw" "set (sw_txQueue sw') \<subseteq> set (sw_txQueue sw) \<union> {x. tx_creationTime x = se_now E}"
    using whois_timer assms unfolding timer_inv_def by metis
  moreover have "tx_fresh E x" if "x \<in> set (sw_txQueue sw')" for x
    using r(5) that assms(1) by (auto simp: timer_inv_def tx_fresh_def)
  ultimately show ?thesis using assms(1) by (auto simp: timer_inv_def)
qed

lemma timer_rx:
  assumes "timer_inv cap E k sw" "env_ok cap E" "k < 32"
  shows "\<exists>sw' ev. rx_timer 3 E k sw = Some (Inr (sw', ev)) \<and> timer_inv cap E (Suc k) sw'"
proof -
  let ?rq = "sw_rxQueue sw ! k"
  have l: "length (sw_rxQueue sw) = 32" using assms(1) by (simp add: timer_inv_def sw_inv_def)
  have i: "rx_inv cap ?rq" using assms(1,3) l by (auto simp: timer_inv_def sw_inv_def)
  obtain rq' ev where r: "rx_retry E ?rq = Inr (rq', ev)" "rx_inv cap rq'" "rx_fresh E rq'" using rx_retry_ok [OF i assms(2)] by blast
  define sw1 where "sw1 = sw\<lparr>sw_rxQueue := (sw_rxQueue sw)[k := rq']\<rparr>"
  have t: "timer_inv cap E (Suc k) sw1"
    using assms(1,3) l r(2,3) by (auto simp: timer_inv_def sw_inv_def sw1_def nth_list_update less_Suc_eq dest!: set_update_subset_insert [THEN subsetD])
  show ?thesis
  proof (cases "rq_timestamp ?rq \<noteq> 0 \<and> rq_complete ?rq \<and> rq_timestamp rq' \<noteq> 0")
    case True
    have "rq_complete rq'" using True r(1) by (auto simp: rx_retry_def Let_def bindE_eq_Inr split: if_splits prod.splits)
    then have "18 \<le> buf_l (ip_packet (rq_frag0 rq'))" "buf_inv (ip_packet (rq_frag0 rq'))" using r(2) by (auto simp: rx_inv_def packet_ok_def)
    then obtain src where src: "packet_source (ip_packet (rq_frag0 rq')) = Inr src" by (simp add: packet_source_data)
    obtain sw2 ev2 where "requestWhois 3 E src sw1 = Some (Inr (sw2, ev2))" "timer_inv cap E (Suc k) sw2"
      using timer_whois [OF t assms(2)] by blast
    then show ?thesis using True r(1) src t by (simp add: rx_timer_def Let_def sw1_def [symmetric])
  next
    case False
    then have "rx_timer 3 E k sw = Some (Inr (sw1, ev))" using r(1) by (auto simp: rx_timer_def Let_def sw1_def)
    then show ?thesis using t by blast
  qed
qed

lemma timer_rx_all:
  assumes "timer_inv cap E 0 sw" "env_ok cap E" "k \<le> 32"
  shows "\<exists>sw' ev. run_steps (map (rx_timer 3 E) [0..<k]) sw = Some (Inr (sw', ev)) \<and> timer_inv cap E k sw'"
  using assms(3)
proof (induction k)
  case (Suc k)
  then obtain s ev where s: "run_steps (map (rx_timer 3 E) [0..<k]) sw = Some (Inr (s, ev))" "timer_inv cap E k s" by auto
  obtain s' ev' where "rx_timer 3 E k s = Some (Inr (s', ev'))" "timer_inv cap E (Suc k) s'" using timer_rx [OF s(2) assms(2)] Suc.prems by auto
  then show ?case using run_steps_append [OF s(1), of "[rx_timer 3 E k]" s' ev'] by simp
qed (use assms(1) in simp)

lemma timer_clean:
  assumes "timer_inv cap E k sw"
  shows "\<exists>sw'. clean_unite E sw = Some (Inr (sw', [])) \<and> timer_inv cap E k sw' \<and> sw_lastSentWhois sw' = sw_lastSentWhois sw"
    "\<exists>sw'. clean_whois E sw = Some (Inr (sw', [])) \<and> timer_inv cap E k sw'
      \<and> (\<forall>a t. ht_get address_hashCode (sw_lastSentWhois sw') a = Some t \<longrightarrow> sint (se_now E - t) \<le> 1000)"
proof -
  have h: "ht_inv unite_hash (sw_lastUnite sw)" "ht_inv address_hashCode (sw_lastSentWhois sw)" using assms by (auto simp: timer_inv_def sw_inv_def)
  show "\<exists>sw'. clean_unite E sw = Some (Inr (sw', [])) \<and> timer_inv cap E k sw' \<and> sw_lastSentWhois sw' = sw_lastSentWhois sw"
    using clean_loop_all [OF h(1), of "\<lambda>v. Inr (unat (se_now E - v) < 240000)"] assms
    by (auto simp: clean_unite_def Let_def timer_inv_def sw_inv_def)
  show "\<exists>sw'. clean_whois E sw = Some (Inr (sw', [])) \<and> timer_inv cap E k sw'
      \<and> (\<forall>a t. ht_get address_hashCode (sw_lastSentWhois sw') a = Some t \<longrightarrow> sint (se_now E - t) \<le> 1000)"
    using clean_loop_all [OF h(2), of "\<lambda>v. Inr (sint (se_now E - v) \<le> 1000)"] assms
    by (auto simp: clean_whois_def Let_def timer_inv_def sw_inv_def)
qed

lemma tx_timer_fresh:
  "tx_timer E q = (tx, need, ev) \<Longrightarrow> length tx \<le> length q \<and> (\<forall>x \<in> set tx. tx_fresh E x)"
  by (induction q arbitrary: tx need ev) (fastforce simp: tx_fresh_def Let_def split: prod.splits if_splits)+

lemma timer_steps:
  assumes "timer_inv cap E 0 sw" "env_ok cap E"
  shows "\<exists>sw' ev. run_steps (map (requestWhois 3 E) need @ map (rx_timer 3 E) [0..<32] @ [clean_unite E, clean_whois E]) sw = Some (Inr (sw', ev))
    \<and> timer_inv cap E 32 sw' \<and> (\<forall>a t. ht_get address_hashCode (sw_lastSentWhois sw') a = Some t \<longrightarrow> sint (se_now E - t) \<le> 1000)"
proof -
  obtain s1 e1 where 1: "run_steps (map (requestWhois 3 E) need) sw = Some (Inr (s1, e1))" "timer_inv cap E 0 s1"
    using run_steps_keep [of "map (requestWhois 3 E) need" "timer_inv cap E 0" sw] timer_whois [OF _ assms(2)] assms(1) by fastforce
  obtain s2 e2 where 2: "run_steps (map (rx_timer 3 E) [0..<32]) s1 = Some (Inr (s2, e2))" "timer_inv cap E 32 s2"
    using timer_rx_all [OF 1(2) assms(2) order_refl] by blast
  obtain s3 where 3: "clean_unite E s2 = Some (Inr (s3, []))" "timer_inv cap E 32 s3" using timer_clean(1) [OF 2(2)] by blast
  obtain s4 where 4: "clean_whois E s3 = Some (Inr (s4, []))" "timer_inv cap E 32 s4"
    "\<forall>a t. ht_get address_hashCode (sw_lastSentWhois s4) a = Some t \<longrightarrow> sint (se_now E - t) \<le> 1000" using timer_clean(2) [OF 3(2)] by blast
  have "run_steps [clean_unite E, clean_whois E] s2 = Some (Inr (s4, []))" using 3(1) 4(1) by simp
  then show ?thesis using run_steps_append [OF 1(1) run_steps_append [OF 2(1)]] 4 by blast
qed

text \<open>C14: the timer of the switch always finishes, keeps its state well formed and asks to be called again within the retry delay. When it
  is due, no packet older than the timeout stays in the transmit queue, no complete packet older than five seconds stays in the receive queue (entries whose fragments are still incomplete are not looked at and stay until they are reused), and no request time older than
  two retry delays is kept.\<close>

theorem timer_expires:
  assumes "sw_inv cap sw" "env_ok cap E"
  shows "\<exists>delay sw' ev. doTimerTasks 3 E sw = Some (Inr (delay, sw', ev)) \<and> sw_inv cap sw' \<and> 0 < delay \<and> delay \<le> WHOIS_RETRY_DELAY
    \<and> (unat (se_now E - sw_lastCheckedQueues sw) < WHOIS_RETRY_DELAY \<longrightarrow> sw' = sw \<and> ev = [])
    \<and> (WHOIS_RETRY_DELAY \<le> unat (se_now E - sw_lastCheckedQueues sw) \<longrightarrow>
         sw_lastCheckedQueues sw' = se_now E \<and> (\<forall>x \<in> set (sw_txQueue sw'). tx_fresh E x) \<and> (\<forall>rq \<in> set (sw_rxQueue sw'). rx_fresh E rq)
       \<and> (\<forall>a t. ht_get address_hashCode (sw_lastSentWhois sw') a = Some t \<longrightarrow> sint (se_now E - t) \<le> int (2 * WHOIS_RETRY_DELAY)))"
proof (cases "unat (se_now E - sw_lastCheckedQueues sw) < 500")
  case True
  then show ?thesis using assms(1) by (simp add: doTimerTasks_def Let_def)
next
  case False
  obtain tx need ev where t: "tx_timer E (sw_txQueue sw) = (tx, need, ev)" by (metis prod_cases3)
  define sw1 where "sw1 = sw\<lparr>sw_lastCheckedQueues := se_now E, sw_txQueue := tx\<rparr>"
  have "timer_inv cap E 0 sw1"
    using assms(1) tx_timer_fresh [OF t] by (auto simp: timer_inv_def sw_inv_def sw1_def)
  then obtain sw' ev' where r: "run_steps (map (requestWhois 3 E) need @ map (rx_timer 3 E) [0..<32] @ [clean_unite E, clean_whois E]) sw1 = Some (Inr (sw', ev'))"
    "timer_inv cap E 32 sw'" "\<forall>a t. ht_get address_hashCode (sw_lastSentWhois sw') a = Some t \<longrightarrow> sint (se_now E - t) \<le> 1000"
    using timer_steps [OF _ assms(2)] by blast
  have "doTimerTasks 3 E sw = Some (Inr (500, sw', ev @ ev'))"
    using False t r(1) unfolding sw1_def by (simp add: doTimerTasks_def Let_def)
  moreover have "\<forall>rq \<in> set (sw_rxQueue sw'). rx_fresh E rq" using r(2) by (auto simp: timer_inv_def sw_inv_def in_set_conv_nth)
  ultimately show ?thesis using False r by (auto simp: timer_inv_def)
qed

theorem timer_expires_witness:
  "\<exists>delay sw' ev. doTimerTasks 3 env_t sw_t = Some (Inr (delay, sw', ev)) \<and> list_all (tx_fresh env_t) (sw_txQueue sw') \<and> list_all (rx_fresh env_t) (sw_rxQueue sw')"
proof -
  have "sw_inv 64 sw_t" using sw_w_inv by (simp add: sw_inv_def sw_t_def)
  moreover have "env_ok 64 env_t" using env_w_ok by (simp add: env_ok_def env_t_def)
  moreover have "500 \<le> unat (se_now env_t - sw_lastCheckedQueues sw_t)" by (simp add: env_t_def sw_t_def sw_w_def)
  ultimately show ?thesis using timer_expires [of 64 sw_t env_t] unfolding list_all_iff by blast
qed

end
