(* ===== verification/ZT_Reassembly.thy ===== *)
theory ZT_Reassembly
  imports ZT_Switch
begin

text \<open>
  The composition of the two ends of \<^verbatim>\<open>node/Switch.cpp\<close>: what \<open>_sendViaSpecificPath\<close> cuts a packet into and what \<open>onRemotePacket\<close> makes of the
  pieces. \<open>rx_has\<close> says which pieces an entry of the receive queue holds; each piece moves the entry from one set of
  numbers to the next, until the last completes the packet.
\<close>

section \<open>Entries and pieces\<close>

text \<open>An entry that has the datagrams with the numbers in \<open>S\<close> of a packet cut into \<open>T\<close>, of which number \<open>k\<close> is \<open>dg k\<close>.\<close>

definition rx_has :: "nat \<Rightarrow> u64 \<Rightarrow> nat \<Rightarrow> (nat \<Rightarrow> bytes) \<Rightarrow> nat set \<Rightarrow> rx_entry \<Rightarrow> bool" where
  "rx_has cap pid T dg S rq \<longleftrightarrow> rx_inv cap rq \<and> rq_timestamp rq \<noteq> 0 \<and> rq_packetId rq = pid
     \<and> (\<forall>k. bit (rq_haveFragments rq) k \<longleftrightarrow> k \<in> S) \<and> (S \<noteq> {0} \<longrightarrow> rq_totalFragments rq = T)
     \<and> (0 \<in> S \<longrightarrow> buf_data (ip_packet (rq_frag0 rq)) = dg 0) \<and> (\<forall>k \<in> S. k \<noteq> 0 \<longrightarrow> buf_data (rq_frags rq ! (k - 1)) = dg k)"

definition assembled :: "nat \<Rightarrow> (nat \<Rightarrow> bytes) \<Rightarrow> bytes" where
  "assembled T dg = dg 0 @ concat (map (\<lambda>k. drop 16 (dg k)) [1..<T])"

text \<open>Before its first datagram no entry has the packet's id, afterwards exactly one has.\<close>

definition rx_state :: "nat \<Rightarrow> u64 \<Rightarrow> nat \<Rightarrow> (nat \<Rightarrow> bytes) \<Rightarrow> nat set \<Rightarrow> switch \<Rightarrow> bool" where
  "rx_state cap pid T dg S sw \<longleftrightarrow> sw_inv cap sw \<and>
     (if S = {} then \<forall>rq \<in> set (sw_rxQueue sw). rq_packetId rq \<noteq> pid
      else \<exists>i < RX_QUEUE_SIZE. rx_has cap pid T dg S (sw_rxQueue sw ! i)
             \<and> (\<forall>j < RX_QUEUE_SIZE. j \<noteq> i \<longrightarrow> rq_packetId (sw_rxQueue sw ! j) \<noteq> pid))"

text \<open>The datagrams of a packet with contents \<open>d\<close> sent with a maximal size of \<open>mtu\<close>, of which there are \<open>T\<close>.\<close>

definition datagram :: "bytes \<Rightarrow> nat \<Rightarrow> nat \<Rightarrow> nat \<Rightarrow> bytes" where
  "datagram d mtu T k =
    (if k = 0 then take mtu d
     else fragment_wire d (mtu + (k - 1) * (mtu - 16)) (min (length d - mtu - (k - 1) * (mtu - 16)) (mtu - 16)) k T)"

text \<open>A packet as its sender cuts it, for the receiver \<open>self\<close>.\<close>

definition cut_for :: "nat \<Rightarrow> address \<Rightarrow> bytes \<Rightarrow> nat \<Rightarrow> nat \<Rightarrow> bool" where
  "cut_for cap self d mtu T \<longleftrightarrow> 28 \<le> mtu \<and> mtu < length d \<and> length d \<le> cap \<and> 2 \<le> T \<and> T \<le> 7
     \<and> length d - mtu \<le> (T - 1) * (mtu - 16) \<and> (T - 2) * (mtu - 16) < length d - mtu
     \<and> be_word (take 5 (drop 8 d)) = self \<and> be_word (take 5 (drop 13 d)) \<noteq> self \<and> d ! 13 \<noteq> 0xff \<and> d ! 18 AND 0x40 \<noteq> 0"

text \<open>A sequence of datagrams, each with its environment and path; the events are listed per datagram.\<close>

fun rx_run :: "(sw_env \<times> path \<times> bytes) list \<Rightarrow> switch \<Rightarrow> (switch \<times> sw_event list list) result" where
  "rx_run [] sw = Inr (sw, [])"
| "rx_run ((E, path, data) # xs) sw =
    bindE (onRemotePacket E path data sw) (\<lambda>(sw, ev). bindE (rx_run xs sw) (\<lambda>(sw, evs). Inr (sw, ev # evs)))"

text \<open>The number of a datagram, as its bytes say.\<close>

definition datagram_number :: "bytes \<Rightarrow> nat" where
  "datagram_number w = (if w ! 13 = 0xff then unat (w ! 14 AND 0xf) else 0)"

section \<open>Reassembly\<close>

lemma countBits_table:
  "list_all (\<lambda>n. unat (countBits32 (of_nat n)) = sum_list (map (\<lambda>k. n div 2 ^ k mod 2) [0..<7])) [0..<128]"
  by code_simp

lemma countBits_card:
  assumes "\<forall>k. bit (w :: u32) k \<longleftrightarrow> k \<in> S" "S \<subseteq> {..<7}"
  shows "unat (countBits32 w) = card S"
proof -
  have "take_bit 7 w = w" by (rule bit_word_eqI) (use assms in \<open>auto simp: bit_simps\<close>)
  then have "unat w < 2 ^ 7" by (metis take_bit_nat_less_exp unsigned_take_bit_eq)
  then have "unat (countBits32 w) = sum_list (map (\<lambda>k. unat w div 2 ^ k mod 2) [0..<7])"
    using countBits_table [unfolded list_all_iff, THEN bspec, of "unat w"] by simp
  also have "\<dots> = (\<Sum>k<7. of_bool (bit (unat w) k))"
    by (simp add: sum_list_sum_nth atLeast0LessThan bit_iff_odd odd_iff_mod_2_eq_one of_bool_def if_distrib) (rule sum.cong, auto)
  also have "\<dots> = card {k. k < 7 \<and> bit w k}" by (simp add: bit_unsigned_iff sum.If_cases of_bool_def Collect_conj_eq lessThan_def)
  also have "{k. k < 7 \<and> bit w k} = S" using assms by auto
  finally show ?thesis .
qed

lemma bit_push_one: "bit (push_bit k (1 :: u32)) n \<longleftrightarrow> n = k \<and> k < 32"
  by (auto simp: bit_simps)

lemma and_push_one: "(w :: u32) AND push_bit k 1 = 0 \<longleftrightarrow> \<not> (bit w k)"
  by (simp add: and_exp_eq_0_iff_not_bit)

lemma and_one: "(w :: u32) AND 1 = 0 \<longleftrightarrow> \<not> bit w 0"
  using and_push_one [of w 0] by simp

lemma fragment_first:
  assumes "rx_inv cap rq" "rq_packetId rq \<noteq> pid" "packet_ok cap f" "buf_data f = dg k" "0 < k" "k < 7" "T \<le> 7" "se_now E \<noteq> 0"
  shows "\<exists>rq'. rx_fragment E f pid k T rq = Inr (rq', []) \<and> rx_has cap pid T dg {k} rq'"
proof -
  have "\<forall>g \<in> set ((rq_frags rq)[k - 1 := f]). packet_ok cap g"
    using assms(1,3) set_update_subset_insert [of "rq_frags rq" "k - 1" f] by (auto simp: rx_inv_def)
  then show ?thesis
    using assms by (auto simp: rx_fragment_def rx_has_def rx_inv_def bit_push_one simp del: push_bit_of_1)
qed

lemma head_first:
  assumes "rx_inv cap rq" "rq_packetId rq \<noteq> pid" "length (dg 0) \<le> cap" "se_now E \<noteq> 0"
  shows "\<exists>rq'. rx_head E path (dg 0) pid rq = Inr (rq', []) \<and> rx_has cap pid T dg {0} rq'"
proof -
  have p: "packet_ok cap (ip_packet (rq_frag0 rq))" using assms(1) by (simp add: rx_inv_def)
  then obtain b where "ip_init (dg 0) path (se_now E) (rq_frag0 rq)
      = Inr \<lparr>ip_packet = b, ip_receiveTime = se_now E, ip_path = path, ip_authenticated = False\<rparr>" "packet_ok cap b" "buf_data b = dg 0"
    using ip_init_cases [OF p, of "dg 0" path "se_now E"] assms(3) copyFrom_fits [of "dg 0" "ip_packet (rq_frag0 rq)"]
    by (auto simp: packet_ok_def ip_init_def buf_inv_def)
  then show ?thesis using assms by (auto simp: rx_head_def rx_has_def rx_inv_def bit_1_iff)
qed

lemma finish_full:
  assumes "rx_has cap pid T dg {..<T} rq" "env_ok cap E" "2 \<le> T" "T \<le> 7" "length (assembled T dg) \<le> cap" "18 \<le> length (dg 0)"
  shows "\<exists>rq'. finish_rx E rq = Inr (rq', [TryDecode (assembled T dg)])"
proof -
  let ?fs = "take (T - 1) (rq_frags rq)"
  have "1 \<in> {..<T}" using assms(3) by simp
  then have "{..<T} \<noteq> {0}" by (metis singletonD zero_neq_one)
  then have T: "rq_totalFragments rq = T" "length (rq_frags rq) = 6" using assms(1) by (auto simp: rx_has_def rx_inv_def)
  have m: "map (\<lambda>f. drop 16 (buf_data f)) ?fs = map (\<lambda>k. drop 16 (dg k)) [1..<T]"
  proof (rule nth_equalityI)
    fix i assume "i < length (map (\<lambda>f. drop 16 (buf_data f)) ?fs)"
    then have "i < T - 1" "i < length (rq_frags rq)" by simp_all
    moreover from this have "Suc i \<in> {..<T}" by simp
    then have "buf_data (rq_frags rq ! (Suc i - 1)) = dg (Suc i)" using assms(1) unfolding rx_has_def by blast
    ultimately show "map (\<lambda>f. drop 16 (buf_data f)) ?fs ! i = map (\<lambda>k. drop 16 (dg k)) [1..<T] ! i" by simp
  qed (use assms(4) T(2) in simp)
  have p: "\<forall>f \<in> set ?fs. packet_ok cap f" "packet_ok cap (ip_packet (rq_frag0 rq))" "16 \<le> cap"
    using assms(1,2) by (auto simp: rx_has_def rx_inv_def env_ok_def dest: in_set_takeD)
  have h: "buf_data (ip_packet (rq_frag0 rq)) = dg 0" using assms(1,3) by (simp add: rx_has_def)
  obtain b ok where b: "append_frags ?fs (ip_packet (rq_frag0 rq)) = Inr (b, ok)" "ok \<and> buf_data b = assembled T dg"
    using append_frags_spec [OF p] assms(5) unfolding m h assembled_def by blast
  then have "append_frags (take (T - Suc 0) (rq_frags rq)) (ip_packet (rq_frag0 rq)) = Inr (b, True)" "buf_data b = assembled T dg" by simp_all
  moreover have "packet_ok cap b" "18 \<le> buf_l b"
    using append_frags_spec [OF p] b p(2) h assms(6) buf_data_length [of "ip_packet (rq_frag0 rq)"] by (auto simp: packet_ok_def)
  ultimately show ?thesis using T assms(4) by (auto simp: finish_rx_def run_decode_def tryDecode_eq Let_def split: prod.split)
qed

lemma rx_count:
  assumes "\<forall>k. bit (w :: u32) k \<longleftrightarrow> k \<in> S" "S \<subseteq> {..<T}" "T \<le> 7"
  shows "unat (countBits32 w) = T \<longleftrightarrow> S = {..<T}"
proof -
  have "unat (countBits32 w) = card S" using countBits_card [OF assms(1)] assms(2,3) by force
  then show ?thesis using assms(2) by (metis card_lessThan card_subset_eq finite_lessThan)
qed

lemma fragment_step:
  assumes "rx_has cap pid T dg S rq" "env_ok cap E" "packet_ok cap f" "buf_data f = dg k" "0 < k" "k < T" "k \<notin> S" "S \<noteq> {}" "S \<subseteq> {..<T}"
    "T \<le> 7" "length (assembled T dg) \<le> cap" "18 \<le> length (dg 0)"
  shows "\<exists>rq'. if insert k S = {..<T} then rx_fragment E f pid k T rq = Inr (rq', [TryDecode (assembled T dg)])
    else rx_fragment E f pid k T rq = Inr (rq', []) \<and> rx_has cap pid T dg (insert k S) rq'"
proof -
  let ?rq = "rq\<lparr>rq_frags := (rq_frags rq)[k - 1 := f], rq_totalFragments := T, rq_haveFragments := rq_haveFragments rq OR push_bit k 1\<rparr>"
  have "\<forall>g \<in> set ((rq_frags rq)[k - 1 := f]). packet_ok cap g"
    using assms(1,3) set_update_subset_insert [of "rq_frags rq" "k - 1" f] by (auto simp: rx_has_def rx_inv_def)
  then have "rx_inv cap ?rq" using assms(1,10) by (simp add: rx_has_def rx_inv_def)
  moreover have "\<forall>j. bit (rq_haveFragments rq OR push_bit k 1) j \<longleftrightarrow> j \<in> insert k S"
    using assms(1,6,10) by (auto simp: rx_has_def bit_or_iff bit_push_one simp del: push_bit_of_1)
  moreover have "buf_data ((rq_frags rq)[k - 1 := f] ! (j - 1)) = dg j" if "j \<in> insert k S" "j \<noteq> 0" for j
    using that assms(1,4,5,6,10) by (cases "j = k") (auto simp: rx_has_def rx_inv_def nth_list_update)
  ultimately have has: "rx_has cap pid T dg (insert k S) ?rq" using assms(1,5,7,8) by (auto simp: rx_has_def)
  have c: "unat (countBits32 (rq_haveFragments ?rq)) = T \<longleftrightarrow> insert k S = {..<T}"
    by (rule rx_count) (use has assms(6,9,10) in \<open>auto simp: rx_has_def\<close>)
  have "\<not> bit (rq_haveFragments rq) k" "rq_packetId rq = pid" using assms(1,7) by (auto simp: rx_has_def)
  then have "rx_fragment E f pid k T rq = (if insert k S = {..<T} then finish_rx E ?rq else Inr (?rq, []))"
    using c by (simp add: rx_fragment_def and_push_one Let_def del: push_bit_of_1)
  then show ?thesis using has finish_full [OF _ assms(2), of pid T dg ?rq] assms(5,6,10,11,12)
    by (cases "insert k S = {..<T}") (simp_all del: push_bit_of_1)
qed

lemma head_step:
  assumes "rx_has cap pid T dg S rq" "env_ok cap E" "0 \<notin> S" "S \<noteq> {}" "S \<subseteq> {..<T}" "2 \<le> T" "T \<le> 7" "length (assembled T dg) \<le> cap" "18 \<le> length (dg 0)"
  shows "\<exists>rq'. if insert 0 S = {..<T} then rx_head E path (dg 0) pid rq = Inr (rq', [TryDecode (assembled T dg)])
    else rx_head E path (dg 0) pid rq = Inr (rq', []) \<and> rx_has cap pid T dg (insert 0 S) rq'"
proof -
  have p: "packet_ok cap (ip_packet (rq_frag0 rq))" using assms(1) by (simp add: rx_has_def rx_inv_def)
  have "length (dg 0) \<le> cap" using assms(8) by (simp add: assembled_def)
  then obtain h where h: "ip_init (dg 0) path (se_now E) (rq_frag0 rq) = Inr h" "packet_ok cap (ip_packet h)" "buf_data (ip_packet h) = dg 0"
    using ip_init_cases [OF p, of "dg 0" path "se_now E"] copyFrom_fits [of "dg 0" "ip_packet (rq_frag0 rq)"] p
    by (auto simp: packet_ok_def ip_init_def buf_inv_def)
  let ?rq = "rq\<lparr>rq_haveFragments := rq_haveFragments rq OR 1, rq_frag0 := h\<rparr>"
  have T: "rq_totalFragments rq = T" using assms(1,3) by (auto simp: rx_has_def)
  have "18 \<le> buf_l (ip_packet h)" using h(2,3) assms(9) buf_data_length [of "ip_packet h"] by (simp add: packet_ok_def)
  then have "rx_inv cap ?rq" using assms(1) h(2) by (simp add: rx_has_def rx_inv_def)
  moreover have "\<forall>j. bit (rq_haveFragments rq OR 1) j \<longleftrightarrow> j \<in> insert 0 S"
    using assms(1) by (auto simp: rx_has_def bit_or_iff bit_1_iff)
  ultimately have has: "rx_has cap pid T dg (insert 0 S) ?rq" using assms(1,3,4) h(3) T by (auto simp: rx_has_def)
  have c: "unat (countBits32 (rq_haveFragments ?rq)) = T \<longleftrightarrow> insert 0 S = {..<T}"
    by (rule rx_count) (use has assms(5-7) in \<open>auto simp: rx_has_def\<close>)
  have "\<not> bit (rq_haveFragments rq) 0" "rq_packetId rq = pid" using assms(1,3) by (auto simp: rx_has_def)
  then have "rx_head E path (dg 0) pid rq = (if insert 0 S = {..<T} then finish_rx E ?rq else Inr (?rq, []))"
    using c assms(6) T h(1) by (simp add: rx_head_def and_one Let_def)
  then show ?thesis using has finish_full [OF _ assms(2), of pid T dg ?rq] assms(6-9) by (cases "insert 0 S = {..<T}") simp_all
qed

lemma uint_of_nat_32: "k \<le> 32 \<Longrightarrow> uint (of_nat k :: u32) = int k"
  by (simp only: uint_nat unat_of_nat) simp

lemma find_rx_index:
  assumes "i < 32"
  shows "\<exists>k \<in> {1..32}. unat ((c :: u32) - of_nat k) mod 32 = i"
proof -
  define r where "r = unat c mod 32"
  define q where "q = int (unat c div 32)"
  define k where "k = (if i < r then r - i else r + 32 - i)"
  have r: "r < 32" by (simp add: r_def)
  have "int (unat c) = int (32 * (unat c div 32) + unat c mod 32)" by (simp only: mult_div_mod_eq)
  then have c: "uint c = 32 * q + int r" by (simp only: q_def r_def of_nat_add of_nat_mult of_nat_numeral uint_nat)
  have k: "k \<in> {1..32}" using assms r by (auto simp: k_def)
  have "uint c - int k = 32 * (if i < r then q else q - 1) + int i" using assms r c by (auto simp: k_def)
  then have m: "(uint c - int k) mod 32 = int i" using assms by simp
  have "uint (c - of_nat k) = (uint c - int k) mod 2 ^ 32" using k by (simp add: uint_word_ariths uint_of_nat_32)
  then have "uint (c - of_nat k) mod 32 = int i" using m mod_mod_cancel [of 32 "2 ^ 32" "uint c - int k"] by simp
  then have "int (unat (c - of_nat k) mod 32) = int i" by (simp add: zmod_int)
  then show ?thesis using k by (metis of_nat_eq_iff)
qed

lemma find_rx_spec:
  assumes "\<forall>j < 32. j \<noteq> i \<longrightarrow> rq_packetId (q ! j) \<noteq> pid" "rq_packetId (q ! i) = pid" "rq_timestamp (q ! i) \<noteq> 0"
    "\<exists>k \<in> set ks. unat (c - of_nat k) mod 32 = i"
  shows "find_rx q c pid ks = Some i"
  using assms(4)
proof (induction ks)
  case (Cons a ks)
  have "unat (c - of_nat a) mod 32 < 32" by simp
  then show ?case using Cons assms(1-3) by (cases "unat (c - of_nat a) mod 32 = i") (auto simp: Let_def)
qed simp

lemma find_rx_none: "\<forall>j < 32. rq_packetId (q ! j) \<noteq> pid \<Longrightarrow> find_rx q c pid ks = None"
  by (induction ks) (auto simp: Let_def)

lemma rx_state_entry:
  assumes "rx_state cap pid T dg S sw"
  shows "\<exists>i v. findRXQueueEntry pid sw = (i, sw\<lparr>sw_rxQueuePtr := v\<rparr>) \<and> i < 32
    \<and> (if S = {} then rq_packetId (sw_rxQueue sw ! i) \<noteq> pid else rx_has cap pid T dg S (sw_rxQueue sw ! i))
    \<and> (\<forall>j < 32. j \<noteq> i \<longrightarrow> rq_packetId (sw_rxQueue sw ! j) \<noteq> pid)"
proof (cases "S = {}")
  case True
  then have a: "\<forall>j < 32. rq_packetId (sw_rxQueue sw ! j) \<noteq> pid" using assms by (auto simp: rx_state_def sw_inv_def)
  then show ?thesis using True by (simp add: findRXQueueEntry_def find_rx_none Let_def) blast
next
  case False
  then obtain i where i: "i < 32" "rx_has cap pid T dg S (sw_rxQueue sw ! i)" "\<forall>j < 32. j \<noteq> i \<longrightarrow> rq_packetId (sw_rxQueue sw ! j) \<noteq> pid"
    using assms by (auto simp: rx_state_def)
  have "find_rx (sw_rxQueue sw) (sw_rxQueuePtr sw) pid [1..<33] = Some i"
  proof (rule find_rx_spec [OF i(3)])
    show "\<exists>k \<in> set [1..<33]. unat (sw_rxQueuePtr sw - of_nat k) mod 32 = i"
      using find_rx_index [OF i(1), of "sw_rxQueuePtr sw"] by (simp only: set_upt) fastforce
  qed (use i(2) in \<open>simp_all add: rx_has_def\<close>)
  then show ?thesis using False i by (intro exI [of _ i] exI [of _ "sw_rxQueuePtr sw"]) (simp add: findRXQueueEntry_def)
qed

text \<open>One more datagram.\<close>

lemma rx_state_step:
  assumes "rx_state cap pid T dg S sw" "insert k S \<noteq> {..<T}" "k < T"
    and new: "\<And>rq. rx_inv cap rq \<Longrightarrow> rq_packetId rq \<noteq> pid \<Longrightarrow> \<exists>rq'. g rq = Inr (rq', []) \<and> rx_has cap pid T dg {k} rq'"
    and more: "\<And>rq. rx_has cap pid T dg S rq \<Longrightarrow> S \<noteq> {} \<Longrightarrow> \<exists>rq'. g rq = Inr (rq', []) \<and> rx_has cap pid T dg (insert k S) rq'"
  shows "\<exists>sw'. on_entry (findRXQueueEntry pid sw) g = Inr (sw', []) \<and> rx_state cap pid T dg (insert k S) sw'"
proof -
  obtain i v where e: "findRXQueueEntry pid sw = (i, sw\<lparr>sw_rxQueuePtr := v\<rparr>)" "i < 32"
    "if S = {} then rq_packetId (sw_rxQueue sw ! i) \<noteq> pid else rx_has cap pid T dg S (sw_rxQueue sw ! i)"
    "\<forall>j < 32. j \<noteq> i \<longrightarrow> rq_packetId (sw_rxQueue sw ! j) \<noteq> pid"
    using rx_state_entry [OF assms(1)] by blast
  have inv: "sw_inv cap sw" using assms(1) by (simp add: rx_state_def)
  have "rx_inv cap (sw_rxQueue sw ! i)" using inv e(2) by (simp add: sw_inv_def)
  then obtain rq' where g: "g (sw_rxQueue sw ! i) = Inr (rq', [])" "rx_has cap pid T dg (insert k S) rq'"
    using new more e(3) by (cases "S = {}") auto
  have "\<forall>rq \<in> set ((sw_rxQueue sw)[i := rq']). rx_inv cap rq"
    using inv g(2) set_update_subset_insert [of "sw_rxQueue sw" i rq'] by (auto simp: sw_inv_def rx_has_def)
  then have "rx_state cap pid T dg (insert k S) (sw\<lparr>sw_rxQueuePtr := v, sw_rxQueue := (sw_rxQueue sw)[i := rq']\<rparr>)"
    using inv e(2,4) g(2) by (auto simp: rx_state_def sw_inv_def intro!: exI [of _ i])
  then show ?thesis by (simp add: on_entry_def e(1) g(1))
qed

lemma rx_state_last:
  assumes "rx_state cap pid T dg S sw" "S \<noteq> {}" "\<And>rq. rx_has cap pid T dg S rq \<Longrightarrow> \<exists>rq'. g rq = Inr (rq', ev)"
  shows "\<exists>sw'. on_entry (findRXQueueEntry pid sw) g = Inr (sw', ev)"
proof -
  obtain i v where e: "findRXQueueEntry pid sw = (i, sw\<lparr>sw_rxQueuePtr := v\<rparr>)" "rx_has cap pid T dg S (sw_rxQueue sw ! i)"
    using rx_state_entry [OF assms(1)] assms(2) by auto
  then show ?thesis using assms(3) [OF e(2)] by (auto simp: on_entry_def)
qed

lemma send_fragments_wire:
  assumes "buf_inv p" "13 \<le> buf_l p" "16 < mtu" "mtu \<le> length mem" "length mem \<le> 2 ^ 31" "fno + left \<le> 16" "T < 16"
    "s + r = buf_l p" "0 < left \<Longrightarrow> (left - 1) * (mtu - 16) < r"
  shows "send_fragments mem p mtu T left fno s r =
    Inr (map (\<lambda>j. fragment_wire (buf_data p) (s + j * (mtu - 16)) (min (r - j * (mtu - 16)) (mtu - 16)) (fno + j) T) [0..<left])"
  using assms(6,8,9)
proof (induction left arbitrary: fno s r)
  case (Suc left)
  let ?per = "mtu - 16"
  have per: "usub mtu 16 = ?per" using assms(3-5) by simp
  let ?c = "min r ?per"
  have lim: "s + ?c \<le> buf_l p" "?c + 16 \<le> buf_capacity (buf_new mem)" "fno < 16" "buf_inv (buf_new mem)"
    using assms(3-5) Suc.prems(1,2) by (auto simp: buf_inv_def buf_new_def buf_capacity_def)
  have "\<exists>f. fragment_init p s ?c fno T (buf_new mem) = Inr f \<and> buf_data f = fragment_wire (buf_data p) s ?c fno T"
    using fragment_init_data [OF assms(1) lim(4) assms(2) lim(1-3) assms(7)] by blast
  then obtain f where f: "fragment_init p s ?c fno T (buf_new mem) = Inr f" "buf_data f = fragment_wire (buf_data p) s ?c fno T" by blast
  show ?case
  proof (cases left)
    case 0
    then show ?thesis using f per by simp
  next
    case (Suc l)
    then have c: "?c = ?per" using Suc.prems(3) by (auto simp: min_def not_le)
    have "send_fragments mem p mtu T left (fno + 1) (s + ?per) (r - ?per) =
        Inr (map (\<lambda>j. fragment_wire (buf_data p) (s + ?per + j * ?per) (min (r - ?per - j * ?per) ?per) (fno + 1 + j) T) [0..<left])"
      using Suc.IH [of "fno + 1" "s + ?per" "r - ?per"] Suc.prems c Suc by (auto simp: min_def split: if_splits)
    moreover have "(\<lambda>j. fragment_wire (buf_data p) (s + ?per + j * ?per) (min (r - ?per - j * ?per) ?per) (fno + 1 + j) T)
        = (\<lambda>j. fragment_wire (buf_data p) (s + j * ?per) (min (r - j * ?per) ?per) (fno + j) T) \<circ> Suc"
      by (rule ext) (simp add: diff_diff_left add.assoc)
    ultimately have "send_fragments mem p mtu T (Suc left) fno s r = Inr (map (\<lambda>j. fragment_wire (buf_data p) (s + j * ?per) (min (r - j * ?per) ?per) (fno + j) T) (0 # map Suc [0..<left]))"
      using f per c by (simp add: Let_def)
    then show ?thesis by (simp only: map_Suc_upt upt_conv_Cons zero_less_Suc)
  qed
qed simp

lemma concat_slices: "concat (map (\<lambda>j. take per (drop (j * per) e)) [0..<n]) = take (n * per) e"
  by (induction n) (auto simp: take_add [symmetric] add.commute)

lemma datagram_payload:
  assumes "13 \<le> length d" "0 < k"
  shows "drop 16 (datagram d mtu T k) = take (mtu - 16) (drop ((k - 1) * (mtu - 16)) (drop mtu d))"
  using assms by (simp add: datagram_def fragment_wire_def min_def add.commute)

lemma assembled_datagrams:
  assumes "13 \<le> length d" "length d - mtu \<le> (T - 1) * (mtu - 16)" "1 \<le> T"
  shows "assembled T (datagram d mtu T) = d"
proof -
  have "[1..<T] = map Suc [0..<T - 1]" using assms(3) by (simp add: map_Suc_upt)
  then have "concat (map (\<lambda>k. drop 16 (datagram d mtu T k)) [1..<T]) = concat (map (\<lambda>j. take (mtu - 16) (drop (j * (mtu - 16)) (drop mtu d))) [0..<T - 1])"
    using assms(1) by (simp add: datagram_payload comp_def)
  also have "\<dots> = drop mtu d" unfolding concat_slices using assms(2) by simp
  finally show ?thesis by (simp add: assembled_def datagram_def)
qed

lemma send_datagrams_eq:
  assumes "buf_inv p" "28 \<le> mtu" "mtu < buf_l p" "buf_l p \<le> mtu + 6 * (mtu - 16)" "mtu \<le> length mem" "length mem \<le> 2 ^ 31"
  shows "\<exists>T. 2 \<le> T \<and> T \<le> 7 \<and> buf_l p - mtu \<le> (T - 1) * (mtu - 16) \<and> (T - 2) * (mtu - 16) < buf_l p - mtu \<and>
    send_datagrams mem True mtu p = Inr (map (datagram (buf_data p) mtu T) [0..<T])"
proof -
  let ?per = "mtu - 16" and ?r = "buf_l p - mtu"
  define n where "n = fragsRemaining ?r ?per"
  have per: "usub mtu 16 = ?per" "0 < ?per" using assms(2,5,6) by simp_all
  have le: "?r div ?per * ?per \<le> ?r" "?r < ?r div ?per * ?per + ?per"
    using dividend_less_div_times [OF per(2), of ?r] by (simp_all only: div_times_less_eq_dividend add.commute)
  have "?r < 2 ^ 32" using assms(1) by (auto simp: buf_inv_def)
  then have m: "(?r div ?per * ?per) mod 2 ^ 32 = ?r div ?per * ?per" by (intro mod_less) (rule le_less_trans [OF le(1)])
  have n: "?r \<le> n * ?per \<and> (n - 1) * ?per < ?r \<and> 0 < n"
  proof (cases "?r div ?per * ?per < ?r")
    case True
    then have "n = ?r div ?per + 1" unfolding n_def fragsRemaining_def Let_def m by simp
    then show ?thesis using le True by (simp only: add_mult_distrib) simp
  next
    case False
    then have eq: "?r div ?per * ?per = ?r" and n: "n = ?r div ?per" using le unfolding n_def fragsRemaining_def Let_def m by simp_all
    have "0 < ?r div ?per" using eq assms(3) by (metis mult_0 neq0_conv zero_less_diff)
    then show ?thesis using eq per(2) assms(3) unfolding n by (simp only: diff_mult_distrib) simp
  qed
  have "n \<le> 6"
  proof (rule ccontr)
    assume "\<not> n \<le> 6"
    then have "6 * ?per \<le> (n - 1) * ?per" by (intro mult_right_mono) auto
    moreover have "(n - 1) * ?per < ?r" using n by blast
    ultimately show False using assms(4) by linarith
  qed
  have "send_fragments mem p mtu (n + 1) n 1 mtu ?r
      = Inr (map (\<lambda>j. fragment_wire (buf_data p) (mtu + j * ?per) (min (?r - j * ?per) ?per) (1 + j) (n + 1)) [0..<n])"
    using assms \<open>n \<le> 6\<close> n by (intro send_fragments_wire) simp_all
  also have "\<dots> = Inr (map (datagram (buf_data p) mtu (n + 1)) (map Suc [0..<n]))"
    using assms(1) by (simp add: datagram_def)
  finally have sf: "send_fragments mem p mtu (n + 1) n 1 mtu ?r = Inr (map (datagram (buf_data p) mtu (n + 1)) (map Suc [0..<n]))" .
  have "[0..<n + 1] = 0 # map Suc [0..<n]" by (simp add: map_Suc_upt upt_conv_Cons del: upt_Suc)
  then have l: "map (datagram (buf_data p) mtu (n + 1)) [0..<n + 1] = take mtu (buf_data p) # map (datagram (buf_data p) mtu (n + 1)) (map Suc [0..<n])"
    by (simp only: list.map) (simp add: datagram_def)
  have "send_datagrams mem True mtu p = bindE (send_fragments mem p mtu (n + 1) n 1 mtu ?r) (\<lambda>ds. Inr (take mtu (buf_data p) # ds))"
    using assms(3) per by (simp add: send_datagrams_def buf_size_def Let_def n_def)
  then have "send_datagrams mem True mtu p = Inr (map (datagram (buf_data p) mtu (n + 1)) [0..<n + 1])"
    unfolding sf l by simp
  then show ?thesis using n \<open>n \<le> 6\<close> by (intro exI [of _ "n + 1"]) simp
qed

lemma receive_head:
  assumes "cut_for cap (se_self E) d mtu T"
    "on_entry (findRXQueueEntry (be_word (take 8 d)) sw) (rx_head E path (datagram d mtu T 0) (be_word (take 8 d))) = Inr r"
  shows "onRemotePacket E path (datagram d mtu T 0) sw = Inr r"
proof -
  let ?h = "take mtu d"
  have h: "take 5 (drop 8 ?h) = take 5 (drop 8 d)" "take 5 (drop 13 ?h) = take 5 (drop 13 d)" "take 8 ?h = take 8 d" "?h ! 13 = d ! 13"
    "?h ! 18 = d ! 18" "28 \<le> length ?h" "16 < length ?h"
    using assms(1) by (auto simp: cut_for_def drop_take min_def)
  have l5: "5 \<le> length (drop 8 ?h)" "5 \<le> length (drop 13 ?h)" using h(6) by auto
  have a: "address_setTo (drop 8 ?h) 5 = Inr (be_word (take 5 (drop 8 d)))" "address_setTo (drop 13 ?h) 5 = Inr (be_word (take 5 (drop 13 d)))"
    using address_setTo_be [OF _ l5(1), of 5] address_setTo_be [OF _ l5(2), of 5] h(1,2) by simp_all
  show ?thesis using assms a h by (simp add: onRemotePacket_def remote_packet_def cut_for_def datagram_def)
qed

lemma fragment_wire_bytes:
  assumes "13 \<le> length d" "no < 16" "t < 16"
  shows "fragment_wire d s n no t ! 13 = 0xff" "unat (fragment_wire d s n no t ! 14 AND 0xf) = no"
    "unat (drop_bit 4 (fragment_wire d s n no t ! 14) AND 0xf) = t" "take 5 (drop 8 (fragment_wire d s n no t)) = take 5 (drop 8 d)"
    "take 8 (fragment_wire d s n no t) = take 8 d" "length (fragment_wire d s n no t) = 16 + min (length d - s) n"
proof -
  have "fragment_wire d s n no t ! 14 = of_nat (16 * t + no)" using assms(1) by (simp add: fragment_wire_def nth_append min_def)
  then show "unat (fragment_wire d s n no t ! 14 AND 0xf) = no" "unat (drop_bit 4 (fragment_wire d s n no t ! 14) AND 0xf) = t"
    using nibble_fields [OF assms(2,3)] by simp_all
qed (use assms(1) in \<open>auto simp: fragment_wire_def nth_append drop_take min_def\<close>)

lemma receive_fragment:
  assumes "cut_for cap (se_self E) d mtu T" "env_ok cap E" "0 < k" "k < T"
  shows "\<exists>f. packet_ok cap f \<and> buf_data f = datagram d mtu T k \<and>
    (\<forall>sw r. on_entry (findRXQueueEntry (be_word (take 8 d)) sw) (rx_fragment E f (be_word (take 8 d)) k T) = Inr r
       \<longrightarrow> onRemotePacket E path (datagram d mtu T k) sw = Inr r)"
proof -
  let ?w = "datagram d mtu T k" and ?per = "mtu - 16"
  let ?n = "min (length d - mtu - (k - 1) * ?per) ?per"
  have w: "?w = fragment_wire d (mtu + (k - 1) * ?per) ?n k T" using assms(3) by (simp add: datagram_def)
  have c: "28 \<le> mtu" "mtu < length d" "length d \<le> cap" "T \<le> 7" using assms(1) by (auto simp: cut_for_def)
  have "(k - 1) * ?per \<le> (T - 2) * ?per" using assms(4) by (intro mult_right_mono) auto
  moreover have "(T - 2) * ?per < length d - mtu" using assms(1) by (simp add: cut_for_def)
  ultimately have pos: "(k - 1) * ?per < length d - mtu" by (rule le_less_trans)
  have d13: "13 \<le> length d" and k16: "k < 16" "T < 16" using c assms(4) by auto
  note b = fragment_wire_bytes [OF d13 k16, of "mtu + (k - 1) * ?per" ?n, folded w]
  have "length ?w = 16 + ?n" using b(6) by (simp only: diff_diff_left min.left_idem)
  then have len: "16 < length ?w" "length ?w \<le> cap" using pos c by linarith+
  obtain f where f: "buf_copyFrom (buf_new (se_mem E)) ?w (length ?w) = Inr f" "packet_ok cap f" "buf_data f = ?w"
    using remote_copy [OF assms(2), of ?w] len by auto
  have l16: "16 \<le> length ?w" using len by simp
  have "remote_fragment E path ?w sw = on_entry (findRXQueueEntry (be_word (take 8 d)) sw) (rx_fragment E f (be_word (take 8 d)) k T)" for sw
    using assms(1,3,4) c by (simp add: remote_fragment_def f(1) fragment_reads [OF f(2,3) l16] b(1-5) cut_for_def)
  then have "\<forall>sw r. on_entry (findRXQueueEntry (be_word (take 8 d)) sw) (rx_fragment E f (be_word (take 8 d)) k T) = Inr r
       \<longrightarrow> onRemotePacket E path ?w sw = Inr r"
    using len(1) b(1) by (simp add: onRemotePacket_def)
  then show ?thesis using f(2,3) by blast
qed

text \<open>Everything a datagram of the packet does, whatever its number.\<close>

lemma receive_datagram:
  assumes "cut_for cap (se_self E) d mtu T" "env_ok cap E" "se_now E \<noteq> 0" "k < T"
  shows "\<exists>g. (\<forall>sw r. on_entry (findRXQueueEntry (be_word (take 8 d)) sw) g = Inr r \<longrightarrow> onRemotePacket E path (datagram d mtu T k) sw = Inr r)
    \<and> (\<forall>rq. rx_inv cap rq \<longrightarrow> rq_packetId rq \<noteq> be_word (take 8 d)
         \<longrightarrow> (\<exists>rq'. g rq = Inr (rq', []) \<and> rx_has cap (be_word (take 8 d)) T (datagram d mtu T) {k} rq'))
    \<and> (\<forall>S rq. rx_has cap (be_word (take 8 d)) T (datagram d mtu T) S rq \<longrightarrow> S \<noteq> {} \<longrightarrow> S \<subseteq> {..<T} \<longrightarrow> k \<notin> S
         \<longrightarrow> (\<exists>rq'. if insert k S = {..<T} then g rq = Inr (rq', [TryDecode d])
                else g rq = Inr (rq', []) \<and> rx_has cap (be_word (take 8 d)) T (datagram d mtu T) (insert k S) rq'))"
proof -
  let ?pid = "be_word (take 8 d)" and ?dg = "datagram d mtu T"
  have c: "2 \<le> T" "T \<le> 7" "length d \<le> cap" "13 \<le> length d" "length d - mtu \<le> (T - 1) * (mtu - 16)" "mtu < length d"
    using assms(1) by (auto simp: cut_for_def)
  have a: "assembled T ?dg = d" using assembled_datagrams [OF c(4,5)] c(1) by simp
  have la: "length (assembled T ?dg) \<le> cap" "18 \<le> length (?dg 0)" unfolding a using c(3,6) assms(1) by (auto simp: datagram_def cut_for_def)
  show ?thesis
  proof (cases "k = 0")
    case True
    let ?g = "rx_head E path (?dg 0) ?pid"
    have "length (?dg 0) \<le> cap" using c by (simp add: datagram_def)
    then have "\<forall>rq. rx_inv cap rq \<longrightarrow> rq_packetId rq \<noteq> ?pid \<longrightarrow> (\<exists>rq'. ?g rq = Inr (rq', []) \<and> rx_has cap ?pid T ?dg {0} rq')"
      using head_first [of cap _ ?pid ?dg E path T] assms(3) by blast
    moreover have "\<forall>S rq. rx_has cap ?pid T ?dg S rq \<longrightarrow> S \<noteq> {} \<longrightarrow> S \<subseteq> {..<T} \<longrightarrow> 0 \<notin> S
        \<longrightarrow> (\<exists>rq'. if insert 0 S = {..<T} then ?g rq = Inr (rq', [TryDecode d]) else ?g rq = Inr (rq', []) \<and> rx_has cap ?pid T ?dg (insert 0 S) rq')"
      using head_step [OF _ assms(2) _ _ _ c(1,2) la] unfolding a by blast
    moreover have "\<forall>sw r. on_entry (findRXQueueEntry ?pid sw) ?g = Inr r \<longrightarrow> onRemotePacket E path (?dg 0) sw = Inr r"
      using receive_head [OF assms(1)] by blast
    ultimately show ?thesis unfolding True by blast
  next
    case False
    then have k: "0 < k" "k < 7" using assms(4) c(2) by auto
    obtain f where f: "packet_ok cap f" "buf_data f = ?dg k"
      "\<forall>sw r. on_entry (findRXQueueEntry ?pid sw) (rx_fragment E f ?pid k T) = Inr r \<longrightarrow> onRemotePacket E path (?dg k) sw = Inr r"
      using receive_fragment [OF assms(1,2) k(1) assms(4)] by blast
    have "\<forall>rq. rx_inv cap rq \<longrightarrow> rq_packetId rq \<noteq> ?pid \<longrightarrow> (\<exists>rq'. rx_fragment E f ?pid k T rq = Inr (rq', []) \<and> rx_has cap ?pid T ?dg {k} rq')"
      using fragment_first [OF _ _ f(1) _ k c(2) assms(3), where dg = ?dg] f(2) by blast
    moreover have "\<forall>S rq. rx_has cap ?pid T ?dg S rq \<longrightarrow> S \<noteq> {} \<longrightarrow> S \<subseteq> {..<T} \<longrightarrow> k \<notin> S
        \<longrightarrow> (\<exists>rq'. if insert k S = {..<T} then rx_fragment E f ?pid k T rq = Inr (rq', [TryDecode d])
             else rx_fragment E f ?pid k T rq = Inr (rq', []) \<and> rx_has cap ?pid T ?dg (insert k S) rq')"
      using fragment_step [OF _ assms(2) f(1,2) k(1) assms(4) _ _ _ c(2) la] unfolding a by blast
    ultimately show ?thesis using f(3) by blast
  qed
qed

lemma rx_run_spec:
  assumes "\<forall>(E, path, k) \<in> set xs. env_ok cap E \<and> se_self E = self \<and> se_now E \<noteq> 0" "cut_for cap self d mtu T"
    "rx_state cap (be_word (take 8 d)) T (datagram d mtu T) S sw" "distinct (map (snd \<circ> snd) xs)"
    "set (map (snd \<circ> snd) xs) \<union> S = {..<T}" "set (map (snd \<circ> snd) xs) \<inter> S = {}" "xs \<noteq> []"
  shows "\<exists>sw'. rx_run (map (\<lambda>(E, path, k). (E, path, datagram d mtu T k)) xs) sw = Inr (sw', replicate (length xs - 1) [] @ [[TryDecode d]])"
  using assms(1,3-)
proof (induction xs arbitrary: S sw)
  case (Cons x xs)
  obtain E path k where x: "x = (E, path, k)" by (metis surj_pair)
  let ?pid = "be_word (take 8 d)" and ?dg = "datagram d mtu T"
  have E: "env_ok cap E" "se_now E \<noteq> 0" and cut: "cut_for cap (se_self E) d mtu T" using Cons.prems(1) assms(2) by (auto simp: x)
  have k: "k < T" "k \<notin> S" "S \<subseteq> {..<T}" using Cons.prems(4,5) by (auto simp: x)
  obtain g where g: "\<forall>sw r. on_entry (findRXQueueEntry ?pid sw) g = Inr r \<longrightarrow> onRemotePacket E path (?dg k) sw = Inr r"
    "\<forall>rq. rx_inv cap rq \<longrightarrow> rq_packetId rq \<noteq> ?pid \<longrightarrow> (\<exists>rq'. g rq = Inr (rq', []) \<and> rx_has cap ?pid T ?dg {k} rq')"
    "\<forall>S rq. rx_has cap ?pid T ?dg S rq \<longrightarrow> S \<noteq> {} \<longrightarrow> S \<subseteq> {..<T} \<longrightarrow> k \<notin> S \<longrightarrow> (\<exists>rq'. if insert k S = {..<T}
        then g rq = Inr (rq', [TryDecode d]) else g rq = Inr (rq', []) \<and> rx_has cap ?pid T ?dg (insert k S) rq')"
    using receive_datagram [OF cut E k(1), of path] by blast
  show ?case
  proof (cases "xs = []")
    case True
    then have full: "insert k S = {..<T}" using Cons.prems(4) by (auto simp: x)
    have "1 \<in> insert k S" "0 \<in> insert k S" unfolding full using assms(2) by (auto simp: cut_for_def)
    then have "S \<noteq> {}" by auto
    then obtain sw' where "on_entry (findRXQueueEntry ?pid sw) g = Inr (sw', [TryDecode d])"
      using rx_state_last [OF Cons.prems(2), of g "[TryDecode d]"] g(3) k full by metis
    then show ?thesis using g(1) by (simp add: x True)
  next
    case False
    then obtain y where y: "y \<in> set xs" by (cases xs) auto
    then have "snd (snd y) \<in> {..<T}" "snd (snd y) \<notin> insert k S" using Cons.prems(3,4,5) by (auto simp: x)
    then have part: "insert k S \<noteq> {..<T}" by blast
    obtain sw1 where s1: "on_entry (findRXQueueEntry ?pid sw) g = Inr (sw1, [])" "rx_state cap ?pid T ?dg (insert k S) sw1"
    proof -
      have more: "\<exists>rq'. g rq = Inr (rq', []) \<and> rx_has cap ?pid T ?dg (insert k S) rq'" if "rx_has cap ?pid T ?dg S rq" "S \<noteq> {}" for rq
        using g(3) [rule_format, OF that(1,2) k(3,2)] part by (simp only: if_False)
      have "\<exists>sw'. on_entry (findRXQueueEntry ?pid sw) g = Inr (sw', []) \<and> rx_state cap ?pid T ?dg (insert k S) sw'"
        by (rule rx_state_step [OF Cons.prems(2) part k(1)]) (use g(2) more in blast)+
      then show thesis using that by blast
    qed
    obtain sw' where "rx_run (map (\<lambda>(E, path, k). (E, path, ?dg k)) xs) sw1 = Inr (sw', replicate (length xs - 1) [] @ [[TryDecode d]])"
      using Cons.IH [OF _ s1(2)] Cons.prems False by (auto simp: x)
    moreover have "replicate (length xs) [] = ([] :: sw_event list) # replicate (length xs - 1) []" using False by (cases xs) simp_all
    ultimately show ?thesis using g(1) s1(1) by (simp add: x)
  qed
qed simp

lemma datagram_number_datagram:
  assumes "cut_for cap self d mtu T" "k < T"
  shows "datagram_number (datagram d mtu T k) = k"
proof (cases "k = 0")
  case True
  have "take mtu d ! 13 = d ! 13" using assms(1) by (simp add: cut_for_def)
  then show ?thesis using True assms(1) by (simp add: datagram_number_def datagram_def cut_for_def)
next
  case False
  have "13 \<le> length d" "k < 16" "T < 16" using assms by (auto simp: cut_for_def)
  then show ?thesis using False fragment_wire_bytes(1,2) by (simp add: datagram_number_def datagram_def)
qed

text \<open>C4: a packet for this node from another one that is cut into at most seven datagrams for its path, the number receivers accept, is put together again: the datagrams may arrive in any order and by any paths, and if no entry of the receive queue has the packet's id, the receiver hands the
  packet to the decoder exactly once, with the last datagram, and with exactly the bytes that were sent.\<close>

theorem packet_reassembly:
  assumes "sw_inv cap sw" "\<forall>rq \<in> set (sw_rxQueue sw). rq_packetId rq \<noteq> be_word (take 8 (buf_data p))"
    and "buf_inv p" "28 \<le> mtu" "mtu < buf_l p" "buf_l p \<le> mtu + 6 * (mtu - 16)" "buf_l p \<le> cap"
    and "be_word (take 5 (drop 8 (buf_data p))) = self" "be_word (take 5 (drop 13 (buf_data p))) \<noteq> self"
    and "buf_data p ! 13 \<noteq> 0xff" "packet_fragmented p = Inr True" "mtu \<le> length mem" "length mem \<le> 2 ^ 31"
    and "send_datagrams mem True mtu p = Inr ds" "mset (map (snd \<circ> snd) xs) = mset ds"
    and "\<forall>(E, path, w) \<in> set xs. env_ok cap E \<and> se_self E = self \<and> se_now E \<noteq> 0"
  shows "\<exists>sw'. rx_run xs sw = Inr (sw', replicate (length ds - 1) [] @ [[TryDecode (buf_data p)]])"
proof -
  define d where "d = buf_data p"
  have ld: "length d = buf_l p" using assms(3) by (simp add: d_def)
  obtain T where T: "2 \<le> T" "T \<le> 7" "buf_l p - mtu \<le> (T - 1) * (mtu - 16)" "(T - 2) * (mtu - 16) < buf_l p - mtu"
    "ds = map (datagram d mtu T) [0..<T]"
    using send_datagrams_eq [OF assms(3-6,12,13)] assms(14) by (auto simp: d_def)
  have "d ! 18 AND 0x40 \<noteq> 0" using assms(3,4,5,11) by (simp add: packet_fragmented_def buf_index_data d_def)
  then have cut: "cut_for cap self d mtu T" using assms T by (simp add: cut_for_def ld d_def)
  define ys where "ys = map (\<lambda>(E, path, w). (E, path, datagram_number w)) xs"
  have m: "mset (map (snd \<circ> snd) xs) = mset (map (datagram d mtu T) [0..<T])" using assms(15) T(5) by simp
  have w: "datagram d mtu T (datagram_number w) = w" if "(E, path, w) \<in> set xs" for E path w
  proof -
    have "w \<in> set (map (snd \<circ> snd) xs)" using that by force
    then have "w \<in> set (map (datagram d mtu T) [0..<T])" by (metis m mset_eq_setD)
    then show ?thesis using datagram_number_datagram [OF cut] by auto
  qed
  have "map (\<lambda>(E, path, k). (E, path, datagram d mtu T k)) ys = xs"
    unfolding ys_def map_map by (rule map_idI) (use w in auto)
  then have xs: "xs = map (\<lambda>(E, path, k). (E, path, datagram d mtu T k)) ys" by simp
  have "mset (map (snd \<circ> snd) ys) = image_mset datagram_number (mset (map (snd \<circ> snd) xs))"
    by (simp add: ys_def comp_def case_prod_beta multiset.map_comp)
  also have "\<dots> = mset (map (datagram_number \<circ> datagram d mtu T) [0..<T])" unfolding m by (simp add: multiset.map_comp)
  also have "map (datagram_number \<circ> datagram d mtu T) [0..<T] = [0..<T]"
    by (rule map_idI) (simp add: datagram_number_datagram [OF cut])
  finally have mk: "mset (map (snd \<circ> snd) ys) = mset [0..<T]" .
  have "set (map (snd \<circ> snd) ys) = {..<T}" using mset_eq_setD [OF mk] by auto
  moreover have "distinct (map (snd \<circ> snd) ys)" using mset_eq_imp_distinct_iff [OF mk] by simp
  moreover have ly: "length ys = T" using mset_eq_length [OF mk] by simp
  moreover have "ys \<noteq> []" using ly T(1) by auto
  moreover have "rx_state cap (be_word (take 8 d)) T (datagram d mtu T) {} sw" using assms(1,2) by (simp add: rx_state_def d_def)
  moreover have "\<forall>(E, path, k) \<in> set ys. env_ok cap E \<and> se_self E = self \<and> se_now E \<noteq> 0" using assms(16) by (auto simp: ys_def)
  ultimately show ?thesis using rx_run_spec [OF _ cut, of ys "{}" sw] T(5) unfolding xs d_def [symmetric] by simp
qed

theorem packet_reassembly_witness:
  "\<exists>ds sw'. send_datagrams (replicate 64 0) True 28 (packet_w 1 0x40) = Inr ds \<and> 2 \<le> length ds
    \<and> rx_run (map (\<lambda>w. (env_w, (0, INET_NONE), w)) (rev ds)) sw_w = Inr (sw', replicate (length ds - 1) [] @ [[TryDecode (buf_data (packet_w 1 0x40))]])"
proof -
  obtain ds where ds: "send_datagrams (replicate 64 0) True 28 (packet_w 1 0x40) = Inr ds" "2 \<le> length ds"
    using send_datagrams_eq [of "packet_w 1 0x40" 28 "replicate 64 0"] by (auto simp: packet_w_facts)
  have "\<exists>sw'. rx_run (map (\<lambda>w. (env_w, (0, INET_NONE), w)) (rev ds)) sw_w = Inr (sw', replicate (length ds - 1) [] @ [[TryDecode (buf_data (packet_w 1 0x40))]])"
  proof (rule packet_reassembly [OF sw_w_inv])
    show "\<forall>rq \<in> set (sw_rxQueue sw_w). rq_packetId rq \<noteq> be_word (take 8 (buf_data (packet_w 1 0x40)))"
      by (simp add: sw_w_def rx_w_def packet_w_facts)
    show "packet_fragmented (packet_w 1 0x40) = Inr True"
      by (simp add: packet_fragmented_def buf_index_data packet_w_facts)
    show "be_word (take 5 (drop 8 (buf_data (packet_w 1 0x40)))) = se_self env_w" "be_word (take 5 (drop 13 (buf_data (packet_w 1 0x40)))) \<noteq> se_self env_w"
      by (simp_all add: packet_w_facts env_w_def)
    show "\<forall>(E, path, w) \<in> set (map (\<lambda>w. (env_w, (0, INET_NONE), w)) (rev ds)). env_ok 64 E \<and> se_self E = se_self env_w \<and> se_now E \<noteq> 0"
      using env_w_ok by (auto simp: env_w_def)
    show "send_datagrams (replicate 64 0) True 28 (packet_w 1 0x40) = Inr ds" by (rule ds(1))
  qed (simp_all add: packet_w_facts comp_def)
  with ds show ?thesis by blast
qed

end
