(* ===== verification/ZT_Salsa20.thy ===== *)
theory ZT_Salsa20
  imports ZT_Prelude
begin

text \<open>
  \<^verbatim>\<open>node/Salsa20.hpp\<close> and \<^verbatim>\<open>node/Salsa20.cpp\<close>: the stream cipher in the version without vector instructions and without type
  punning. The state is the array of sixteen words; the unrolled rounds are the list of their assignments, in the order of the source. \<open>tmp\<close> is the
  uninitialised scratch block of a call. The reference is the cipher as its designer defines it, with quarter rounds on the columns and rows of a
  four by four matrix and a 64-bit block counter.
\<close>

unbundle bit_operations_syntax

section \<open>The cipher of the source\<close>

definition U8TO32_LITTLE :: "bytes \<Rightarrow> u32" where
  "U8TO32_LITTLE p = ucast (p ! 0) OR push_bit 8 (ucast (p ! 1)) OR push_bit 16 (ucast (p ! 2)) OR push_bit 24 (ucast (p ! 3))"

definition U32TO8_LITTLE :: "u32 \<Rightarrow> bytes" where
  "U32TO8_LITTLE v = [ucast v, ucast (drop_bit 8 v), ucast (drop_bit 16 v), ucast (drop_bit 24 v)]"

definition ROTATE :: "u32 \<Rightarrow> nat \<Rightarrow> u32" where
  "ROTATE v c = push_bit c v OR drop_bit (32 - c) v"

definition memxor :: "bytes \<Rightarrow> bytes \<Rightarrow> bytes" where
  "memxor d s = map2 (XOR) d s"

text \<open>One assignment \<open>xa = XOR(xa, ROTATE(PLUS(xb, xc), k))\<close>.\<close>

definition s20_step :: "nat \<times> nat \<times> nat \<times> nat \<Rightarrow> u32 list \<Rightarrow> u32 list" where
  "s20_step = (\<lambda>(a, b, c, k) x. x[a := x ! a XOR ROTATE (x ! b + x ! c) k])"

definition s20_steps :: "(nat \<times> nat \<times> nat \<times> nat) list" where
  "s20_steps =
    [(4, 0, 12, 7), (8, 4, 0, 9), (12, 8, 4, 13), (0, 12, 8, 18), (9, 5, 1, 7), (13, 9, 5, 9), (1, 13, 9, 13), (5, 1, 13, 18),
     (14, 10, 6, 7), (2, 14, 10, 9), (6, 2, 14, 13), (10, 6, 2, 18), (3, 15, 11, 7), (7, 3, 15, 9), (11, 7, 3, 13), (15, 11, 7, 18),
     (1, 0, 3, 7), (2, 1, 0, 9), (3, 2, 1, 13), (0, 3, 2, 18), (6, 5, 4, 7), (7, 6, 5, 9), (4, 7, 6, 13), (5, 4, 7, 18),
     (11, 10, 9, 7), (8, 11, 10, 9), (9, 8, 11, 13), (10, 9, 8, 18), (12, 15, 14, 7), (13, 12, 15, 9), (14, 13, 12, 13), (15, 14, 13, 18)]"

definition double_round :: "u32 list \<Rightarrow> u32 list" where
  "double_round x = fold s20_step s20_steps x"

definition s20_constants :: bytes where
  "s20_constants = [0x65, 0x78, 0x70, 0x61, 0x6e, 0x64, 0x20, 0x33, 0x32, 0x2d, 0x62, 0x79, 0x74, 0x65, 0x20, 0x6b]"

definition salsa20_init :: "bytes \<Rightarrow> bytes \<Rightarrow> u32 list" where
  "salsa20_init k iv =
    [U8TO32_LITTLE s20_constants, U8TO32_LITTLE k, U8TO32_LITTLE (drop 4 k), U8TO32_LITTLE (drop 8 k),
     U8TO32_LITTLE (drop 12 k), U8TO32_LITTLE (drop 4 s20_constants), U8TO32_LITTLE iv, U8TO32_LITTLE (drop 4 iv),
     0, 0, U8TO32_LITTLE (drop 8 s20_constants), U8TO32_LITTLE (drop 16 k),
     U8TO32_LITTLE (drop 20 k), U8TO32_LITTLE (drop 24 k), U8TO32_LITTLE (drop 28 k), U8TO32_LITTLE (drop 12 s20_constants)]"

text \<open>The words added to the block, the block written, and the counter in words 8 and 9.\<close>

definition s20_words :: "nat \<Rightarrow> u32 list \<Rightarrow> u32 list" where
  "s20_words n j = map2 (+) ((double_round ^^ n) j) j"

definition s20_out :: "u32 list \<Rightarrow> bytes \<Rightarrow> bytes" where
  "s20_out x m = concat (map (\<lambda>i. U32TO8_LITTLE (x ! i XOR U8TO32_LITTLE (drop (4 * i) m))) [0..<16])"

definition s20_next :: "u32 list \<Rightarrow> u32 list" where
  "s20_next j = (let j8 = j ! 8 + 1; j = j[8 := j8] in if j8 = 0 then j[9 := j ! 9 + 1] else j)"

fun s20_crypt :: "nat \<Rightarrow> bytes \<Rightarrow> u32 list \<Rightarrow> bytes \<Rightarrow> u32 list \<times> bytes" where
  "s20_crypt n tmp j m =
    (let m' = (if length m < 64 then m @ drop (length m) tmp else m);
         c = s20_out (s20_words n j) m';
         j = s20_next j in
     if length m \<le> 64 then (j, take (length m) c)
     else let (j, cs) = s20_crypt n tmp j (drop 64 m) in (j, c @ cs))"

definition crypt12 :: "bytes \<Rightarrow> u32 list \<Rightarrow> bytes \<Rightarrow> u32 list \<times> bytes" where
  "crypt12 tmp s m = (if m = [] then (s, []) else s20_crypt 6 tmp s m)"

definition crypt20 :: "bytes \<Rightarrow> u32 list \<Rightarrow> bytes \<Rightarrow> u32 list \<times> bytes" where
  "crypt20 tmp s m = (if m = [] then (s, []) else s20_crypt 10 tmp s m)"

section \<open>The cipher as defined by its designer\<close>

definition quarterround :: "u32 \<times> u32 \<times> u32 \<times> u32 \<Rightarrow> u32 \<times> u32 \<times> u32 \<times> u32" where
  "quarterround = (\<lambda>(y0, y1, y2, y3).
    (let z1 = y1 XOR word_rotl 7 (y0 + y3);
         z2 = y2 XOR word_rotl 9 (z1 + y0);
         z3 = y3 XOR word_rotl 13 (z2 + z1);
         z0 = y0 XOR word_rotl 18 (z3 + z2) in (z0, z1, z2, z3)))"

definition quarter_at :: "nat \<times> nat \<times> nat \<times> nat \<Rightarrow> u32 list \<Rightarrow> u32 list" where
  "quarter_at = (\<lambda>(a, b, c, d) x.
    (let (z0, z1, z2, z3) = quarterround (x ! a, x ! b, x ! c, x ! d) in x[a := z0, b := z1, c := z2, d := z3]))"

definition columnround :: "u32 list \<Rightarrow> u32 list" where
  "columnround x = quarter_at (15, 3, 7, 11) (quarter_at (10, 14, 2, 6) (quarter_at (5, 9, 13, 1) (quarter_at (0, 4, 8, 12) x)))"

definition rowround :: "u32 list \<Rightarrow> u32 list" where
  "rowround x = quarter_at (15, 12, 13, 14) (quarter_at (10, 11, 8, 9) (quarter_at (5, 6, 7, 4) (quarter_at (0, 1, 2, 3) x)))"

definition salsa20_core :: "nat \<Rightarrow> u32 list \<Rightarrow> bytes" where
  "salsa20_core n x = concat (map (le_bytes 4) (map2 (+) (((\<lambda>y. rowround (columnround y)) ^^ n) x) x))"

text \<open>The expansion of a 32-byte key and a 16-byte nonce to sixteen little-endian words: the four parts of the designer's constant around the halves of the key and the nonce,
  which is the initialisation vector followed by the number of the block as eight bytes, the least significant first.\<close>

definition littleendian :: "bytes \<Rightarrow> u32" where
  "littleendian bs = ucast (bs ! 0) + 2 ^ 8 * ucast (bs ! 1) + 2 ^ 16 * ucast (bs ! 2) + 2 ^ 24 * ucast (bs ! 3)"

definition littleendian_words :: "nat \<Rightarrow> bytes \<Rightarrow> u32 list" where
  "littleendian_words n bs = map (\<lambda>w. littleendian (take 4 (drop (4 * w) bs))) [0..<n]"

definition sigma :: "nat \<Rightarrow> bytes" where
  "sigma i = map of_char (take 4 (drop (4 * i) ''expand 32-byte k''))"

definition salsa20_expand :: "bytes \<Rightarrow> bytes \<Rightarrow> nat \<Rightarrow> u32 list" where
  "salsa20_expand k iv i = littleendian_words 16 (sigma 0 @ take 16 k @ sigma 1 @ iv @ le_bytes 8 (of_nat i :: u64) @ sigma 2 @ drop 16 k @ sigma 3)"

text \<open>The first bytes of the key stream from a block on.\<close>

definition salsa20_blocks :: "nat \<Rightarrow> bytes \<Rightarrow> bytes \<Rightarrow> nat \<Rightarrow> nat \<Rightarrow> bytes" where
  "salsa20_blocks n k iv from cnt = concat (map (\<lambda>i. salsa20_core n (salsa20_expand k iv i)) [from..<from + cnt])"

text \<open>The number of blocks a message takes.\<close>

definition s20_count :: "bytes \<Rightarrow> nat" where
  "s20_count m = (length m + 63) div 64"

text \<open>The assignments of one quarter round.\<close>

definition quarter_steps :: "nat \<times> nat \<times> nat \<times> nat \<Rightarrow> (nat \<times> nat \<times> nat \<times> nat) list" where
  "quarter_steps = (\<lambda>(a, b, c, d). [(b, a, d, 7), (c, b, a, 9), (d, c, b, 13), (a, d, c, 18)])"

section \<open>Rounds\<close>

lemma ROTATE_rotl: "0 < c \<Longrightarrow> c < 32 \<Longrightarrow> ROTATE v c = word_rotl c v"
proof (rule bit_word_eqI)
  fix i assume c: "0 < c" "c < 32" and i: "i < LENGTH(32)"
  show "bit (ROTATE v c) i = bit (word_rotl c v) i"
  proof (cases "c \<le> i")
    case True
    then have "(i + 32 - c) mod 32 = i - c" "\<not> bit v (32 + i - c)" using i c by (auto simp: mod_if dest: bit_imp_le_length)
    then show ?thesis using True c i by (simp add: ROTATE_def bit_simps)
  next
    case False
    then have "(i + 32 - c) mod 32 = 32 + i - c" using i by simp
    then show ?thesis using False c i by (simp add: ROTATE_def bit_simps)
  qed
qed

lemma length_quarter [simp]: "length (quarter_at q x) = length x"
  by (simp add: quarter_at_def split: prod.splits)

lemma fold_quarter:
  assumes "a < length x" "b < length x" "c < length x" "d < length x" "distinct [a, b, c, d]"
  shows "fold s20_step (quarter_steps (a, b, c, d)) x = quarter_at (a, b, c, d) x"
  using assms by (intro nth_equalityI) (auto simp: quarter_steps_def s20_step_def quarter_at_def quarterround_def ROTATE_rotl Let_def nth_list_update)

lemma length_rounds [simp]: "length (columnround x) = length x" "length (rowround x) = length x"
  by (simp_all add: columnround_def rowround_def)

lemma double_round_ref:
  assumes "length x = 16"
  shows "double_round x = rowround (columnround x)"
proof -
  have s: "s20_steps = concat (map quarter_steps [(0, 4, 8, 12), (5, 9, 13, 1), (10, 14, 2, 6), (15, 3, 7, 11), (0, 1, 2, 3), (5, 6, 7, 4), (10, 11, 8, 9), (15, 12, 13, 14)])"
    by (simp add: s20_steps_def quarter_steps_def)
  show ?thesis
    unfolding double_round_def s using assms by (simp add: fold_quarter columnround_def rowround_def)
qed

lemma rounds_ref: "length x = 16 \<Longrightarrow> length ((double_round ^^ n) x) = 16 \<and> ((\<lambda>y. rowround (columnround y)) ^^ n) x = (double_round ^^ n) x"
proof (induction n)
  case (Suc n)
  then have l: "length ((double_round ^^ n) x) = 16" and e: "((\<lambda>y. rowround (columnround y)) ^^ n) x = (double_round ^^ n) x" by simp_all
  show ?case using double_round_ref [OF l] l by (simp add: e)
qed simp

section \<open>The counter\<close>

section \<open>The expansion of the key\<close>

lemma littleendian_le: "littleendian (take 4 m) = U8TO32_LITTLE m"
proof -
  let ?a = "ucast (m ! 0) :: u32" and ?b = "push_bit 8 (ucast (m ! 1)) :: u32" and ?c = "push_bit 16 (ucast (m ! 2)) :: u32" and ?d = "push_bit 24 (ucast (m ! 3)) :: u32"
  have "?a + ?b = ?a OR ?b" by (rule disjunctive_add) (auto simp: bit_simps dest: bit_imp_le_length)
  moreover have "(?a OR ?b) + ?c = (?a OR ?b) OR ?c" by (rule disjunctive_add) (auto simp: bit_simps dest: bit_imp_le_length)
  moreover have "((?a OR ?b) OR ?c) + ?d = ((?a OR ?b) OR ?c) OR ?d" by (rule disjunctive_add) (auto simp: bit_simps dest: bit_imp_le_length)
  ultimately show ?thesis by (simp add: littleendian_def U8TO32_LITTLE_def or.assoc push_bit_eq_mult mult.commute)
qed

lemma words_append:
  assumes "length a = 4 * m"
  shows "littleendian_words (m + n) (a @ b) = littleendian_words m a @ littleendian_words n b"
proof -
  have "[0..<m + n] = [0..<m] @ map (\<lambda>i. i + m) [0..<n]" using upt_add_eq_append [of 0 m n] map_add_upt [of m n] by (simp add: add.commute)
  moreover have "map (\<lambda>w. littleendian (take 4 (drop (4 * w) (a @ b)))) [0..<m] = littleendian_words m a"
    unfolding littleendian_words_def using assms by (intro map_cong refl) auto
  moreover have "map (\<lambda>i. littleendian (take 4 (drop (4 * (i + m)) (a @ b)))) [0..<n] = littleendian_words n b"
    unfolding littleendian_words_def using assms by (intro map_cong refl) (simp add: algebra_simps)
  ultimately show ?thesis unfolding littleendian_words_def [of "m + n"] by (simp only: map_append list.map_comp comp_def)
qed

lemma words_init: "littleendian_words n bs = map (\<lambda>w. U8TO32_LITTLE (drop (4 * w) bs)) [0..<n]"
  by (simp add: littleendian_words_def littleendian_le)

lemma sigma_words: "littleendian_words 1 (sigma 0) = [U8TO32_LITTLE s20_constants]" "littleendian_words 1 (sigma 1) = [U8TO32_LITTLE (drop 4 s20_constants)]"
  "littleendian_words 1 (sigma 2) = [U8TO32_LITTLE (drop 8 s20_constants)]" "littleendian_words 1 (sigma 3) = [U8TO32_LITTLE (drop 12 s20_constants)]"
  by (simp_all add: words_init sigma_def s20_constants_def of_char_def U8TO32_LITTLE_def)

lemma length_sigma: "length (sigma 0) = 4 * 1" "length (sigma 1) = 4 * 1" "length (sigma 2) = 4 * 1"
  by (simp_all add: sigma_def)

lemma U8TO32_U32TO8: "U8TO32_LITTLE (U32TO8_LITTLE w @ r) = w"
proof (rule bit_word_eqI)
  fix n assume n: "n < LENGTH(32)"
  consider "n < 8" | "8 \<le> n" "n < 16" | "16 \<le> n" "n < 24" | "24 \<le> n" by linarith
  then show "bit (U8TO32_LITTLE (U32TO8_LITTLE w @ r)) n = bit w n"
    using n by cases (auto simp: U8TO32_LITTLE_def U32TO8_LITTLE_def bit_simps)
qed

lemma counter_words: "littleendian_words 2 (le_bytes 8 v) = [ucast v, ucast (drop_bit 32 (v :: u64))]"
proof -
  have "le_bytes 8 v = U32TO8_LITTLE (ucast v) @ U32TO8_LITTLE (ucast (drop_bit 32 v)) @ []"
    by (simp add: le_bytes_def U32TO8_LITTLE_def) (intro conjI bit_word_eqI, simp_all add: bit_simps)
  moreover have "littleendian_words 2 bs = [U8TO32_LITTLE bs, U8TO32_LITTLE (drop 4 bs)]" for bs by (simp add: words_init upt_rec)
  moreover have "drop 4 (U32TO8_LITTLE w @ r) = r" for w r by (simp add: U32TO8_LITTLE_def)
  ultimately show ?thesis by (simp only: U8TO32_U32TO8)
qed

lemma counter_halves: "ucast (of_nat i :: u64) = (of_nat i :: u32)" "ucast (drop_bit 32 (of_nat i :: u64)) = (of_nat (i div 2 ^ 32) :: u32)"
proof -
  show "ucast (of_nat i :: u64) = (of_nat i :: u32)" by (rule bit_word_eqI) (simp add: bit_simps)
  show "ucast (drop_bit 32 (of_nat i :: u64)) = (of_nat (i div 2 ^ 32) :: u32)"
    unfolding drop_bit_eq_div [symmetric, where ?'a = nat] by (rule bit_word_eqI) (auto simp: bit_simps)
qed

lemma expand_init:
  assumes "length k = 32" "length iv = 8"
  shows "salsa20_expand k iv i = (salsa20_init k iv)[8 := of_nat i, 9 := of_nat (i div 2 ^ 32)]"
proof -
  let ?c = "le_bytes 8 (of_nat i :: u64)"
  have l: "length (take 16 k) = 4 * 4" "length iv = 4 * 2" "length ?c = 4 * 2" "length (drop 16 k) = 4 * 4" using assms by simp_all
  have "salsa20_expand k iv i = littleendian_words (1 + (4 + (1 + (2 + (2 + (1 + (4 + 1))))))) (sigma 0 @ take 16 k @ sigma 1 @ iv @ ?c @ sigma 2 @ drop 16 k @ sigma 3)"
    by (simp add: salsa20_expand_def)
  also have "\<dots> = littleendian_words 1 (sigma 0) @ littleendian_words 4 (take 16 k) @ littleendian_words 1 (sigma 1) @ littleendian_words 2 iv @ littleendian_words 2 ?c
      @ littleendian_words 1 (sigma 2) @ littleendian_words 4 (drop 16 k) @ littleendian_words 1 (sigma 3)"
    by (simp only: words_append l length_sigma)
  finally have e: "salsa20_expand k iv i = \<dots>" .
  have "littleendian_words 4 (take 16 k) = [U8TO32_LITTLE k, U8TO32_LITTLE (drop 4 k), U8TO32_LITTLE (drop 8 k), U8TO32_LITTLE (drop 12 k)]"
    "littleendian_words 4 (drop 16 k) = [U8TO32_LITTLE (drop 16 k), U8TO32_LITTLE (drop 20 k), U8TO32_LITTLE (drop 24 k), U8TO32_LITTLE (drop 28 k)]"
    "littleendian_words 2 iv = [U8TO32_LITTLE iv, U8TO32_LITTLE (drop 4 iv)]"
    by (simp_all add: words_init upt_rec drop_take U8TO32_LITTLE_def)
  then show ?thesis unfolding e sigma_words counter_words counter_halves by (simp add: salsa20_init_def)
qed

lemma s20_counter:
  assumes "length k = 32" "length iv = 8"
  shows "(s20_next ^^ i) (salsa20_expand k iv c) = salsa20_expand k iv (c + i)"
proof (induction i)
  case (Suc i)
  have "of_nat (Suc (c + i)) = (0::u32) \<longleftrightarrow> 2 ^ 32 dvd Suc (c + i)"
    by (simp only: word_of_nat_eq_0_iff) simp
  moreover have "Suc (c + i) div 2 ^ 32 = (c + i) div 2 ^ 32 + (if 2 ^ 32 dvd Suc (c + i) then 1 else 0)"
    by (simp add: div_Suc dvd_eq_mod_eq_0)
  ultimately show ?case
    using Suc.IH by (simp add: s20_next_def expand_init [OF assms] salsa20_init_def Let_def ac_simps)
qed simp

section \<open>Blocks\<close>

lemma U32TO8_xor:
  assumes "4 \<le> length m"
  shows "U32TO8_LITTLE (x XOR U8TO32_LITTLE m) = map2 (XOR) (take 4 m) (U32TO8_LITTLE x)"
proof -
  obtain a b c d r where m: "m = a # b # c # d # r" using assms by (auto simp: numeral_eq_Suc Suc_le_length_iff)
  have "ucast (U8TO32_LITTLE m) = a" "ucast (drop_bit 8 (U8TO32_LITTLE m)) = b" "ucast (drop_bit 16 (U8TO32_LITTLE m)) = c"
    "ucast (drop_bit 24 (U8TO32_LITTLE m)) = d"
    by (rule bit_word_eqI, auto simp: U8TO32_LITTLE_def m bit_simps dest: bit_imp_le_length)+
  moreover have "ucast (u XOR v) = (ucast u XOR ucast v :: u8)" for u v :: u32 by (rule bit_word_eqI) (simp add: bit_simps)
  ultimately show ?thesis by (simp add: U32TO8_LITTLE_def m xor.commute)
qed

lemma map2_append: "length a = length c \<Longrightarrow> map2 f (a @ b) (c @ d) = map2 f a c @ map2 f b d"
  by simp

lemma length_words_bytes [simp]: "length (concat (map U32TO8_LITTLE x)) = 4 * length x"
  by (induction x) (simp_all add: U32TO8_LITTLE_def)

lemma s20_out_prefix:
  "4 * n \<le> length m \<Longrightarrow> n \<le> length x \<Longrightarrow>
   concat (map (\<lambda>i. U32TO8_LITTLE (x ! i XOR U8TO32_LITTLE (drop (4 * i) m))) [0..<n]) = map2 (XOR) (take (4 * n) m) (concat (map U32TO8_LITTLE (take n x)))"
proof (induction n)
  case (Suc n)
  have "take (4 * Suc n) m = take (4 * n) m @ take 4 (drop (4 * n) m)" using take_add [of "4 * n" 4 m] by (simp add: add.commute)
  moreover have "concat (map U32TO8_LITTLE (take (Suc n) x)) = concat (map U32TO8_LITTLE (take n x)) @ U32TO8_LITTLE (x ! n)"
    using Suc.prems by (simp add: take_Suc_conv_app_nth)
  moreover have "length (take (4 * n) m) = length (concat (map U32TO8_LITTLE (take n x)))" using Suc.prems by simp
  ultimately show ?case using Suc by (simp add: U32TO8_xor map2_append del: length_concat)
qed simp

lemma s20_out_xor: "64 \<le> length m \<Longrightarrow> length x = 16 \<Longrightarrow> s20_out x m = map2 (XOR) (take 64 m) (concat (map U32TO8_LITTLE x))"
  using s20_out_prefix [of 16 m x] by (simp add: s20_out_def)

lemma block_core: "length j = 16 \<Longrightarrow> length (s20_words n j) = 16 \<and> concat (map U32TO8_LITTLE (s20_words n j)) = salsa20_core n j"
proof -
  assume "length j = 16"
  then have l: "length ((double_round ^^ n) j) = 16" and e: "((\<lambda>y. rowround (columnround y)) ^^ n) j = (double_round ^^ n) j"
    using rounds_ref [of j n] by simp_all
  have "U32TO8_LITTLE = le_bytes 4" by (rule ext) (simp add: U32TO8_LITTLE_def le_bytes_def)
  then show ?thesis using l \<open>length j = 16\<close> by (simp add: s20_words_def salsa20_core_def e)
qed

lemma length_core: "length j = 16 \<Longrightarrow> length (salsa20_core n j) = 64"
  using block_core [of j n] length_words_bytes [of "s20_words n j"] by simp

lemma length_expand [simp]: "length (salsa20_expand k iv c) = 16"
  by (simp add: salsa20_expand_def littleendian_words_def)

lemma length_blocks [simp]: "length (salsa20_blocks n k iv c cnt) = 64 * cnt"
proof -
  have "map length (map (\<lambda>i. salsa20_core n (salsa20_expand k iv i)) [c..<c + cnt]) = replicate cnt 64"
    by (intro nth_equalityI) (simp_all add: length_core)
  then show ?thesis by (simp add: salsa20_blocks_def length_concat sum_list_replicate)
qed

lemma blocks_Suc: "salsa20_blocks n k iv c (Suc cnt) = salsa20_core n (salsa20_expand k iv c) @ salsa20_blocks n k iv (Suc c) cnt"
proof -
  have "[c..<c + Suc cnt] = c # [Suc c..<Suc c + cnt]" by (simp add: upt_conv_Cons del: upt_Suc)
  then show ?thesis by (simp only: salsa20_blocks_def list.map concat.simps)
qed

lemma s20_crypt_stream:
  assumes "length k = 32" "length iv = 8" "length tmp = 64" "m \<noteq> []"
  shows "s20_crypt n tmp (salsa20_expand k iv c) m =
    (salsa20_expand k iv (c + (length m + 63) div 64), map2 (XOR) m (salsa20_blocks n k iv c ((length m + 63) div 64)))"
  using assms(4)
proof (induction "length m" arbitrary: m c rule: less_induct)
  case less
  let ?j = "salsa20_expand k iv c"
  define m' where "m' = (if length m < 64 then m @ drop (length m) tmp else m)"
  have m': "64 \<le> length m'" "take (length m) (take 64 m') = take 64 m" using assms(3) by (auto simp: m'_def)
  have out: "s20_out (s20_words n ?j) m' = map2 (XOR) (take 64 m') (salsa20_core n ?j)"
    using s20_out_xor [OF m'(1)] block_core [of ?j n] by simp
  have nx: "s20_next ?j = salsa20_expand k iv (c + 1)" using s20_counter [OF assms(1,2), of 1 c] by simp
  show ?case
  proof (cases "length m \<le> 64")
    case True
    have "(length m + 63) div 64 = 1" using True less.prems by (cases m) auto
    moreover have "map2 (XOR) m (salsa20_core n ?j) = take (length m) (map2 (XOR) (take 64 m') (salsa20_core n ?j))"
      using True m'(1) by (intro nth_equalityI) (auto simp: length_core m'_def nth_append)
    ultimately show ?thesis
      using True nx out by (simp add: m'_def [symmetric] Let_def blocks_Suc salsa20_blocks_def)
  next
    case False
    have "drop 64 m \<noteq> []" "length (drop 64 m) < length m" using False by auto
    then have ih: "s20_crypt n tmp (salsa20_expand k iv (c + 1)) (drop 64 m) =
      (salsa20_expand k iv (c + 1 + (length (drop 64 m) + 63) div 64), map2 (XOR) (drop 64 m) (salsa20_blocks n k iv (c + 1) ((length (drop 64 m) + 63) div 64)))"
      using less.hyps by blast
    have l: "(length m + 63) div 64 = Suc ((length (drop 64 m) + 63) div 64)" using False by simp
    have "m' = m" using False by (simp add: m'_def)
    then have "map2 (XOR) m (salsa20_core n ?j @ b) = map2 (XOR) (take 64 m) (salsa20_core n ?j) @ map2 (XOR) (drop 64 m) b" for b
      using False map2_append [of "take 64 m" "salsa20_core n ?j" "(XOR)" "drop 64 m" b] by (simp add: length_core)
    then show ?thesis
      using False nx out ih \<open>m' = m\<close> by (simp add: m'_def [symmetric] Let_def l blocks_Suc del: s20_crypt.simps) (simp add: s20_crypt.simps [of n tmp ?j m] Let_def)
  qed
qed

lemma init_expand: "length k = 32 \<Longrightarrow> length iv = 8 \<Longrightarrow> salsa20_init k iv = salsa20_expand k iv 0"
  by (simp add: expand_init salsa20_init_def)

lemma crypt12_stream:
  assumes "length k = 32" "length iv = 8" "length tmp = 64"
  shows "crypt12 tmp (salsa20_expand k iv c) m =
    (salsa20_expand k iv (c + (length m + 63) div 64), map2 (XOR) m (salsa20_blocks 6 k iv c ((length m + 63) div 64)))"
  using s20_crypt_stream [OF assms, of m] by (simp add: crypt12_def del: s20_crypt.simps)

lemma xor_stream_twice: "length m \<le> length s \<Longrightarrow> map2 (XOR) (map2 (XOR) m s) s = (m :: bytes)"
  by (intro nth_equalityI) (simp_all add: xor.assoc)

lemma crypt12_inverse:
  assumes "length k = 32" "length iv = 8" "length tmp = 64" "length tmp' = 64"
  shows "snd (crypt12 tmp' (salsa20_expand k iv c) (snd (crypt12 tmp (salsa20_expand k iv c) m))) = m"
  by (simp add: crypt12_stream [OF assms(1,2,3)] crypt12_stream [OF assms(1,2,4)] min_def xor_stream_twice)

text \<open>C10: the cipher is Salsa20/12, or Salsa20/20, as its designer defines it for keys of 32 bytes: the state it is initialised with is the expansion of the key, the initialisation vector and block number 0, and a call that starts at block \<open>c\<close> of the key stream returns the message XOR the stream from there on, whatever
  the scratch block held, and leaves the counter at the next whole block, the counter carrying from its low to its high word; running it again from the same state gives the message back.\<close>

theorem salsa20_correct:
  assumes "length k = 32" "length iv = 8" "length tmp = 64"
  shows "salsa20_init k iv = salsa20_expand k iv 0
    \<and> crypt12 tmp (salsa20_expand k iv c) m = (salsa20_expand k iv (c + s20_count m), map2 (XOR) m (salsa20_blocks 6 k iv c (s20_count m)))
    \<and> crypt20 tmp (salsa20_expand k iv c) m = (salsa20_expand k iv (c + s20_count m), map2 (XOR) m (salsa20_blocks 10 k iv c (s20_count m)))
    \<and> snd (crypt12 tmp (salsa20_expand k iv c) (snd (crypt12 tmp (salsa20_expand k iv c) m))) = m"
  using init_expand [OF assms(1,2)] crypt12_stream [OF assms] crypt12_inverse [OF assms(1-3) assms(3)] s20_crypt_stream [OF assms, of m 10]
  by (simp add: s20_count_def crypt20_def del: s20_crypt.simps)

theorem salsa20_correct_witness:
  "snd (crypt12 (replicate 64 9) (salsa20_expand (replicate 32 1) (replicate 8 2) 0) (snd (crypt12 (replicate 64 9) (salsa20_expand (replicate 32 1) (replicate 8 2) 0) [3, 4, 5]))) = [3, 4, 5]"
  by (rule salsa20_correct [THEN conjunct2, THEN conjunct2, THEN conjunct2]) simp_all

end
