(* ===== verification/ZT_Poly1305.thy ===== *)
theory ZT_Poly1305
  imports ZT_Prelude
begin

text \<open>
  \<^verbatim>\<open>node/Poly1305.hpp\<close> and \<^verbatim>\<open>node/Poly1305.cpp\<close>: the one-time authenticator in the portable version, which the 32-bit target compiles:
  \<open>unsigned long\<close> has 32 bits there and \<open>unsigned long long\<close> 64. Numbers of 130 bits are five limbs of 26 bits. The reference is the
  definition of Poly1305 over the naturals: a polynomial in the clamped key modulo the prime, plus the pad modulo \<open>2 ^ 128\<close>. The
  theorem says that the limbs, their delayed carries and the final constant-time subtraction compute it, and so that no sum of products
  overflows.
\<close>

unbundle bit_operations_syntax

section \<open>The authenticator of the source\<close>

type_synonym limbs = "u32 \<times> u32 \<times> u32 \<times> u32 \<times> u32"

record poly1305_state =
  p_r :: limbs
  p_h :: limbs
  p_pad :: "u32 \<times> u32 \<times> u32 \<times> u32"
  p_leftover :: nat
  p_buffer :: bytes
  p_final :: bool

definition U8TO32 :: "bytes \<Rightarrow> u32" where
  "U8TO32 p = (ucast (p ! 0) AND 0xff) OR push_bit 8 (ucast (p ! 1) AND 0xff) OR push_bit 16 (ucast (p ! 2) AND 0xff) OR push_bit 24 (ucast (p ! 3) AND 0xff)"

definition U32TO8 :: "u32 \<Rightarrow> bytes" where
  "U32TO8 v = [ucast (v AND 0xff), ucast (drop_bit 8 v AND 0xff), ucast (drop_bit 16 v AND 0xff), ucast (drop_bit 24 v AND 0xff)]"

text \<open>\<open>buf\<close> is the uninitialised buffer of the context.\<close>

definition poly1305_init :: "bytes \<Rightarrow> bytes \<Rightarrow> poly1305_state" where
  "poly1305_init buf key =
    \<lparr>p_r = (U8TO32 key AND 0x3ffffff, drop_bit 2 (U8TO32 (drop 3 key)) AND 0x3ffff03, drop_bit 4 (U8TO32 (drop 6 key)) AND 0x3ffc0ff,
            drop_bit 6 (U8TO32 (drop 9 key)) AND 0x3f03fff, drop_bit 8 (U8TO32 (drop 12 key)) AND 0x00fffff),
     p_h = (0, 0, 0, 0, 0),
     p_pad = (U8TO32 (drop 16 key), U8TO32 (drop 20 key), U8TO32 (drop 24 key), U8TO32 (drop 28 key)),
     p_leftover = 0, p_buffer = buf, p_final = False\<rparr>"

definition mul64 :: "u32 \<Rightarrow> u32 \<Rightarrow> u64" where
  "mul64 a b = ucast a * ucast b"

text \<open>One turn of the loop over the blocks: add the block, multiply, carry.\<close>

definition poly1305_add :: "u32 \<Rightarrow> bytes \<Rightarrow> limbs \<Rightarrow> limbs" where
  "poly1305_add hibit m = (\<lambda>(h0, h1, h2, h3, h4).
    (h0 + (U8TO32 m AND 0x3ffffff),
     h1 + (drop_bit 2 (U8TO32 (drop 3 m)) AND 0x3ffffff),
     h2 + (drop_bit 4 (U8TO32 (drop 6 m)) AND 0x3ffffff),
     h3 + (drop_bit 6 (U8TO32 (drop 9 m)) AND 0x3ffffff),
     h4 + (drop_bit 8 (U8TO32 (drop 12 m)) OR hibit)))"

definition poly1305_mul :: "limbs \<Rightarrow> limbs \<Rightarrow> u64 \<times> u64 \<times> u64 \<times> u64 \<times> u64" where
  "poly1305_mul = (\<lambda>(r0, r1, r2, r3, r4) (h0, h1, h2, h3, h4).
    let s1 = r1 * 5; s2 = r2 * 5; s3 = r3 * 5; s4 = r4 * 5 in
    (mul64 h0 r0 + mul64 h1 s4 + mul64 h2 s3 + mul64 h3 s2 + mul64 h4 s1,
     mul64 h0 r1 + mul64 h1 r0 + mul64 h2 s4 + mul64 h3 s3 + mul64 h4 s2,
     mul64 h0 r2 + mul64 h1 r1 + mul64 h2 r0 + mul64 h3 s4 + mul64 h4 s3,
     mul64 h0 r3 + mul64 h1 r2 + mul64 h2 r1 + mul64 h3 r0 + mul64 h4 s4,
     mul64 h0 r4 + mul64 h1 r3 + mul64 h2 r2 + mul64 h3 r1 + mul64 h4 r0))"

definition poly1305_carry :: "u64 \<times> u64 \<times> u64 \<times> u64 \<times> u64 \<Rightarrow> limbs" where
  "poly1305_carry = (\<lambda>(d0, d1, d2, d3, d4).
    let c = (ucast (drop_bit 26 d0) :: u32); h0 = ucast d0 AND 0x3ffffff; d1 = d1 + ucast c;
        c = (ucast (drop_bit 26 d1) :: u32); h1 = ucast d1 AND 0x3ffffff; d2 = d2 + ucast c;
        c = (ucast (drop_bit 26 d2) :: u32); h2 = ucast d2 AND 0x3ffffff; d3 = d3 + ucast c;
        c = (ucast (drop_bit 26 d3) :: u32); h3 = ucast d3 AND 0x3ffffff; d4 = d4 + ucast c;
        c = (ucast (drop_bit 26 d4) :: u32); h4 = ucast d4 AND 0x3ffffff; h0 = h0 + c * 5;
        c = drop_bit 26 h0; h0 = h0 AND 0x3ffffff; h1 = h1 + c in
    (h0, h1, h2, h3, h4))"

fun poly1305_loop :: "u32 \<Rightarrow> limbs \<Rightarrow> bytes \<Rightarrow> limbs \<Rightarrow> limbs" where
  "poly1305_loop hibit r m h =
    (if 16 \<le> length m then poly1305_loop hibit r (drop 16 m) (poly1305_carry (poly1305_mul r (poly1305_add hibit m h))) else h)"

definition poly1305_blocks :: "bytes \<Rightarrow> poly1305_state \<Rightarrow> poly1305_state" where
  "poly1305_blocks m st =
    st\<lparr>p_h := poly1305_loop (if p_final st then 0 else 0x1000000) (p_r st) m (p_h st)\<rparr>"

definition poly1305_reduce :: "limbs \<Rightarrow> limbs" where
  "poly1305_reduce = (\<lambda>(h0, h1, h2, h3, h4).
    let c = drop_bit 26 h1; h1 = h1 AND 0x3ffffff; h2 = h2 + c;
        c = drop_bit 26 h2; h2 = h2 AND 0x3ffffff; h3 = h3 + c;
        c = drop_bit 26 h3; h3 = h3 AND 0x3ffffff; h4 = h4 + c;
        c = drop_bit 26 h4; h4 = h4 AND 0x3ffffff; h0 = h0 + c * 5;
        c = drop_bit 26 h0; h0 = h0 AND 0x3ffffff; h1 = h1 + c in
    (h0, h1, h2, h3, h4))"

definition poly1305_select :: "limbs \<Rightarrow> limbs" where
  "poly1305_select = (\<lambda>(h0, h1, h2, h3, h4).
    let g0 = h0 + 5; c = drop_bit 26 g0; g0 = g0 AND 0x3ffffff;
        g1 = h1 + c; c = drop_bit 26 g1; g1 = g1 AND 0x3ffffff;
        g2 = h2 + c; c = drop_bit 26 g2; g2 = g2 AND 0x3ffffff;
        g3 = h3 + c; c = drop_bit 26 g3; g3 = g3 AND 0x3ffffff;
        g4 = h4 + c - 0x4000000;
        msk = drop_bit 31 g4 - 1;
        g0 = g0 AND msk; g1 = g1 AND msk; g2 = g2 AND msk; g3 = g3 AND msk; g4 = g4 AND msk;
        msk = NOT msk in
    ((h0 AND msk) OR g0, (h1 AND msk) OR g1, (h2 AND msk) OR g2, (h3 AND msk) OR g3, (h4 AND msk) OR g4))"

definition poly1305_pack :: "limbs \<Rightarrow> u32 \<times> u32 \<times> u32 \<times> u32" where
  "poly1305_pack = (\<lambda>(h0, h1, h2, h3, h4).
    ((h0 OR push_bit 26 h1) AND 0xffffffff, (drop_bit 6 h1 OR push_bit 20 h2) AND 0xffffffff,
     (drop_bit 12 h2 OR push_bit 14 h3) AND 0xffffffff, (drop_bit 18 h3 OR push_bit 8 h4) AND 0xffffffff))"

definition poly1305_pad :: "u32 \<times> u32 \<times> u32 \<times> u32 \<Rightarrow> u32 \<times> u32 \<times> u32 \<times> u32 \<Rightarrow> bytes" where
  "poly1305_pad = (\<lambda>(p0, p1, p2, p3) (h0, h1, h2, h3).
    let f = (ucast h0 + ucast p0 :: u64); h0 = ucast f;
        f = ucast h1 + ucast p1 + drop_bit 32 f; h1 = ucast f;
        f = ucast h2 + ucast p2 + drop_bit 32 f; h2 = ucast f;
        f = ucast h3 + ucast p3 + drop_bit 32 f; h3 = ucast f in
    U32TO8 h0 @ U32TO8 h1 @ U32TO8 h2 @ U32TO8 h3)"

definition poly1305_finish :: "poly1305_state \<Rightarrow> bytes" where
  "poly1305_finish st =
    (let st = (if p_leftover st \<noteq> 0 then
                 let i = p_leftover st; b = take i (p_buffer st) @ [1] @ replicate (15 - i) 0 in
                 poly1305_blocks b (st\<lparr>p_buffer := b, p_final := True\<rparr>)
               else st) in
     poly1305_pad (p_pad st) (poly1305_pack (poly1305_select (poly1305_reduce (p_h st)))))"

definition poly1305_update :: "bytes \<Rightarrow> poly1305_state \<Rightarrow> poly1305_state" where
  "poly1305_update m st =
    (let fill = (\<lambda>bs st. st\<lparr>p_buffer := take (p_leftover st) (p_buffer st) @ bs @ drop (p_leftover st + length bs) (p_buffer st),
                            p_leftover := p_leftover st + length bs\<rparr>);
         whole = (\<lambda>m st.
           let want = length m - length m mod 16;
               st = (if length m \<ge> 16 then poly1305_blocks (take want m) st else st);
               m = (if length m \<ge> 16 then drop want m else m) in
           if m \<noteq> [] then fill m st else st) in
     if p_leftover st \<noteq> 0 then
       let want = min (16 - p_leftover st) (length m);
           st = fill (take want m) st in
       if p_leftover st < 16 then st
       else whole (drop want m) ((poly1305_blocks (p_buffer st) st)\<lparr>p_leftover := 0\<rparr>)
     else whole m st)"

definition poly1305_compute :: "bytes \<Rightarrow> bytes \<Rightarrow> bytes \<Rightarrow> bytes" where
  "poly1305_compute buf data key = poly1305_finish (poly1305_update data (poly1305_init buf key))"

section \<open>The authenticator over the naturals\<close>

fun le_nat :: "bytes \<Rightarrow> nat" where
  "le_nat [] = 0"
| "le_nat (b # bs) = unat b + 256 * le_nat bs"

abbreviation (input) P1305 :: nat where "P1305 \<equiv> 2 ^ 130 - 5"

definition poly1305_r :: "bytes \<Rightarrow> nat" where
  "poly1305_r key = le_nat (take 16 key) AND 0x0ffffffc0ffffffc0ffffffc0fffffff"

text \<open>The accumulator after a message: every block of 16 bytes, the last one maybe shorter, with a one behind it.\<close>

fun poly1305_eval :: "nat \<Rightarrow> bytes \<Rightarrow> nat \<Rightarrow> nat" where
  "poly1305_eval r m acc =
    (if m = [] then acc else poly1305_eval r (drop 16 m) ((acc + le_nat (take 16 m @ [1])) * r mod P1305))"

definition poly1305_tag :: "bytes \<Rightarrow> bytes \<Rightarrow> nat" where
  "poly1305_tag key m = (poly1305_eval (poly1305_r key) m 0 + le_nat (take 16 (drop 16 key))) mod 2 ^ 128"

definition limbs_val :: "limbs \<Rightarrow> nat" where
  "limbs_val = (\<lambda>(h0, h1, h2, h3, h4). unat h0 + 2 ^ 26 * unat h1 + 2 ^ 52 * unat h2 + 2 ^ 78 * unat h3 + 2 ^ 104 * unat h4)"

definition words_val :: "u32 \<times> u32 \<times> u32 \<times> u32 \<Rightarrow> nat" where
  "words_val = (\<lambda>(w0, w1, w2, w3). unat w0 + 2 ^ 32 * unat w1 + 2 ^ 64 * unat w2 + 2 ^ 96 * unat w3)"

text \<open>The limbs between two blocks: the second one may hold a small carry.\<close>

definition limbs_ok :: "limbs \<Rightarrow> bool" where
  "limbs_ok = (\<lambda>(h0, h1, h2, h3, h4). unat h0 < 2 ^ 26 \<and> unat h1 < 2 ^ 26 + 2 ^ 7 \<and> unat h2 < 2 ^ 26 \<and> unat h3 < 2 ^ 26 \<and> unat h4 < 2 ^ 26)"

definition limbs_below :: "nat \<Rightarrow> limbs \<Rightarrow> bool" where
  "limbs_below b = (\<lambda>(h0, h1, h2, h3, h4). unat h0 < b \<and> unat h1 < b \<and> unat h2 < b \<and> unat h3 < b \<and> unat h4 < b)"

text \<open>The accumulator when the tag is computed.\<close>

definition poly1305_last :: "poly1305_state \<Rightarrow> limbs" where
  "poly1305_last st = (if p_leftover st \<noteq> 0 then
     poly1305_loop 0 (p_r st) (take (p_leftover st) (p_buffer st) @ [1] @ replicate (15 - p_leftover st) 0) (p_h st) else p_h st)"

section \<open>Numbers and limbs\<close>

lemma le_nat_append: "le_nat (a @ b) = le_nat a + 256 ^ length a * le_nat b"
  by (induction a) (simp_all add: algebra_simps)

lemma le_nat_bound: "le_nat m < 256 ^ length m"
proof (induction m)
  case (Cons b m)
  have "unat b < 256" using unat_bound [of b] by simp
  then show ?case using Cons by simp
qed simp

lemma le_nat_drop: "le_nat (drop k m) = le_nat m div 256 ^ k"
proof (cases "k \<le> length m")
  case True
  have "le_nat m = le_nat (take k m) + 256 ^ k * le_nat (drop k m)" using True le_nat_append [of "take k m" "drop k m"] by simp
  moreover have "le_nat (take k m) < 256 ^ k" using le_nat_bound [of "take k m"] True by simp
  ultimately show ?thesis by simp
next
  case False
  have "le_nat m < 256 ^ k" using le_nat_bound [of m] False by (simp add: less_le_trans [OF _ power_increasing])
  then show ?thesis using False by simp
qed

lemma le_nat_take: "le_nat (take k m) = le_nat m mod 256 ^ k"
proof (cases "k \<le> length m")
  case True
  have "le_nat m = le_nat (take k m) + 256 ^ k * le_nat (drop k m)" using True le_nat_append [of "take k m" "drop k m"] by simp
  moreover have "le_nat (take k m) < 256 ^ k" using le_nat_bound [of "take k m"] True by simp
  ultimately show ?thesis by simp
next
  case False
  have "le_nat m < 256 ^ k" using le_nat_bound [of m] False by (simp add: less_le_trans [OF _ power_increasing])
  then show ?thesis using False by simp
qed


lemma unat_ucast_mod: "unat (ucast (w :: 'a::len word) :: 'b::len word) = unat w mod 2 ^ LENGTH('b)"
  by (simp add: unsigned_ucast_eq take_bit_eq_mod)

lemma or_shift_nat: "a < 2 ^ n \<Longrightarrow> (a :: nat) OR 2 ^ n * b = a + 2 ^ n * b"
proof -
  assume "a < 2 ^ n"
  then have "take_bit n a = a" by (simp add: take_bit_nat_eq_self)
  then have "k < n" if "bit a k" for k using that by (metis bit_take_bit_iff)
  then have "a AND push_bit n b = 0" by (auto intro!: bit_eqI simp: bit_simps) (meson leD)
  then show ?thesis by (simp add: disjunctive_add_eq_or [symmetric] push_bit_eq_mult mult.commute)
qed

lemma unat_push_bit:
  "2 ^ n * unat w < 2 ^ LENGTH('a) \<Longrightarrow> unat (push_bit n (w :: 'a::len word)) = 2 ^ n * unat w"
  unfolding unsigned_push_bit_eq by (simp add: push_bit_eq_mult take_bit_nat_eq_self mult.commute)

lemma U8TO32_nat:
  assumes "4 \<le> length p"
  shows "unat (U8TO32 p) = le_nat p mod 2 ^ 32"
proof -
  obtain a b c d r where p: "p = a # b # c # d # r" using assms by (auto simp: numeral_eq_Suc Suc_le_length_iff)
  have l: "unat x < 256" for x :: u8 using unat_bound [of x] by simp
  have m: "ucast x AND 0xff = (ucast x :: u32)" for x :: u8 by (rule bit_word_eqI) (auto simp: bit_simps and_255 dest: bit_imp_le_length)
  have "U8TO32 p = ucast a OR push_bit 8 (ucast b OR push_bit 8 (ucast c OR push_bit 8 (ucast d)))"
    by (simp add: U8TO32_def p m push_bit_or or.assoc)
  moreover have j: "unat (ucast x OR push_bit 8 w :: u32) = unat x + 256 * unat w" if "unat w < 2 ^ 24" for x :: u8 and w :: u32
    using that l [of x] or_shift_nat [of "unat x" 8 "unat w"] unat_push_bit [of 8 w] by (simp add: unsigned_or_eq unat_ucast_mod)
  moreover define w1 where "w1 = (ucast c OR push_bit 8 (ucast d) :: u32)"
  moreover define w2 where "w2 = (ucast b OR push_bit 8 w1 :: u32)"
  ultimately have e: "U8TO32 p = ucast a OR push_bit 8 w2" by simp
  have "unat w1 = unat c + 256 * unat d" unfolding w1_def using j [of "ucast d" c] l [of d] by (simp add: unat_ucast_mod)
  moreover from this have "unat w2 = unat b + 256 * unat w1" unfolding w2_def using j [of w1 b] l [of c] l [of d] by simp
  ultimately have "unat (U8TO32 p) = unat a + 256 * (unat b + 256 * (unat c + 256 * unat d))"
    using j [of w2 a] l [of b] l [of c] l [of d] by (simp add: e)
  moreover define x where "x = unat a + 256 * (unat b + 256 * (unat c + 256 * unat d))"
  moreover have "x < 2 ^ 32" using l [of a] l [of b] l [of c] l [of d] by (simp add: x_def)
  moreover have "le_nat p = x + 2 ^ 32 * le_nat r" by (simp add: p x_def)
  ultimately show ?thesis by simp
qed

lemma mask26: "(x :: nat) AND 0x3ffffff = x mod 2 ^ 26"
  using take_bit_eq_mask [of 26 x] by (simp add: take_bit_eq_mod mask_numeral)

lemma unat_mask26: "unat (x AND 0x3ffffff :: u32) = unat x mod 2 ^ 26"
  using mask26 [of "unat x"] by (simp add: unsigned_and_eq)

lemma div_mod_cut: "k + b \<le> 8 * j + (32::nat) \<Longrightarrow> 8 * j \<le> k \<Longrightarrow> (V div 256 ^ j mod 2 ^ 32) div 2 ^ (k - 8 * j) mod 2 ^ b = (V :: nat) div 2 ^ k mod 2 ^ b"
proof -
  assume a: "k + b \<le> 8 * j + 32" "8 * j \<le> k"
  have "256 ^ j = (2::nat) ^ (8 * j)" by (simp add: power_mult)
  then have "(V div 256 ^ j mod 2 ^ 32) div 2 ^ (k - 8 * j) mod 2 ^ b = take_bit b (drop_bit (k - 8 * j) (take_bit 32 (drop_bit (8 * j) V)))"
    by (simp add: take_bit_eq_mod drop_bit_eq_div)
  also have "\<dots> = take_bit b (drop_bit k V)"
    using a by (auto intro!: bit_eqI simp: bit_simps)
  finally show ?thesis by (simp add: take_bit_eq_mod drop_bit_eq_div)
qed

text \<open>The words read at an offset are the limbs of the number a block of 16 bytes encodes.\<close>

lemma block_limbs:
  assumes "length m = 16"
  shows "unat (U8TO32 m) mod 2 ^ 26 = le_nat m mod 2 ^ 26"
    "unat (drop_bit 2 (U8TO32 (drop 3 m))) mod 2 ^ 26 = le_nat m div 2 ^ 26 mod 2 ^ 26"
    "unat (drop_bit 4 (U8TO32 (drop 6 m))) mod 2 ^ 26 = le_nat m div 2 ^ 52 mod 2 ^ 26"
    "unat (drop_bit 6 (U8TO32 (drop 9 m))) mod 2 ^ 26 = le_nat m div 2 ^ 78 mod 2 ^ 26"
    "unat (drop_bit 8 (U8TO32 (drop 12 m))) = le_nat m div 2 ^ 104"
proof -
  show "unat (U8TO32 m) mod 2 ^ 26 = le_nat m mod 2 ^ 26"
    using U8TO32_nat [of m] div_mod_cut [of 0 26 0 "le_nat m"] assms by simp
  show "unat (drop_bit 2 (U8TO32 (drop 3 m))) mod 2 ^ 26 = le_nat m div 2 ^ 26 mod 2 ^ 26"
    using U8TO32_nat [of "drop 3 m"] div_mod_cut [of 26 26 3 "le_nat m"] assms by (simp add: unat_drop_bit le_nat_drop)
  show "unat (drop_bit 4 (U8TO32 (drop 6 m))) mod 2 ^ 26 = le_nat m div 2 ^ 52 mod 2 ^ 26"
    using U8TO32_nat [of "drop 6 m"] div_mod_cut [of 52 26 6 "le_nat m"] assms by (simp add: unat_drop_bit le_nat_drop)
  show "unat (drop_bit 6 (U8TO32 (drop 9 m))) mod 2 ^ 26 = le_nat m div 2 ^ 78 mod 2 ^ 26"
    using U8TO32_nat [of "drop 9 m"] div_mod_cut [of 78 26 9 "le_nat m"] assms by (simp add: unat_drop_bit le_nat_drop)
  have "le_nat m div 256 ^ 12 < 2 ^ 32" using le_nat_bound [of m] assms by (intro less_mult_imp_div_less) simp
  then have "unat (U8TO32 (drop 12 m)) = le_nat m div 256 ^ 12" using U8TO32_nat [of "drop 12 m"] assms by (simp add: le_nat_drop)
  then show "unat (drop_bit 8 (U8TO32 (drop 12 m))) = le_nat m div 2 ^ 104" by (simp add: unat_drop_bit div_mult2_eq [symmetric])
qed

lemma limbs_value:
  "(V :: nat) mod 2 ^ 26 + 2 ^ 26 * (V div 2 ^ 26 mod 2 ^ 26) + 2 ^ 52 * (V div 2 ^ 52 mod 2 ^ 26) + 2 ^ 78 * (V div 2 ^ 78 mod 2 ^ 26) + 2 ^ 104 * (V div 2 ^ 104) = V"
proof -
  have horner: "a + 2 ^ 26 * b + 2 ^ 52 * c + 2 ^ 78 * d + 2 ^ 104 * q4 = x"
    if "x = a + 2 ^ 26 * q1" "q1 = b + 2 ^ 26 * q2" "q2 = c + 2 ^ 26 * q3" "q3 = d + 2 ^ 26 * q4" for a b c d q1 q2 q3 q4 x :: nat
    using that by simp
  have "V div 2 ^ k = V div 2 ^ k mod 2 ^ 26 + 2 ^ 26 * (V div 2 ^ (k + 26))" for k
    using mod_mult_div_eq [of "V div 2 ^ k" "2 ^ 26"] by (simp add: div_mult2_eq [symmetric] power_add del: power_numeral)
  from this [of 0] this [of 26] this [of 52] this [of 78] show ?thesis
    by (intro horner) simp_all
qed

lemma mul_identity:
  fixes h0 h1 h2 h3 h4 r0 r1 r2 r3 r4 :: nat
  defines "K \<equiv> (h1 * r4 + h2 * r3 + h3 * r2 + h4 * r1) + 2 ^ 26 * (h2 * r4 + h3 * r3 + h4 * r2) + 2 ^ 52 * (h3 * r4 + h4 * r3) + 2 ^ 78 * (h4 * r4)"
  shows "(h0 + 2 ^ 26 * h1 + 2 ^ 52 * h2 + 2 ^ 78 * h3 + 2 ^ 104 * h4) * (r0 + 2 ^ 26 * r1 + 2 ^ 52 * r2 + 2 ^ 78 * r3 + 2 ^ 104 * r4)
    = (h0 * r0 + h1 * (r4 * 5) + h2 * (r3 * 5) + h3 * (r2 * 5) + h4 * (r1 * 5))
    + 2 ^ 26 * (h0 * r1 + h1 * r0 + h2 * (r4 * 5) + h3 * (r3 * 5) + h4 * (r2 * 5))
    + 2 ^ 52 * (h0 * r2 + h1 * r1 + h2 * r0 + h3 * (r4 * 5) + h4 * (r3 * 5))
    + 2 ^ 78 * (h0 * r3 + h1 * r2 + h2 * r1 + h3 * r0 + h4 * (r4 * 5))
    + 2 ^ 104 * (h0 * r4 + h1 * r3 + h2 * r2 + h3 * r1 + h4 * r0) + (2 ^ 130 - 5) * K"
  unfolding K_def by (simp add: algebra_simps)

lemma carry_identity:
  fixes d0 d1 d2 d3 d4 :: nat
  defines "e1 \<equiv> d1 + d0 div 2 ^ 26"
  defines "e2 \<equiv> d2 + e1 div 2 ^ 26"
  defines "e3 \<equiv> d3 + e2 div 2 ^ 26"
  defines "e4 \<equiv> d4 + e3 div 2 ^ 26"
  defines "x \<equiv> d0 mod 2 ^ 26 + e4 div 2 ^ 26 * 5"
  shows "d0 + 2 ^ 26 * d1 + 2 ^ 52 * d2 + 2 ^ 78 * d3 + 2 ^ 104 * d4
    = x mod 2 ^ 26 + 2 ^ 26 * (e1 mod 2 ^ 26 + x div 2 ^ 26) + 2 ^ 52 * (e2 mod 2 ^ 26) + 2 ^ 78 * (e3 mod 2 ^ 26) + 2 ^ 104 * (e4 mod 2 ^ 26) + (2 ^ 130 - 5) * (e4 div 2 ^ 26)"
proof -
  have g: "D = x' + 2 ^ 26 * (b1 + x'') + 2 ^ 52 * b2 + 2 ^ 78 * b3 + 2 ^ 104 * b4 + (2 ^ 130 - 5) * q4"
    if "d0 = b0 + 2 ^ 26 * q0" "d1 + q0 = b1 + 2 ^ 26 * q1" "d2 + q1 = b2 + 2 ^ 26 * q2" "d3 + q2 = b3 + 2 ^ 26 * q3" "d4 + q3 = b4 + 2 ^ 26 * q4"
      "b0 + q4 * 5 = x' + 2 ^ 26 * x''" "D = d0 + 2 ^ 26 * d1 + 2 ^ 52 * d2 + 2 ^ 78 * d3 + 2 ^ 104 * d4"
    for D b0 b1 b2 b3 b4 q0 q1 q2 q3 q4 x' x'' :: nat
    using that by simp
  show ?thesis
    by (rule g [of "d0 mod 2 ^ 26" "d0 div 2 ^ 26" "e1 mod 2 ^ 26" "e1 div 2 ^ 26" "e2 mod 2 ^ 26" "e2 div 2 ^ 26" "e3 mod 2 ^ 26" "e3 div 2 ^ 26" "e4 mod 2 ^ 26" "e4 div 2 ^ 26"])
      (simp_all only: mod_mult_div_eq e1_def [symmetric] e2_def [symmetric] e3_def [symmetric] e4_def [symmetric] x_def [symmetric])
qed

lemma unat_mul64: "unat (mul64 a b) = unat a * unat b"
proof -
  have "unat a * unat b < 2 ^ 64" using mult_strict_mono' [OF unat_bound [of a] unat_bound [of b]] by simp
  moreover have "unat a < 2 ^ 64" "unat b < 2 ^ 64" using unat_bound [of a] unat_bound [of b] by simp_all
  ultimately show ?thesis by (simp add: mul64_def unat_mult_lem [THEN iffD1] unsigned_ucast_eq take_bit_nat_eq_self)
qed

section \<open>One block\<close>

lemma unat_add: "unat a + unat b < 2 ^ LENGTH('a) \<Longrightarrow> unat (a + b :: 'a::len word) = unat a + unat b"
  using unat_add_lem by blast

lemma unat_sum5:
  "unat a + unat b + unat c + unat d + unat e < 2 ^ LENGTH('a) \<Longrightarrow> unat (a + b + c + d + e :: 'a::len word) = unat a + unat b + unat c + unat d + unat e"
  by (simp add: unat_add)

lemma unat_mul5: "unat r < 2 ^ 26 \<Longrightarrow> unat (r * 5 :: u32) = unat r * 5"
  using unat_mult_lem [of r 5] by simp

lemma mul_row:
  assumes "unat x0 \<le> 2 ^ 27 + 2 ^ 7" "unat x1 \<le> 2 ^ 27 + 2 ^ 7" "unat x2 \<le> 2 ^ 27 + 2 ^ 7" "unat x3 \<le> 2 ^ 27 + 2 ^ 7" "unat x4 \<le> 2 ^ 27 + 2 ^ 7"
    and "unat y0 \<le> Y" "unat y1 \<le> Y" "unat y2 \<le> Y" "unat y3 \<le> Y" "unat y4 \<le> Y" "Y \<le> 5 * 2 ^ 26"
  shows "unat (mul64 x0 y0 + mul64 x1 y1 + mul64 x2 y2 + mul64 x3 y3 + mul64 x4 y4)
      = unat x0 * unat y0 + unat x1 * unat y1 + unat x2 * unat y2 + unat x3 * unat y3 + unat x4 * unat y4"
    and "unat x0 * unat y0 + unat x1 * unat y1 + unat x2 * unat y2 + unat x3 * unat y3 + unat x4 * unat y4 \<le> 5 * ((2 ^ 27 + 2 ^ 7) * Y)"
proof -
  have "unat x0 * unat y0 \<le> (2 ^ 27 + 2 ^ 7) * Y" "unat x1 * unat y1 \<le> (2 ^ 27 + 2 ^ 7) * Y" "unat x2 * unat y2 \<le> (2 ^ 27 + 2 ^ 7) * Y"
    "unat x3 * unat y3 \<le> (2 ^ 27 + 2 ^ 7) * Y" "unat x4 * unat y4 \<le> (2 ^ 27 + 2 ^ 7) * Y"
    using assms by (auto intro: mult_le_mono)
  then show b: "unat x0 * unat y0 + unat x1 * unat y1 + unat x2 * unat y2 + unat x3 * unat y3 + unat x4 * unat y4 \<le> 5 * ((2 ^ 27 + 2 ^ 7) * Y)"
    by linarith
  have "5 * ((2 ^ 27 + 2 ^ 7) * Y) < 2 ^ 64" using assms(11) by simp
  with b have "unat x0 * unat y0 + unat x1 * unat y1 + unat x2 * unat y2 + unat x3 * unat y3 + unat x4 * unat y4 < 2 ^ LENGTH(64)" by (simp del: power_numeral)
  then show "unat (mul64 x0 y0 + mul64 x1 y1 + mul64 x2 y2 + mul64 x3 y3 + mul64 x4 y4)
      = unat x0 * unat y0 + unat x1 * unat y1 + unat x2 * unat y2 + unat x3 * unat y3 + unat x4 * unat y4"
    using unat_sum5 [of "mul64 x0 y0" "mul64 x1 y1" "mul64 x2 y2" "mul64 x3 y3" "mul64 x4 y4"] unfolding unat_mul64 by blast
qed

lemma mul_nat:
  assumes "limbs_below (2 ^ 27 + 2 ^ 7) (h0, h1, h2, h3, h4)" "limbs_below (2 ^ 26) (r0, r1, r2, r3, r4)"
    and d: "poly1305_mul (r0, r1, r2, r3, r4) (h0, h1, h2, h3, h4) = (d0, d1, d2, d3, d4)"
  shows "limbs_val (h0, h1, h2, h3, h4) * limbs_val (r0, r1, r2, r3, r4) mod P1305
      = (unat d0 + 2 ^ 26 * unat d1 + 2 ^ 52 * unat d2 + 2 ^ 78 * unat d3 + 2 ^ 104 * unat d4) mod P1305"
    and "unat d0 < 2 ^ 58 - 2 ^ 32" "unat d1 < 2 ^ 58 - 2 ^ 32" "unat d2 < 2 ^ 58 - 2 ^ 32" "unat d3 < 2 ^ 58 - 2 ^ 32" "unat d4 \<le> 5 * ((2 ^ 27 + 2 ^ 7) * 2 ^ 26)"
proof -
  have h: "unat h0 \<le> 2 ^ 27 + 2 ^ 7" "unat h1 \<le> 2 ^ 27 + 2 ^ 7" "unat h2 \<le> 2 ^ 27 + 2 ^ 7" "unat h3 \<le> 2 ^ 27 + 2 ^ 7" "unat h4 \<le> 2 ^ 27 + 2 ^ 7"
    using assms(1) by (simp_all add: limbs_below_def)
  have r: "unat r0 < 2 ^ 26" "unat r1 < 2 ^ 26" "unat r2 < 2 ^ 26" "unat r3 < 2 ^ 26" "unat r4 < 2 ^ 26" using assms(2) by (simp_all add: limbs_below_def)
  note s = unat_mul5 [OF r(2)] unat_mul5 [OF r(3)] unat_mul5 [OF r(4)] unat_mul5 [OF r(5)]
  have y: "unat r0 \<le> 5 * 2 ^ 26" "unat r1 \<le> 5 * 2 ^ 26" "unat r2 \<le> 5 * 2 ^ 26" "unat r3 \<le> 5 * 2 ^ 26" "unat r4 \<le> 5 * 2 ^ 26"
    "unat (r1 * 5) \<le> 5 * 2 ^ 26" "unat (r2 * 5) \<le> 5 * 2 ^ 26" "unat (r3 * 5) \<le> 5 * 2 ^ 26" "unat (r4 * 5) \<le> 5 * 2 ^ 26"
    using r by (simp_all add: s)
  have z: "unat r0 \<le> 2 ^ 26" "unat r1 \<le> 2 ^ 26" "unat r2 \<le> 2 ^ 26" "unat r3 \<le> 2 ^ 26" "unat r4 \<le> 2 ^ 26" using r by simp_all
  note row = mul_row [OF h]
  note eqs = row(1) [OF y(1) y(9) y(8) y(7) y(6)] row(1) [OF y(2) y(1) y(9) y(8) y(7)] row(1) [OF y(3) y(2) y(1) y(9) y(8)]
    row(1) [OF y(4) y(3) y(2) y(1) y(9)] row(1) [OF z(5) z(4) z(3) z(2) z(1)]
  note bs = row(2) [OF y(1) y(9) y(8) y(7) y(6)] row(2) [OF y(2) y(1) y(9) y(8) y(7)] row(2) [OF y(3) y(2) y(1) y(9) y(8)]
    row(2) [OF y(4) y(3) y(2) y(1) y(9)] row(2) [OF z(5) z(4) z(3) z(2) z(1)]
  have ds: "d0 = mul64 h0 r0 + mul64 h1 (r4 * 5) + mul64 h2 (r3 * 5) + mul64 h3 (r2 * 5) + mul64 h4 (r1 * 5)"
    "d1 = mul64 h0 r1 + mul64 h1 r0 + mul64 h2 (r4 * 5) + mul64 h3 (r3 * 5) + mul64 h4 (r2 * 5)"
    "d2 = mul64 h0 r2 + mul64 h1 r1 + mul64 h2 r0 + mul64 h3 (r4 * 5) + mul64 h4 (r3 * 5)"
    "d3 = mul64 h0 r3 + mul64 h1 r2 + mul64 h2 r1 + mul64 h3 r0 + mul64 h4 (r4 * 5)"
    "d4 = mul64 h0 r4 + mul64 h1 r3 + mul64 h2 r2 + mul64 h3 r1 + mul64 h4 r0"
    using d by (simp_all add: poly1305_mul_def Let_def)
  show "unat d0 < 2 ^ 58 - 2 ^ 32" "unat d1 < 2 ^ 58 - 2 ^ 32" "unat d2 < 2 ^ 58 - 2 ^ 32" "unat d3 < 2 ^ 58 - 2 ^ 32" "unat d4 \<le> 5 * ((2 ^ 27 + 2 ^ 7) * 2 ^ 26)"
    unfolding ds using eqs bs by simp_all
  show "limbs_val (h0, h1, h2, h3, h4) * limbs_val (r0, r1, r2, r3, r4) mod P1305
      = (unat d0 + 2 ^ 26 * unat d1 + 2 ^ 52 * unat d2 + 2 ^ 78 * unat d3 + 2 ^ 104 * unat d4) mod P1305"
    using eqs mul_identity [of "unat h0" "unat h1" "unat h2" "unat h3" "unat h4" "unat r0" "unat r1" "unat r2" "unat r3" "unat r4"]
    unfolding limbs_val_def ds prod.case by (simp only: s mod_mult_self1 mod_mult_self2)
qed

lemma unat_carry: "unat d < 2 ^ 58 \<Longrightarrow> unat (ucast (drop_bit 26 (d :: u64)) :: u32) = unat d div 2 ^ 26"
  by (simp add: unat_ucast_mod unat_drop_bit)

lemma unat_low: "unat (ucast (d :: u64) AND 0x3ffffff :: u32) = unat d mod 2 ^ 26"
  by (simp add: unat_mask26 unat_ucast_mod mod_mod_cancel)

lemma unat_up: "unat (ucast (c :: u32) :: u64) = unat c"
  using unat_bound [of c] by (simp add: unat_ucast_mod)

lemma unat_add_up: "unat d < 2 ^ 58 - 2 ^ 32 \<Longrightarrow> unat (d + ucast (c :: u32) :: u64) = unat d + unat c"
  using unat_bound [of c] by (subst unat_add) (simp_all add: unat_up)

lemma carry_nat:
  assumes "unat d0 < 2 ^ 58 - 2 ^ 32" "unat d1 < 2 ^ 58 - 2 ^ 32" "unat d2 < 2 ^ 58 - 2 ^ 32" "unat d3 < 2 ^ 58 - 2 ^ 32" "unat d4 \<le> 5 * ((2 ^ 27 + 2 ^ 7) * 2 ^ 26)"
  shows "limbs_val (poly1305_carry (d0, d1, d2, d3, d4)) mod P1305
      = (unat d0 + 2 ^ 26 * unat d1 + 2 ^ 52 * unat d2 + 2 ^ 78 * unat d3 + 2 ^ 104 * unat d4) mod P1305"
    and "limbs_ok (poly1305_carry (d0, d1, d2, d3, d4))"
proof -
  define e1 where "e1 = unat d1 + unat d0 div 2 ^ 26"
  define e2 where "e2 = unat d2 + e1 div 2 ^ 26"
  define e3 where "e3 = unat d3 + e2 div 2 ^ 26"
  define e4 where "e4 = unat d4 + e3 div 2 ^ 26"
  define x where "x = unat d0 mod 2 ^ 26 + e4 div 2 ^ 26 * 5"
  let ?c0 = "ucast (drop_bit 26 d0) :: u32"
  let ?d1 = "d1 + ucast ?c0"
  let ?c1 = "ucast (drop_bit 26 ?d1) :: u32"
  let ?d2 = "d2 + ucast ?c1"
  let ?c2 = "ucast (drop_bit 26 ?d2) :: u32"
  let ?d3 = "d3 + ucast ?c2"
  let ?c3 = "ucast (drop_bit 26 ?d3) :: u32"
  let ?d4 = "d4 + ucast ?c3"
  let ?c4 = "ucast (drop_bit 26 ?d4) :: u32"
  let ?h0 = "(ucast d0 AND 0x3ffffff) + ?c4 * 5 :: u32"
  have lt: "n div 2 ^ 26 < 2 ^ 32" if "n < 2 ^ 58" for n :: nat using that by simp
  have d1: "unat ?d1 = e1" "unat ?d1 < 2 ^ 58" using unat_add_up [OF assms(2), of ?c0] unat_carry [of d0] assms(1,2) lt [of "unat d0"] by (simp_all add: e1_def)
  have d2: "unat ?d2 = e2" "unat ?d2 < 2 ^ 58" using unat_add_up [OF assms(3), of ?c1] unat_carry [OF d1(2)] d1 assms(3) lt [OF d1(2)] by (simp_all add: e2_def)
  have d3: "unat ?d3 = e3" "unat ?d3 < 2 ^ 58" using unat_add_up [OF assms(4), of ?c2] unat_carry [OF d2(2)] d2 assms(4) lt [OF d2(2)] by (simp_all add: e3_def)
  have d4: "unat ?d4 = e4" "unat ?d4 \<le> 5 * ((2 ^ 27 + 2 ^ 7) * 2 ^ 26) + 2 ^ 32" using unat_add_up [of d4 ?c3] unat_carry [OF d3(2)] d3 assms(5) lt [OF d3(2)] by (simp_all add: e4_def)
  have c4: "unat ?c4 = e4 div 2 ^ 26" "e4 div 2 ^ 26 \<le> 671089344"
    using unat_carry [of ?d4] d4 div_le_mono [of e4 "5 * ((2 ^ 27 + 2 ^ 7) * 2 ^ 26) + 2 ^ 32" "2 ^ 26"] by simp_all
  have "unat (?c4 * 5) = e4 div 2 ^ 26 * 5" using c4 unat_mult_lem [of ?c4 5] by simp
  moreover have m: "unat d0 mod 2 ^ 26 < 2 ^ 26" "e1 mod 2 ^ 26 < 2 ^ 26" by simp_all
  have lin1: "a + b * 5 < 52 * 2 ^ 26" if "b \<le> 671089344" "a < 2 ^ 26" for a b :: nat using that by simp
  have xb: "x < 52 * 2 ^ 26" unfolding x_def by (rule lin1 [OF c4(2) m(1)])
  ultimately have h0: "unat ?h0 = x"
    using unat_low [of d0] by (subst unat_add) (simp_all add: x_def)
  have x: "x div 2 ^ 26 < 52" using xb by (simp add: less_mult_imp_div_less)
  have s: "e1 mod 2 ^ 26 + x div 2 ^ 26 < 2 ^ 26 + 52" by (rule add_strict_mono [OF m(2) x])
  have h1: "unat ((ucast ?d1 AND 0x3ffffff) + drop_bit 26 ?h0 :: u32) = e1 mod 2 ^ 26 + x div 2 ^ 26"
    using s unat_low [of ?d1] h0 d1(1) by (subst unat_add) (simp_all add: unat_drop_bit)
  have c: "poly1305_carry (d0, d1, d2, d3, d4) =
    (?h0 AND 0x3ffffff, (ucast ?d1 AND 0x3ffffff) + drop_bit 26 ?h0, ucast ?d2 AND 0x3ffffff, ucast ?d3 AND 0x3ffffff, ucast ?d4 AND 0x3ffffff)"
    by (simp only: poly1305_carry_def Let_def prod.case)
  note us = unat_mask26 [of ?h0] h0 h1 unat_low [of ?d2] unat_low [of ?d3] unat_low [of ?d4] d2(1) d3(1) d4(1)
  show "limbs_ok (poly1305_carry (d0, d1, d2, d3, d4))"
    using s unfolding c limbs_ok_def prod.case us by simp
  show "limbs_val (poly1305_carry (d0, d1, d2, d3, d4)) mod P1305
      = (unat d0 + 2 ^ 26 * unat d1 + 2 ^ 52 * unat d2 + 2 ^ 78 * unat d3 + 2 ^ 104 * unat d4) mod P1305"
    unfolding carry_identity [of "unat d0" "unat d1" "unat d2" "unat d3" "unat d4", folded e1_def, folded e2_def, folded e3_def, folded e4_def, folded x_def]
      c limbs_val_def prod.case us by (simp only: mod_mult_self2)
qed

section \<open>All blocks\<close>

declare poly1305_loop.simps [simp del] poly1305_eval.simps [simp del]

lemma U8TO32_take: "k + 4 \<le> 16 \<Longrightarrow> 16 \<le> length m \<Longrightarrow> U8TO32 (drop k m) = U8TO32 (drop k (take 16 m))"
  by (simp add: U8TO32_def)

lemma add_nat:
  assumes "limbs_ok h" "16 \<le> length m" "unat hibit = 0 \<or> unat hibit = 2 ^ 24"
  shows "limbs_below (2 ^ 27 + 2 ^ 7) (poly1305_add hibit m h)"
    and "limbs_val (poly1305_add hibit m h) = limbs_val h + (le_nat (take 16 m) + 2 ^ 104 * unat hibit)"
proof -
  define n where "n = take 16 m"
  define V where "V = le_nat n"
  have l: "length n = 16" using assms(2) by (simp add: n_def)
  note lim = block_limbs [OF l, folded V_def]
  have t: "U8TO32 m = U8TO32 n" "U8TO32 (drop 3 m) = U8TO32 (drop 3 n)" "U8TO32 (drop 6 m) = U8TO32 (drop 6 n)" "U8TO32 (drop 9 m) = U8TO32 (drop 9 n)"
    "U8TO32 (drop 12 m) = U8TO32 (drop 12 n)"
    using U8TO32_take [of 0 m] U8TO32_take [of 3 m] U8TO32_take [of 6 m] U8TO32_take [of 9 m] U8TO32_take [of 12 m] assms(2) by (simp_all add: n_def)
  obtain h0 h1 h2 h3 h4 where h: "h = (h0, h1, h2, h3, h4)" by (metis prod_cases5)
  have hb: "unat h0 < 2 ^ 26" "unat h1 < 2 ^ 26 + 2 ^ 7" "unat h2 < 2 ^ 26" "unat h3 < 2 ^ 26" "unat h4 < 2 ^ 26"
    using assms(1) by (simp_all add: h limbs_ok_def)
  have top: "V div 2 ^ 104 < 2 ^ 24" using le_nat_bound [of n] l by (simp add: V_def less_mult_imp_div_less)
  have or: "unat (drop_bit 8 (U8TO32 (drop 12 n)) OR hibit) = V div 2 ^ 104 + unat hibit"
    using assms(3) or_shift_nat [OF top, of 1] by (auto simp: unsigned_or_eq lim(5))
  have limb: "unat (x + (y AND 0x3ffffff)) = unat x + Y" "unat x + Y < 2 ^ 27 + 2 ^ 7"
    if "unat x < 2 ^ 26 + 2 ^ 7" "unat y mod 2 ^ 26 = Y" for x y :: u32 and Y
  proof -
    have "Y < 2 ^ 26" using that(2) by auto
    then show "unat x + Y < 2 ^ 27 + 2 ^ 7" using that(1) by simp
    then show "unat (x + (y AND 0x3ffffff)) = unat x + Y" using that(2) by (subst unat_add) (simp_all only: unat_mask26, simp)
  qed
  have hb': "unat h0 < 2 ^ 26 + 2 ^ 7" "unat h2 < 2 ^ 26 + 2 ^ 7" "unat h3 < 2 ^ 26 + 2 ^ 7" using hb by simp_all
  have h4: "unat (h4 + (drop_bit 8 (U8TO32 (drop 12 n)) OR hibit)) = unat h4 + (V div 2 ^ 104 + unat hibit)" "unat h4 + (V div 2 ^ 104 + unat hibit) < 2 ^ 27 + 2 ^ 7"
  proof -
    have "a + (b + c) < 2 ^ 27 + 2 ^ 7" if "a < 2 ^ 26" "b < 2 ^ 24" "c = 0 \<or> c = 2 ^ 24" for a b c :: nat using that by auto
    then show lt: "unat h4 + (V div 2 ^ 104 + unat hibit) < 2 ^ 27 + 2 ^ 7" using hb(5) top assms(3) by blast
    then show "unat (h4 + (drop_bit 8 (U8TO32 (drop 12 n)) OR hibit)) = unat h4 + (V div 2 ^ 104 + unat hibit)"
      by (subst unat_add) (simp_all only: or, simp)
  qed
  note sums = limb(1) [OF hb'(1) lim(1)] limb(1) [OF hb(2) lim(2)] limb(1) [OF hb'(2) lim(3)] limb(1) [OF hb'(3) lim(4)] h4(1)
  note bounds = limb(2) [OF hb'(1) lim(1)] limb(2) [OF hb(2) lim(2)] limb(2) [OF hb'(2) lim(3)] limb(2) [OF hb'(3) lim(4)] h4(2)
  show "limbs_below (2 ^ 27 + 2 ^ 7) (poly1305_add hibit m h)"
    unfolding h poly1305_add_def limbs_below_def prod.case t sums using bounds by blast
  have "limbs_val (poly1305_add hibit m h) = limbs_val h + (V + 2 ^ 104 * unat hibit)"
    unfolding h poly1305_add_def limbs_val_def prod.case t sums
    by (subst (5) limbs_value [of V, symmetric]) (simp only: distrib_left ac_simps)
  then show "limbs_val (poly1305_add hibit m h) = limbs_val h + (le_nat (take 16 m) + 2 ^ 104 * unat hibit)"
    by (simp add: V_def n_def)
qed

lemma block_step:
  assumes "limbs_ok h" "limbs_below (2 ^ 26) r" "16 \<le> length m" "unat hibit = 0 \<or> unat hibit = 2 ^ 24"
  shows "limbs_ok (poly1305_carry (poly1305_mul r (poly1305_add hibit m h)))"
    and "limbs_val (poly1305_carry (poly1305_mul r (poly1305_add hibit m h))) mod P1305
      = (limbs_val h + (le_nat (take 16 m) + 2 ^ 104 * unat hibit)) * limbs_val r mod P1305"
proof -
  obtain a0 a1 a2 a3 a4 where a: "poly1305_add hibit m h = (a0, a1, a2, a3, a4)" by (metis prod_cases5)
  obtain r0 r1 r2 r3 r4 where r: "r = (r0, r1, r2, r3, r4)" by (metis prod_cases5)
  obtain d0 d1 d2 d3 d4 where d: "poly1305_mul (r0, r1, r2, r3, r4) (a0, a1, a2, a3, a4) = (d0, d1, d2, d3, d4)" by (metis prod_cases5)
  note add = add_nat [OF assms(1,3,4), unfolded a]
  note mul = mul_nat [OF add(1) assms(2) [unfolded r] d]
  show "limbs_ok (poly1305_carry (poly1305_mul r (poly1305_add hibit m h)))"
    unfolding a r d by (rule carry_nat(2) [OF mul(2-6)])
  show "limbs_val (poly1305_carry (poly1305_mul r (poly1305_add hibit m h))) mod P1305
      = (limbs_val h + (le_nat (take 16 m) + 2 ^ 104 * unat hibit)) * limbs_val r mod P1305"
    unfolding a r d add(2) [symmetric] mul(1) by (rule carry_nat(1) [OF mul(2-6)])
qed

lemma eval_mod: "poly1305_eval r m acc mod P1305 = poly1305_eval r m (acc mod P1305) mod P1305"
proof (cases "m = []")
  case False
  have "(acc + x) * r mod P1305 = (acc mod P1305 + x) * r mod P1305" for x
    by (metis (no_types) mod_add_left_eq mod_mult_left_eq)
  then have "poly1305_eval r m acc = poly1305_eval r m (acc mod P1305)"
    using False by (subst (1 2) poly1305_eval.simps) (simp only: if_False)
  then show ?thesis by metis
qed (simp add: poly1305_eval.simps [of _ "[]"])

lemma le_nat_one: "length m = n \<Longrightarrow> le_nat (m @ [1]) = le_nat m + 256 ^ n"
  by (simp add: le_nat_append)

lemma loop_eval:
  assumes "limbs_below (2 ^ 26) r"
  shows "limbs_ok h \<Longrightarrow> length m mod 16 = 0 \<Longrightarrow> limbs_ok (poly1305_loop 0x1000000 r m h)
    \<and> limbs_val (poly1305_loop 0x1000000 r m h) mod P1305 = poly1305_eval (limbs_val r) m (limbs_val h) mod P1305"
proof (induction "length m" arbitrary: m h rule: less_induct)
  case (less m h)
  show ?case
  proof (cases "16 \<le> length m")
    case True
    define h' where "h' = poly1305_carry (poly1305_mul r (poly1305_add 0x1000000 m h))"
    have hb: "unat (0x1000000 :: u32) = 0 \<or> unat (0x1000000 :: u32) = 2 ^ 24" by simp
    note st = block_step [OF less.prems(1) assms True hb, folded h'_def]
    have m: "length (drop 16 m) mod 16 = 0" using less.prems(2) True le_mod_geq [of 16 "length m"] by simp
    have l: "le_nat (take 16 m) + 2 ^ 104 * unat (0x1000000 :: u32) = le_nat (take 16 m @ [1])"
      using True le_nat_one [of "take 16 m" 16] by simp
    have v: "limbs_val h' mod P1305 = (limbs_val h + le_nat (take 16 m @ [1])) * limbs_val r mod P1305" using st(2) unfolding l by simp
    have ih: "limbs_ok (poly1305_loop 0x1000000 r (drop 16 m) h')"
      "limbs_val (poly1305_loop 0x1000000 r (drop 16 m) h') mod P1305 = poly1305_eval (limbs_val r) (drop 16 m) (limbs_val h') mod P1305"
      using less.hyps [OF _ st(1) m] True by simp_all
    have lp: "poly1305_loop 0x1000000 r m h = poly1305_loop 0x1000000 r (drop 16 m) h'" using True by (subst poly1305_loop.simps) (simp only: h'_def if_True)
    have ev: "poly1305_eval (limbs_val r) m (limbs_val h) = poly1305_eval (limbs_val r) (drop 16 m) (limbs_val h' mod P1305)"
      using True unfolding v by (cases "m = []") (simp_all add: poly1305_eval.simps [of _ m])
    show ?thesis unfolding lp ev using ih eval_mod [of "limbs_val r" "drop 16 m" "limbs_val h'"] by metis
  next
    case False
    then have "m = []" using less.prems(2) by simp
    then show ?thesis using less.prems(1) by (simp add: poly1305_loop.simps [of _ _ "[]"] poly1305_eval.simps [of _ "[]"])
  qed
qed

section \<open>The final reduction\<close>

lemma unat_add_small: "unat a < 2 ^ 30 \<Longrightarrow> unat b < 2 ^ 30 \<Longrightarrow> unat (a + b :: u32) = unat a + unat b"
  by (rule unat_add) simp

lemma unat_drop26: "unat (drop_bit 26 (x :: u32)) = unat x div 2 ^ 26" "unat (drop_bit 26 (x :: u32)) < 2 ^ 6"
  using unat_bound [of x] by (simp_all add: unat_drop_bit less_mult_imp_div_less)

lemma reduce_nat:
  assumes "limbs_ok h"
  shows "limbs_below (2 ^ 26) (poly1305_reduce h)" and "limbs_val (poly1305_reduce h) mod P1305 = limbs_val h mod P1305"
proof -
  obtain h0 h1 h2 h3 h4 where h: "h = (h0, h1, h2, h3, h4)" by (metis prod_cases5)
  have hb: "unat h0 < 2 ^ 26" "unat h1 < 2 ^ 26 + 2 ^ 7" "unat h2 < 2 ^ 26" "unat h3 < 2 ^ 26" "unat h4 < 2 ^ 26"
    using assms by (simp_all add: h limbs_ok_def)
  define e1 where "e1 = unat h1 + unat h0 div 2 ^ 26"
  define e2 where "e2 = unat h2 + e1 div 2 ^ 26"
  define e3 where "e3 = unat h3 + e2 div 2 ^ 26"
  define e4 where "e4 = unat h4 + e3 div 2 ^ 26"
  define x where "x = unat h0 mod 2 ^ 26 + e4 div 2 ^ 26 * 5"
  let ?h2 = "h2 + drop_bit 26 h1"
  let ?h3 = "h3 + drop_bit 26 ?h2"
  let ?h4 = "h4 + drop_bit 26 ?h3"
  let ?h0 = "h0 + drop_bit 26 ?h4 * 5"
  have q: "n div 2 ^ 26 \<le> 1" if "n < 2 ^ 26 + 2 ^ 26" for n :: nat using that by simp
  have e1: "e1 = unat h1" "e1 div 2 ^ 26 \<le> 1" using hb(1,2) by (simp_all add: e1_def)
  have e2: "unat ?h2 = e2" "e2 div 2 ^ 26 \<le> 1" "e2 \<le> 2 ^ 26" using unat_add_small [of h2 "drop_bit 26 h1"] unat_drop26 [of h1] hb(3) e1 by (simp_all add: e2_def)
  have e3: "unat ?h3 = e3" "e3 div 2 ^ 26 \<le> 1" "e3 \<le> 2 ^ 26" using unat_add_small [of h3 "drop_bit 26 ?h2"] unat_drop26 [of ?h2] hb(4) e2 by (simp_all add: e3_def)
  have e4: "unat ?h4 = e4" "e4 div 2 ^ 26 \<le> 1" "e4 \<le> 2 ^ 26" using unat_add_small [of h4 "drop_bit 26 ?h3"] unat_drop26 [of ?h3] hb(5) e3 by (simp_all add: e4_def)
  have m5: "unat (drop_bit 26 ?h4 * 5) = e4 div 2 ^ 26 * 5" using unat_mul5 [of "drop_bit 26 ?h4"] unat_drop26 [of ?h4] e4(1) by simp
  have x: "unat ?h0 = x" "x div 2 ^ 26 \<le> 1" using unat_add_small [of h0 "drop_bit 26 ?h4 * 5"] m5 hb(1) e4(2) by (simp_all add: x_def)
  have low: "e1 mod 2 ^ 26 + x div 2 ^ 26 < 2 ^ 26"
  proof (cases "e1 < 2 ^ 26")
    case True
    then have "e2 < 2 ^ 26" "e3 < 2 ^ 26" "e4 < 2 ^ 26" using hb by (simp_all add: e2_def e3_def e4_def)
    then have "x div 2 ^ 26 = 0" using hb(1) by (simp add: x_def)
    then show ?thesis by simp
  next
    case False
    then have "e1 mod 2 ^ 26 < 2 ^ 7" using hb(2) e1(1) by (simp add: le_mod_geq)
    then show ?thesis using x(2) by simp
  qed
  have h1: "unat ((h1 AND 0x3ffffff) + drop_bit 26 ?h0) = e1 mod 2 ^ 26 + x div 2 ^ 26"
    using unat_add_small [of "h1 AND 0x3ffffff" "drop_bit 26 ?h0"] unat_drop26 [of ?h0] x(1) unat_mask26 [of h1] e1(1) low by simp
  have r: "poly1305_reduce h = (?h0 AND 0x3ffffff, (h1 AND 0x3ffffff) + drop_bit 26 ?h0, ?h2 AND 0x3ffffff, ?h3 AND 0x3ffffff, ?h4 AND 0x3ffffff)"
    by (simp only: h poly1305_reduce_def Let_def prod.case)
  note us = unat_mask26 [of ?h0] unat_mask26 [of ?h2] unat_mask26 [of ?h3] unat_mask26 [of ?h4] x(1) h1 e2(1) e3(1) e4(1)
  show "limbs_below (2 ^ 26) (poly1305_reduce h)" unfolding r limbs_below_def prod.case us using low by simp
  have v: "limbs_val h = x mod 2 ^ 26 + 2 ^ 26 * (e1 mod 2 ^ 26 + x div 2 ^ 26) + 2 ^ 52 * (e2 mod 2 ^ 26) + 2 ^ 78 * (e3 mod 2 ^ 26) + 2 ^ 104 * (e4 mod 2 ^ 26)
      + P1305 * (e4 div 2 ^ 26)"
    unfolding h limbs_val_def prod.case
    by (rule carry_identity [of "unat h0" "unat h1" "unat h2" "unat h3" "unat h4", folded e1_def, folded e2_def, folded e3_def, folded e4_def, folded x_def])
  show "limbs_val (poly1305_reduce h) mod P1305 = limbs_val h mod P1305"
    unfolding v unfolding r limbs_val_def prod.case us by (simp only: mod_mult_self2)
qed

lemma horner_add5:
  fixes h0 h1 h2 h3 h4 :: nat
  defines "g1 \<equiv> h1 + (h0 + 5) div 2 ^ 26"
  defines "g2 \<equiv> h2 + g1 div 2 ^ 26"
  defines "g3 \<equiv> h3 + g2 div 2 ^ 26"
  defines "g4 \<equiv> h4 + g3 div 2 ^ 26"
  shows "h0 + 2 ^ 26 * h1 + 2 ^ 52 * h2 + 2 ^ 78 * h3 + 2 ^ 104 * h4 + 5
    = (h0 + 5) mod 2 ^ 26 + 2 ^ 26 * (g1 mod 2 ^ 26) + 2 ^ 52 * (g2 mod 2 ^ 26) + 2 ^ 78 * (g3 mod 2 ^ 26) + 2 ^ 104 * g4"
proof -
  have g: "h0 + 2 ^ 26 * h1 + 2 ^ 52 * h2 + 2 ^ 78 * h3 + 2 ^ 104 * h4 + 5 = b0 + 2 ^ 26 * b1 + 2 ^ 52 * b2 + 2 ^ 78 * b3 + 2 ^ 104 * g4"
    if "h0 + 5 = b0 + 2 ^ 26 * q0" "h1 + q0 = b1 + 2 ^ 26 * q1" "h2 + q1 = b2 + 2 ^ 26 * q2" "h3 + q2 = b3 + 2 ^ 26 * q3" "h4 + q3 = g4"
    for b0 b1 b2 b3 q0 q1 q2 q3 using that by simp
  show ?thesis
    by (rule g [of _ "(h0 + 5) div 2 ^ 26" _ "g1 div 2 ^ 26" _ "g2 div 2 ^ 26" _ "g3 div 2 ^ 26"])
      (simp_all only: mod_mult_div_eq g1_def [symmetric] g2_def [symmetric] g3_def [symmetric] g4_def [symmetric])
qed


lemma limbs_val_below: "limbs_below (2 ^ 26) h \<Longrightarrow> limbs_val h < 2 ^ 130"
  by (cases h) (simp add: limbs_val_def limbs_below_def)

lemma select_nat:
  assumes "limbs_below (2 ^ 26) h"
  shows "limbs_below (2 ^ 26) (poly1305_select h)" and "limbs_val (poly1305_select h) = limbs_val h mod P1305"
proof -
  obtain h0 h1 h2 h3 h4 where h: "h = (h0, h1, h2, h3, h4)" by (metis prod_cases5)
  have hb: "unat h0 < 2 ^ 26" "unat h1 < 2 ^ 26" "unat h2 < 2 ^ 26" "unat h3 < 2 ^ 26" "unat h4 < 2 ^ 26"
    using assms by (simp_all add: h limbs_below_def)
  define g1 where "g1 = unat h1 + (unat h0 + 5) div 2 ^ 26"
  define g2 where "g2 = unat h2 + g1 div 2 ^ 26"
  define g3 where "g3 = unat h3 + g2 div 2 ^ 26"
  define g4 where "g4 = unat h4 + g3 div 2 ^ 26"
  let ?g0 = "h0 + 5"
  let ?g1 = "h1 + drop_bit 26 ?g0"
  let ?g2 = "h2 + drop_bit 26 ?g1"
  let ?g3 = "h3 + drop_bit 26 ?g2"
  let ?g4 = "h4 + drop_bit 26 ?g3 - 0x4000000"
  have e0: "unat ?g0 = unat h0 + 5" "(unat h0 + 5) div 2 ^ 26 \<le> 1" using unat_add_small [of h0 5] hb(1) by simp_all
  have e1: "unat ?g1 = g1" "g1 div 2 ^ 26 \<le> 1" using unat_add_small [of h1 "drop_bit 26 ?g0"] unat_drop26 [of ?g0] hb(2) e0 by (simp_all add: g1_def)
  have e2: "unat ?g2 = g2" "g2 div 2 ^ 26 \<le> 1" using unat_add_small [of h2 "drop_bit 26 ?g1"] unat_drop26 [of ?g1] hb(3) e1 by (simp_all add: g2_def)
  have e3: "unat ?g3 = g3" "g3 div 2 ^ 26 \<le> 1" using unat_add_small [of h3 "drop_bit 26 ?g2"] unat_drop26 [of ?g2] hb(4) e2 by (simp_all add: g3_def)
  have e4: "unat (h4 + drop_bit 26 ?g3) = g4" "g4 \<le> 2 ^ 26" using unat_add_small [of h4 "drop_bit 26 ?g3"] unat_drop26 [of ?g3] hb(5) e3 by (simp_all add: g4_def)
  have v: "limbs_val h + 5 = (unat h0 + 5) mod 2 ^ 26 + 2 ^ 26 * (g1 mod 2 ^ 26) + 2 ^ 52 * (g2 mod 2 ^ 26) + 2 ^ 78 * (g3 mod 2 ^ 26) + 2 ^ 104 * g4"
    unfolding h limbs_val_def prod.case
    by (rule horner_add5 [of "unat h0" "unat h1" "unat h2" "unat h3" "unat h4", folded g1_def, folded g2_def, folded g3_def, folded g4_def])
  have small: "(unat h0 + 5) mod 2 ^ 26 + 2 ^ 26 * (g1 mod 2 ^ 26) + 2 ^ 52 * (g2 mod 2 ^ 26) + 2 ^ 78 * (g3 mod 2 ^ 26) + 2 ^ 104 * k < 2 ^ 130" if "k < 2 ^ 26" for k
  proof -
    have "a + 2 ^ 26 * b + 2 ^ 52 * c + 2 ^ 78 * d + 2 ^ 104 * k < 2 ^ 130" if "a < 2 ^ 26" "b < 2 ^ 26" "c < 2 ^ 26" "d < 2 ^ 26" "k < 2 ^ 26" for a b c d k :: nat
      using that by simp
    then show ?thesis using that by (metis mod_less_divisor zero_less_numeral zero_less_power)
  qed
  have "limbs_below (2 ^ 26) (poly1305_select h) \<and> limbs_val (poly1305_select h) = limbs_val h mod P1305"
  proof (cases "g4 < 2 ^ 26")
    case True
    have w: "?g4 = h4 + drop_bit 26 ?g3 + 0xfc000000" by simp
    have "unat ?g4 = g4 + 0xfc000000" using True e4(1) unat_add [of "h4 + drop_bit 26 ?g3" "0xfc000000"] unfolding w by simp
    then have "unat (drop_bit 31 ?g4) = 1" using True unfolding unat_drop_bit by simp
    then have "drop_bit 31 ?g4 = 1" by (metis unat_1 word_unat_eq_iff)
    then have s: "poly1305_select h = h" by (simp only: h poly1305_select_def Let_def prod.case) simp
    have "limbs_val h < P1305" using small [OF True] v by linarith
    then show ?thesis using s assms by simp
  next
    case False
    then have g: "g4 = 2 ^ 26" using e4(2) by simp
    then have "h4 + drop_bit 26 ?g3 = 0x4000000" using e4(1) by (simp add: word_unat_eq_iff)
    then have "?g4 = 0" by simp
    then have s: "poly1305_select h = (?g0 AND 0x3ffffff, ?g1 AND 0x3ffffff, ?g2 AND 0x3ffffff, ?g3 AND 0x3ffffff, 0)"
      by (simp only: h poly1305_select_def Let_def prod.case) simp
    have val: "limbs_val (poly1305_select h) = (unat h0 + 5) mod 2 ^ 26 + 2 ^ 26 * (g1 mod 2 ^ 26) + 2 ^ 52 * (g2 mod 2 ^ 26) + 2 ^ 78 * (g3 mod 2 ^ 26)"
      unfolding s limbs_val_def prod.case unat_mask26 e0(1) e1(1) e2(1) e3(1) by simp
    have "limbs_val h = limbs_val (poly1305_select h) + P1305" using v unfolding val g by simp
    moreover have "limbs_val (poly1305_select h) < P1305" using small [of 0] unfolding val by simp
    moreover have "limbs_below (2 ^ 26) (poly1305_select h)"
      unfolding s limbs_below_def prod.case unat_mask26 by simp
    ultimately show ?thesis by simp
  qed
  then show "limbs_below (2 ^ 26) (poly1305_select h)" "limbs_val (poly1305_select h) = limbs_val h mod P1305" by blast+
qed

section \<open>The tag and the key\<close>

lemma or_push:
  assumes "unat a < 2 ^ k" "k \<le> 32"
  shows "unat (a OR push_bit k b :: u32) = unat a + 2 ^ k * (unat b mod 2 ^ (32 - k))"
proof -
  have "unat (push_bit k b) = 2 ^ k * unat b mod 2 ^ 32"
    unfolding unsigned_push_bit_eq by (simp add: push_bit_eq_mult take_bit_eq_mod mult.commute)
  also have "\<dots> = 2 ^ k * (unat b mod 2 ^ (32 - k))"
    using assms(2) mult_mod_right [of "2 ^ k" "unat b" "2 ^ (32 - k)"] by (simp add: power_add [symmetric])
  finally have "unat (push_bit k b) = 2 ^ k * (unat b mod 2 ^ (32 - k))" .
  then show ?thesis unfolding unsigned_or_eq using or_shift_nat [OF assms(1), of "unat b mod 2 ^ (32 - k)"] by simp
qed

lemma mask32: "(x :: u32) AND 0xffffffff = x"
proof -
  have "(0xffffffff :: u32) = - 1" by simp
  then show ?thesis by (metis and.right_neutral)
qed

lemma pack_nat:
  assumes "limbs_below (2 ^ 26) h"
  shows "words_val (poly1305_pack h) = limbs_val h mod 2 ^ 128"
proof -
  obtain h0 h1 h2 h3 h4 where h: "h = (h0, h1, h2, h3, h4)" by (metis prod_cases5)
  have hb: "unat h0 < 2 ^ 26" "unat h1 < 2 ^ 26" "unat h2 < 2 ^ 26" "unat h3 < 2 ^ 26" "unat h4 < 2 ^ 26"
    using assms by (simp_all add: h limbs_below_def)
  have d: "unat (drop_bit 6 h1) < 2 ^ 20" "unat (drop_bit 12 h2) < 2 ^ 14" "unat (drop_bit 18 h3) < 2 ^ 8"
    using hb by (simp_all add: unat_drop_bit less_mult_imp_div_less)
  have w: "unat (h0 OR push_bit 26 h1) = unat h0 + 2 ^ 26 * (unat h1 mod 2 ^ 6)" "unat (drop_bit 6 h1 OR push_bit 20 h2) = unat (drop_bit 6 h1) + 2 ^ 20 * (unat h2 mod 2 ^ 12)"
    "unat (drop_bit 12 h2 OR push_bit 14 h3) = unat (drop_bit 12 h2) + 2 ^ 14 * (unat h3 mod 2 ^ 18)"
    "unat (drop_bit 18 h3 OR push_bit 8 h4) = unat (drop_bit 18 h3) + 2 ^ 8 * (unat h4 mod 2 ^ 24)"
    using or_push [OF hb(1), of h1] or_push [OF d(1), of h2] or_push [OF d(2), of h3] or_push [OF d(3), of h4] by simp_all
  have id: "h0 + 2 ^ 26 * b1 + 2 ^ 32 * (q1 + 2 ^ 20 * b2) + 2 ^ 64 * (q2 + 2 ^ 14 * b3) + 2 ^ 96 * (q3 + 2 ^ 8 * b4) + 2 ^ 128 * q4
      = h0 + 2 ^ 26 * h1 + 2 ^ 52 * h2 + 2 ^ 78 * h3 + 2 ^ 104 * h4"
    if "h1 = b1 + 2 ^ 6 * q1" "h2 = b2 + 2 ^ 12 * q2" "h3 = b3 + 2 ^ 18 * q3" "h4 = b4 + 2 ^ 24 * q4" for h0 h1 h2 h3 h4 b1 q1 b2 q2 b3 q3 b4 q4 :: nat
    using that by simp
  have "words_val (poly1305_pack h) + 2 ^ 128 * (unat h4 div 2 ^ 24) = limbs_val h"
    unfolding h poly1305_pack_def words_val_def limbs_val_def prod.case mask32
      w unat_drop_bit by (rule id) (simp_all only: mod_mult_div_eq)
  moreover have "words_val ws < 2 ^ 128" for ws
  proof (cases ws)
    case (fields a b c d)
    then show ?thesis using unat_bound [of a] unat_bound [of b] unat_bound [of c] unat_bound [of d] by (simp add: words_val_def)
  qed
  ultimately show ?thesis by (metis mod_less mod_mult_self2)
qed

lemma le_nat_U32TO8: "le_nat (U32TO8 v) = unat v"
proof -
  have b: "unat (ucast (x AND 0xff) :: u8) = unat x mod 256" for x :: u32
    by (simp add: unat_ucast_mod and_255 unat_take_bit)
  have "le_nat (U32TO8 v) = unat v mod 256 + 256 * (unat v div 256 mod 256 + 256 * (unat v div 65536 mod 256 + 256 * (unat v div 16777216 mod 256)))"
    by (simp only: U32TO8_def le_nat.simps b unat_drop_bit) simp
  moreover have "unat v div 16777216 < 256" using unat_bound [of v] by (simp add: less_mult_imp_div_less)
  moreover have "n = n mod 256 + 256 * (n div 256)" for n :: nat by simp
  from this [of "unat v"] this [of "unat v div 256"] this [of "unat v div 65536"] this [of "unat v div 16777216"]
  have "unat v = unat v mod 256 + 256 * (unat v div 256)" "unat v div 256 = unat v div 256 mod 256 + 256 * (unat v div 65536)"
    "unat v div 65536 = unat v div 65536 mod 256 + 256 * (unat v div 16777216)" by (simp_all add: div_mult2_eq [symmetric])
  ultimately show ?thesis by (metis mod_less)
qed

lemma pad_nat:
  "le_nat (poly1305_pad ps ws) = (words_val ws + words_val ps) mod 2 ^ 128" "length (poly1305_pad ps ws) = 16"
proof -
  obtain p0 p1 p2 p3 where p: "ps = (p0, p1, p2, p3)" by (metis prod_cases4)
  obtain w0 w1 w2 w3 where w: "ws = (w0, w1, w2, w3)" by (metis prod_cases4)
  define f0 where "f0 = (ucast w0 + ucast p0 :: u64)"
  define f1 where "f1 = ucast w1 + ucast p1 + drop_bit 32 f0"
  define f2 where "f2 = ucast w2 + ucast p2 + drop_bit 32 f1"
  define f3 where "f3 = ucast w3 + ucast p3 + drop_bit 32 f2"
  have up: "unat (ucast a + ucast b + drop_bit 32 f :: u64) = unat a + unat b + unat f div 2 ^ 32" for a b :: u32 and f :: u64
  proof -
    have "unat a < 2 ^ 32" "unat b < 2 ^ 32" "unat f div 2 ^ 32 < 2 ^ 32"
      using unat_bound [of a] unat_bound [of b] unat_bound [of f] by (simp_all add: less_mult_imp_div_less)
    then show ?thesis by (simp add: unat_add unat_up unat_drop_bit)
  qed
  have f: "unat f0 = unat w0 + unat p0" "unat f1 = unat w1 + unat p1 + unat f0 div 2 ^ 32" "unat f2 = unat w2 + unat p2 + unat f1 div 2 ^ 32"
    "unat f3 = unat w3 + unat p3 + unat f2 div 2 ^ 32"
    using up [of w0 p0 0] up [of w1 p1 f0] up [of w2 p2 f1] up [of w3 p3 f2] by (simp_all add: f0_def f1_def f2_def f3_def)
  have low: "unat (ucast f :: u32) = unat f mod 2 ^ 32" for f :: u64 by (simp add: unat_ucast_mod)
  have out: "poly1305_pad ps ws = U32TO8 (ucast f0) @ U32TO8 (ucast f1) @ U32TO8 (ucast f2) @ U32TO8 (ucast f3)"
    by (simp only: p w poly1305_pad_def Let_def prod.case f0_def f1_def f2_def f3_def)
  then show "length (poly1305_pad ps ws) = 16" by (simp add: U32TO8_def)
  have l: "length (U32TO8 v) = 4" for v by (simp add: U32TO8_def)
  have val: "le_nat (poly1305_pad ps ws) = unat f0 mod 2 ^ 32 + 2 ^ 32 * (unat f1 mod 2 ^ 32) + 2 ^ 64 * (unat f2 mod 2 ^ 32) + 2 ^ 96 * (unat f3 mod 2 ^ 32)"
    by (simp add: out le_nat_append l le_nat_U32TO8 low)
  have id: "words_val ws + words_val ps = b0 + 2 ^ 32 * b1 + 2 ^ 64 * b2 + 2 ^ 96 * b3 + 2 ^ 128 * q3"
    if "unat w0 + unat p0 = b0 + 2 ^ 32 * q0" "unat w1 + unat p1 + q0 = b1 + 2 ^ 32 * q1" "unat w2 + unat p2 + q1 = b2 + 2 ^ 32 * q2" "unat w3 + unat p3 + q2 = b3 + 2 ^ 32 * q3"
    for b0 b1 b2 b3 q0 q1 q2 q3 using that by (simp add: p w words_val_def)
  have "words_val ws + words_val ps = le_nat (poly1305_pad ps ws) + 2 ^ 128 * (unat f3 div 2 ^ 32)"
    unfolding val by (rule id [of _ "unat f0 div 2 ^ 32" _ "unat f1 div 2 ^ 32" _ "unat f2 div 2 ^ 32"]) (simp_all only: f [symmetric] mod_mult_div_eq)
  moreover have "le_nat (poly1305_pad ps ws) < 2 ^ 128" using le_nat_bound [of "poly1305_pad ps ws"] \<open>length (poly1305_pad ps ws) = 16\<close> by simp
  ultimately show "le_nat (poly1305_pad ps ws) = (words_val ws + words_val ps) mod 2 ^ 128" by simp
qed

lemma pad_key:
  assumes "length key = 32"
  shows "words_val (p_pad (poly1305_init buf key)) = le_nat (take 16 (drop 16 key))"
proof -
  have "unat (U8TO32 (drop k key)) = le_nat (take 4 (drop k key))" if "k \<le> 28" for k
    using U8TO32_nat [of "drop k key"] assms that by (simp add: le_nat_take)
  moreover have "take 16 (drop 16 key) = take 4 (drop 16 key) @ take 4 (drop 20 key) @ take 4 (drop 24 key) @ take 4 (drop 28 key)"
    by (simp add: take_add [of 4 12, simplified] take_add [of 4 8, simplified] take_add [of 4 4, simplified] drop_drop)
  then have "le_nat (take 16 (drop 16 key)) = le_nat (take 4 (drop 16 key)) + 2 ^ 32 * le_nat (take 4 (drop 20 key))
      + 2 ^ 64 * le_nat (take 4 (drop 24 key)) + 2 ^ 96 * le_nat (take 4 (drop 28 key))"
    using assms by (simp only: le_nat_append length_take length_drop) simp
  ultimately show ?thesis by (simp add: words_val_def poly1305_init_def)
qed

lemma and_split: "c0 < 2 ^ n \<Longrightarrow> (V :: nat) AND (c0 + 2 ^ n * c) = (V mod 2 ^ n AND c0) + 2 ^ n * (V div 2 ^ n AND c)"
proof -
  assume c0: "c0 < 2 ^ n"
  have t: "take_bit n (c0 + 2 ^ n * c) = c0" "drop_bit n (c0 + 2 ^ n * c) = c" using c0 by (simp_all add: take_bit_eq_mod drop_bit_eq_div)
  have "x = take_bit n x + 2 ^ n * drop_bit n x" for x :: nat by (simp add: take_bit_eq_mod drop_bit_eq_div)
  from this [of "V AND (c0 + 2 ^ n * c)"] show ?thesis
    unfolding take_bit_and drop_bit_and t unfolding take_bit_eq_mod drop_bit_eq_div .
qed

lemma and_split5:
  assumes "c0 < 2 ^ 26" "c1 < 2 ^ 26" "c2 < 2 ^ 26" "c3 < 2 ^ 26"
  shows "(V :: nat) AND (c0 + 2 ^ 26 * (c1 + 2 ^ 26 * (c2 + 2 ^ 26 * (c3 + 2 ^ 26 * c4)))) =
    (V mod 2 ^ 26 AND c0) + 2 ^ 26 * ((V div 2 ^ 26 mod 2 ^ 26 AND c1) + 2 ^ 26 * ((V div 2 ^ 52 mod 2 ^ 26 AND c2) + 2 ^ 26 * ((V div 2 ^ 78 mod 2 ^ 26 AND c3)
      + 2 ^ 26 * (V div 2 ^ 104 AND c4))))"
proof -
  have "V div 2 ^ k div 2 ^ 26 = V div 2 ^ (k + 26)" for k by (simp add: div_mult2_eq [symmetric] power_add)
  from this [of 26] this [of 52] this [of 78] show ?thesis
    unfolding and_split [OF assms(1)] and_split [OF assms(2)] and_split [OF assms(3)] and_split [OF assms(4)] by simp
qed

lemma clamp_nat:
  assumes "length key = 32"
  shows "limbs_val (p_r (poly1305_init buf key)) = poly1305_r key" "limbs_below (2 ^ 26) (p_r (poly1305_init buf key))"
proof -
  define n where "n = take 16 key"
  define V where "V = le_nat n"
  have l: "length n = 16" using assms by (simp add: n_def)
  note lim = block_limbs [OF l, folded V_def]
  have t: "U8TO32 key = U8TO32 n" "U8TO32 (drop 3 key) = U8TO32 (drop 3 n)" "U8TO32 (drop 6 key) = U8TO32 (drop 6 n)" "U8TO32 (drop 9 key) = U8TO32 (drop 9 n)"
    "U8TO32 (drop 12 key) = U8TO32 (drop 12 n)"
    using U8TO32_take [of 0 key] U8TO32_take [of 3 key] U8TO32_take [of 6 key] U8TO32_take [of 9 key] U8TO32_take [of 12 key] assms by (simp_all add: n_def)
  have m: "unat (x AND y) = unat x mod 2 ^ 26 AND unat y" if "unat y < 2 ^ 26" for x y :: u32
  proof -
    have "take_bit 26 (unat y) = unat y" using that by (simp add: take_bit_nat_eq_self)
    then have "unat x AND unat y = unat x AND take_bit 26 (unat y)" by simp
    also have "\<dots> = take_bit 26 (unat x) AND unat y" by (rule bit_eqI) (auto simp: bit_simps)
    finally show ?thesis unfolding unsigned_and_eq take_bit_eq_mod .
  qed
  have b: "unat (x AND y) < 2 ^ 26" if "unat y < 2 ^ 26" for x y :: u32
  proof -
    have "take_bit 26 (unat x mod 2 ^ 26 AND unat y) = (unat x mod 2 ^ 26 AND unat y)"
      unfolding take_bit_eq_mod [of 26 "unat x", symmetric] by (rule bit_eqI) (auto simp: bit_simps)
    then show ?thesis unfolding m [OF that] using take_bit_nat_less_exp [of 26 "unat x mod 2 ^ 26 AND unat y"] by simp
  qed
  show "limbs_below (2 ^ 26) (p_r (poly1305_init buf key))"
    unfolding poly1305_init_def limbs_below_def poly1305_state.simps prod.case by (intro conjI b) simp_all
  have horner4: "a + 2 ^ 26 * (b + 2 ^ 26 * (c + 2 ^ 26 * (d + 2 ^ 26 * e))) = a + 2 ^ 26 * b + 2 ^ 52 * c + 2 ^ 78 * d + 2 ^ 104 * e" for a b c d e :: nat by simp
  have c: "(0x0ffffffc0ffffffc0ffffffc0fffffff :: nat) = 0x3ffffff + 2 ^ 26 * (0x3ffff03 + 2 ^ 26 * (0x3ffc0ff + 2 ^ 26 * (0x3f03fff + 2 ^ 26 * 0x00fffff)))" by simp
  have "poly1305_r key = (V mod 2 ^ 26 AND 0x3ffffff) + 2 ^ 26 * ((V div 2 ^ 26 mod 2 ^ 26 AND 0x3ffff03) + 2 ^ 26 * ((V div 2 ^ 52 mod 2 ^ 26 AND 0x3ffc0ff)
      + 2 ^ 26 * ((V div 2 ^ 78 mod 2 ^ 26 AND 0x3f03fff) + 2 ^ 26 * (V div 2 ^ 104 AND 0x00fffff))))"
    unfolding poly1305_r_def n_def [symmetric] V_def [symmetric] c
    by (rule and_split5) simp_all
  moreover have "unat (U8TO32 n AND 0x3ffffff) = (V mod 2 ^ 26 AND 0x3ffffff)" using m [of "0x3ffffff" "U8TO32 n", unfolded lim] by simp
  moreover have "unat (drop_bit 2 (U8TO32 (drop 3 n)) AND 0x3ffff03) = (V div 2 ^ 26 mod 2 ^ 26 AND 0x3ffff03)"
    using m [of "0x3ffff03" "drop_bit 2 (U8TO32 (drop 3 n))", unfolded lim] by simp
  moreover have "unat (drop_bit 4 (U8TO32 (drop 6 n)) AND 0x3ffc0ff) = (V div 2 ^ 52 mod 2 ^ 26 AND 0x3ffc0ff)"
    using m [of "0x3ffc0ff" "drop_bit 4 (U8TO32 (drop 6 n))", unfolded lim] by simp
  moreover have "unat (drop_bit 6 (U8TO32 (drop 9 n)) AND 0x3f03fff) = (V div 2 ^ 78 mod 2 ^ 26 AND 0x3f03fff)"
    using m [of "0x3f03fff" "drop_bit 6 (U8TO32 (drop 9 n))", unfolded lim] by simp
  moreover have "unat (drop_bit 8 (U8TO32 (drop 12 n)) AND 0x00fffff) = (V div 2 ^ 104 AND 0x00fffff)"
    using unsigned_and_eq [of "drop_bit 8 (U8TO32 (drop 12 n))" "0x00fffff", where ?'a = nat, unfolded lim] by simp
  ultimately show "limbs_val (p_r (poly1305_init buf key)) = poly1305_r key"
    by (simp only: poly1305_init_def poly1305_state.simps t limbs_val_def prod.case) (simp only: horner4)
qed

section \<open>The whole authenticator\<close>

lemma eval_append:
  "length a mod 16 = 0 \<Longrightarrow> poly1305_eval r (a @ b) acc = poly1305_eval r b (poly1305_eval r a acc)"
proof (induction "length a" arbitrary: a acc rule: less_induct)
  case (less a)
  show ?case
  proof (cases "a = []")
    case False
    then have l: "16 \<le> length a" using less.prems by (cases "length a < 16") auto
    then have "length (drop 16 a) mod 16 = 0" "length (drop 16 a) < length a" using less.prems le_mod_geq [of 16 "length a"] by simp_all
    then have "poly1305_eval r (drop 16 a @ b) x = poly1305_eval r b (poly1305_eval r (drop 16 a) x)" for x
      using less.hyps [of "drop 16 a"] by simp
    then show ?thesis using l False by (simp add: poly1305_eval.simps [of r "a @ b"] poly1305_eval.simps [of r a])
  qed (simp add: poly1305_eval.simps [of r "[]"])
qed

lemma eval_bound: "acc < P1305 \<Longrightarrow> poly1305_eval r m acc < P1305"
proof (induction r m acc rule: poly1305_eval.induct)
  case (1 r m acc)
  then show ?case by (subst poly1305_eval.simps) (cases "m = []", simp_all)
qed

lemma eval_short: "0 < length m \<Longrightarrow> length m \<le> 16 \<Longrightarrow> poly1305_eval r m acc = (acc + le_nat (m @ [1])) * r mod P1305"
  by (cases "m = []") (simp_all add: poly1305_eval.simps [of r m] poly1305_eval.simps [of r "[]"])

lemma le_nat_zeros: "le_nat (replicate n 0) = 0"
  by (induction n) simp_all

lemma finish_last:
  "poly1305_finish st = poly1305_pad (p_pad st) (poly1305_pack (poly1305_select (poly1305_reduce (poly1305_last st))))"
  by (simp add: poly1305_finish_def poly1305_last_def poly1305_blocks_def Let_def)

lemma update_state:
  fixes m :: bytes
  assumes "p_leftover st = 0" "\<not> p_final st" "length (p_buffer st) = 16"
  defines "w \<equiv> length m - length m mod 16"
  shows "p_h (poly1305_update m st) = poly1305_loop 0x1000000 (p_r st) (take w m) (p_h st)"
    "p_r (poly1305_update m st) = p_r st" "p_pad (poly1305_update m st) = p_pad st"
    "p_leftover (poly1305_update m st) = length (drop w m)"
    "take (length (drop w m)) (p_buffer (poly1305_update m st)) = drop w m"
proof -
  have w0: "w = 0" if "length m < 16" using that by (simp add: w_def)
  have nil: "poly1305_loop hb r [] h = h" for hb r h by (simp add: poly1305_loop.simps)
  show "p_h (poly1305_update m st) = poly1305_loop 0x1000000 (p_r st) (take w m) (p_h st)"
    "p_r (poly1305_update m st) = p_r st" "p_pad (poly1305_update m st) = p_pad st"
    "p_leftover (poly1305_update m st) = length (drop w m)"
    "take (length (drop w m)) (p_buffer (poly1305_update m st)) = drop w m"
    using assms(1,2) w0 by (cases "16 \<le> length m"; cases "drop w m = []"; simp add: poly1305_update_def poly1305_blocks_def w_def [symmetric] Let_def nil)+
qed

lemma last_eval:
  fixes m :: bytes
  assumes "length key = 32" "length buf = 16"
  defines "st \<equiv> poly1305_update m (poly1305_init buf key)"
  shows "limbs_ok (poly1305_last st)" "limbs_val (poly1305_last st) mod P1305 = poly1305_eval (poly1305_r key) m 0"
proof -
  define w where "w = length m - length m mod 16"
  have i: "p_leftover (poly1305_init buf key) = 0" "\<not> p_final (poly1305_init buf key)" "length (p_buffer (poly1305_init buf key)) = 16"
    "p_h (poly1305_init buf key) = (0, 0, 0, 0, 0)"
    using assms(2) by (simp_all add: poly1305_init_def)
  note u = update_state [OF i(1-3), of m, folded st_def w_def]
  note r = clamp_nat [OF assms(1), of buf]
  have z: "limbs_ok (0, 0, 0, 0, 0)" "limbs_val (0, 0, 0, 0, 0) = 0" by (simp_all add: limbs_ok_def limbs_val_def)
  have wl: "length (take w m) mod 16 = 0" "length (drop w m) < 16" by (simp_all add: w_def minus_mod_eq_mult_div)
  have h: "limbs_ok (p_h st)" "limbs_val (p_h st) mod P1305 = poly1305_eval (poly1305_r key) (take w m) 0"
    using loop_eval [OF r(2) z(1) wl(1)] eval_bound [of 0] unfolding u(1) i(4) z(2) r(1) by simp_all
  have app: "poly1305_eval (poly1305_r key) m 0 = poly1305_eval (poly1305_r key) (drop w m) (poly1305_eval (poly1305_r key) (take w m) 0)"
    using eval_append [OF wl(1), of "poly1305_r key" "drop w m" 0] by simp
  have "limbs_ok (poly1305_last st) \<and> limbs_val (poly1305_last st) mod P1305 = poly1305_eval (poly1305_r key) m 0"
  proof (cases "drop w m = []")
    case True
    then have "p_leftover st = 0" by (simp only: u(4) list.size)
    then have "poly1305_last st = p_h st" by (simp add: poly1305_last_def)
    moreover have "poly1305_eval (poly1305_r key) m 0 = poly1305_eval (poly1305_r key) (take w m) 0"
      unfolding app True by (simp add: poly1305_eval.simps [of _ "[]"])
    ultimately show ?thesis using h by metis
  next
    case False
    define b where "b = drop w m @ [1] @ replicate (15 - length (drop w m)) 0"
    have b: "16 \<le> length b" "take 16 b = b" "drop 16 b = []" using wl(2) by (simp_all add: b_def)
    have l: "poly1305_last st = poly1305_carry (poly1305_mul (p_r st) (poly1305_add 0 b (p_h st)))"
    proof -
      have "p_leftover st \<noteq> 0" using False by (simp only: u(4) length_0_conv not_False_eq_True)
      then have "poly1305_last st = poly1305_loop 0 (p_r st) (take (p_leftover st) (p_buffer st) @ [1] @ replicate (15 - p_leftover st) 0) (p_h st)"
        unfolding poly1305_last_def by (rule if_P)
      then have "poly1305_last st = poly1305_loop 0 (p_r st) b (p_h st)" unfolding u(4) u(5) b_def .
      also have "\<dots> = poly1305_loop 0 (p_r st) (drop 16 b) (poly1305_carry (poly1305_mul (p_r st) (poly1305_add 0 b (p_h st))))"
        using b(1) by (subst poly1305_loop.simps) (simp only: if_True)
      finally show ?thesis unfolding b(3) by (subst (asm) poly1305_loop.simps) simp
    qed
    have v: "le_nat b = le_nat (drop w m @ [1])" using le_nat_append [of "drop w m @ [1]" "replicate (15 - length (drop w m)) 0"] by (simp add: b_def le_nat_zeros del: le_nat.simps)
    note s = block_step [OF h(1) r(2) b(1), of 0, unfolded b(2)]
    have "poly1305_eval (poly1305_r key) m 0 = (limbs_val (p_h st) mod P1305 + le_nat b) * poly1305_r key mod P1305"
      using False wl(2) unfolding app h(2) v by (subst eval_short) simp_all
    also have "\<dots> = (limbs_val (p_h st) + le_nat b) * poly1305_r key mod P1305" by (metis (no_types) mod_add_left_eq mod_mult_left_eq)
    finally show ?thesis using s unfolding l u(2) r(1) by simp
  qed
  then show "limbs_ok (poly1305_last st)" "limbs_val (poly1305_last st) mod P1305 = poly1305_eval (poly1305_r key) m 0" by blast+
qed

lemma le_nat_eq: "length a = length b \<Longrightarrow> le_nat a = le_nat b \<Longrightarrow> a = b"
proof (induction a b rule: list_induct2)
  case (Cons x xs y ys)
  have digits: "a + 256 * c = b + 256 * d \<Longrightarrow> a < 256 \<Longrightarrow> b < 256 \<Longrightarrow> a = b \<and> c = d" for a b c d :: nat
    by (metis add_left_cancel mod_less mod_mult_self2 mult_cancel1 zero_neq_numeral)
  have "unat x = unat y \<and> le_nat xs = le_nat ys" using digits Cons.prems unat_bound [of x] unat_bound [of y] by simp
  then show ?case using Cons.IH by (simp add: word_unat_eq_iff)
qed simp

lemma poly1305_computes:
  assumes "length key = 32" "length buf = 16"
  shows "length (poly1305_compute buf m key) = 16 \<and> le_nat (poly1305_compute buf m key) = poly1305_tag key m"
proof -
  define st where "st = poly1305_update m (poly1305_init buf key)"
  note l = last_eval [OF assms, of m, folded st_def]
  note red = reduce_nat [OF l(1)]
  note sel = select_nat [OF red(1)]
  have i: "p_leftover (poly1305_init buf key) = 0" "\<not> p_final (poly1305_init buf key)" "length (p_buffer (poly1305_init buf key)) = 16"
    using assms(2) by (simp_all add: poly1305_init_def)
  have w: "words_val (poly1305_pack (poly1305_select (poly1305_reduce (poly1305_last st)))) = poly1305_eval (poly1305_r key) m 0 mod 2 ^ 128"
    unfolding pack_nat [OF sel(1)] sel(2) red(2) l(2) ..
  have p: "words_val (p_pad st) = le_nat (take 16 (drop 16 key))" unfolding st_def update_state(3) [OF i] by (rule pad_key [OF assms(1)])
  show ?thesis
    unfolding poly1305_compute_def st_def [symmetric] finish_last pad_nat w p poly1305_tag_def by (simp add: mod_add_left_eq)
qed

lemma poly1305_buffer:
  assumes "length key = 32" "length buf = 16" "length buf' = 16"
  shows "poly1305_compute buf m key = poly1305_compute buf' m key"
  using poly1305_computes [OF assms(1,2), of m] poly1305_computes [OF assms(1,3), of m] by (intro le_nat_eq) simp_all

text \<open>C9: the authenticator computed with five 26-bit limbs, 32-bit sums, 64-bit products and delayed carries is Poly1305: the 16 bytes it returns are, read as a little-endian number,
  the polynomial of the message in the clamped key modulo \<open>2 ^ 130 - 5\<close> plus the pad modulo \<open>2 ^ 128\<close>, for every message and key and whatever the buffer held.\<close>

theorem poly1305_correct:
  assumes "length key = 32" "length buf = 16"
  shows "length (poly1305_compute buf m key) = 16 \<and> le_nat (poly1305_compute buf m key) = poly1305_tag key m"
  by (rule poly1305_computes [OF assms])

theorem poly1305_correct_witness:
  "le_nat (poly1305_compute (replicate 16 7) [1, 2, 3] (replicate 32 5)) = poly1305_tag (replicate 32 5) [1, 2, 3]"
  using poly1305_correct [of "replicate 32 5" "replicate 16 7" "[1, 2, 3]"] by simp

end
