(* ===== verification/ZT_AES.thy ===== *)
theory ZT_AES
  imports ZT_Utils
begin

text \<open>
  \<^verbatim>\<open>node/AES.hpp\<close> and \<^verbatim>\<open>node/AES.cpp\<close>, without hardware support: AES-256 with lookup tables, block encryption, decryption and key
  expansion, and that decryption inverts encryption. A block in memory is 16 bytes. The unrolled rounds are one round applied for every group of four round keys.
\<close>

unbundle bit_operations_syntax

section \<open>Tables\<close>

definition Te0 :: "u32 list" where
  "Te0 =
    [0xc66363a5, 0xf87c7c84, 0xee777799, 0xf67b7b8d, 0xfff2f20d, 0xd66b6bbd, 0xde6f6fb1, 0x91c5c554, 0x60303050, 0x02010103, 0xce6767a9, 0x562b2b7d, 0xe7fefe19, 0xb5d7d762, 0x4dababe6, 0xec76769a,
     0x8fcaca45, 0x1f82829d, 0x89c9c940, 0xfa7d7d87, 0xeffafa15, 0xb25959eb, 0x8e4747c9, 0xfbf0f00b, 0x41adadec, 0xb3d4d467, 0x5fa2a2fd, 0x45afafea, 0x239c9cbf, 0x53a4a4f7, 0xe4727296, 0x9bc0c05b,
     0x75b7b7c2, 0xe1fdfd1c, 0x3d9393ae, 0x4c26266a, 0x6c36365a, 0x7e3f3f41, 0xf5f7f702, 0x83cccc4f, 0x6834345c, 0x51a5a5f4, 0xd1e5e534, 0xf9f1f108, 0xe2717193, 0xabd8d873, 0x62313153, 0x2a15153f,
     0x0804040c, 0x95c7c752, 0x46232365, 0x9dc3c35e, 0x30181828, 0x379696a1, 0x0a05050f, 0x2f9a9ab5, 0x0e070709, 0x24121236, 0x1b80809b, 0xdfe2e23d, 0xcdebeb26, 0x4e272769, 0x7fb2b2cd, 0xea75759f,
     0x1209091b, 0x1d83839e, 0x582c2c74, 0x341a1a2e, 0x361b1b2d, 0xdc6e6eb2, 0xb45a5aee, 0x5ba0a0fb, 0xa45252f6, 0x763b3b4d, 0xb7d6d661, 0x7db3b3ce, 0x5229297b, 0xdde3e33e, 0x5e2f2f71, 0x13848497,
     0xa65353f5, 0xb9d1d168, 0x00000000, 0xc1eded2c, 0x40202060, 0xe3fcfc1f, 0x79b1b1c8, 0xb65b5bed, 0xd46a6abe, 0x8dcbcb46, 0x67bebed9, 0x7239394b, 0x944a4ade, 0x984c4cd4, 0xb05858e8, 0x85cfcf4a,
     0xbbd0d06b, 0xc5efef2a, 0x4faaaae5, 0xedfbfb16, 0x864343c5, 0x9a4d4dd7, 0x66333355, 0x11858594, 0x8a4545cf, 0xe9f9f910, 0x04020206, 0xfe7f7f81, 0xa05050f0, 0x783c3c44, 0x259f9fba, 0x4ba8a8e3,
     0xa25151f3, 0x5da3a3fe, 0x804040c0, 0x058f8f8a, 0x3f9292ad, 0x219d9dbc, 0x70383848, 0xf1f5f504, 0x63bcbcdf, 0x77b6b6c1, 0xafdada75, 0x42212163, 0x20101030, 0xe5ffff1a, 0xfdf3f30e, 0xbfd2d26d,
     0x81cdcd4c, 0x180c0c14, 0x26131335, 0xc3ecec2f, 0xbe5f5fe1, 0x359797a2, 0x884444cc, 0x2e171739, 0x93c4c457, 0x55a7a7f2, 0xfc7e7e82, 0x7a3d3d47, 0xc86464ac, 0xba5d5de7, 0x3219192b, 0xe6737395,
     0xc06060a0, 0x19818198, 0x9e4f4fd1, 0xa3dcdc7f, 0x44222266, 0x542a2a7e, 0x3b9090ab, 0x0b888883, 0x8c4646ca, 0xc7eeee29, 0x6bb8b8d3, 0x2814143c, 0xa7dede79, 0xbc5e5ee2, 0x160b0b1d, 0xaddbdb76,
     0xdbe0e03b, 0x64323256, 0x743a3a4e, 0x140a0a1e, 0x924949db, 0x0c06060a, 0x4824246c, 0xb85c5ce4, 0x9fc2c25d, 0xbdd3d36e, 0x43acacef, 0xc46262a6, 0x399191a8, 0x319595a4, 0xd3e4e437, 0xf279798b,
     0xd5e7e732, 0x8bc8c843, 0x6e373759, 0xda6d6db7, 0x018d8d8c, 0xb1d5d564, 0x9c4e4ed2, 0x49a9a9e0, 0xd86c6cb4, 0xac5656fa, 0xf3f4f407, 0xcfeaea25, 0xca6565af, 0xf47a7a8e, 0x47aeaee9, 0x10080818,
     0x6fbabad5, 0xf0787888, 0x4a25256f, 0x5c2e2e72, 0x381c1c24, 0x57a6a6f1, 0x73b4b4c7, 0x97c6c651, 0xcbe8e823, 0xa1dddd7c, 0xe874749c, 0x3e1f1f21, 0x964b4bdd, 0x61bdbddc, 0x0d8b8b86, 0x0f8a8a85,
     0xe0707090, 0x7c3e3e42, 0x71b5b5c4, 0xcc6666aa, 0x904848d8, 0x06030305, 0xf7f6f601, 0x1c0e0e12, 0xc26161a3, 0x6a35355f, 0xae5757f9, 0x69b9b9d0, 0x17868691, 0x99c1c158, 0x3a1d1d27, 0x279e9eb9,
     0xd9e1e138, 0xebf8f813, 0x2b9898b3, 0x22111133, 0xd26969bb, 0xa9d9d970, 0x078e8e89, 0x339494a7, 0x2d9b9bb6, 0x3c1e1e22, 0x15878792, 0xc9e9e920, 0x87cece49, 0xaa5555ff, 0x50282878, 0xa5dfdf7a,
     0x038c8c8f, 0x59a1a1f8, 0x09898980, 0x1a0d0d17, 0x65bfbfda, 0xd7e6e631, 0x844242c6, 0xd06868b8, 0x824141c3, 0x299999b0, 0x5a2d2d77, 0x1e0f0f11, 0x7bb0b0cb, 0xa85454fc, 0x6dbbbbd6, 0x2c16163a]"

definition Te4 :: "u32 list" where
  "Te4 =
    [0x63636363, 0x7c7c7c7c, 0x77777777, 0x7b7b7b7b, 0xf2f2f2f2, 0x6b6b6b6b, 0x6f6f6f6f, 0xc5c5c5c5, 0x30303030, 0x01010101, 0x67676767, 0x2b2b2b2b, 0xfefefefe, 0xd7d7d7d7, 0xabababab, 0x76767676,
     0xcacacaca, 0x82828282, 0xc9c9c9c9, 0x7d7d7d7d, 0xfafafafa, 0x59595959, 0x47474747, 0xf0f0f0f0, 0xadadadad, 0xd4d4d4d4, 0xa2a2a2a2, 0xafafafaf, 0x9c9c9c9c, 0xa4a4a4a4, 0x72727272, 0xc0c0c0c0,
     0xb7b7b7b7, 0xfdfdfdfd, 0x93939393, 0x26262626, 0x36363636, 0x3f3f3f3f, 0xf7f7f7f7, 0xcccccccc, 0x34343434, 0xa5a5a5a5, 0xe5e5e5e5, 0xf1f1f1f1, 0x71717171, 0xd8d8d8d8, 0x31313131, 0x15151515,
     0x04040404, 0xc7c7c7c7, 0x23232323, 0xc3c3c3c3, 0x18181818, 0x96969696, 0x05050505, 0x9a9a9a9a, 0x07070707, 0x12121212, 0x80808080, 0xe2e2e2e2, 0xebebebeb, 0x27272727, 0xb2b2b2b2, 0x75757575,
     0x09090909, 0x83838383, 0x2c2c2c2c, 0x1a1a1a1a, 0x1b1b1b1b, 0x6e6e6e6e, 0x5a5a5a5a, 0xa0a0a0a0, 0x52525252, 0x3b3b3b3b, 0xd6d6d6d6, 0xb3b3b3b3, 0x29292929, 0xe3e3e3e3, 0x2f2f2f2f, 0x84848484,
     0x53535353, 0xd1d1d1d1, 0x00000000, 0xedededed, 0x20202020, 0xfcfcfcfc, 0xb1b1b1b1, 0x5b5b5b5b, 0x6a6a6a6a, 0xcbcbcbcb, 0xbebebebe, 0x39393939, 0x4a4a4a4a, 0x4c4c4c4c, 0x58585858, 0xcfcfcfcf,
     0xd0d0d0d0, 0xefefefef, 0xaaaaaaaa, 0xfbfbfbfb, 0x43434343, 0x4d4d4d4d, 0x33333333, 0x85858585, 0x45454545, 0xf9f9f9f9, 0x02020202, 0x7f7f7f7f, 0x50505050, 0x3c3c3c3c, 0x9f9f9f9f, 0xa8a8a8a8,
     0x51515151, 0xa3a3a3a3, 0x40404040, 0x8f8f8f8f, 0x92929292, 0x9d9d9d9d, 0x38383838, 0xf5f5f5f5, 0xbcbcbcbc, 0xb6b6b6b6, 0xdadadada, 0x21212121, 0x10101010, 0xffffffff, 0xf3f3f3f3, 0xd2d2d2d2,
     0xcdcdcdcd, 0x0c0c0c0c, 0x13131313, 0xecececec, 0x5f5f5f5f, 0x97979797, 0x44444444, 0x17171717, 0xc4c4c4c4, 0xa7a7a7a7, 0x7e7e7e7e, 0x3d3d3d3d, 0x64646464, 0x5d5d5d5d, 0x19191919, 0x73737373,
     0x60606060, 0x81818181, 0x4f4f4f4f, 0xdcdcdcdc, 0x22222222, 0x2a2a2a2a, 0x90909090, 0x88888888, 0x46464646, 0xeeeeeeee, 0xb8b8b8b8, 0x14141414, 0xdededede, 0x5e5e5e5e, 0x0b0b0b0b, 0xdbdbdbdb,
     0xe0e0e0e0, 0x32323232, 0x3a3a3a3a, 0x0a0a0a0a, 0x49494949, 0x06060606, 0x24242424, 0x5c5c5c5c, 0xc2c2c2c2, 0xd3d3d3d3, 0xacacacac, 0x62626262, 0x91919191, 0x95959595, 0xe4e4e4e4, 0x79797979,
     0xe7e7e7e7, 0xc8c8c8c8, 0x37373737, 0x6d6d6d6d, 0x8d8d8d8d, 0xd5d5d5d5, 0x4e4e4e4e, 0xa9a9a9a9, 0x6c6c6c6c, 0x56565656, 0xf4f4f4f4, 0xeaeaeaea, 0x65656565, 0x7a7a7a7a, 0xaeaeaeae, 0x08080808,
     0xbabababa, 0x78787878, 0x25252525, 0x2e2e2e2e, 0x1c1c1c1c, 0xa6a6a6a6, 0xb4b4b4b4, 0xc6c6c6c6, 0xe8e8e8e8, 0xdddddddd, 0x74747474, 0x1f1f1f1f, 0x4b4b4b4b, 0xbdbdbdbd, 0x8b8b8b8b, 0x8a8a8a8a,
     0x70707070, 0x3e3e3e3e, 0xb5b5b5b5, 0x66666666, 0x48484848, 0x03030303, 0xf6f6f6f6, 0x0e0e0e0e, 0x61616161, 0x35353535, 0x57575757, 0xb9b9b9b9, 0x86868686, 0xc1c1c1c1, 0x1d1d1d1d, 0x9e9e9e9e,
     0xe1e1e1e1, 0xf8f8f8f8, 0x98989898, 0x11111111, 0x69696969, 0xd9d9d9d9, 0x8e8e8e8e, 0x94949494, 0x9b9b9b9b, 0x1e1e1e1e, 0x87878787, 0xe9e9e9e9, 0xcececece, 0x55555555, 0x28282828, 0xdfdfdfdf,
     0x8c8c8c8c, 0xa1a1a1a1, 0x89898989, 0x0d0d0d0d, 0xbfbfbfbf, 0xe6e6e6e6, 0x42424242, 0x68686868, 0x41414141, 0x99999999, 0x2d2d2d2d, 0x0f0f0f0f, 0xb0b0b0b0, 0x54545454, 0xbbbbbbbb, 0x16161616]"

definition Td0 :: "u32 list" where
  "Td0 =
    [0x51f4a750, 0x7e416553, 0x1a17a4c3, 0x3a275e96, 0x3bab6bcb, 0x1f9d45f1, 0xacfa58ab, 0x4be30393, 0x2030fa55, 0xad766df6, 0x88cc7691, 0xf5024c25, 0x4fe5d7fc, 0xc52acbd7, 0x26354480, 0xb562a38f,
     0xdeb15a49, 0x25ba1b67, 0x45ea0e98, 0x5dfec0e1, 0xc32f7502, 0x814cf012, 0x8d4697a3, 0x6bd3f9c6, 0x038f5fe7, 0x15929c95, 0xbf6d7aeb, 0x955259da, 0xd4be832d, 0x587421d3, 0x49e06929, 0x8ec9c844,
     0x75c2896a, 0xf48e7978, 0x99583e6b, 0x27b971dd, 0xbee14fb6, 0xf088ad17, 0xc920ac66, 0x7dce3ab4, 0x63df4a18, 0xe51a3182, 0x97513360, 0x62537f45, 0xb16477e0, 0xbb6bae84, 0xfe81a01c, 0xf9082b94,
     0x70486858, 0x8f45fd19, 0x94de6c87, 0x527bf8b7, 0xab73d323, 0x724b02e2, 0xe31f8f57, 0x6655ab2a, 0xb2eb2807, 0x2fb5c203, 0x86c57b9a, 0xd33708a5, 0x302887f2, 0x23bfa5b2, 0x02036aba, 0xed16825c,
     0x8acf1c2b, 0xa779b492, 0xf307f2f0, 0x4e69e2a1, 0x65daf4cd, 0x0605bed5, 0xd134621f, 0xc4a6fe8a, 0x342e539d, 0xa2f355a0, 0x058ae132, 0xa4f6eb75, 0x0b83ec39, 0x4060efaa, 0x5e719f06, 0xbd6e1051,
     0x3e218af9, 0x96dd063d, 0xdd3e05ae, 0x4de6bd46, 0x91548db5, 0x71c45d05, 0x0406d46f, 0x605015ff, 0x1998fb24, 0xd6bde997, 0x894043cc, 0x67d99e77, 0xb0e842bd, 0x07898b88, 0xe7195b38, 0x79c8eedb,
     0xa17c0a47, 0x7c420fe9, 0xf8841ec9, 0x00000000, 0x09808683, 0x322bed48, 0x1e1170ac, 0x6c5a724e, 0xfd0efffb, 0x0f853856, 0x3daed51e, 0x362d3927, 0x0a0fd964, 0x685ca621, 0x9b5b54d1, 0x24362e3a,
     0x0c0a67b1, 0x9357e70f, 0xb4ee96d2, 0x1b9b919e, 0x80c0c54f, 0x61dc20a2, 0x5a774b69, 0x1c121a16, 0xe293ba0a, 0xc0a02ae5, 0x3c22e043, 0x121b171d, 0x0e090d0b, 0xf28bc7ad, 0x2db6a8b9, 0x141ea9c8,
     0x57f11985, 0xaf75074c, 0xee99ddbb, 0xa37f60fd, 0xf701269f, 0x5c72f5bc, 0x44663bc5, 0x5bfb7e34, 0x8b432976, 0xcb23c6dc, 0xb6edfc68, 0xb8e4f163, 0xd731dcca, 0x42638510, 0x13972240, 0x84c61120,
     0x854a247d, 0xd2bb3df8, 0xaef93211, 0xc729a16d, 0x1d9e2f4b, 0xdcb230f3, 0x0d8652ec, 0x77c1e3d0, 0x2bb3166c, 0xa970b999, 0x119448fa, 0x47e96422, 0xa8fc8cc4, 0xa0f03f1a, 0x567d2cd8, 0x223390ef,
     0x87494ec7, 0xd938d1c1, 0x8ccaa2fe, 0x98d40b36, 0xa6f581cf, 0xa57ade28, 0xdab78e26, 0x3fadbfa4, 0x2c3a9de4, 0x5078920d, 0x6a5fcc9b, 0x547e4662, 0xf68d13c2, 0x90d8b8e8, 0x2e39f75e, 0x82c3aff5,
     0x9f5d80be, 0x69d0937c, 0x6fd52da9, 0xcf2512b3, 0xc8ac993b, 0x10187da7, 0xe89c636e, 0xdb3bbb7b, 0xcd267809, 0x6e5918f4, 0xec9ab701, 0x834f9aa8, 0xe6956e65, 0xaaffe67e, 0x21bccf08, 0xef15e8e6,
     0xbae79bd9, 0x4a6f36ce, 0xea9f09d4, 0x29b07cd6, 0x31a4b2af, 0x2a3f2331, 0xc6a59430, 0x35a266c0, 0x744ebc37, 0xfc82caa6, 0xe090d0b0, 0x33a7d815, 0xf104984a, 0x41ecdaf7, 0x7fcd500e, 0x1791f62f,
     0x764dd68d, 0x43efb04d, 0xccaa4d54, 0xe49604df, 0x9ed1b5e3, 0x4c6a881b, 0xc12c1fb8, 0x4665517f, 0x9d5eea04, 0x018c355d, 0xfa877473, 0xfb0b412e, 0xb3671d5a, 0x92dbd252, 0xe9105633, 0x6dd64713,
     0x9ad7618c, 0x37a10c7a, 0x59f8148e, 0xeb133c89, 0xcea927ee, 0xb761c935, 0xe11ce5ed, 0x7a47b13c, 0x9cd2df59, 0x55f2733f, 0x1814ce79, 0x73c737bf, 0x53f7cdea, 0x5ffdaa5b, 0xdf3d6f14, 0x7844db86,
     0xcaaff381, 0xb968c43e, 0x3824342c, 0xc2a3405f, 0x161dc372, 0xbce2250c, 0x283c498b, 0xff0d9541, 0x39a80171, 0x080cb3de, 0xd8b4e49c, 0x6456c190, 0x7bcb8461, 0xd532b670, 0x486c5c74, 0xd0b85742]"

definition Td4 :: "u8 list" where
  "Td4 =
    [0x52, 0x09, 0x6a, 0xd5, 0x30, 0x36, 0xa5, 0x38, 0xbf, 0x40, 0xa3, 0x9e, 0x81, 0xf3, 0xd7, 0xfb, 0x7c, 0xe3, 0x39, 0x82, 0x9b, 0x2f, 0xff, 0x87, 0x34, 0x8e, 0x43, 0x44, 0xc4, 0xde, 0xe9, 0xcb,
     0x54, 0x7b, 0x94, 0x32, 0xa6, 0xc2, 0x23, 0x3d, 0xee, 0x4c, 0x95, 0x0b, 0x42, 0xfa, 0xc3, 0x4e, 0x08, 0x2e, 0xa1, 0x66, 0x28, 0xd9, 0x24, 0xb2, 0x76, 0x5b, 0xa2, 0x49, 0x6d, 0x8b, 0xd1, 0x25,
     0x72, 0xf8, 0xf6, 0x64, 0x86, 0x68, 0x98, 0x16, 0xd4, 0xa4, 0x5c, 0xcc, 0x5d, 0x65, 0xb6, 0x92, 0x6c, 0x70, 0x48, 0x50, 0xfd, 0xed, 0xb9, 0xda, 0x5e, 0x15, 0x46, 0x57, 0xa7, 0x8d, 0x9d, 0x84,
     0x90, 0xd8, 0xab, 0x00, 0x8c, 0xbc, 0xd3, 0x0a, 0xf7, 0xe4, 0x58, 0x05, 0xb8, 0xb3, 0x45, 0x06, 0xd0, 0x2c, 0x1e, 0x8f, 0xca, 0x3f, 0x0f, 0x02, 0xc1, 0xaf, 0xbd, 0x03, 0x01, 0x13, 0x8a, 0x6b,
     0x3a, 0x91, 0x11, 0x41, 0x4f, 0x67, 0xdc, 0xea, 0x97, 0xf2, 0xcf, 0xce, 0xf0, 0xb4, 0xe6, 0x73, 0x96, 0xac, 0x74, 0x22, 0xe7, 0xad, 0x35, 0x85, 0xe2, 0xf9, 0x37, 0xe8, 0x1c, 0x75, 0xdf, 0x6e,
     0x47, 0xf1, 0x1a, 0x71, 0x1d, 0x29, 0xc5, 0x89, 0x6f, 0xb7, 0x62, 0x0e, 0xaa, 0x18, 0xbe, 0x1b, 0xfc, 0x56, 0x3e, 0x4b, 0xc6, 0xd2, 0x79, 0x20, 0x9a, 0xdb, 0xc0, 0xfe, 0x78, 0xcd, 0x5a, 0xf4,
     0x1f, 0xdd, 0xa8, 0x33, 0x88, 0x07, 0xc7, 0x31, 0xb1, 0x12, 0x10, 0x59, 0x27, 0x80, 0xec, 0x5f, 0x60, 0x51, 0x7f, 0xa9, 0x19, 0xb5, 0x4a, 0x0d, 0x2d, 0xe5, 0x7a, 0x9f, 0x93, 0xc9, 0x9c, 0xef,
     0xa0, 0xe0, 0x3b, 0x4d, 0xae, 0x2a, 0xf5, 0xb0, 0xc8, 0xeb, 0xbb, 0x3c, 0x83, 0x53, 0x99, 0x61, 0x17, 0x2b, 0x04, 0x7e, 0xba, 0x77, 0xd6, 0x26, 0xe1, 0x69, 0x14, 0x63, 0x55, 0x21, 0x0c, 0x7d]"

definition rcon :: "u32 list" where
  "rcon = [0x01000000, 0x02000000, 0x04000000, 0x08000000, 0x10000000, 0x20000000, 0x40000000, 0x80000000, 0x1b000000, 0x36000000, 0x6c000000, 0xd8000000, 0xab000000, 0x4d000000, 0x9a000000]"

section \<open>The block cipher\<close>

definition ror32 :: "u32 \<Rightarrow> nat \<Rightarrow> u32" where
  "ror32 x r = drop_bit r x OR push_bit (32 - r) x"

definition Te1_r :: "nat \<Rightarrow> u32" where "Te1_r x = ror32 (Te0 ! x) 8"
definition Te2_r :: "nat \<Rightarrow> u32" where "Te2_r x = ror32 (Te0 ! x) 16"
definition Te3_r :: "nat \<Rightarrow> u32" where "Te3_r x = ror32 (Te0 ! x) 24"
definition Td1_r :: "nat \<Rightarrow> u32" where "Td1_r x = ror32 (Td0 ! x) 8"
definition Td2_r :: "nat \<Rightarrow> u32" where "Td2_r x = ror32 (Td0 ! x) 16"
definition Td3_r :: "nat \<Rightarrow> u32" where "Td3_r x = ror32 (Td0 ! x) 24"

type_synonym aes_block = "u32 \<times> u32 \<times> u32 \<times> u32"

definition enc_col :: "u32 \<Rightarrow> u32 \<Rightarrow> u32 \<Rightarrow> u32 \<Rightarrow> u32 \<Rightarrow> u32" where
  "enc_col a b c d k = Te0 ! unat (drop_bit 24 a) XOR Te1_r (unat (drop_bit 16 b AND 0xff)) XOR Te2_r (unat (drop_bit 8 c AND 0xff))
     XOR Te3_r (unat (d AND 0xff)) XOR k"

definition enc_round :: "u32 list \<Rightarrow> nat \<Rightarrow> aes_block \<Rightarrow> aes_block" where
  "enc_round rk i = (\<lambda>(s0, s1, s2, s3).
    (enc_col s0 s1 s2 s3 (rk ! (4 * i)), enc_col s1 s2 s3 s0 (rk ! (4 * i + 1)),
     enc_col s2 s3 s0 s1 (rk ! (4 * i + 2)), enc_col s3 s0 s1 s2 (rk ! (4 * i + 3))))"

definition enc_last_col :: "u32 \<Rightarrow> u32 \<Rightarrow> u32 \<Rightarrow> u32 \<Rightarrow> u32 \<Rightarrow> u32" where
  "enc_last_col a b c d k = (Te2_r (unat (drop_bit 24 a)) AND 0xff000000) XOR (Te3_r (unat (drop_bit 16 b AND 0xff)) AND 0x00ff0000)
     XOR (Te0 ! unat (drop_bit 8 c AND 0xff) AND 0x0000ff00) XOR (Te1_r (unat (d AND 0xff)) AND 0x000000ff) XOR k"

definition enc_last :: "u32 list \<Rightarrow> aes_block \<Rightarrow> aes_block" where
  "enc_last rk = (\<lambda>(t0, t1, t2, t3).
    (enc_last_col t0 t1 t2 t3 (rk ! 56), enc_last_col t1 t2 t3 t0 (rk ! 57),
     enc_last_col t2 t3 t0 t1 (rk ! 58), enc_last_col t3 t0 t1 t2 (rk ! 59)))"

definition load_block :: "bytes \<Rightarrow> u32 list \<Rightarrow> aes_block" where
  "load_block b rk = (be_word (take 4 b) XOR rk ! 0, be_word (take 4 (drop 4 b)) XOR rk ! 1,
     be_word (take 4 (drop 8 b)) XOR rk ! 2, be_word (take 4 (drop 12 b)) XOR rk ! 3)"

definition store_block :: "aes_block \<Rightarrow> bytes" where
  "store_block = (\<lambda>(s0, s1, s2, s3). be_bytes 4 s0 @ be_bytes 4 s1 @ be_bytes 4 s2 @ be_bytes 4 s3)"

definition p_encryptSW :: "u32 list \<Rightarrow> bytes \<Rightarrow> bytes" where
  "p_encryptSW ek b = store_block (enc_last ek (fold (enc_round ek) [1..<14] (load_block b ek)))"

definition dec_col :: "u32 \<Rightarrow> u32 \<Rightarrow> u32 \<Rightarrow> u32 \<Rightarrow> u32 \<Rightarrow> u32" where
  "dec_col a b c d k = Td0 ! unat (drop_bit 24 a) XOR Td1_r (unat (drop_bit 16 b AND 0xff)) XOR Td2_r (unat (drop_bit 8 c AND 0xff))
     XOR Td3_r (unat (d AND 0xff)) XOR k"

definition dec_round :: "u32 list \<Rightarrow> nat \<Rightarrow> aes_block \<Rightarrow> aes_block" where
  "dec_round rk i = (\<lambda>(s0, s1, s2, s3).
    (dec_col s0 s3 s2 s1 (rk ! (4 * i)), dec_col s1 s0 s3 s2 (rk ! (4 * i + 1)),
     dec_col s2 s1 s0 s3 (rk ! (4 * i + 2)), dec_col s3 s2 s1 s0 (rk ! (4 * i + 3))))"

definition dec_last_col :: "u32 \<Rightarrow> u32 \<Rightarrow> u32 \<Rightarrow> u32 \<Rightarrow> u32 \<Rightarrow> u32" where
  "dec_last_col a b c d k = push_bit 24 (ucast (Td4 ! unat (drop_bit 24 a))) XOR push_bit 16 (ucast (Td4 ! unat (drop_bit 16 b AND 0xff)))
     XOR push_bit 8 (ucast (Td4 ! unat (drop_bit 8 c AND 0xff))) XOR ucast (Td4 ! unat (d AND 0xff)) XOR k"

definition dec_last :: "u32 list \<Rightarrow> aes_block \<Rightarrow> aes_block" where
  "dec_last rk = (\<lambda>(t0, t1, t2, t3).
    (dec_last_col t0 t3 t2 t1 (rk ! 56), dec_last_col t1 t0 t3 t2 (rk ! 57),
     dec_last_col t2 t1 t0 t3 (rk ! 58), dec_last_col t3 t2 t1 t0 (rk ! 59)))"

definition p_decryptSW :: "u32 list \<Rightarrow> bytes \<Rightarrow> bytes" where
  "p_decryptSW dk b = store_block (dec_last dk (fold (dec_round dk) [1..<14] (load_block b dk)))"

section \<open>Key expansion\<close>

text \<open>The two halves of a turn of the loop over the key; the list is what is expanded so far.\<close>

definition expand_rcon :: "nat \<Rightarrow> u32 list \<Rightarrow> u32 list" where
  "expand_rcon i rk =
    (let b = 8 * i; temp = rk ! (b + 7);
         r8 = rk ! b XOR (Te2_r (unat (drop_bit 16 temp AND 0xff)) AND 0xff000000) XOR (Te3_r (unat (drop_bit 8 temp AND 0xff)) AND 0x00ff0000)
           XOR (Te0 ! unat (temp AND 0xff) AND 0x0000ff00) XOR (Te1_r (unat (drop_bit 24 temp)) AND 0x000000ff) XOR rcon ! i;
         r9 = rk ! (b + 1) XOR r8; r10 = rk ! (b + 2) XOR r9; r11 = rk ! (b + 3) XOR r10 in
     rk @ [r8, r9, r10, r11])"

definition expand_sub :: "nat \<Rightarrow> u32 list \<Rightarrow> u32 list" where
  "expand_sub i rk =
    (let b = 8 * i; temp = rk ! (b + 11);
         r12 = rk ! (b + 4) XOR (Te2_r (unat (drop_bit 24 temp)) AND 0xff000000) XOR (Te3_r (unat (drop_bit 16 temp AND 0xff)) AND 0x00ff0000)
           XOR (Te0 ! unat (drop_bit 8 temp AND 0xff) AND 0x0000ff00) XOR (Te1_r (unat (temp AND 0xff)) AND 0x000000ff);
         r13 = rk ! (b + 5) XOR r12; r14 = rk ! (b + 6) XOR r13; r15 = rk ! (b + 7) XOR r14 in
     rk @ [r12, r13, r14, r15])"

text \<open>The loop, whose seventh turn ends after its first half.\<close>

definition expand_key :: "u32 list \<Rightarrow> u32 list" where
  "expand_key rk = expand_rcon 6 (fold (\<lambda>i rk. expand_sub i (expand_rcon i rk)) [0..<6] rk)"

text \<open>The round keys of decryption: the groups of four in reverse order, all but the first and the last mixed.\<close>

definition mix_key :: "u32 \<Rightarrow> u32" where
  "mix_key w = Td0 ! unat (Te4 ! unat (drop_bit 24 w) AND 0xff) XOR Td1_r (unat (Te4 ! unat (drop_bit 16 w AND 0xff) AND 0xff))
     XOR Td2_r (unat (Te4 ! unat (drop_bit 8 w AND 0xff) AND 0xff)) XOR Td3_r (unat (Te4 ! unat (w AND 0xff) AND 0xff))"

definition decrypt_keys :: "u32 list \<Rightarrow> u32 list" where
  "decrypt_keys ek =
    (let dk = map (\<lambda>k. ek ! (4 * (14 - k div 4) + k mod 4)) [0..<60] in
     take 4 dk @ map mix_key (take 52 (drop 4 dk)) @ drop 56 dk)"

record aes =
  aes_h0 :: u64
  aes_h1 :: u64
  aes_ek :: "u32 list"
  aes_dk :: "u32 list"

definition p_initSW :: "bytes \<Rightarrow> aes" where
  "p_initSW key =
    (let ek = expand_key (map (\<lambda>i. be_word (take 4 (drop (4 * i) key))) [0..<8]);
         h = p_encryptSW ek (replicate 16 0) in
     \<lparr>aes_h0 = be_word (take 8 h), aes_h1 = be_word (drop 8 h), aes_ek = ek, aes_dk = decrypt_keys ek\<rparr>)"

section \<open>Substitution and mixing\<close>

text \<open>A word that depends on a byte linearly: the sum of the words its bits stand for.\<close>

definition bits_sum :: "u32 list \<Rightarrow> u8 \<Rightarrow> u32" where
  "bits_sum cs x = foldr (\<lambda>(j, c) w. if bit x j then c XOR w else w) (zip [0..<8] cs) 0"

text \<open>The columns of the inverse of the column mixing, and of the mixing.\<close>

definition inv_col :: "u8 \<Rightarrow> u32" where
  "inv_col = bits_sum [0x0e090d0b, 0x1c121a16, 0x3824342c, 0x70486858, 0xe090d0b0, 0xdb3bbb7b, 0xad766df6, 0x41ecdaf7]"

definition mix_col :: "u8 \<Rightarrow> u32" where
  "mix_col = bits_sum [0x02010103, 0x04020206, 0x0804040c, 0x10080818, 0x20101030, 0x40202060, 0x804040c0, 0x1b80809b]"

text \<open>The substitution, the bytes of a word and the word of four bytes.\<close>

definition sbox :: "u8 \<Rightarrow> u8" where
  "sbox x = ucast (Te4 ! unat x)"

definition byte_of :: "nat \<Rightarrow> u32 \<Rightarrow> u8" where
  "byte_of k w = ucast (drop_bit k w)"

definition word_of :: "u8 \<Rightarrow> u8 \<Rightarrow> u8 \<Rightarrow> u8 \<Rightarrow> u32" where
  "word_of a b c d = push_bit 24 (ucast a) XOR push_bit 16 (ucast b) XOR push_bit 8 (ucast c) XOR ucast d"

text \<open>The byte substitution with the row shift, a round key and the mixing of the four columns, as the decryption sees them.\<close>

definition sub_shift :: "aes_block \<Rightarrow> aes_block" where
  "sub_shift = (\<lambda>(s0, s1, s2, s3).
    let w = (\<lambda>a b c d. word_of (sbox (byte_of 24 a)) (sbox (byte_of 16 b)) (sbox (byte_of 8 c)) (sbox (byte_of 0 d))) in
    (w s0 s1 s2 s3, w s1 s2 s3 s0, w s2 s3 s0 s1, w s3 s0 s1 s2))"

definition add_key :: "u32 list \<Rightarrow> nat \<Rightarrow> aes_block \<Rightarrow> aes_block" where
  "add_key rk i = (\<lambda>(s0, s1, s2, s3). (s0 XOR rk ! (4 * i), s1 XOR rk ! (4 * i + 1), s2 XOR rk ! (4 * i + 2), s3 XOR rk ! (4 * i + 3)))"

definition mix_block :: "aes_block \<Rightarrow> aes_block" where
  "mix_block = (\<lambda>(s0, s1, s2, s3). (mix_key s0, mix_key s1, mix_key s2, mix_key s3))"

section \<open>Decryption inverts encryption\<close>

lemma table_Td4: "map (\<lambda>s. Td4 ! unat (s AND 0xff)) Te4 = map of_nat [0..<256]"
  by code_simp

lemma table_Td0: "map (\<lambda>s. Td0 ! unat (s AND 0xff)) Te4 = map (\<lambda>i. inv_col (of_nat i)) [0..<256]"
  by code_simp

lemma table_Te0: "map (\<lambda>s. mix_col (ucast s)) Te4 = Te0"
  by code_simp

lemma u8_bound: "unat (x :: u8) < 256"
  using unat_bound [of x] by simp

lemma ucast_byte: "(w :: u32) AND 0xff = ucast (ucast w :: u8)"
  by (rule bit_word_eqI) (auto simp: bit_simps and_255 dest: bit_imp_le_length)

lemma unat_low_byte: "unat ((w :: u32) AND 0xff) = unat (ucast w :: u8)"
  unfolding and_255 unat_take_bit by (simp add: unsigned_ucast_eq take_bit_eq_mod)

lemma index_bytes: "unat (drop_bit 24 w) = unat (byte_of 24 w)" "unat (w AND 0xff) = unat (byte_of 0 w)"
proof -
  show "unat (w AND 0xff) = unat (byte_of 0 w)" by (simp add: byte_of_def unat_low_byte)
  have "unat w div 2 ^ 24 < 2 ^ 8" using unat_bound [of w] by (simp add: less_mult_imp_div_less)
  then show "unat (drop_bit 24 w) = unat (byte_of 24 w)"
    by (simp add: byte_of_def unsigned_ucast_eq take_bit_eq_mod unat_drop_bit)
qed

lemma byte_drop: "byte_of 0 (drop_bit k w) = byte_of k w" "byte_of 0 (Te4 ! unat x) = sbox x"
  by (simp_all add: byte_of_def sbox_def)

lemmas table_index = index_bytes byte_drop

lemma sbox_index: "unat (Te4 ! unat x AND 0xff) = unat (sbox x)"
  by (simp add: table_index)

lemma length_tables: "length Te4 = 256" "length Te0 = 256"
  by (simp_all add: Te4_def Te0_def)

lemma nth_tables:
  "Td4 ! unat (sbox x) = x" "Td0 ! unat (sbox x) = inv_col x" "Te0 ! unat x = mix_col (sbox x)"
proof -
  have l: "unat x < length Te4" using u8_bound [of x] length_tables by simp
  have "map (\<lambda>s. Td4 ! unat (s AND 0xff)) Te4 ! unat x = map of_nat [0..<256] ! unat x" unfolding table_Td4 ..
  then show "Td4 ! unat (sbox x) = x" using l u8_bound [of x] by (simp add: sbox_index)
  have "map (\<lambda>s. Td0 ! unat (s AND 0xff)) Te4 ! unat x = map (\<lambda>i. inv_col (of_nat i)) [0..<256] ! unat x" unfolding table_Td0 ..
  then show "Td0 ! unat (sbox x) = inv_col x" using l u8_bound [of x] by (simp add: sbox_index)
  have "map (\<lambda>s. mix_col (ucast s)) Te4 ! unat x = Te0 ! unat x" unfolding table_Te0 ..
  then show "Te0 ! unat x = mix_col (sbox x)" using l by (simp add: sbox_def)
qed

text \<open>Linearity.\<close>

lemma bits_sum_xor: "bits_sum cs (x XOR y) = bits_sum cs x XOR bits_sum cs y"
proof -
  have "foldr (\<lambda>(j, c) w. if bit (x XOR y) j then c XOR w else w) ps 0 =
    (foldr (\<lambda>(j, c) w. if bit x j then c XOR w else w) ps 0 XOR foldr (\<lambda>(j, c) w. if bit y j then c XOR w else w) ps 0 :: u32)" for ps
    by (induction ps) (auto simp: bit_xor_iff xor.assoc xor.left_commute)
  then show ?thesis by (simp add: bits_sum_def)
qed

lemma ror32_rotr: "r < 32 \<Longrightarrow> 0 < r \<Longrightarrow> ror32 w r = word_rotr r w"
proof (rule bit_word_eqI)
  fix n assume r: "r < 32" "0 < r" and n: "n < LENGTH(32)"
  show "bit (ror32 w r) n = bit (word_rotr r w) n"
  proof (cases "n + r < 32")
    case True
    then have "\<not> 32 - r \<le> n" "(n + r) mod 32 = n + r" by auto
    then show ?thesis using n r by (simp add: ror32_def bit_simps add.commute [of n])
  next
    case False
    then have "(n + r) mod 32 = n - (32 - r)" "\<not> bit w (r + n)" "32 - r \<le> n" using n r by (auto simp: mod_if dest: bit_imp_le_length)
    then show ?thesis using False n r by (simp add: ror32_def bit_simps)
  qed
qed

lemma ror32_xor: "r < 32 \<Longrightarrow> 0 < r \<Longrightarrow> ror32 (a XOR b) r = ror32 a r XOR ror32 b r"
  by (simp add: ror32_rotr word_rot_logs)

lemma ror32_ror32: "ror32 (ror32 w 8) 8 = ror32 w 16" "ror32 (ror32 w 16) 8 = ror32 w 24" "ror32 (ror32 w 24) 8 = w"
proof -
  have "word_rotr 32 w = w" by (rule bit_word_eqI) (simp add: bit_word_rotr_iff)
  then show "ror32 (ror32 w 24) 8 = w" by (simp add: ror32_rotr word_rotr_word_rotr_eq)
qed (simp_all add: ror32_rotr word_rotr_word_rotr_eq)

lemma byte_xor: "byte_of k (a XOR b) = byte_of k a XOR byte_of k b"
  by (rule bit_word_eqI) (simp add: byte_of_def bit_simps)

lemma byte_ror: "byte_of 24 (ror32 w 8) = byte_of 0 w" "byte_of 16 (ror32 w 8) = byte_of 24 w" "byte_of 8 (ror32 w 8) = byte_of 16 w"
    "byte_of 0 (ror32 w 8) = byte_of 8 w"
  by (rule bit_word_eqI, auto simp: byte_of_def ror32_def bit_simps dest: bit_imp_le_length)+

lemma byte_word: "byte_of 24 (word_of a b c d) = a" "byte_of 16 (word_of a b c d) = b" "byte_of 8 (word_of a b c d) = c" "byte_of 0 (word_of a b c d) = d"
  by (rule bit_word_eqI, auto simp: byte_of_def word_of_def bit_simps dest: bit_imp_le_length)+

lemma word_byte: "word_of (byte_of 24 w) (byte_of 16 w) (byte_of 8 w) (byte_of 0 w) = w"
proof (rule bit_word_eqI)
  fix n assume "n < LENGTH(32)"
  then consider "n < 8" | "8 \<le> n" "n < 16" | "16 \<le> n" "n < 24" | "24 \<le> n" "n < 32" by fastforce
  then show "bit (word_of (byte_of 24 w) (byte_of 16 w) (byte_of 8 w) (byte_of 0 w)) n = bit w n"
    by cases (auto simp: byte_of_def word_of_def bit_simps)
qed

lemma word_ror: "ror32 (word_of a b c d) 8 = word_of d a b c"
  by (metis byte_ror byte_word word_byte)

lemma mix_bytes: "mix_key w = inv_col (byte_of 24 w) XOR ror32 (inv_col (byte_of 16 w)) 8 XOR ror32 (inv_col (byte_of 8 w)) 16 XOR ror32 (inv_col (byte_of 0 w)) 24"
  by (simp add: mix_key_def Td1_r_def Td2_r_def Td3_r_def table_index nth_tables)

lemma mix_xor: "mix_key (a XOR b) = mix_key a XOR mix_key b"
  by (simp add: mix_bytes byte_xor inv_col_def bits_sum_xor ror32_xor xor.assoc xor.left_commute)

lemma mix_ror: "mix_key (ror32 w 8) = ror32 (mix_key w) 8"
  by (simp add: mix_bytes byte_ror ror32_xor ror32_ror32 xor.assoc xor.left_commute xor.commute)

lemma mix_rors: "mix_key (ror32 w 16) = ror32 (mix_key w) 16" "mix_key (ror32 w 24) = ror32 (mix_key w) 24"
  by (metis mix_ror ror32_ror32(1,2))+

lemma mix_zero: "mix_key 0 = 0"
  using mix_xor [of 0 0] by simp

lemma bits_sum_map:
  assumes "\<And>a b. f (a XOR b) = f a XOR f b" "f 0 = 0"
  shows "f (bits_sum cs x) = bits_sum (map f cs) x"
proof -
  have "f (foldr (\<lambda>(j, c) w. if bit x j then c XOR w else w) (zip js cs) 0) =
    foldr (\<lambda>(j, c) w. if bit x j then c XOR w else w) (zip js (map f cs)) 0" for js
    by (induction js cs rule: list_induct2') (auto simp: assms)
  then show ?thesis by (simp add: bits_sum_def)
qed

lemma mix_inverse_basis: "map mix_key [0x02010103, 0x04020206, 0x0804040c, 0x10080818, 0x20101030, 0x40202060, 0x804040c0, 0x1b80809b] =
    [0x01000000, 0x02000000, 0x04000000, 0x08000000, 0x10000000, 0x20000000, 0x40000000, 0x80000000]"
  by code_simp

lemma bits_sum_high: "map (\<lambda>i. bits_sum [0x01000000, 0x02000000, 0x04000000, 0x08000000, 0x10000000, 0x20000000, 0x40000000, 0x80000000] (of_nat i)) [0..<256] =
    map (\<lambda>i. push_bit 24 (ucast (of_nat i :: u8))) [0..<256]"
  by code_simp

lemma mix_inverse: "mix_key (mix_col x) = push_bit 24 (ucast x)"
proof -
  have "mix_key (mix_col x) = bits_sum [0x01000000, 0x02000000, 0x04000000, 0x08000000, 0x10000000, 0x20000000, 0x40000000, 0x80000000] x"
    unfolding mix_col_def bits_sum_map [of mix_key, OF mix_xor mix_zero] mix_inverse_basis ..
  also have "\<dots> = push_bit 24 (ucast x)"
    using arg_cong [OF bits_sum_high, of "\<lambda>l. l ! unat x"] u8_bound [of x] by (simp del: push_bit_numeral push_bit_eq_mult)
  finally show ?thesis .
qed

lemma ror_high:
  "ror32 (push_bit 24 (ucast (x :: u8))) 8 = push_bit 16 (ucast x)"
  "ror32 (push_bit 24 (ucast (x :: u8))) 16 = push_bit 8 (ucast x)"
  "ror32 (push_bit 24 (ucast (x :: u8))) 24 = ucast x"
  by (rule bit_word_eqI, auto simp: ror32_def bit_simps dest: bit_imp_le_length)+

lemma enc_col_bytes: "enc_col a b c d k = mix_col (sbox (byte_of 24 a)) XOR ror32 (mix_col (sbox (byte_of 16 b))) 8
     XOR ror32 (mix_col (sbox (byte_of 8 c))) 16 XOR ror32 (mix_col (sbox (byte_of 0 d))) 24 XOR k"
  by (simp add: enc_col_def Te1_r_def Te2_r_def Te3_r_def table_index nth_tables)

lemma mix_enc_col: "mix_key (enc_col a b c d k) =
    word_of (sbox (byte_of 24 a)) (sbox (byte_of 16 b)) (sbox (byte_of 8 c)) (sbox (byte_of 0 d)) XOR mix_key k"
  unfolding enc_col_bytes mix_xor mix_ror mix_rors mix_inverse ror_high word_of_def by (simp only: xor.assoc)

lemma dec_col_bytes: "dec_col a b c d k = Td0 ! unat (byte_of 24 a) XOR ror32 (Td0 ! unat (byte_of 16 b)) 8
     XOR ror32 (Td0 ! unat (byte_of 8 c)) 16 XOR ror32 (Td0 ! unat (byte_of 0 d)) 24 XOR k"
  by (simp add: dec_col_def Td1_r_def Td2_r_def Td3_r_def table_index)

lemma dec_last_bytes: "dec_last_col a b c d k = word_of (Td4 ! unat (byte_of 24 a)) (Td4 ! unat (byte_of 16 b)) (Td4 ! unat (byte_of 8 c)) (Td4 ! unat (byte_of 0 d)) XOR k"
  by (simp only: dec_last_col_def word_of_def table_index xor.assoc)

lemma mix_col_middle: "list_all (\<lambda>i. let x = of_nat i in byte_of 8 (mix_col x) = x \<and> byte_of 16 (mix_col x) = x) [0..<256]"
  by code_simp

lemma mix_col_byte: "byte_of 8 (mix_col x) = x" "byte_of 16 (mix_col x) = x"
  using mix_col_middle u8_bound [of x] by (auto simp: list_all_iff Let_def dest!: bspec [of _ _ "unat x"])

lemma enc_last_bytes: "enc_last_col a b c d k =
    word_of (sbox (byte_of 24 a)) (sbox (byte_of 16 b)) (sbox (byte_of 8 c)) (sbox (byte_of 0 d)) XOR k"
proof -
  have m: "ror32 w 16 AND 0xff000000 = push_bit 24 (ucast (byte_of 8 w))" "ror32 w 24 AND 0x00ff0000 = push_bit 16 (ucast (byte_of 8 w))"
    "w AND 0x0000ff00 = push_bit 8 (ucast (byte_of 8 w))" "ror32 w 8 AND 0x000000ff = ucast (byte_of 8 w)" for w
  proof -
    have k: "(0xff000000 :: u32) = push_bit 24 (mask 8)" "(0x00ff0000 :: u32) = push_bit 16 (mask 8)" "(0x0000ff00 :: u32) = push_bit 8 (mask 8)"
      "(0x000000ff :: u32) = push_bit 0 (mask 8)" by (simp_all add: mask_eq_exp_minus_1)
    show "ror32 w 16 AND 0xff000000 = push_bit 24 (ucast (byte_of 8 w))" "ror32 w 24 AND 0x00ff0000 = push_bit 16 (ucast (byte_of 8 w))"
      "w AND 0x0000ff00 = push_bit 8 (ucast (byte_of 8 w))" "ror32 w 8 AND 0x000000ff = ucast (byte_of 8 w)"
      unfolding k and_byte_mask by (rule bit_word_eqI, auto simp: byte_of_def ror32_def bit_simps dest: bit_imp_le_length)+
  qed
  show ?thesis
    by (simp only: enc_last_col_def Te1_r_def Te2_r_def Te3_r_def table_index nth_tables m mix_col_byte word_of_def xor.assoc)
qed

lemma enc_last_block: "enc_last ek s = add_key ek 14 (sub_shift s)"
  by (cases s) (simp add: enc_last_def enc_last_bytes sub_shift_def add_key_def Let_def)

lemma dec_last_block: "dec_last dk (sub_shift s) = add_key dk 14 s"
  by (cases s) (simp add: dec_last_def dec_last_bytes sub_shift_def add_key_def Let_def byte_word nth_tables word_byte)

lemma dec_round_block: "dec_round dk j (sub_shift s) = add_key dk j (mix_block s)"
  by (cases s) (simp add: dec_round_def dec_col_bytes sub_shift_def add_key_def mix_block_def Let_def byte_word nth_tables mix_bytes xor.assoc)

lemma mix_enc_round: "mix_block (enc_round ek i s) = add_key (map mix_key ek) i (sub_shift s)" if "4 * i + 3 < length ek"
  using that by (cases s) (simp add: mix_block_def enc_round_def mix_enc_col sub_shift_def add_key_def Let_def)

lemma add_key_twice: "add_key k i (add_key k i s) = s"
  by (cases s) (simp add: add_key_def xor.assoc)

lemma add_key_cong: "(\<And>c. c < 4 \<Longrightarrow> k ! (4 * i + c) = k' ! (4 * j + c)) \<Longrightarrow> add_key k i s = add_key k' j s"
proof -
  assume k: "\<And>c. c < 4 \<Longrightarrow> k ! (4 * i + c) = k' ! (4 * j + c)"
  show ?thesis using k [of 0] k [of 1] k [of 2] k [of 3] by (cases s) (simp add: add_key_def)
qed

lemma length_decrypt_keys: "length (decrypt_keys ek) = 60"
  by (simp add: decrypt_keys_def Let_def)

lemma nth_decrypt_keys:
  assumes "j < 15" "c < 4" "length ek = 60"
  shows "decrypt_keys ek ! (4 * j + c) = (if 0 < j \<and> j < 14 then mix_key (ek ! (4 * (14 - j) + c)) else ek ! (4 * (14 - j) + c))"
  using assms by (auto simp: decrypt_keys_def Let_def nth_append)

lemma dec_enc_round:
  assumes "length ek = 60" "0 < j" "j < 14"
  shows "dec_round (decrypt_keys ek) j (sub_shift (enc_round ek (14 - j) s)) = sub_shift s"
proof -
  have "add_key (decrypt_keys ek) j t = add_key (map mix_key ek) (14 - j) t" for t
    using assms by (intro add_key_cong) (simp add: nth_decrypt_keys)
  then show ?thesis using assms by (simp add: dec_round_block mix_enc_round add_key_twice)
qed

lemma dec_enc_rounds:
  assumes "length ek = 60" "n \<le> 13"
  shows "fold (dec_round (decrypt_keys ek)) [1..<Suc n] (sub_shift (fold (enc_round ek) [1..<14] s)) = sub_shift (fold (enc_round ek) [1..<14 - n] s)"
  using assms(2)
proof (induction n)
  case 0
  show ?case by simp
next
  case (Suc n)
  have "[1..<14 - n] = [1..<14 - Suc n] @ [14 - Suc n]"
    using Suc.prems upt_Suc_append [of 1 "13 - n"] by (simp add: Suc_diff_le [symmetric])
  then show ?case using Suc dec_enc_round [OF assms(1), of "Suc n"] by simp
qed

lemma load_store_block: "load_block (store_block s) k = add_key k 0 s"
  by (cases s) (simp add: load_block_def store_block_def add_key_def numeral_2_eq_2 del: be_bytes_numeral)

lemma store_load_block: "length b = 16 \<Longrightarrow> store_block (add_key k 0 (load_block b k)) = b"
proof -
  assume b: "length b = 16"
  have "be_bytes 4 (be_word (take 4 (drop n b)) :: u32) = take 4 (drop n b)" if "n + 4 \<le> 16" for n
    using be_bytes_be_word [of "take 4 (drop n b)", where 'a = 32] that b by (simp del: be_bytes_be_word be_bytes_numeral)
  from this [of 0] this [of 4] this [of 8] this [of 12]
  have "store_block (add_key k 0 (load_block b k)) = take 4 b @ take 4 (drop 4 b) @ take 4 (drop 8 b) @ take 4 (drop 12 b)"
    by (simp add: store_block_def load_block_def add_key_def xor.assoc numeral_2_eq_2 del: be_bytes_numeral)
  also have "\<dots> = b"
    using b append_take_drop_id [of 4 b] append_take_drop_id [of 4 "drop 4 b"] append_take_drop_id [of 4 "drop 8 b"] by simp
  finally show ?thesis .
qed

lemma aes_roundtrip0:
  assumes "length ek = 60" "length b = 16"
  shows "p_decryptSW (decrypt_keys ek) (p_encryptSW ek b) = b"
proof -
  let ?dk = "decrypt_keys ek"
  have "add_key ?dk 0 (add_key ek 14 t) = t" for t
    using add_key_cong [of ?dk 0 ek 14] assms nth_decrypt_keys [of 0 _ ek] by (simp add: add_key_twice)
  moreover have "add_key ?dk 14 t = add_key ek 0 t" for t
    using add_key_cong [of ?dk 14 ek 0] assms nth_decrypt_keys [of 14 _ ek] by simp
  ultimately show ?thesis
    using dec_enc_rounds [OF assms(1), of 13]
    by (simp add: p_decryptSW_def p_encryptSW_def load_store_block enc_last_block dec_last_block store_load_block assms)
qed

end
