(* ===== verification/ZT_GMACSIV.thy ===== *)
theory ZT_GMACSIV
  imports ZT_AES
begin

text \<open>
  \<^verbatim>\<open>node/AES.hpp\<close> and \<^verbatim>\<open>node/AES.cpp\<close>, the classes built on the block cipher: GMAC, counter mode and the AES-GMAC-SIV encryptor and decryptor
  that protect packets between nodes, without hardware support. Pairs of 64-bit words that the code only moves and combines by XOR are kept as their bytes. Shown is
  that counter mode and GMAC do not depend on how the data is cut into pieces, and that the decryptor accepts exactly what the encryptor produces.
\<close>

unbundle bit_operations_syntax

section \<open>Multiplication in the field\<close>

abbreviation xor_block :: "bytes \<Rightarrow> bytes \<Rightarrow> bytes" where
  "xor_block \<equiv> map2 (XOR)"

text \<open>The carry-less product of two words, by integer products of words with holes between their bits; the high and the low half.\<close>

definition s_bmul32 :: "u32 \<Rightarrow> u32 \<Rightarrow> u32 \<times> u32" where
  "s_bmul32 x y =
    (let m = (\<lambda>a b. (ucast (a :: u32) :: u64) * ucast (b :: u32));
         x0 = x AND 0x11111111; x1 = x AND 0x22222222; x2 = x AND 0x44444444; x3 = x AND 0x88888888;
         y0 = y AND 0x11111111; y1 = y AND 0x22222222; y2 = y AND 0x44444444; y3 = y AND 0x88888888;
         z0 = (m x0 y0 XOR m x1 y3 XOR m x2 y2 XOR m x3 y1) AND 0x1111111111111111;
         z1 = (m x0 y1 XOR m x1 y0 XOR m x2 y3 XOR m x3 y2) AND 0x2222222222222222;
         z2 = (m x0 y2 XOR m x1 y1 XOR m x2 y0 XOR m x3 y3) AND 0x4444444444444444;
         z3 = (m x0 y3 XOR m x1 y2 XOR m x2 y1 XOR m x3 y0) AND 0x8888888888888888;
         z = (z2 OR (z0 OR z1)) OR z3 in
     (ucast (drop_bit 32 z), ucast z))"

text \<open>Three products instead of four: the product of two 64-bit words as four 32-bit words, from the highest.\<close>

definition gf_mul64 :: "u32 \<Rightarrow> u32 \<Rightarrow> u32 \<Rightarrow> u32 \<Rightarrow> u32 \<times> u32 \<times> u32 \<times> u32" where
  "gf_mul64 ch cl hh hl =
    (let (aah, aal) = s_bmul32 ch hh; (abh, abl) = s_bmul32 cl hl; (ach, acl) = s_bmul32 (ch XOR cl) (hh XOR hl);
         ach = ach XOR (aah XOR abh); acl = acl XOR (aal XOR abl) in
     (aah, aal XOR ach, abh XOR acl, abl))"

definition join64 :: "u32 \<Rightarrow> u32 \<Rightarrow> u64" where
  "join64 h l = push_bit 32 (ucast h) OR ucast l"

definition gf_reduce :: "u64 \<Rightarrow> u64 \<Rightarrow> u64 \<Rightarrow> u64 \<Rightarrow> u64 \<times> u64" where
  "gf_reduce zhh zhl zlh zll =
    (let zhh = push_bit 1 zhh OR drop_bit 63 zhl;
         zhl = push_bit 1 zhl OR drop_bit 63 zlh;
         zlh = push_bit 1 zlh OR drop_bit 63 zll;
         zll = push_bit 1 zll;
         zlh = zlh XOR (push_bit 63 zll XOR push_bit 62 zll XOR push_bit 57 zll);
         zhh = zhh XOR (zlh XOR drop_bit 1 zlh XOR drop_bit 2 zlh XOR drop_bit 7 zlh);
         zhl = zhl XOR (zll XOR drop_bit 1 zll XOR drop_bit 2 zll XOR drop_bit 7 zll XOR push_bit 63 zlh XOR push_bit 62 zlh XOR push_bit 57 zlh) in
     (zhh, zhl))"

definition s_gfmul :: "u64 \<Rightarrow> u64 \<Rightarrow> bytes \<Rightarrow> bytes" where
  "s_gfmul hh hl y =
    (let hhh = ucast (drop_bit 32 hh); hhl = ucast hh; hlh = ucast (drop_bit 32 hl); hll = ucast hl;
         yl = (be_word (take 8 y) :: u64); yh = (be_word (drop 8 y) :: u64);
         cilh = ucast (drop_bit 32 yh); cill = ucast yh; cihh = ucast (drop_bit 32 yl); cihl = ucast yl;
         (aah, aal, abh, abl) = gf_mul64 cihh cihl hhh hhl;
         (bah, bal, bbh, bbl) = gf_mul64 cilh cill hlh hll;
         (cah, cal, cbh, cbl) = gf_mul64 (cihh XOR cilh) (cihl XOR cill) (hhh XOR hlh) (hhl XOR hll);
         cah = cah XOR (bah XOR aah); cal = cal XOR (bal XOR aal);
         cbh = cbh XOR (bbh XOR abh); cbl = cbl XOR (bbl XOR abl);
         (r0, r1) = gf_reduce (join64 aah aal) (join64 abh abl XOR join64 cah cal) (join64 bah bal XOR join64 cbh cbl) (join64 bbh bbl) in
     be_bytes 8 r0 @ be_bytes 8 r1)"

section \<open>GMAC\<close>

record gmac =
  gm_aes :: aes
  gm_rp :: nat
  gm_len :: u32
  gm_r :: bytes
  gm_iv :: bytes
  gm_y :: bytes

definition gmac_new :: "aes \<Rightarrow> gmac" where
  "gmac_new k = \<lparr>gm_aes = k, gm_rp = 0, gm_len = 0, gm_r = replicate 16 0, gm_iv = replicate 16 0, gm_y = replicate 16 0\<rparr>"

definition gmac_init :: "bytes \<Rightarrow> gmac \<Rightarrow> gmac" where
  "gmac_init iv g = g\<lparr>gm_rp := 0, gm_len := 0, gm_iv := take 12 iv @ [0, 0, 0, 1], gm_y := replicate 16 0\<rparr>"

definition gmac_block :: "aes \<Rightarrow> bytes \<Rightarrow> bytes \<Rightarrow> bytes" where
  "gmac_block k y b = s_gfmul (aes_h0 k) (aes_h1 k) (xor_block y b)"

text \<open>The loop that completes a started block; \<open>Inl\<close> when the data ends before it is complete.\<close>

fun gmac_fill :: "gmac \<Rightarrow> bytes \<Rightarrow> gmac + (gmac \<times> bytes)" where
  "gmac_fill g [] = Inl g"
| "gmac_fill g (b # data) =
    (let g' = g\<lparr>gm_r := (gm_r g)[gm_rp g := b], gm_rp := gm_rp g + 1\<rparr> in
     if gm_rp g' = 16 then Inr (g', data) else gmac_fill g' data)"

fun gmac_blocks :: "aes \<Rightarrow> bytes \<Rightarrow> bytes \<Rightarrow> bytes \<times> bytes" where
  "gmac_blocks k y data =
    (if 16 \<le> length data then gmac_blocks k (gmac_block k y (take 16 data)) (drop 16 data) else (y, data))"

definition gmac_rest :: "bytes \<Rightarrow> bytes \<Rightarrow> gmac \<Rightarrow> gmac" where
  "gmac_rest y data g =
    (let (y', rest) = gmac_blocks (gm_aes g) y data in
     g\<lparr>gm_y := y', gm_r := rest @ drop (length rest) (gm_r g), gm_rp := length rest\<rparr>)"

definition gmac_update :: "bytes \<Rightarrow> gmac \<Rightarrow> gmac" where
  "gmac_update data g =
    (let g = g\<lparr>gm_len := gm_len g + of_nat (length data)\<rparr> in
     if gm_rp g \<noteq> 0 then
       (case gmac_fill g data of
          Inl g' \<Rightarrow> g'
        | Inr (g', rest) \<Rightarrow> gmac_rest (gmac_block (gm_aes g) (gm_y g) (gm_r g')) rest g')
     else gmac_rest (gm_y g) data g)"

definition gmac_finish :: "gmac \<Rightarrow> bytes" where
  "gmac_finish g =
    (let k = gm_aes g;
         y = (if gm_rp g \<noteq> 0 then gmac_block k (gm_y g) (take (gm_rp g) (gm_r g) @ replicate (16 - gm_rp g) 0) else gm_y g);
         y = gmac_block k y (be_bytes 8 (push_bit 3 (ucast (gm_len g)) :: u64) @ replicate 8 0) in
     xor_block (p_encryptSW (aes_ek k) (take 12 (gm_iv g) @ [0, 0, 0, 1])) y)"

section \<open>Counter mode\<close>

text \<open>The output buffer is the list of the \<open>_len\<close> bytes written to it so far, which is below 4294967296. Input and output may be the same buffer:
  a byte is read before the output byte at its position is written.\<close>

record ctr =
  ct_aes :: aes
  ct_ctr :: bytes
  ct_out :: bytes

definition ctr_new :: "aes \<Rightarrow> ctr" where
  "ctr_new k = \<lparr>ct_aes = k, ct_ctr = replicate 16 0, ct_out = []\<rparr>"

definition ctr_init :: "bytes \<Rightarrow> ctr \<Rightarrow> ctr" where
  "ctr_init iv s = s\<lparr>ct_ctr := take 16 iv, ct_out := []\<rparr>"

definition ctr_init_ic :: "bytes \<Rightarrow> u32 \<Rightarrow> ctr \<Rightarrow> ctr" where
  "ctr_init_ic iv ic s = s\<lparr>ct_ctr := take 12 iv @ le_bytes 4 ic, ct_out := []\<rparr>"

definition ctr_next :: "bytes \<Rightarrow> bytes" where
  "ctr_next c = take 12 c @ be_bytes 4 (be_word (drop 12 c) + 1 :: u32)"

fun ctr_fill :: "ctr \<Rightarrow> bytes \<Rightarrow> ctr \<times> bytes" where
  "ctr_fill s [] = (s, [])"
| "ctr_fill s (b # data) =
    (let out = ct_out s @ [b] in
     if length out mod 16 = 0 then
       (let ks = p_encryptSW (aes_ek (ct_aes s)) (ct_ctr s); n = length out - 16 in
        (s\<lparr>ct_ctr := ctr_next (ct_ctr s), ct_out := take n out @ xor_block (drop n out) ks\<rparr>, data))
     else ctr_fill (s\<lparr>ct_out := out\<rparr>) data)"

text \<open>The rounds written out in the loop, on the first three words of the counter block with the round key already added, and the counter.\<close>

definition ctr_rounds :: "u32 list \<Rightarrow> u32 \<Rightarrow> u32 \<Rightarrow> u32 \<Rightarrow> u32 \<Rightarrow> bytes" where
  "ctr_rounds rk ctr0rk0 ctr1rk1 ctr2rk2 n =
    store_block (enc_last rk (fold (enc_round rk) [1..<14] (ctr0rk0, ctr1rk1, ctr2rk2, n XOR rk ! 3)))"

fun ctr_loop :: "u32 list \<Rightarrow> u32 \<Rightarrow> u32 \<Rightarrow> u32 \<Rightarrow> u32 \<Rightarrow> bytes \<Rightarrow> u32 \<times> bytes \<times> bytes" where
  "ctr_loop rk a b c n data =
    (if 16 \<le> length data then
       (let (n', out, rest) = ctr_loop rk a b c (n + 1) (drop 16 data) in
        (n', xor_block (take 16 data) (ctr_rounds rk a b c n) @ out, rest))
     else (n, [], data))"

definition ctr_crypt :: "bytes \<Rightarrow> ctr \<Rightarrow> ctr" where
  "ctr_crypt input s0 =
    (let (s, data) = (if length (ct_out s0) mod 16 \<noteq> 0 then ctr_fill s0 input else (s0, input)) in
     if 16 \<le> length data then
       (let rk = aes_ek (ct_aes s); c = ct_ctr s;
            (n, out, rest) = ctr_loop rk (be_word (take 4 c) XOR rk ! 0) (be_word (take 4 (drop 4 c)) XOR rk ! 1) (be_word (take 4 (drop 8 c)) XOR rk ! 2)
              (be_word (take 4 (drop 12 c))) data in
        s\<lparr>ct_ctr := take 12 c @ be_bytes 4 n, ct_out := ct_out s @ out @ rest\<rparr>)
     else s\<lparr>ct_out := ct_out s @ data\<rparr>)"

definition ctr_finish :: "ctr \<Rightarrow> bytes" where
  "ctr_finish s =
    (let out = ct_out s; r = length out mod 16; n = length out - r in
     if r \<noteq> 0 then take n out @ xor_block (drop n out) (p_encryptSW (aes_ek (ct_aes s)) (ct_ctr s)) else out)"

section \<open>AES-GMAC-SIV\<close>

record gmacsiv_encryptor =
  se_tag :: bytes
  se_gmac :: gmac
  se_ctr :: ctr

definition siv_enc_init :: "aes \<Rightarrow> aes \<Rightarrow> bytes \<Rightarrow> gmacsiv_encryptor" where
  "siv_enc_init k0 k1 iv =
    (let tag = iv @ replicate 8 0 in
     \<lparr>se_tag = tag, se_gmac = gmac_init tag (gmac_new k0), se_ctr = ctr_new k1\<rparr>)"

definition siv_aad :: "bytes \<Rightarrow> gmac \<Rightarrow> gmac" where
  "siv_aad aad g =
    (let g = gmac_update aad g; n = length aad mod 16 in
     if n \<noteq> 0 then gmac_update (replicate (16 - n) 0) g else g)"

definition siv_enc_aad :: "bytes \<Rightarrow> gmacsiv_encryptor \<Rightarrow> gmacsiv_encryptor" where
  "siv_enc_aad aad e = e\<lparr>se_gmac := siv_aad aad (se_gmac e)\<rparr>"

definition siv_update1 :: "bytes \<Rightarrow> gmacsiv_encryptor \<Rightarrow> gmacsiv_encryptor" where
  "siv_update1 data e = e\<lparr>se_gmac := gmac_update data (se_gmac e)\<rparr>"

text \<open>The most significant bit of the counter is cleared.\<close>

definition siv_counter :: "bytes \<Rightarrow> bytes" where
  "siv_counter tag = tag[12 := tag ! 12 AND 0x7f]"

definition siv_finish1 :: "gmacsiv_encryptor \<Rightarrow> gmacsiv_encryptor" where
  "siv_finish1 e =
    (let tmp = gmac_finish (se_gmac e);
         tag = p_encryptSW (aes_ek (ct_aes (se_ctr e))) (take 8 (se_tag e) @ xor_block (take 8 tmp) (drop 8 tmp)) in
     e\<lparr>se_tag := tag, se_ctr := ctr_init (siv_counter tag) (se_ctr e)\<rparr>)"

definition siv_update2 :: "bytes \<Rightarrow> gmacsiv_encryptor \<Rightarrow> gmacsiv_encryptor" where
  "siv_update2 data e = e\<lparr>se_ctr := ctr_crypt data (se_ctr e)\<rparr>"

text \<open>The tag and the output buffer.\<close>

definition siv_finish2 :: "gmacsiv_encryptor \<Rightarrow> bytes \<times> bytes" where
  "siv_finish2 e = (se_tag e, ctr_finish (se_ctr e))"

record gmacsiv_decryptor =
  sd_ivMac :: bytes
  sd_ctr :: ctr
  sd_gmac :: gmac
  sd_decryptedLen :: nat

definition siv_dec_init :: "aes \<Rightarrow> aes \<Rightarrow> bytes \<Rightarrow> gmacsiv_decryptor" where
  "siv_dec_init k0 k1 tag =
    (let ivMac = p_decryptSW (aes_dk k1) tag in
     \<lparr>sd_ivMac = ivMac, sd_ctr = ctr_init (siv_counter tag) (ctr_new k1),
      sd_gmac = gmac_init (take 8 ivMac @ replicate 8 0) (gmac_new k0), sd_decryptedLen = 0\<rparr>)"

definition siv_dec_aad :: "bytes \<Rightarrow> gmacsiv_decryptor \<Rightarrow> gmacsiv_decryptor" where
  "siv_dec_aad aad d = d\<lparr>sd_gmac := siv_aad aad (sd_gmac d)\<rparr>"

definition siv_dec_update :: "bytes \<Rightarrow> gmacsiv_decryptor \<Rightarrow> gmacsiv_decryptor" where
  "siv_dec_update data d = d\<lparr>sd_ctr := ctr_crypt data (sd_ctr d), sd_decryptedLen := uadd (sd_decryptedLen d) (length data)\<rparr>"

definition siv_dec_finish :: "gmacsiv_decryptor \<Rightarrow> bool \<times> bytes" where
  "siv_dec_finish d =
    (let out = ctr_finish (sd_ctr d);
         tag = gmac_finish (gmac_update (take (sd_decryptedLen d) out) (sd_gmac d)) in
     (xor_block (take 8 tag) (drop 8 tag) = drop 8 (sd_ivMac d), out))"

section \<open>Specifications\<close>

text \<open>The specification: every block of 16 bytes is combined with the encryption of its own counter block.\<close>

fun ctr_stream :: "u32 list \<Rightarrow> bytes \<Rightarrow> bytes \<Rightarrow> bytes" where
  "ctr_stream rk c data =
    (if 16 < length data then xor_block (take 16 data) (p_encryptSW rk c) @ ctr_stream rk (ctr_next c) (drop 16 data)
     else xor_block data (p_encryptSW rk c))"

text \<open>The complete blocks only: the counter block after them, their encryption and the bytes left over.\<close>

fun ctr_blocks :: "u32 list \<Rightarrow> bytes \<Rightarrow> bytes \<Rightarrow> bytes \<times> bytes \<times> bytes" where
  "ctr_blocks rk c data =
    (if 16 \<le> length data then
       (let (c', out, rest) = ctr_blocks rk (ctr_next c) (drop 16 data) in (c', xor_block (take 16 data) (p_encryptSW rk c) @ out, rest))
     else (c, [], data))"

definition ctr_rep :: "aes \<Rightarrow> bytes \<Rightarrow> bytes \<Rightarrow> ctr \<Rightarrow> bool" where
  "ctr_rep k c data s \<longleftrightarrow> ct_aes s = k \<and> (\<exists>out rest. ctr_blocks (aes_ek k) c data = (ct_ctr s, out, rest) \<and> ct_out s = out @ rest)"

text \<open>The specification: the blocks, the last one filled with zeroes, are added and multiplied one after another, then the length in bits.\<close>

fun ghash :: "aes \<Rightarrow> bytes \<Rightarrow> bytes \<Rightarrow> bytes" where
  "ghash k y data =
    (if data = [] then y else ghash k (gmac_block k y (take 16 data @ replicate (16 - length data) 0)) (drop 16 data))"

definition gmac_tag :: "aes \<Rightarrow> bytes \<Rightarrow> bytes \<Rightarrow> bytes" where
  "gmac_tag k iv data = xor_block (p_encryptSW (aes_ek k) (take 12 iv @ [0, 0, 0, 1]))
    (gmac_block k (ghash k (replicate 16 0) data) (be_bytes 8 (of_nat (8 * length data) :: u64) @ replicate 8 0))"

definition gmac_rep :: "aes \<Rightarrow> bytes \<Rightarrow> bytes \<Rightarrow> gmac \<Rightarrow> bool" where
  "gmac_rep k iv data g \<longleftrightarrow> gm_aes g = k \<and> take 12 (gm_iv g) = take 12 iv \<and> gm_len g = of_nat (length data) \<and> length (gm_r g) = 16 \<and>
    gmac_blocks k (replicate 16 0) data = (gm_y g, take (gm_rp g) (gm_r g)) \<and> gm_rp g < 16"

text \<open>What is authenticated, the short tag, and both directions in one piece.\<close>

definition siv_data :: "bytes \<Rightarrow> bytes \<Rightarrow> bytes" where
  "siv_data aad m = aad @ replicate ((16 - length aad mod 16) mod 16) 0 @ m"

definition siv_mac :: "aes \<Rightarrow> bytes \<Rightarrow> bytes \<Rightarrow> bytes \<Rightarrow> bytes" where
  "siv_mac k iv aad m = (let t = gmac_tag k (iv @ replicate 8 0) (siv_data aad m) in xor_block (take 8 t) (drop 8 t))"

definition siv_seal :: "aes \<Rightarrow> aes \<Rightarrow> bytes \<Rightarrow> bytes \<Rightarrow> bytes \<Rightarrow> bytes \<times> bytes" where
  "siv_seal k0 k1 iv aad m = (let tag = p_encryptSW (aes_ek k1) (iv @ siv_mac k0 iv aad m) in (tag, ctr_stream (aes_ek k1) (siv_counter tag) m))"

definition siv_open :: "aes \<Rightarrow> aes \<Rightarrow> bytes \<Rightarrow> bytes \<Rightarrow> bytes \<Rightarrow> bool \<times> bytes" where
  "siv_open k0 k1 tag aad ct =
    (let b = p_decryptSW (aes_dk k1) tag; m = ctr_stream (aes_ek k1) (siv_counter tag) ct in (siv_mac k0 (take 8 b) aad m = drop 8 b, m))"

section \<open>Counter mode is a stream cipher\<close>

declare ctr_stream.simps [simp del] ctr_blocks.simps [simp del] ctr_loop.simps [simp del] gmac_blocks.simps [simp del]

lemma length_store_block [simp]: "length (store_block s) = 16"
  by (cases s) (simp add: store_block_def del: be_bytes_numeral)

lemma length_encrypt [simp]: "length (p_encryptSW rk b) = 16"
  by (simp add: p_encryptSW_def)

lemma length_ctr_next [simp]: "length c = 16 \<Longrightarrow> length (ctr_next c) = 16"
  by (simp add: ctr_next_def del: be_bytes_numeral)

lemma ctr_next_parts: "length c = 16 \<Longrightarrow> take 12 (ctr_next c) = take 12 c"
    "length c = 16 \<Longrightarrow> be_word (drop 12 (ctr_next c)) = (be_word (drop 12 c) + 1 :: u32)"
  by (simp_all add: ctr_next_def del: be_bytes_numeral)

lemma be_bytes_4: "length b = 4 \<Longrightarrow> be_bytes 4 (be_word b :: u32) = b"
  using be_bytes_be_word [of b, where 'a = 32] by (simp del: be_bytes_be_word be_bytes_numeral)

lemma ctr_rounds_encrypt:
  assumes "length c = 16"
  shows "ctr_rounds rk (be_word (take 4 c) XOR rk ! 0) (be_word (take 4 (drop 4 c)) XOR rk ! 1) (be_word (take 4 (drop 8 c)) XOR rk ! 2) (be_word (drop 12 c))
    = p_encryptSW rk c"
  using assms by (simp add: ctr_rounds_def p_encryptSW_def load_block_def)

lemma take_words: "take 12 c = take 12 c' \<Longrightarrow> take 4 c = take 4 c' \<and> take 4 (drop 4 c) = take 4 (drop 4 c') \<and> take 4 (drop 8 c) = take 4 (drop 8 c')"
proof -
  assume t: "take 12 c = take 12 c'"
  show ?thesis
    using arg_cong [OF t, of "take 4"] arg_cong [OF t, of "\<lambda>l. take 4 (drop 4 l)"] arg_cong [OF t, of "\<lambda>l. take 4 (drop 8 l)"]
    by (simp add: drop_take min_def)
qed

lemma ctr_loop_blocks:
  assumes "length c = 16" "take 12 c = take 12 c0"
  shows "ctr_blocks rk c data = (case ctr_loop rk (be_word (take 4 c0) XOR rk ! 0) (be_word (take 4 (drop 4 c0)) XOR rk ! 1) (be_word (take 4 (drop 8 c0)) XOR rk ! 2)
      (be_word (drop 12 c)) data of (n, out, rest) \<Rightarrow> (take 12 c0 @ be_bytes 4 n, out, rest))"
  using assms
proof (induction rk c data rule: ctr_blocks.induct)
  case (1 rk c data)
  show ?case
  proof (cases "16 \<le> length data")
    case True
    have "ctr_rounds rk (be_word (take 4 c0) XOR rk ! 0) (be_word (take 4 (drop 4 c0)) XOR rk ! 1) (be_word (take 4 (drop 8 c0)) XOR rk ! 2) (be_word (drop 12 c))
        = p_encryptSW rk c"
      using ctr_rounds_encrypt [OF 1(2), of rk] take_words [OF 1(3)] by simp
    then show ?thesis
      using 1(1) [OF True] 1(2,3) True
      by (subst ctr_blocks.simps, subst ctr_loop.simps) (simp add: ctr_next_parts Let_def split: prod.splits del: be_bytes_numeral)
  next
    case False
    have "c = take 12 c @ be_bytes 4 (be_word (drop 12 c) :: u32)"
      using 1(2) by (simp add: be_bytes_4 del: be_bytes_numeral)
    then show ?thesis using False 1(3)
      by (subst ctr_blocks.simps, subst ctr_loop.simps) (simp del: be_bytes_numeral)
  qed
qed

lemma ctr_blocks_append:
  assumes "ctr_blocks rk c d = (c', out, rest)" "ctr_blocks rk c' (rest @ e) = (c'', out', rest')"
  shows "ctr_blocks rk c (d @ e) = (c'', out @ out', rest')"
  using assms
proof (induction rk c d arbitrary: out rule: ctr_blocks.induct)
  case (1 rk c d)
  show ?case
  proof (cases "16 \<le> length d")
    case True
    obtain o2 where o2: "ctr_blocks rk (ctr_next c) (drop 16 d) = (c', o2, rest)" "out = xor_block (take 16 d) (p_encryptSW rk c) @ o2"
      using 1(2) True by (subst (asm) ctr_blocks.simps) (auto simp: Let_def split: prod.splits)
    show ?thesis
      using 1(1) [OF True o2(1) 1(3)] True o2(2) by (subst ctr_blocks.simps) (simp add: Let_def)
  next
    case False
    then show ?thesis using 1(2,3) by (subst (asm) (1) ctr_blocks.simps) simp
  qed
qed

lemma ctr_blocks_lengths:
  "length c = 16 \<Longrightarrow> ctr_blocks rk c d = (c', out, rest) \<Longrightarrow> length c' = 16 \<and> length out mod 16 = 0 \<and> length rest < 16 \<and> length out + length rest = length d"
proof (induction rk c d arbitrary: out rule: ctr_blocks.induct)
  case (1 rk c d)
  show ?case
  proof (cases "16 \<le> length d")
    case True
    obtain o2 where o2: "ctr_blocks rk (ctr_next c) (drop 16 d) = (c', o2, rest)" "out = xor_block (take 16 d) (p_encryptSW rk c) @ o2"
      using 1(3) True by (subst (asm) ctr_blocks.simps) (auto simp: Let_def split: prod.splits)
    show ?thesis
      using 1(1) [OF True length_ctr_next [OF 1(2)] o2(1)] True o2(2) by auto
  next
    case False
    then show ?thesis using 1(2,3) by (subst (asm) (1) ctr_blocks.simps) simp
  qed
qed

lemma ctr_fill_short:
  "length (ct_out s) mod 16 + length data < 16 \<Longrightarrow> 0 < length (ct_out s) mod 16 \<Longrightarrow> ctr_fill s data = (s\<lparr>ct_out := ct_out s @ data\<rparr>, [])"
proof (induction s data rule: ctr_fill.induct)
  case (2 s b data)
  have m: "Suc (length (ct_out s)) mod 16 = Suc (length (ct_out s) mod 16)" using 2(2) by (simp add: mod_Suc)
  then show ?case using 2 by (simp add: Let_def)
qed simp

lemma ctr_fill_block:
  assumes "ct_out s = out @ rest" "length out mod 16 = 0" "0 < length rest" "length rest < 16" "16 \<le> length rest + length data"
  shows "ctr_fill s data = (s\<lparr>ct_ctr := ctr_next (ct_ctr s),
    ct_out := out @ xor_block (rest @ take (16 - length rest) data) (p_encryptSW (aes_ek (ct_aes s)) (ct_ctr s))\<rparr>, drop (16 - length rest) data)"
  using assms
proof (induction s data arbitrary: rest rule: ctr_fill.induct)
  case (2 s b data)
  have m: "(length out + Suc (length rest)) mod 16 = Suc (length rest) mod 16" using 2(3) by (metis add.left_neutral mod_add_left_eq)
  show ?case
  proof (cases "length rest = 15")
    case True
    then show ?thesis using 2(2) m by (simp add: Let_def)
  next
    case False
    then have r: "Suc (length rest) < 16" "16 - length rest = Suc (16 - Suc (length rest))" using 2(5) by auto
    then have "ctr_fill (s\<lparr>ct_out := ct_out s @ [b]\<rparr>) data = (s\<lparr>ct_ctr := ctr_next (ct_ctr s),
      ct_out := out @ xor_block ((rest @ [b]) @ take (16 - length (rest @ [b])) data) (p_encryptSW (aes_ek (ct_aes s)) (ct_ctr s))\<rparr>, drop (16 - length (rest @ [b])) data)"
      using 2(1) [of "ct_out s @ [b]" "rest @ [b]"] 2(2,3,6) m by simp
    then show ?thesis using r m 2(2) by (simp add: Let_def)
  qed
qed simp

lemma ctr_crypt_blocks:
  assumes "length (ct_ctr s) = 16" "length (ct_out s) mod 16 = 0" "ctr_blocks (aes_ek (ct_aes s)) (ct_ctr s) data = (c', out, rest)"
  shows "ctr_crypt data s = s\<lparr>ct_ctr := c', ct_out := ct_out s @ out @ rest\<rparr>"
proof (cases "16 \<le> length data")
  case True
  then show ?thesis
    using assms ctr_loop_blocks [of "ct_ctr s" "ct_ctr s" "aes_ek (ct_aes s)" data]
    by (simp add: ctr_crypt_def Let_def split: prod.splits del: be_bytes_numeral)
next
  case False
  then show ?thesis using assms(2,3) by (subst (asm) ctr_blocks.simps) (simp add: ctr_crypt_def)
qed


lemma ctr_rep_crypt:
  assumes "length c = 16" "ctr_rep k c d s"
  shows "ctr_rep k c (d @ e) (ctr_crypt e s)"
proof -
  obtain out rest where b: "ctr_blocks (aes_ek k) c d = (ct_ctr s, out, rest)" "ct_out s = out @ rest" "ct_aes s = k"
    using assms(2) by (auto simp: ctr_rep_def)
  note l = ctr_blocks_lengths [OF assms(1) b(1)]
  have m: "length (ct_out s) mod 16 = length rest" using l b(2) by (metis add.left_neutral length_append mod_add_left_eq mod_less)
  obtain c' out' rest' where e: "ctr_blocks (aes_ek k) (ct_ctr s) (rest @ e) = (c', out', rest')" by (cases "ctr_blocks (aes_ek k) (ct_ctr s) (rest @ e)") auto
  note de = ctr_blocks_append [OF b(1) e]
  consider "rest = []" | "rest \<noteq> []" "length rest + length e < 16" | "rest \<noteq> []" "16 \<le> length rest + length e" by linarith
  then show ?thesis
  proof cases
    case 1
    then show ?thesis using ctr_crypt_blocks [of s e c' out' rest'] b l e de m by (simp add: ctr_rep_def)
  next
    case 2
    then have "ctr_crypt e s = s\<lparr>ct_out := ct_out s @ e\<rparr>"
      using m by (simp add: ctr_crypt_def ctr_fill_short Let_def)
    moreover have "c' = ct_ctr s" "out' = []" "rest' = rest @ e"
      using e 2 by (simp_all add: ctr_blocks.simps [of _ _ "rest @ e"])
    ultimately show ?thesis using b de by (simp add: ctr_rep_def)
  next
    case 3
    let ?n = "16 - length rest" and ?rk = "aes_ek k"
    let ?b = "xor_block (rest @ take ?n e) (p_encryptSW ?rk (ct_ctr s))"
    let ?s = "s\<lparr>ct_ctr := ctr_next (ct_ctr s), ct_out := out @ ?b\<rparr>"
    have f: "ctr_fill s e = (?s, drop ?n e)"
      using ctr_fill_block [OF b(2), of e] l 3 b(3) by simp
    have t: "take 16 (rest @ e) = rest @ take ?n e" "drop 16 (rest @ e) = drop ?n e" using l by simp_all
    obtain o2 where o2: "ctr_blocks ?rk (ctr_next (ct_ctr s)) (drop ?n e) = (c', o2, rest')" "out' = ?b @ o2"
      using e 3 unfolding ctr_blocks.simps [of ?rk _ "rest @ e"] t by (auto simp: Let_def split: prod.splits)
    have lb: "length ?b = 16" using l 3 by simp
    have "ctr_crypt e s = ctr_crypt (drop ?n e) ?s"
      using f m 3(1) l lb by (simp add: ctr_crypt_def mod_add_left_eq [symmetric, of "length out" 16])
    also have "\<dots> = ?s\<lparr>ct_ctr := c', ct_out := ct_out ?s @ o2 @ rest'\<rparr>"
      using ctr_crypt_blocks [of ?s "drop ?n e" c' o2 rest'] l lb o2(1) b(3) by (simp add: mod_add_left_eq [symmetric, of "length out" 16])
    finally show ?thesis using de b(3) o2(2) by (simp add: ctr_rep_def)
  qed
qed

lemma ctr_stream_blocks: "ctr_blocks rk c d = (c', out, rest) \<Longrightarrow> ctr_stream rk c d = out @ xor_block rest (p_encryptSW rk c')"
proof (induction rk c d arbitrary: out rule: ctr_blocks.induct)
  case (1 rk c d)
  consider "length d < 16" | "length d = 16" | "16 < length d" by linarith
  then show ?case
  proof cases
    case 1
    then show ?thesis using \<open>ctr_blocks rk c d = _\<close> by (subst (asm) ctr_blocks.simps, subst ctr_stream.simps) simp
  next
    case 2
    moreover have "ctr_blocks rk (ctr_next c) [] = (ctr_next c, [], [])" by (subst ctr_blocks.simps) simp
    ultimately show ?thesis using \<open>ctr_blocks rk c d = _\<close> by (simp add: ctr_blocks.simps [of rk c d] ctr_stream.simps [of rk c d])
  next
    case 3
    obtain o2 where o2: "ctr_blocks rk (ctr_next c) (drop 16 d) = (c', o2, rest)" "out = xor_block (take 16 d) (p_encryptSW rk c) @ o2"
      using 1(2) 3 by (subst (asm) ctr_blocks.simps) (auto simp: Let_def split: prod.splits)
    show ?thesis using 1(1) [OF _ o2(1)] 3 o2(2) by (subst ctr_stream.simps) simp
  qed
qed

lemma ctr_rep_finish:
  assumes "length c = 16" "ctr_rep k c d s"
  shows "ctr_finish s = ctr_stream (aes_ek k) c d"
proof -
  obtain out rest where b: "ctr_blocks (aes_ek k) c d = (ct_ctr s, out, rest)" "ct_out s = out @ rest" "ct_aes s = k"
    using assms(2) by (auto simp: ctr_rep_def)
  note l = ctr_blocks_lengths [OF assms(1) b(1)]
  have m: "length (ct_out s) mod 16 = length rest" using l b(2) by (metis add.left_neutral length_append mod_add_left_eq mod_less)
  then show ?thesis using b ctr_stream_blocks [OF b(1)] by (simp add: ctr_finish_def Let_def)
qed

lemma ctr_rep_init: "length c = 16 \<Longrightarrow> ctr_rep k c [] (ctr_init c (ctr_new k))"
  by (simp add: ctr_rep_def ctr_init_def ctr_new_def ctr_blocks.simps)

lemma ctr_rep_fold: "length c = 16 \<Longrightarrow> ctr_rep k c d s \<Longrightarrow> ctr_rep k c (d @ concat ds) (fold ctr_crypt ds s)"
  by (induction ds arbitrary: d s) (simp, metis append.assoc concat.simps(2) ctr_rep_crypt fold_simps(2))

lemma length_ctr_stream [simp]: "length (ctr_stream rk c d) = length d"
  by (induction rk c d rule: ctr_stream.induct) (subst ctr_stream.simps, auto)

lemma xor_block_twice: "length b \<le> length k \<Longrightarrow> xor_block (xor_block b k) k = b"
  by (rule nth_equalityI) (simp_all add: xor.assoc)

lemma ctr_stream_twice: "ctr_stream rk c (ctr_stream rk c d) = d"
proof (induction rk c d rule: ctr_stream.induct)
  case (1 rk c d)
  show ?case
  proof (cases "16 < length d")
    case True
    have s: "ctr_stream rk c d = xor_block (take 16 d) (p_encryptSW rk c) @ ctr_stream rk (ctr_next c) (drop 16 d)" using True by (subst ctr_stream.simps) simp
    have "ctr_stream rk c (ctr_stream rk c d) = xor_block (take 16 (ctr_stream rk c d)) (p_encryptSW rk c) @ ctr_stream rk (ctr_next c) (drop 16 (ctr_stream rk c d))"
      using True by (subst ctr_stream.simps) simp
    then show ?thesis using 1 [OF True] True by (simp add: s xor_block_twice)
  next
    case False
    then show ?thesis by (subst ctr_stream.simps, subst (2) ctr_stream.simps) (simp add: xor_block_twice)
  qed
qed

text \<open>Encrypting in counter mode does not depend on how the data is cut into pieces: every block is combined with the encryption of its own counter block,
  also by the rounds written out in the loop.\<close>

lemma ctr_pieces: "length c = 16 \<Longrightarrow> ctr_finish (fold ctr_crypt ps (ctr_init c (ctr_new k))) = ctr_stream (aes_ek k) c (concat ps)"
  using ctr_rep_finish [OF _ ctr_rep_fold [OF _ ctr_rep_init]] by simp

section \<open>GMAC and its pieces\<close>

declare ghash.simps [simp del]

lemma gmac_blocks_append:
  assumes "gmac_blocks k y d = (y', rest)"
  shows "gmac_blocks k y (d @ e) = gmac_blocks k y' (rest @ e)"
  using assms
proof (induction k y d rule: gmac_blocks.induct)
  case (1 k y d)
  show ?case
  proof (cases "16 \<le> length d")
    case True
    then show ?thesis using 1 by (simp add: gmac_blocks.simps [of k y d] gmac_blocks.simps [of k y "d @ e"])
  next
    case False
    then show ?thesis using 1 by (simp add: gmac_blocks.simps [of k y d])
  qed
qed

lemma gmac_blocks_rest: "gmac_blocks k y d = (y', rest) \<Longrightarrow> length rest < 16"
proof (induction k y d rule: gmac_blocks.induct)
  case (1 k y d)
  then show ?case by (cases "16 \<le> length d") (simp_all add: gmac_blocks.simps [of k y d])
qed

lemma gmac_fill_short:
  "gm_rp g + length data < 16 \<Longrightarrow> length (gm_r g) = 16 \<Longrightarrow>
   gmac_fill g data = Inl (g\<lparr>gm_r := take (gm_rp g) (gm_r g) @ data @ drop (gm_rp g + length data) (gm_r g), gm_rp := gm_rp g + length data\<rparr>)"
proof (induction g data rule: gmac_fill.induct)
  case (2 g b data)
  then show ?case by (simp add: Let_def take_Suc_conv_app_nth)
qed simp

lemma gmac_fill_block:
  "16 \<le> gm_rp g + length data \<Longrightarrow> gm_rp g < 16 \<Longrightarrow> length (gm_r g) = 16 \<Longrightarrow>
   gmac_fill g data = Inr (g\<lparr>gm_r := take (gm_rp g) (gm_r g) @ take (16 - gm_rp g) data, gm_rp := 16\<rparr>, drop (16 - gm_rp g) data)"
proof (induction g data rule: gmac_fill.induct)
  case (2 g b data)
  show ?case
  proof (cases "gm_rp g = 15")
    case True
    have "(gm_r g)[15 := b] = take 15 (gm_r g) @ [b]" using 2(4) by (simp add: upd_conv_take_nth_drop)
    then show ?thesis using True by simp
  next
    case False
    then have "16 - gm_rp g = Suc (16 - Suc (gm_rp g))" using 2(3) by simp
    then show ?thesis using 2 False by (simp add: Let_def take_Suc_conv_app_nth)
  qed
qed simp

lemma gmac_rep_update:
  assumes "gmac_rep k iv d g"
  shows "gmac_rep k iv (d @ e) (gmac_update e g)"
proof -
  let ?rest = "take (gm_rp g) (gm_r g)" and ?g = "g\<lparr>gm_len := gm_len g + of_nat (length e)\<rparr>"
  have g: "gm_aes g = k" "length (gm_r g) = 16" "gm_rp g < 16" "gmac_blocks k (replicate 16 0) d = (gm_y g, ?rest)"
    using assms by (auto simp: gmac_rep_def)
  obtain y' r' where e: "gmac_blocks k (gm_y g) (?rest @ e) = (y', r')" by fastforce
  note de = gmac_blocks_append [OF g(4), of e, unfolded e] and r' = gmac_blocks_rest [OF e]
  consider "gm_rp g = 0" | "gm_rp g \<noteq> 0" "gm_rp g + length e < 16" | "gm_rp g \<noteq> 0" "16 \<le> gm_rp g + length e" by linarith
  then show ?thesis
  proof cases
    case 1
    then show ?thesis using e de r' g assms by (simp add: gmac_rep_def gmac_update_def gmac_rest_def)
  next
    case 2
    then have "y' = gm_y g" "r' = ?rest @ e" using e g by (simp_all add: gmac_blocks.simps [of _ _ "?rest @ e"])
    then show ?thesis using 2 de g assms by (simp add: gmac_rep_def gmac_update_def gmac_fill_short Let_def)
  next
    case 3
    let ?n = "16 - gm_rp g"
    have t: "take 16 (?rest @ e) = ?rest @ take ?n e" "drop 16 (?rest @ e) = drop ?n e" "length (?rest @ take ?n e) = 16" using g 3 by simp_all
    have "gmac_blocks k (gmac_block k (gm_y g) (?rest @ take ?n e)) (drop ?n e) = (y', r')"
      using e 3 g unfolding gmac_blocks.simps [of _ _ "?rest @ e"] t by simp
    then show ?thesis using 3 de r' g assms t(3) by (simp add: gmac_rep_def gmac_update_def gmac_fill_block gmac_rest_def Let_def)
  qed
qed

lemma ghash_blocks: "gmac_blocks k y d = (y', rest) \<Longrightarrow> ghash k y d = ghash k y' rest"
proof (induction k y d rule: gmac_blocks.induct)
  case (1 k y d)
  then show ?case by (cases "16 \<le> length d") (auto simp: gmac_blocks.simps [of k y d] ghash.simps [of k y d])
qed

lemma gmac_rep_finish:
  assumes "gmac_rep k iv d g" "length d < 2 ^ 32"
  shows "gmac_finish g = gmac_tag k iv d"
proof -
  have l: "push_bit 3 (ucast (of_nat (length d) :: u32)) = (of_nat (8 * length d) :: u64)"
    using assms(2) by (simp add: push_bit_eq_mult unsigned_of_nat take_bit_nat_eq_self)
  have "ghash k (replicate 16 0) d = ghash k (gm_y g) (take (gm_rp g) (gm_r g))"
    using assms(1) ghash_blocks by (simp add: gmac_rep_def)
  also have "\<dots> = (if gm_rp g \<noteq> 0 then gmac_block k (gm_y g) (take (gm_rp g) (gm_r g) @ replicate (16 - gm_rp g) 0) else gm_y g)"
    using assms(1) by (auto simp: gmac_rep_def ghash.simps)
  finally show ?thesis using assms(1) l by (simp add: gmac_finish_def gmac_tag_def gmac_rep_def Let_def del: be_bytes_numeral)
qed

lemma gmac_rep_init: "12 \<le> length iv \<Longrightarrow> gmac_rep k iv [] (gmac_init iv (gmac_new k))"
  by (simp add: gmac_rep_def gmac_init_def gmac_new_def gmac_blocks.simps)

lemma gmac_rep_fold: "gmac_rep k iv d g \<Longrightarrow> gmac_rep k iv (d @ concat ds) (fold gmac_update ds g)"
  by (induction ds arbitrary: d g) (simp, metis append.assoc concat.simps(2) gmac_rep_update fold_simps(2))

section \<open>Encryption with a synthetic initialisation vector\<close>

lemma length_expand_key: "length (expand_key (map f [0..<8])) = 60"
proof -
  have r: "length (expand_rcon i l) = length l + 4" "length (expand_sub i l) = length l + 4" for i l
    by (simp_all add: expand_rcon_def expand_sub_def Let_def)
  have "length (fold (\<lambda>i rk. expand_sub i (expand_rcon i rk)) is l) = length l + 8 * length is" for "is" l
    by (induction "is" arbitrary: l) (simp_all add: r)
  then show ?thesis by (simp add: expand_key_def r)
qed

lemma init_keys [simp]: "length (aes_ek (p_initSW key)) = 60" "aes_dk (p_initSW key) = decrypt_keys (aes_ek (p_initSW key))"
  by (simp_all add: p_initSW_def Let_def length_expand_key)

lemma length_decrypt [simp]: "length (p_decryptSW rk b) = 16"
  by (simp add: p_decryptSW_def)

lemma encrypt_decrypt:
  assumes "length ek = 60" "length b = 16"
  shows "p_encryptSW ek (p_decryptSW (decrypt_keys ek) b) = b"
proof -
  let ?B = "{b :: bytes. length b = 16}"
  have f: "finite ?B" using finite_lists_length_eq [of "UNIV :: u8 set" 16] by simp
  have "inj_on (p_encryptSW ek) ?B" 
    by (rule inj_on_inverseI [where g = "p_decryptSW (decrypt_keys ek)"]) (simp add: aes_roundtrip0 assms(1))
  then have "p_encryptSW ek ` ?B = ?B" by (intro endo_inj_surj f) auto
  then obtain a where "b = p_encryptSW ek a" "length a = 16" using assms(2) by blast
  then show ?thesis using aes_roundtrip0 [OF assms(1)] by simp
qed

lemma gmac_rep_iv: "gmac_rep k iv d g \<Longrightarrow> take 12 iv = take 12 iv' \<Longrightarrow> gmac_rep k iv' d g"
  by (simp add: gmac_rep_def)

lemma gmac_rep_aad:
  assumes "gmac_rep k iv [] g"
  shows "gmac_rep k iv (aad @ replicate ((16 - length aad mod 16) mod 16) 0) (siv_aad aad g)"
proof (cases "length aad mod 16 = 0")
  case True
  then show ?thesis using gmac_rep_update [OF assms, of aad] by (simp add: siv_aad_def)
next
  case False
  then have "(16 - length aad mod 16) mod 16 = 16 - length aad mod 16" by simp
  then show ?thesis using False gmac_rep_update [OF gmac_rep_update [OF assms, of aad], of "replicate (16 - length aad mod 16) 0"]
    by (simp add: siv_aad_def Let_def)
qed

lemma siv_length: "length (siv_data aad m) < length aad + length m + 16"
  by (simp add: siv_data_def)

lemma length_counter [simp]: "length (siv_counter t) = length t"
  by (simp add: siv_counter_def)

lemma gmac_tag_iv: "take 12 iv = take 12 iv' \<Longrightarrow> gmac_tag k iv d = gmac_tag k iv' d"
  by (simp add: gmac_tag_def)

lemma siv_mac_gmac:
  assumes "length iv = 8" "length aad + length m + 16 < 2 ^ 32" "concat ps = m"
  shows "gmac_finish (fold gmac_update ps (siv_aad aad (gmac_init (iv @ replicate 8 0) (gmac_new k)))) = gmac_tag k (iv @ replicate 8 0) (siv_data aad m)"
proof -
  have "gmac_rep k (iv @ replicate 8 0) [] (gmac_init (iv @ replicate 8 0) (gmac_new k))" using assms(1) by (intro gmac_rep_init) simp
  from gmac_rep_fold [OF gmac_rep_aad [OF this], of aad ps]
  show ?thesis using assms(2,3) siv_length [of aad m] by (intro gmac_rep_finish) (auto simp: siv_data_def)
qed

lemma fold_update1: "fold siv_update1 ps e = e\<lparr>se_gmac := fold gmac_update ps (se_gmac e)\<rparr>"
  by (induction ps arbitrary: e) (simp_all add: siv_update1_def)

lemma fold_update2: "fold siv_update2 ps e = e\<lparr>se_ctr := fold ctr_crypt ps (se_ctr e)\<rparr>"
  by (induction ps arbitrary: e) (simp_all add: siv_update2_def)

lemma ct_aes_crypt [simp]: "ct_aes (ctr_init iv s) = ct_aes s" "ct_aes (ctr_new k) = k"
  by (simp_all add: ctr_init_def ctr_new_def)

lemma siv_seal_code:
  assumes "length iv = 8" "length aad + length m + 16 < 2 ^ 32" "concat ps1 = m" "concat ps2 = m"
  shows "siv_finish2 (fold siv_update2 ps2 (siv_finish1 (fold siv_update1 ps1 (siv_enc_aad aad (siv_enc_init k0 k1 iv))))) = siv_seal k0 k1 iv aad m"
proof -
  show ?thesis
    using siv_mac_gmac [OF assms(1,2,3), of k0] assms(1)
    by (simp add: siv_finish2_def fold_update2 siv_finish1_def fold_update1 siv_enc_aad_def siv_enc_init_def Let_def siv_seal_def siv_mac_def ctr_pieces assms(4))
qed

lemma fold_dec_update:
  "sd_decryptedLen d + length (concat cs) < 2 ^ 32 \<Longrightarrow>
   fold siv_dec_update cs d = d\<lparr>sd_ctr := fold ctr_crypt cs (sd_ctr d), sd_decryptedLen := sd_decryptedLen d + length (concat cs)\<rparr>"
  by (induction cs arbitrary: d) (simp_all add: siv_dec_update_def)

lemma siv_open_code:
  assumes "length tag = 16" "length aad + length ct + 16 < 2 ^ 32" "concat cs = ct"
  shows "siv_dec_finish (fold siv_dec_update cs (siv_dec_aad aad (siv_dec_init k0 k1 tag))) = siv_open k0 k1 tag aad ct"
proof -
  let ?b = "p_decryptSW (aes_dk k1) tag" and ?c = "siv_counter tag"
  have "length (take 8 ?b) = 8" "length aad + length (ctr_stream (aes_ek k1) ?c ct) + 16 < 2 ^ 32" using assms(2) by simp_all
  from siv_mac_gmac [OF this, of "[ctr_stream (aes_ek k1) ?c ct]" k0]
  show ?thesis using assms(2,3)
    by (simp add: siv_dec_finish_def siv_dec_aad_def siv_dec_init_def fold_dec_update Let_def siv_open_def siv_mac_def ctr_pieces assms(1))
qed

lemma siv_open_iff:
  assumes "length tag = 16"
  shows "siv_open k0 (p_initSW key) tag aad ct = (True, m) \<longleftrightarrow> (\<exists>iv. length iv = 8 \<and> siv_seal k0 (p_initSW key) iv aad m = (tag, ct))"
proof
  let ?k = "p_initSW key"
  let ?b = "p_decryptSW (aes_dk ?k) tag"
  assume o: "siv_open k0 ?k tag aad ct = (True, m)"
  then have m: "m = ctr_stream (aes_ek ?k) (siv_counter tag) ct" "siv_mac k0 (take 8 ?b) aad m = drop 8 ?b" by (auto simp: siv_open_def Let_def)
  have "p_encryptSW (aes_ek ?k) (take 8 ?b @ siv_mac k0 (take 8 ?b) aad m) = tag"
    unfolding m(2) using encrypt_decrypt [of "aes_ek ?k" tag] assms by simp
  then have "siv_seal k0 ?k (take 8 ?b) aad m = (tag, ct)" by (simp add: siv_seal_def Let_def) (simp add: m(1) ctr_stream_twice)
  then show "\<exists>iv. length iv = 8 \<and> siv_seal k0 ?k iv aad m = (tag, ct)" by (intro exI [of _ "take 8 ?b"]) simp
next
  let ?k = "p_initSW key"
  assume "\<exists>iv. length iv = 8 \<and> siv_seal k0 ?k iv aad m = (tag, ct)"
  then obtain iv where iv: "length iv = 8" "siv_seal k0 ?k iv aad m = (tag, ct)" by blast
  have "length (siv_mac k0 iv aad m) = 8"
    by (simp add: siv_mac_def gmac_tag_def Let_def gmac_block_def s_gfmul_def split: prod.splits del: be_bytes_numeral)
  then have "p_decryptSW (aes_dk ?k) tag = iv @ siv_mac k0 iv aad m"
    using iv aes_roundtrip0 [of "aes_ek ?k" "iv @ siv_mac k0 iv aad m"] by (auto simp: siv_seal_def Let_def)
  then show "siv_open k0 ?k tag aad ct = (True, m)"
    using iv by (auto simp: siv_open_def siv_seal_def Let_def ctr_stream_twice)
qed

text \<open>C8: Under every key, software decryption of a block inverts encryption and encryption inverts decryption: the lookup tables and the two key schedules fit together.\<close>

theorem aes_inverse:
  assumes "length b = 16"
  shows "p_decryptSW (aes_dk (p_initSW key)) (p_encryptSW (aes_ek (p_initSW key)) b) = b \<and>
    p_encryptSW (aes_ek (p_initSW key)) (p_decryptSW (aes_dk (p_initSW key)) b) = b"
  using aes_roundtrip0 encrypt_decrypt assms by simp

theorem aes_inverse_witness:
  "p_decryptSW (aes_dk (p_initSW (replicate 32 7))) (p_encryptSW (aes_ek (p_initSW (replicate 32 7))) (replicate 16 3)) = replicate 16 3"
  using aes_inverse [of "replicate 16 3" "replicate 32 7"] by simp

text \<open>C7: The decryptor of AES-GMAC-SIV accepts a message exactly when the encryptor with the same keys and additional data produces its tag and ciphertext from
  the plaintext it returns, for some initialisation vector, however the data is cut into pieces in either pass. In particular it undoes encryption.\<close>

theorem siv_exact:
  assumes "length tag = 16" "length aad + length ct + 16 < 2 ^ 32" "concat cs = ct" "concat ps1 = m" "concat ps2 = m" "length m = length ct"
  shows "siv_dec_finish (fold siv_dec_update cs (siv_dec_aad aad (siv_dec_init k0 (p_initSW key) tag))) = (True, m) \<longleftrightarrow>
    (\<exists>iv. length iv = 8 \<and>
      siv_finish2 (fold siv_update2 ps2 (siv_finish1 (fold siv_update1 ps1 (siv_enc_aad aad (siv_enc_init k0 (p_initSW key) iv))))) = (tag, ct))"
proof -
  have "length aad + length m + 16 < 2 ^ 32" using assms(2,6) by simp
  note s = siv_seal_code [OF _ this assms(4,5)]
  show ?thesis unfolding siv_open_code [OF assms(1,2,3)] siv_open_iff [OF assms(1)] using s by metis
qed

theorem siv_exact_witness:
  "let k0 = p_initSW (replicate 32 1); k1 = p_initSW (replicate 32 2);
       (tag, ct) = siv_finish2 (fold siv_update2 [[1, 2], [3]] (siv_finish1 (fold siv_update1 [[1, 2, 3]] (siv_enc_aad [9, 8] (siv_enc_init k0 k1 (replicate 8 5)))))) in
   siv_dec_finish (fold siv_dec_update [take 1 ct, drop 1 ct] (siv_dec_aad [9, 8] (siv_dec_init k0 k1 tag))) = (True, [1, 2, 3])"
proof -
  define k0 k1 where "k0 = p_initSW (replicate 32 1)" and "k1 = p_initSW (replicate 32 2)"
  define e where "e = siv_finish2 (fold siv_update2 [[1, 2], [3]] (siv_finish1 (fold siv_update1 [[1, 2, 3]] (siv_enc_aad [9, 8] (siv_enc_init k0 k1 (replicate 8 5))))))"
  have "e = siv_seal k0 k1 (replicate 8 5) [9, 8] [1, 2, 3]"
    unfolding e_def by (rule siv_seal_code) simp_all
  then have "length (fst e) = 16" "length (snd e) = 3" by (simp_all add: siv_seal_def Let_def)
  then have "siv_dec_finish (fold siv_dec_update [take 1 (snd e), drop 1 (snd e)] (siv_dec_aad [9, 8] (siv_dec_init k0 k1 (fst e)))) = (True, [1, 2, 3])"
    using siv_exact [of "fst e" "[9, 8]" "snd e" "[take 1 (snd e), drop 1 (snd e)]" "[[1, 2, 3]]" "[1, 2, 3]" "[[1, 2], [3]]" k0 "replicate 32 2"]
    unfolding k1_def [symmetric] e_def [symmetric] by (auto intro!: exI [of _ "replicate 8 5"] simp: e_def)
  then show ?thesis unfolding k0_def [symmetric] k1_def [symmetric] Let_def e_def [symmetric] by (simp add: case_prod_unfold)
qed

end
