(* ===== verification/ZT_Armor.thy ===== *)
theory ZT_Armor
  imports ZT_Packet ZT_Salsa20 ZT_Poly1305 ZT_GMACSIV
begin

text \<open>
  \<^verbatim>\<open>node/Packet.cpp\<close>, \<open>armor\<close>, \<open>dearmor\<close> and \<open>cryptField\<close>: how a packet is encrypted and authenticated, on the models of Salsa20, Poly1305 and AES-GMAC-SIV. The code works on
  the raw array of the packet; an access outside it is undefined behaviour. Key agreement of \<^verbatim>\<open>node/ECC.hpp\<close> is a parameter, and so are what the scratch blocks of
  the ciphers held and the ephemeral key pair. Shown is that a receiver with the same key restores every armored packet, also when relays have changed its hop count, and that a packet is
  accepted only if its bytes are what arming the restored packet gives.
\<close>

unbundle bit_operations_syntax

section \<open>Arming and disarming a packet\<close>

record armor_env =
  ae_agree :: "bytes \<Rightarrow> bytes \<Rightarrow> bytes"
  ae_ephemeral :: "bytes \<times> bytes"
  ae_tmp :: bytes
  ae_buf :: bytes

definition raw_read :: "buffer \<Rightarrow> nat \<Rightarrow> nat \<Rightarrow> bytes result" where
  "raw_read p i n = mem_read (buf_b p) i n"

definition raw_write :: "nat \<Rightarrow> bytes \<Rightarrow> buffer \<Rightarrow> buffer result" where
  "raw_write i bs p = bindE (mem_write (buf_b p) i bs) (\<lambda>m. Inr (p\<lparr>buf_b := m\<rparr>))"

definition armor_aes :: "aes \<times> aes \<Rightarrow> buffer \<Rightarrow> buffer result" where
  "armor_aes ks p =
    bindE (packet_setCipher CIPHER_AES_GMAC_SIV p) (\<lambda>p.
    bindE (raw_read p IDX_IV 8) (\<lambda>iv.
    bindE (raw_read p IDX_DEST 11) (\<lambda>aad.
    bindE (raw_read p IDX_VERB (usub (buf_size p) IDX_VERB)) (\<lambda>payload.
    let enc = siv_finish1 (siv_update1 payload (siv_enc_aad aad (siv_enc_init (fst ks) (snd ks) iv)));
        (tag, out) = siv_finish2 (siv_update2 payload enc) in
    bindE (raw_write IDX_VERB out p) (\<lambda>p. bindE (raw_write IDX_IV (take 8 tag) p) (raw_write IDX_MAC (drop 8 tag)))))))"

text \<open>The cipher of a packet and the key of its authenticator.\<close>

definition packet_salsa :: "bytes \<Rightarrow> bytes \<Rightarrow> buffer \<Rightarrow> (u32 list \<times> bytes) result" where
  "packet_salsa tmp key p =
    bindE (salsa20MangleKey key p) (\<lambda>k. bindE (raw_read p IDX_IV 8) (\<lambda>iv. Inr (crypt12 tmp (salsa20_init k iv) (replicate 32 0))))"

definition armor_salsa :: "armor_env \<Rightarrow> bytes \<Rightarrow> bool \<Rightarrow> buffer \<Rightarrow> buffer result" where
  "armor_salsa env key encryptPayload p =
    bindE (packet_setCipher (if encryptPayload then CIPHER_POLY1305_SALSA2012 else 0) p) (\<lambda>p.
    bindE (packet_salsa (ae_tmp env) key p) (\<lambda>(s20, macKey).
    bindE (raw_read p IDX_VERB (usub (buf_size p) IDX_VERB)) (\<lambda>payload.
    let payload = (if encryptPayload then snd (crypt12 (ae_tmp env) s20 payload) else payload) in
    bindE (raw_write IDX_VERB payload p) (raw_write IDX_MAC (take 8 (poly1305_compute (ae_buf env) payload macKey))))))"

text \<open>The additional encryption with an ephemeral key, from the authenticator on.\<close>

definition ephemeral_crypt :: "bytes \<Rightarrow> nat \<Rightarrow> buffer \<Rightarrow> buffer result" where
  "ephemeral_crypt k len p =
    bindE (raw_read p 0 12) (\<lambda>iv. bindE (raw_read p IDX_MAC len) (\<lambda>data.
    raw_write IDX_MAC (ctr_finish (ctr_crypt data (ctr_init_ic iv 0 (ctr_new (p_initSW k))))) p))"

definition armor_extended :: "armor_env \<Rightarrow> bytes \<Rightarrow> buffer \<Rightarrow> buffer result" where
  "armor_extended env publicKey p =
    (let (priv, pub) = ae_ephemeral env in
     bindE (ephemeral_crypt (ae_agree env priv publicKey) (usub (buf_size p) IDX_MAC) p) (buf_append_bytes pub 32))"

definition packet_armor :: "armor_env \<Rightarrow> bytes \<Rightarrow> bool \<Rightarrow> bool \<Rightarrow> (aes \<times> aes) option \<Rightarrow> bytes \<Rightarrow> buffer \<Rightarrow> buffer result" where
  "packet_armor env key encryptPayload extendedArmor aesKeys publicKey p =
    bindE (packet_setExtendedArmor extendedArmor p) (\<lambda>p.
    bindE (if aesKeys \<noteq> None \<and> encryptPayload then armor_aes (the aesKeys) p else armor_salsa env key encryptPayload p) (\<lambda>p.
    if extendedArmor then armor_extended env publicKey p else Inr p))"

definition dearmor_extended :: "armor_env \<Rightarrow> bytes \<Rightarrow> buffer \<Rightarrow> buffer result" where
  "dearmor_extended env privateKey p =
    bindE (raw_read p (usub (buf_size p) 32) 32) (\<lambda>pub.
    bindE (ephemeral_crypt (ae_agree env privateKey pub) (usub (usub (buf_size p) IDX_MAC) 32) p) (\<lambda>p.
    buf_setSize (usub (buf_size p) 32) p))"

text \<open>The hop count in the flags is masked while they are authenticated. The payload is overwritten even if the packet is refused.\<close>

definition dearmor_aes :: "aes \<times> aes \<Rightarrow> buffer \<Rightarrow> (bool \<times> buffer) result" where
  "dearmor_aes ks p =
    bindE (raw_read p IDX_IV 8) (\<lambda>t0.
    bindE (raw_read p IDX_MAC 8) (\<lambda>t1.
    bindE (raw_read p IDX_DEST 11) (\<lambda>aad.
    bindE (raw_read p IDX_VERB (usub (buf_size p) IDX_VERB)) (\<lambda>payload.
    let dec = siv_dec_aad (aad[10 := aad ! 10 AND 0xf8]) (siv_dec_init (fst ks) (snd ks) (t0 @ t1));
        (ok, out) = siv_dec_finish (siv_dec_update payload dec) in
    bindE (raw_write IDX_VERB out p) (\<lambda>p. Inr (ok, p))))))"

definition dearmor_salsa :: "armor_env \<Rightarrow> bytes \<Rightarrow> bool \<Rightarrow> buffer \<Rightarrow> (bool \<times> buffer) result" where
  "dearmor_salsa env key encrypted p =
    bindE (packet_salsa (ae_tmp env) key p) (\<lambda>(s20, macKey).
    bindE (raw_read p IDX_VERB (usub (buf_size p) IDX_VERB)) (\<lambda>payload.
    bindE (raw_read p IDX_MAC 8) (\<lambda>mac.
    bindE (secureEq (poly1305_compute (ae_buf env) payload macKey) mac 8) (\<lambda>ok.
    if \<not> ok then Inr (False, p)
    else if encrypted then bindE (raw_write IDX_VERB (snd (crypt12 (ae_tmp env) s20 payload)) p) (\<lambda>p. Inr (True, p))
    else Inr (True, p)))))"

definition packet_dearmor :: "armor_env \<Rightarrow> bytes \<Rightarrow> (aes \<times> aes) option \<Rightarrow> bytes \<Rightarrow> buffer \<Rightarrow> (bool \<times> buffer) result" where
  "packet_dearmor env key aesKeys privateKey p =
    bindE (packet_cipher p) (\<lambda>cs.
    bindE (packet_extendedArmor p) (\<lambda>ea.
    if ea \<and> cs = 0 \<and> buf_size p < IDX_VERB + 1 + 32 then Inr (False, p)
    else bindE (if ea \<and> cs = 0 then dearmor_extended env privateKey p else Inr p) (\<lambda>p.
    if cs = CIPHER_AES_GMAC_SIV then
      (case aesKeys of Some ks \<Rightarrow> dearmor_aes ks p | None \<Rightarrow> Inr (False, p))
    else if cs = 0 \<or> cs = CIPHER_POLY1305_SALSA2012 then dearmor_salsa env key (cs = CIPHER_POLY1305_SALSA2012) p
    else Inr (False, p))))"

text \<open>Encrypting part of a packet with the lowest bits of the IV masked.\<close>

definition packet_cryptField :: "bytes \<Rightarrow> bytes \<Rightarrow> nat \<Rightarrow> nat \<Rightarrow> buffer \<Rightarrow> buffer result" where
  "packet_cryptField tmp key start len p =
    bindE (raw_read p 0 8) (\<lambda>iv. bindE (raw_read p start len) (\<lambda>data.
    raw_write start (snd (crypt12 tmp (salsa20_init key (iv[7 := iv ! 7 AND 0xf8])) data)) p))"

section \<open>The bytes of an armored packet\<close>

text \<open>The mangled key, the authenticator and the payload as functions of the bytes of the packet.\<close>

definition mangled :: "bytes \<Rightarrow> bytes \<Rightarrow> bytes" where
  "mangled key d = map2 (XOR) (take 18 key) (take 18 d) @
    [key ! 18 XOR (d ! 18 AND 0xf8), key ! 19 XOR of_nat (length d mod 256), key ! 20 XOR of_nat (length d div 256 mod 256)] @ drop 21 key"

definition salsa_mac :: "bytes \<Rightarrow> bytes \<Rightarrow> bytes \<Rightarrow> bytes" where
  "salsa_mac key d payload = take 8 (poly1305_compute (replicate 16 0) payload (take 32 (salsa20_blocks 6 (mangled key d) (take 8 d) 0 1)))"

definition salsa_payload :: "bytes \<Rightarrow> bytes \<Rightarrow> bytes \<Rightarrow> bytes" where
  "salsa_payload key d payload = map2 (XOR) payload (salsa20_blocks 6 (mangled key d) (take 8 d) 1 ((length payload + 63) div 64))"

definition salsa_wire :: "bytes \<Rightarrow> bool \<Rightarrow> bytes \<Rightarrow> bytes" where
  "salsa_wire key encrypt d =
    (let payload = (if encrypt then salsa_payload key d (drop 27 d) else drop 27 d) in take 19 d @ salsa_mac key d payload @ payload)"

text \<open>The part of the header that the key depends on, the flags byte with a cipher suite, and a packet with given bytes in the same array.\<close>

definition same_header :: "bytes \<Rightarrow> bytes \<Rightarrow> bool" where
  "same_header d d' \<longleftrightarrow> take 18 d = take 18 d' \<and> d ! 18 AND 0xf8 = d' ! 18 AND 0xf8 \<and> length d = length d'"

definition wire_ok :: "buffer \<Rightarrow> bytes \<Rightarrow> buffer \<Rightarrow> bool" where
  "wire_ok p d p' \<longleftrightarrow> buf_inv p' \<and> buf_capacity p' = buf_capacity p \<and> buf_data p' = d"

abbreviation cipher_flags :: "nat \<Rightarrow> bytes \<Rightarrow> bytes" where
  "cipher_flags c d \<equiv> patch 18 [(d ! 18 AND 0xc7) OR (push_bit 3 (of_nat c) AND 0x38)] d"

abbreviation extended_flag :: "bool \<Rightarrow> u8 \<Rightarrow> u8" where
  "extended_flag ext x \<equiv> (if ext then x OR 0x80 else x AND NOT 0x80)"

definition armor_ready :: "armor_env \<Rightarrow> bytes \<Rightarrow> buffer \<Rightarrow> bool" where
  "armor_ready env key p \<longleftrightarrow> buf_inv p \<and> 28 \<le> buf_size p \<and> length key = 32 \<and> length (ae_tmp env) = 64 \<and> length (ae_buf env) = 16"

text \<open>The packet as it arrives: the bytes sent, but for the hop count.\<close>

definition relayed :: "bytes \<Rightarrow> buffer \<Rightarrow> bool" where
  "relayed d p2 \<longleftrightarrow> buf_inv p2 \<and> (\<exists>y. y AND 0xf8 = d ! 18 AND 0xf8 \<and> buf_data p2 = d[18 := y])"

definition restored :: "buffer \<Rightarrow> (bool \<times> buffer) result \<Rightarrow> bool" where
  "restored p r \<longleftrightarrow> (\<exists>p3. r = Inr (True, p3) \<and> buf_inv p3 \<and> drop IDX_VERB (buf_data p3) = drop IDX_VERB (buf_data p)
     \<and> take 10 (drop IDX_DEST (buf_data p3)) = take 10 (drop IDX_DEST (buf_data p)))"

section \<open>What the operations do to the bytes\<close>

lemma raw_read_data: "buf_inv p \<Longrightarrow> i + n \<le> buf_l p \<Longrightarrow> raw_read p i n = Inr (take n (drop i (buf_data p)))"
  by (simp add: raw_read_def mem_read_def buf_inv_def buf_capacity_def buf_data_def drop_take min_def)

lemma raw_write_upd: "buf_inv p \<Longrightarrow> i + length bs \<le> buf_l p \<Longrightarrow> raw_write i bs p = Inr (buf_upd i bs p)"
  by (simp add: raw_write_def mem_write_def buf_inv_def buf_capacity_def buf_upd_def)

lemma usub_size: "buf_inv p \<Longrightarrow> n \<le> buf_l p \<Longrightarrow> usub (buf_size p) n = buf_l p - n"
  by (simp add: buf_inv_def buf_size_def)

lemma length_data: "buf_inv p \<Longrightarrow> length (buf_data p) = buf_l p"
  by (simp add: buf_inv_def buf_data_def buf_capacity_def)

lemmas raw_data = raw_read_data raw_write_upd usub_size length_data

lemma length_mangled [simp]: "length key = 32 \<Longrightarrow> 18 \<le> length d \<Longrightarrow> length (mangled key d) = 32"
  by (simp add: mangled_def)

lemma mangled_cong: "same_header d d' \<Longrightarrow> mangled key d = mangled key d'"
  by (simp add: same_header_def mangled_def)

lemma take_take_eq: "take n d = take n d' \<Longrightarrow> m \<le> n \<Longrightarrow> take m d = take m d'"
  by (metis min.absorb1 take_take)

lemma salsa_cong: "same_header d d' \<Longrightarrow> salsa_mac key d m = salsa_mac key d' m \<and> salsa_payload key d m = salsa_payload key d' m"
  using take_take_eq [of 18 d d' 8] by (auto simp: salsa_mac_def salsa_payload_def mangled_cong) (auto simp: same_header_def)

lemma blocks_cover: "length m \<le> 64 * ((length m + 63) div 64)"
  by linarith

lemma length_salsa [simp]: "length key = 32 \<Longrightarrow> 18 \<le> length d \<Longrightarrow> length (salsa_mac key d m) = 8" "length (salsa_payload key d m) = length m"
  using poly1305_computes [of "take 32 (salsa20_blocks 6 (mangled key d) (take 8 d) 0 1)" "replicate 16 0"]
  by (simp_all add: salsa_mac_def salsa_payload_def min_def blocks_cover)

lemma salsa_payload_twice: "salsa_payload key d (salsa_payload key d m) = m"
  by (simp add: salsa_payload_def min_def blocks_cover xor_stream_twice)

lemma packet_salsa_data:
  assumes "buf_inv p" "28 \<le> buf_l p" "length key = 32" "length tmp = 64"
  defines "k \<equiv> mangled key (buf_data p)" and "iv \<equiv> take 8 (buf_data p)"
  shows "packet_salsa tmp key p = Inr (salsa20_expand k iv 1, take 32 (salsa20_blocks 6 k iv 0 1))"
proof -
  have l: "length (buf_data p) = buf_l p" using assms(1) by (rule length_data)
  have m: "salsa20MangleKey key p = Inr k"
    using mangle_data [OF assms(1) _ assms(3)] assms(2) by (simp add: k_def mangled_def buf_size_def l)
  have z: "map2 (XOR) (replicate 32 0) b = take 32 b" if "32 \<le> length b" for b :: bytes
    using that by (intro nth_equalityI) auto
  have "crypt12 tmp (salsa20_expand k iv 0) (replicate 32 0) = (salsa20_expand k iv 1, take 32 (salsa20_blocks 6 k iv 0 1))"
    using crypt12_stream [of k iv tmp 0 "replicate 32 0"] assms l z by simp
  moreover have "length k = 32" using assms l by simp
  ultimately show ?thesis using m assms(1,2) l by (simp add: packet_salsa_def raw_data init_expand iv_def)
qed

lemma patch_tail: "27 \<le> length d \<Longrightarrow> length m = 8 \<Longrightarrow> length b = length d - 27 \<Longrightarrow> patch 19 m (patch 27 b d) = take 19 d @ m @ b"
  by (simp add: patch_def min_def)

lemma wire_l: "wire_ok p d p' \<Longrightarrow> buf_l p' = length d"
  by (auto simp: wire_ok_def length_data)

lemma tail_written: "buf_inv q \<Longrightarrow> 28 \<le> buf_l q \<Longrightarrow> length m = 8 \<Longrightarrow> length b = buf_l q - 27 \<Longrightarrow>
    wire_ok q (take 19 (buf_data q) @ m @ b) (buf_upd 19 m (buf_upd 27 b q))"
  using patch_tail [of "buf_data q" m b] by (simp add: wire_ok_def length_data)

lemma setCipher_data: "buf_inv p \<Longrightarrow> 28 \<le> buf_l p \<Longrightarrow> \<exists>q. packet_setCipher c p = Inr q \<and> wire_ok p (cipher_flags c (buf_data p)) q"
  by (simp add: packet_setCipher_def buf_modify_upd wire_ok_def)

lemma armor_salsa_data:
  assumes "buf_inv p" "28 \<le> buf_l p" "length key = 32" "length (ae_tmp env) = 64" "length (ae_buf env) = 16"
  shows "\<exists>p'. armor_salsa env key e p = Inr p' \<and> wire_ok p (salsa_wire key e (cipher_flags (if e then 1 else 0) (buf_data p))) p'"
proof -
  let ?c = "if e then 1 else 0 :: nat"
  obtain q where q: "packet_setCipher ?c p = Inr q" "wire_ok p (cipher_flags ?c (buf_data p)) q" using setCipher_data [OF assms(1,2)] by blast
  let ?d = "buf_data q" and ?pl = "\<lambda>d. if e then salsa_payload key d (drop 27 d) else drop 27 d"
  have i: "buf_inv q" "buf_l q = buf_l p" "?d = cipher_flags ?c (buf_data p)" "buf_capacity q = buf_capacity p"
    using q(2) wire_l [OF q(2)] assms(1,2) by (auto simp: wire_ok_def length_data)
  let ?k = "mangled key ?d" and ?iv = "take 8 ?d"
  have s: "packet_salsa (ae_tmp env) key q = Inr (salsa20_expand ?k ?iv 1, take 32 (salsa20_blocks 6 ?k ?iv 0 1))"
    using packet_salsa_data [OF i(1) _ assms(3,4)] i(2) assms(2) by simp
  have l: "length ?d = buf_l p" using length_data [OF i(1)] i(2) by simp
  have c: "snd (crypt12 (ae_tmp env) (salsa20_expand ?k ?iv 1) m) = salsa_payload key ?d m" for m
    using crypt12_stream [of ?k ?iv "ae_tmp env" 1 m] assms l by (simp add: salsa_payload_def)
  have m: "take 8 (poly1305_compute (ae_buf env) m (take 32 (salsa20_blocks 6 ?k ?iv 0 1))) = salsa_mac key ?d m" for m
    using poly1305_buffer [of "take 32 (salsa20_blocks 6 ?k ?iv 0 1)" "ae_buf env" "replicate 16 0" m] assms(5) by (simp add: salsa_mac_def)
  have w: "raw_write 19 (salsa_mac key ?d (?pl ?d)) (buf_upd 27 (?pl ?d) q) = Inr (buf_upd 19 (salsa_mac key ?d (?pl ?d)) (buf_upd 27 (?pl ?d) q))"
    using i(1,2) l assms by (intro raw_write_upd) auto
  have "armor_salsa env key e p = Inr (buf_upd 19 (salsa_mac key ?d (?pl ?d)) (buf_upd 27 (?pl ?d) q))"
    using i(1,2) l assms w q(1)
    by (cases e) (simp_all add: armor_salsa_def s c m Let_def raw_data del: One_nat_def)
  moreover have "wire_ok q (salsa_wire key e ?d) (buf_upd 19 (salsa_mac key ?d (?pl ?d)) (buf_upd 27 (?pl ?d) q))"
    unfolding salsa_wire_def Let_def using i(1,2) l assms by (intro tail_written) auto
  then have "wire_ok p (salsa_wire key e (cipher_flags ?c (buf_data p))) (buf_upd 19 (salsa_mac key ?d (?pl ?d)) (buf_upd 27 (?pl ?d) q))"
    unfolding i(3) [symmetric] using i(4) by (simp add: wire_ok_def)
  ultimately show ?thesis by blast
qed


lemma dearmor_salsa_data:
  assumes "buf_inv p" "28 \<le> buf_l p" "length key = 32" "length (ae_tmp env) = 64" "length (ae_buf env) = 16"
  defines "d \<equiv> buf_data p"
  shows "dearmor_salsa env key e p = Inr (if salsa_mac key d (drop 27 d) = take 8 (drop 19 d)
    then (True, if e then buf_upd 27 (salsa_payload key d (drop 27 d)) p else p) else (False, p))"
proof -
  let ?k = "mangled key d" and ?iv = "take 8 d"
  have l: "length d = buf_l p" using assms(1) by (simp add: length_data d_def)
  have s: "packet_salsa (ae_tmp env) key p = Inr (salsa20_expand ?k ?iv 1, take 32 (salsa20_blocks 6 ?k ?iv 0 1))"
    using packet_salsa_data [OF assms(1-4)] by (simp add: d_def)
  have c: "snd (crypt12 (ae_tmp env) (salsa20_expand ?k ?iv 1) m) = salsa_payload key d m" for m
    using crypt12_stream [of ?k ?iv "ae_tmp env" 1 m] assms(2,3,4) l by (simp add: salsa_payload_def)
  let ?mac = "poly1305_compute (ae_buf env) (drop 27 d) (take 32 (salsa20_blocks 6 ?k ?iv 0 1))"
  have m: "length ?mac = 16" "take 8 ?mac = salsa_mac key d (drop 27 d)"
    using poly1305_buffer [of "take 32 (salsa20_blocks 6 ?k ?iv 0 1)" "ae_buf env" "replicate 16 0" "drop 27 d"]
      poly1305_computes [of "take 32 (salsa20_blocks 6 ?k ?iv 0 1)" "ae_buf env" "drop 27 d"] assms(5) by (simp_all add: salsa_mac_def)
  have r: "raw_read p 27 (usub (buf_size p) 27) = Inr (drop 27 d)" "raw_read p 19 8 = Inr (take 8 (drop 19 d))"
    using assms(1,2) l by (simp_all add: raw_data d_def)
  have "secureEq ?mac (take 8 (drop 19 d)) 8 = Inr (salsa_mac key d (drop 27 d) = take 8 (drop 19 d))"
    using secureEq_iff [of 8 ?mac "take 8 (drop 19 d)"] m assms(2) l by simp
  then show ?thesis
    using assms(1,2) l by (simp add: dearmor_salsa_def s r c raw_write_upd del: One_nat_def)
qed

lemma wire_upd: "buf_inv p \<Longrightarrow> i + length bs \<le> buf_l p \<Longrightarrow> wire_ok p (patch i bs (buf_data p)) (buf_upd i bs p)"
  by (simp add: wire_ok_def)

lemma ephemeral_data:
  assumes "buf_inv p" "19 + n \<le> buf_l p"
  defines "d \<equiv> buf_data p"
  shows "\<exists>p'. ephemeral_crypt k n p = Inr p' \<and> wire_ok p (patch 19 (ctr_stream (aes_ek (p_initSW k)) (take 12 d @ le_bytes 4 (0 :: u32)) (take n (drop 19 d))) d) p'"
proof -
  let ?c = "take 12 d @ le_bytes 4 (0 :: u32)" and ?m = "take n (drop 19 d)"
  have l: "length d = buf_l p" using assms(1) by (simp add: length_data d_def)
  have i: "ctr_init_ic (take 12 d) 0 (ctr_new (p_initSW k)) = ctr_init ?c (ctr_new (p_initSW k))"
    using l assms(2) by (simp add: ctr_init_ic_def ctr_init_def)
  have c: "ctr_finish (ctr_crypt ?m (ctr_init ?c (ctr_new (p_initSW k)))) = ctr_stream (aes_ek (p_initSW k)) ?c ?m"
    using ctr_pieces [of ?c "[?m]" "p_initSW k"] l assms(2) by simp
  have "ephemeral_crypt k n p = Inr (buf_upd 19 (ctr_stream (aes_ek (p_initSW k)) ?c ?m) p)"
    using assms(1,2) l i c by (simp add: ephemeral_crypt_def raw_data d_def [symmetric])
  then show ?thesis using wire_upd [OF assms(1), of 19 "ctr_stream (aes_ek (p_initSW k)) ?c ?m"] assms(2) l by (simp add: d_def)
qed

lemma armor_aes_data:
  assumes "buf_inv p" "28 \<le> buf_l p"
  defines "d \<equiv> cipher_flags 3 (buf_data p)"
  shows "\<exists>p'. armor_aes (k0, k1) p = Inr p' \<and> (case siv_seal k0 k1 (take 8 d) (take 11 (drop 8 d)) (drop 27 d) of (tag, ct) \<Rightarrow>
    wire_ok p (take 8 tag @ take 11 (drop 8 d) @ drop 8 tag @ ct) p')"
proof -
  obtain q where q: "packet_setCipher 3 p = Inr q" "wire_ok p d q" using setCipher_data [OF assms(1,2)] unfolding d_def by blast
  have i: "buf_inv q" "buf_l q = buf_l p" "buf_data q = d" "buf_capacity q = buf_capacity p" "length d = buf_l p"
    using q(2) wire_l [OF q(2)] assms(1,2) by (auto simp: wire_ok_def length_data d_def)
  obtain tag ct where s: "siv_seal k0 k1 (take 8 d) (take 11 (drop 8 d)) (drop 27 d) = (tag, ct)" by fastforce
  have t: "length tag = 16" "length ct = buf_l p - 27" using s i(5) by (auto simp: siv_seal_def Let_def)
  have b: "buf_l p \<le> 2 ^ 31" using assms(1) by (simp add: buf_inv_def)
  have code: "siv_finish2 (siv_update2 (drop 27 d) (siv_finish1 (siv_update1 (drop 27 d) (siv_enc_aad (take 11 (drop 8 d)) (siv_enc_init k0 k1 (take 8 d)))))) = (tag, ct)"
    using siv_seal_code [of "take 8 d" "take 11 (drop 8 d)" "drop 27 d" "[drop 27 d]" "[drop 27 d]" k0 k1] s i(5) assms(2) b by simp
  let ?p = "buf_upd 19 (drop 8 tag) (buf_upd 0 (take 8 tag) (buf_upd 27 ct q))"
  have "armor_aes (k0, k1) p = Inr ?p"
    using i t assms(2) code by (simp add: armor_aes_def q(1) raw_data Let_def)
  moreover have "wire_ok p (take 8 tag @ take 11 (drop 8 d) @ drop 8 tag @ ct) ?p"
    using i t assms(2) by (simp add: wire_ok_def) (simp add: patch_def min_def drop_take)
  ultimately show ?thesis using s by auto
qed

lemma dearmor_aes_data:
  assumes "buf_inv p" "28 \<le> buf_l p"
  defines "d \<equiv> buf_data p"
  shows "dearmor_aes (k0, k1) p = (case siv_open k0 k1 (take 8 d @ take 8 (drop 19 d)) (take 10 (drop 8 d) @ [d ! 18 AND 0xf8]) (drop 27 d) of
    (ok, m) \<Rightarrow> Inr (ok, buf_upd 27 m p))"
proof -
  have l: "length d = buf_l p" using assms(1) by (simp add: length_data d_def)
  have b: "buf_l p \<le> 2 ^ 31" using assms(1) by (simp add: buf_inv_def)
  have a: "(take 11 (drop 8 d))[10 := take 11 (drop 8 d) ! 10 AND 0xf8] = take 10 (drop 8 d) @ [d ! 18 AND 0xf8]"
    using l assms(2) by (intro nth_equalityI) (auto simp: nth_list_update nth_append)
  obtain ok m where o: "siv_open k0 k1 (take 8 d @ take 8 (drop 19 d)) (take 10 (drop 8 d) @ [d ! 18 AND 0xf8]) (drop 27 d) = (ok, m)" by fastforce
  have m: "length m = buf_l p - 27" using o l by (auto simp: siv_open_def Let_def)
  have code: "siv_dec_finish (siv_dec_update (drop 27 d) (siv_dec_aad (take 10 (drop 8 d) @ [d ! 18 AND 0xf8]) (siv_dec_init k0 k1 (take 8 d @ take 8 (drop 19 d))))) = (ok, m)"
    using siv_open_code [of "take 8 d @ take 8 (drop 19 d)" "take 10 (drop 8 d) @ [d ! 18 AND 0xf8]" "drop 27 d" "[drop 27 d]" k0 k1] o l assms(2) b by simp
  show ?thesis using assms(1,2) l m o code a by (simp add: dearmor_aes_def raw_data Let_def d_def [symmetric])
qed

section \<open>The receiver restores what the sender armored\<close>

lemma extended_bits: "(extended_flag ext x AND 0x80 \<noteq> 0) = ext" "extended_flag ext x AND 0x07 = x AND 0x07" "x AND 0x80 = 0 \<Longrightarrow> x AND NOT 0x80 = x"
proof -
  have "extended_flag ext x AND 0x80 = (if ext then 0x80 else 0)" by (rule bit_word_eqI) (auto simp: bit_simps flag_bits)
  then show "(extended_flag ext x AND 0x80 \<noteq> 0) = ext" by simp
  show "extended_flag ext x AND 0x07 = x AND 0x07" unfolding flag_masks by (rule bit_word_eqI) (auto simp: bit_simps flag_bits)
  show "x AND NOT 0x80 = x" if "x AND 0x80 = 0"
  proof (rule bit_word_eqI)
    fix n
    have "\<not> bit (x AND 0x80) n" using that by simp
    then show "bit (x AND NOT 0x80) n = bit x n" by (auto simp: bit_simps flag_bits dest: bit_imp_le_length)
  qed
qed

lemma masked_fields: "(y :: u8) AND 0xf8 = x AND 0xf8 \<Longrightarrow> y AND 0x38 = x AND 0x38 \<and> y AND 0x80 = x AND 0x80"
proof -
  assume a: "y AND 0xf8 = x AND 0xf8"
  have m: "z AND 0x38 = (z AND 0xf8) AND 0x38" "z AND 0x80 = (z AND 0xf8) AND 0x80" for z :: u8 by (simp_all add: and.assoc)
  show ?thesis using a m [of x] m [of y] by simp
qed

lemma no_hops: "(x :: u8) AND 0x07 = 0 \<Longrightarrow> x AND 0xf8 = x"
proof (rule bit_word_eqI)
  fix n assume a: "x AND 0x07 = 0" and n: "n < LENGTH(8)"
  have "\<not> bit (x AND 0x07) n" using a by simp
  then show "bit (x AND 0xf8) n = bit x n" using n unfolding flag_masks by (auto simp: bit_simps)
qed

lemma same_cipher: "(x AND 0xc7) OR (push_bit 3 (of_nat (unat (drop_bit 3 (x AND 0x38)))) AND 0x38) = (x :: u8)"
proof -
  have u: "of_nat (unat w) = w" for w :: u8 by simp
  show ?thesis unfolding u flag_masks by (rule bit_word_eqI) (auto simp: bit_simps)
qed

lemma setExtended_data:
  "buf_inv p \<Longrightarrow> 28 \<le> buf_l p \<Longrightarrow> \<exists>q. packet_setExtendedArmor ext p = Inr q \<and> wire_ok p (patch 18 [extended_flag ext (buf_data p ! 18)] (buf_data p)) q"
  by (simp add: packet_setExtendedArmor_def buf_modify_upd wire_ok_def)

lemma salsa_wire_parts:
  assumes "length key = 32" "28 \<le> length d"
  shows "length (salsa_wire key e d) = length d" "take 19 (salsa_wire key e d) = take 19 d"
    "drop 27 (salsa_wire key e d) = (if e then salsa_payload key d (drop 27 d) else drop 27 d)"
    "take 8 (drop 19 (salsa_wire key e d)) = salsa_mac key d (drop 27 (salsa_wire key e d))"
  using assms by (simp_all add: salsa_wire_def Let_def)

lemma relayed_header:
  assumes "length key = 32" "28 \<le> length d" "y AND 0xf8 = d ! 18 AND 0xf8"
  shows "same_header ((salsa_wire key e d)[18 := y]) d"
proof -
  have "take 18 (salsa_wire key e d) = take 18 d" using salsa_wire_parts(2) [OF assms(1,2), of e] by (rule take_take_eq) simp
  then show ?thesis using assms salsa_wire_parts(1) [OF assms(1,2), of e] by (simp add: same_header_def)
qed

lemma dearmor_relayed_salsa:
  assumes "buf_inv p2" "28 \<le> length d" "length key = 32" "length (ae_tmp env) = 64" "length (ae_buf env) = 16"
    "y AND 0xf8 = d ! 18 AND 0xf8" "buf_data p2 = (salsa_wire key e d)[18 := y]"
  shows "\<exists>p3. dearmor_salsa env key e p2 = Inr (True, p3) \<and> buf_inv p3 \<and> drop 27 (buf_data p3) = drop 27 d \<and> take 18 (buf_data p3) = take 18 d"
proof -
  let ?w = "salsa_wire key e d" and ?d2 = "buf_data p2"
  note w = salsa_wire_parts [OF assms(3,2), of e]
  have l: "buf_l p2 = length d" using length_data [OF assms(1)] assms(7) w(1) by simp
  have h: "salsa_mac key ?d2 = salsa_mac key d" "salsa_payload key ?d2 = salsa_payload key d"
    using salsa_cong [OF relayed_header [OF assms(3,2,6), of e]] assms(7) by auto
  have parts: "drop 27 ?d2 = drop 27 ?w" "take 8 (drop 19 ?d2) = salsa_mac key d (drop 27 ?w)" "take 18 ?d2 = take 18 d"
    using assms(7) w(4) take_take_eq [OF w(2), of 18] by simp_all
  have "dearmor_salsa env key e p2 = Inr (True, if e then buf_upd 27 (salsa_payload key d (drop 27 ?w)) p2 else p2)"
    using dearmor_salsa_data [OF assms(1) _ assms(3-5), of e] assms(2) l by (simp add: h parts)
  moreover have "drop 27 (patch 27 b ?d2) = b" if "length b = length d - 27" for b
    using that assms(2,7) w(1) by (simp add: patch_def)
  moreover have "length (salsa_payload key d (drop 27 ?w)) = length d - 27" using w(1) by simp
  ultimately show ?thesis
    using assms(1,2) l w(1,3) parts assms(7) by (cases e) (simp_all add: salsa_payload_twice)
qed

lemma dearmor_relayed_aes:
  assumes "buf_inv p2" "28 \<le> length d" "d ! 18 AND 0x07 = 0" "y AND 0xf8 = d ! 18 AND 0xf8"
    "siv_seal k0 (p_initSW k) (take 8 d) (take 11 (drop 8 d)) (drop 27 d) = (tag, ct)"
    "buf_data p2 = (take 8 tag @ take 11 (drop 8 d) @ drop 8 tag @ ct)[18 := y]"
  shows "\<exists>p3. dearmor_aes (k0, p_initSW k) p2 = Inr (True, p3) \<and> buf_inv p3 \<and> drop 27 (buf_data p3) = drop 27 d \<and> take 10 (drop 8 (buf_data p3)) = take 10 (drop 8 d)"
proof -
  let ?d2 = "buf_data p2" and ?h = "take 10 (drop 8 d)"
  have t: "length tag = 16" "length ct = length d - 27" using assms(5) by (auto simp: siv_seal_def Let_def)
  have a: "take 11 (drop 8 d) = ?h @ [d ! 18]"
    using assms(2) take_Suc_conv_app_nth [of 10 "drop 8 d"] by simp
  have d2: "?d2 = take 8 tag @ (?h @ [y]) @ drop 8 tag @ ct"
    unfolding assms(6) a using t assms(2) by (simp add: list_update_append)
  have l: "buf_l p2 = length d" using length_data [OF assms(1)] t assms(2) by (simp add: d2)
  have y: "?d2 ! 18 AND 0xf8 = d ! 18" using d2 t assms(2,4) no_hops [OF assms(3)] by (simp add: nth_append)
  have p: "take 8 ?d2 @ take 8 (drop 19 ?d2) = tag" "take 10 (drop 8 ?d2) = ?h" "drop 27 ?d2 = ct"
    using t assms(2) by (simp_all add: d2)
  have "siv_open k0 (p_initSW k) tag (?h @ [d ! 18]) ct = (True, drop 27 d)"
    by (rule iffD2 [OF siv_open_iff [OF t(1)]], rule exI [of _ "take 8 d"]) (use assms(2,5) a in simp)
  then have "dearmor_aes (k0, p_initSW k) p2 = Inr (True, buf_upd 27 (drop 27 d) p2)"
    using dearmor_aes_data [OF assms(1), of k0 "p_initSW k"] l assms(2) by (simp add: p y)
  moreover have "take 10 (drop 8 (patch 27 (drop 27 d) ?d2)) = ?h" "drop 27 (patch 27 (drop 27 d) ?d2) = drop 27 d"
    using t assms(2) by (simp_all add: patch_def d2)
  ultimately show ?thesis using assms(1,2) l by simp
qed


lemma armor_extended_data:
  assumes "buf_inv p" "28 \<le> buf_l p" "buf_l p + 32 \<le> buf_capacity p" "ae_ephemeral env = (priv, pub)" "length pub = 32"
  defines "w \<equiv> buf_data p"
  shows "\<exists>p'. armor_extended env publicKey p = Inr p' \<and> buf_inv p' \<and>
    buf_data p' = take 19 w @ ctr_stream (aes_ek (p_initSW (ae_agree env priv publicKey))) (take 12 w @ le_bytes 4 (0 :: u32)) (drop 19 w) @ pub"
proof -
  have l: "length w = buf_l p" using assms(1) by (simp add: length_data w_def)
  have n: "19 + (buf_l p - 19) \<le> buf_l p" using assms(2) by simp
  let ?s = "ctr_stream (aes_ek (p_initSW (ae_agree env priv publicKey))) (take 12 w @ le_bytes 4 (0 :: u32)) (drop 19 w)"
  obtain q where q: "ephemeral_crypt (ae_agree env priv publicKey) (buf_l p - 19) p = Inr q" "wire_ok p (take 19 w @ ?s) q"
    using ephemeral_data [OF assms(1) n, of "ae_agree env priv publicKey"] l assms(2) by (auto simp: w_def [symmetric] patch_def)
  have i: "buf_inv q" "buf_l q = buf_l p" "buf_capacity q = buf_capacity p" "buf_data q = take 19 w @ ?s"
    using q(2) wire_l [OF q(2)] l assms(2) by (auto simp: wire_ok_def)
  have "buf_append_bytes pub 32 q = Inr (buf_put pub q)"
    using buf_append_bytes_eq [OF i(1), of 32 pub] i assms(3,5) by (simp add: buf_fits_def)
  moreover have "buf_inv (buf_put pub q)" using i assms(3,5) by (intro buf_inv_put) (auto simp: buf_fits_def)
  ultimately show ?thesis using q(1) i assms(1,2,4) by (simp add: armor_extended_def usub_size)
qed

lemma dearmor_extended_data:
  assumes "buf_inv p2" "28 \<le> length w" "length pub = 32" "ae_agree env privateKey pub = k"
    "buf_data p2 = (take 19 w @ ctr_stream (aes_ek (p_initSW k)) (take 12 w @ le_bytes 4 (0 :: u32)) (drop 19 w) @ pub)[18 := y]"
  shows "\<exists>p3. dearmor_extended env privateKey p2 = Inr p3 \<and> buf_inv p3 \<and> buf_data p3 = w[18 := y]"
proof -
  let ?c = "take 12 w @ le_bytes 4 (0 :: u32)" and ?rk = "aes_ek (p_initSW k)"
  have d2: "buf_data p2 = (take 19 w)[18 := y] @ ctr_stream ?rk ?c (drop 19 w) @ pub" using assms(2,5) by (simp add: list_update_append)
  have l: "buf_l p2 = length w + 32" using length_data [OF assms(1)] assms(2,3) by (simp add: d2)
  have r: "raw_read p2 (usub (buf_size p2) 32) 32 = Inr pub" "usub (usub (buf_size p2) 19) 32 = length w - 19"
  proof -
    have "length w + 13 < 2 ^ 32" using assms(1) l by (simp add: buf_inv_def)
    then show "usub (usub (buf_size p2) 19) 32 = length w - 19" using usub_ge [of 32 "length w + 13"] assms(1,2) l by (simp add: usub_size)
  qed (use assms(1-3) l in \<open>simp add: raw_data d2\<close>)
  have n: "19 + (length w - 19) \<le> buf_l p2" using l assms(2) by simp
  have t: "take 12 (buf_data p2) = take 12 w" "take (length w - 19) (drop 19 (buf_data p2)) = ctr_stream ?rk ?c (drop 19 w)" using assms(2) by (simp_all add: d2)
  obtain q where q: "ephemeral_crypt k (length w - 19) p2 = Inr q" "wire_ok p2 ((take 19 w)[18 := y] @ drop 19 w @ pub) q"
    using ephemeral_data [OF assms(1) n, of k] assms(2,3) by (auto simp: t ctr_stream_twice) (simp add: d2 patch_def)
  have i: "buf_inv q" "buf_l q = length w + 32" "buf_data q = (take 19 w)[18 := y] @ drop 19 w @ pub"
    using q(2) wire_l [OF q(2)] assms(2,3) by (auto simp: wire_ok_def)
  have "dearmor_extended env privateKey p2 = Inr (q\<lparr>buf_l := length w\<rparr>)"
    using r q(1) i assms(4) by (simp add: dearmor_extended_def usub_size buf_setSize_def) (simp add: buf_inv_def)
  moreover have "buf_inv (q\<lparr>buf_l := length w\<rparr>)" using i(1,2) by (simp add: buf_inv_def buf_capacity_def)
  moreover have "buf_data (q\<lparr>buf_l := length w\<rparr>) = take (length w) (buf_data q)" using i(2) by (simp add: buf_data_def)
  moreover have "take (length w) ((take 19 w)[18 := y] @ drop 19 w @ pub) = w[18 := y]"
  proof -
    have "(take 19 w)[18 := y] @ drop 19 w = (take 19 w @ drop 19 w)[18 := y]" using assms(2) by (simp add: list_update_append del: append_take_drop_id)
    then show ?thesis using assms(2) by simp
  qed
  ultimately show ?thesis using i(3) by simp
qed


lemma flags_read:
  assumes "buf_inv p" "28 \<le> buf_l p" "buf_data p ! 18 = x"
  shows "packet_cipher p = Inr (unat (drop_bit 3 (x AND 0x38)))" "packet_extendedArmor p = Inr (x AND 0x80 \<noteq> 0)" "packet_hops p = Inr (unat (x AND 0x07))"
  using assms by (simp_all add: header_getters buf_index_data)

lemma armor_flags:
  fixes ext :: bool
  assumes "c < 8"
  defines "f \<equiv> \<lambda>x. (extended_flag ext x AND 0xc7) OR (push_bit 3 (of_nat c) AND 0x38)"
  shows "unat (drop_bit 3 (f x AND 0x38)) = c" "(f x AND 0x80 \<noteq> 0) = ext" "f x AND 0x07 = x AND 0x07"
  using cipher_bits [OF assms(1), of "extended_flag ext x"] extended_bits(1,2) [of ext x] by (simp_all add: f_def)

lemma relayed_flags:
  assumes "buf_inv p2" "28 \<le> buf_l p2" "buf_data p2 ! 18 = y" "y AND 0xf8 = x AND 0xf8" "unat (drop_bit 3 (x AND 0x38)) = c" "(x AND 0x80 \<noteq> 0) = ext"
  shows "packet_cipher p2 = Inr c" "packet_extendedArmor p2 = Inr ext"
  using flags_read [OF assms(1-3)] masked_fields [OF assms(4)] assms(5,6) by simp_all

lemma armor_flagged:
  assumes "armor_ready env key p"
  obtains q where "packet_setExtendedArmor ext p = Inr q" "armor_ready env key q" "buf_capacity q = buf_capacity p" "buf_l q = buf_l p"
    "\<And>c. cipher_flags c (buf_data q) = patch 18 [(extended_flag ext (buf_data p ! 18) AND 0xc7) OR (push_bit 3 (of_nat c) AND 0x38)] (buf_data p)"
proof -
  have p: "buf_inv p" "28 \<le> buf_l p" "length (buf_data p) = buf_l p" using assms by (auto simp: armor_ready_def buf_size_def length_data)
  obtain q where q: "packet_setExtendedArmor ext p = Inr q" "wire_ok p (patch 18 [extended_flag ext (buf_data p ! 18)] (buf_data p)) q"
    using setExtended_data [OF p(1,2)] by blast
  have d: "buf_data q = patch 18 [extended_flag ext (buf_data p ! 18)] (buf_data p)" "buf_l q = buf_l p" using q(2) wire_l [OF q(2)] p by (auto simp: wire_ok_def)
  show ?thesis
    by (rule that [OF q(1)])
      (use q(2) d p assms in \<open>auto simp: wire_ok_def armor_ready_def buf_size_def patch_def nth_append\<close>)
qed


lemma restored_patch:
  assumes "dx = patch 18 [x] (buf_data p)" "28 \<le> length (buf_data p)" "r = Inr (True, p3)" "buf_inv p3" "drop 27 (buf_data p3) = drop 27 dx"
    "take 18 (buf_data p3) = take 18 dx \<or> take 10 (drop 8 (buf_data p3)) = take 10 (drop 8 dx)"
  shows "restored p r"
proof -
  have h: "take 10 (drop 8 l) = drop 8 (take 18 l)" for l :: bytes by (simp add: drop_take)
  have "take 10 (drop 8 dx) = take 10 (drop 8 (buf_data p))" unfolding h assms(1) using assms(2) by (simp add: patch_def min_def)
  moreover have "drop 27 dx = drop 27 (buf_data p)" unfolding assms(1) using assms(2) by simp
  moreover have "take 10 (drop 8 (buf_data p3)) = take 10 (drop 8 dx)" using assms(6) unfolding h by auto
  ultimately show ?thesis using assms(3,4,5) by (auto simp: restored_def)
qed

lemma salsa_restored:
  fixes e :: bool and ext :: bool
  assumes "armor_ready env' key p" "buf_inv p2" "y AND 0xf8 = dx ! 18 AND 0xf8" "buf_data p2 = (salsa_wire key e dx)[18 := y]"
    "dx = patch 18 [x] (buf_data p)"
  shows "restored p (dearmor_salsa env' key e p2)"
proof -
  have p: "28 \<le> length (buf_data p)" "length dx = length (buf_data p)" using assms(1,5) by (auto simp: armor_ready_def buf_size_def length_data)
  obtain p3 where "dearmor_salsa env' key e p2 = Inr (True, p3)" "buf_inv p3" "drop 27 (buf_data p3) = drop 27 dx" "take 18 (buf_data p3) = take 18 dx"
    using dearmor_relayed_salsa [OF assms(2) _ _ _ _ assms(3,4)] assms(1) p by (auto simp: armor_ready_def)
  then show ?thesis using restored_patch [OF assms(5) p(1)] by blast
qed


lemma armor_salsa_ready:
  assumes "armor_ready env key q" "dx = cipher_flags (if e then 1 else 0) (buf_data q)"
  obtains p1 where "armor_salsa env key e q = Inr p1" "wire_ok q (salsa_wire key e dx) p1" "length dx = buf_l q" "28 \<le> length dx"
    "length (salsa_wire key e dx) = buf_l q" "salsa_wire key e dx ! 18 = dx ! 18"
proof -
  have q: "buf_inv q" "28 \<le> buf_l q" "length key = 32" "length (ae_tmp env) = 64" "length (ae_buf env) = 16" using assms(1) by (auto simp: armor_ready_def buf_size_def)
  have l: "length dx = buf_l q" "28 \<le> length dx" using q(1,2) assms(2) by (simp_all add: length_data)
  note w = salsa_wire_parts(1,2) [OF q(3) l(2), of e]
  have "salsa_wire key e dx ! 18 = dx ! 18" using arg_cong [OF w(2), of "\<lambda>l. l ! 18"] by simp
  then show ?thesis using armor_salsa_data [OF q, of e] that w(1) l assms(2) by auto
qed

lemma armor_plain:
  fixes e :: bool
  assumes "armor_ready env key p" "length (ae_tmp env') = 64" "length (ae_buf env') = 16" "aesKeys = None \<or> \<not> e"
  shows "\<exists>p1. packet_armor env key e False aesKeys publicKey p = Inr p1 \<and> buf_inv p1 \<and>
    (\<forall>p2. relayed (buf_data p1) p2 \<longrightarrow> restored p (packet_dearmor env' key aesKeys privateKey p2))"
proof -
  let ?c = "if e then 1 else 0 :: nat"
  obtain q where q: "packet_setExtendedArmor False p = Inr q" "armor_ready env key q"
    "cipher_flags ?c (buf_data q) = patch 18 [(extended_flag False (buf_data p ! 18) AND 0xc7) OR (push_bit 3 (of_nat ?c) AND 0x38)] (buf_data p)"
    using armor_flagged [OF assms(1), of False] by metis
  define dx where "dx = cipher_flags ?c (buf_data q)"
  define x where "x = (extended_flag False (buf_data p ! 18) AND 0xc7) OR (push_bit 3 (of_nat ?c) AND 0x38)"
  have dx: "dx = patch 18 [x] (buf_data p)" using q(3) by (simp add: dx_def x_def)
  obtain p1 where p1: "armor_salsa env key e q = Inr p1" "wire_ok q (salsa_wire key e dx) p1" "length dx = buf_l q" "28 \<le> length dx"
      "length (salsa_wire key e dx) = buf_l q" "salsa_wire key e dx ! 18 = dx ! 18"
    using armor_salsa_ready [OF q(2) dx_def] by metis
  have "28 \<le> length (buf_data p)" using assms(1) by (auto simp: armor_ready_def buf_size_def length_data)
  then have x18: "dx ! 18 = x" by (simp add: dx nth_patch)
  have "?c < 8" by simp
  note fl = armor_flags [OF this, of False "buf_data p ! 18", folded x_def]
  have "restored p (packet_dearmor env' key aesKeys privateKey p2)" if r: "relayed (buf_data p1) p2" for p2
  proof -
    obtain y where y: "buf_inv p2" "y AND 0xf8 = dx ! 18 AND 0xf8" "buf_data p2 = (salsa_wire key e dx)[18 := y]"
      using r p1(2,6) by (auto simp: relayed_def wire_ok_def)
    have l: "28 \<le> buf_l p2" using length_data [OF y(1)] y(3) p1(3-5) by simp
    have "buf_data p2 ! 18 = y" using y(3) p1(3-5) by simp
    note f = relayed_flags [OF y(1) l this y(2) [unfolded x18] fl(1,2)]
    have "armor_ready env' key p" using assms(1-3) by (simp add: armor_ready_def)
    from salsa_restored [OF this y dx] show ?thesis by (cases e) (simp_all add: packet_dearmor_def f)
  qed
  then show ?thesis using q(1) p1(1,2) assms(4) by (auto simp: packet_armor_def wire_ok_def)
qed

lemma armor_with_aes:
  assumes "armor_ready env key p" "packet_hops p = Inr 0"
  shows "\<exists>p1. packet_armor env key True False (Some (k0, p_initSW k)) publicKey p = Inr p1 \<and> buf_inv p1 \<and>
    (\<forall>p2. relayed (buf_data p1) p2 \<longrightarrow> restored p (packet_dearmor env' key' (Some (k0, p_initSW k)) privateKey p2))"
proof -
  obtain q where q: "packet_setExtendedArmor False p = Inr q" "armor_ready env key q"
    "cipher_flags 3 (buf_data q) = patch 18 [(extended_flag False (buf_data p ! 18) AND 0xc7) OR (push_bit 3 (of_nat 3) AND 0x38)] (buf_data p)"
    using armor_flagged [OF assms(1), of False] by metis
  define dx where "dx = cipher_flags 3 (buf_data q)"
  define x where "x = (extended_flag False (buf_data p ! 18) AND 0xc7) OR (push_bit 3 (of_nat 3) AND 0x38)"
  have dx: "dx = patch 18 [x] (buf_data p)" using q(3) by (simp add: dx_def x_def)
  have p: "buf_inv p" "28 \<le> buf_l p" "28 \<le> length (buf_data p)" using assms(1) by (auto simp: armor_ready_def buf_size_def length_data)
  then have x18: "dx ! 18 = x" "28 \<le> length dx" by (simp_all add: dx nth_patch)
  have "(3 :: nat) < 8" by simp
  note fl = armor_flags [OF this, of False "buf_data p ! 18", folded x_def]
  have "unat (buf_data p ! 18 AND 0x07) = 0" using flags_read(3) [OF p(1,2) refl] assms(2) by simp
  then have hops: "dx ! 18 AND 0x07 = 0" unfolding x18(1) fl(3) by (simp only: unat_eq_zero)
  obtain tag ct where s: "siv_seal k0 (p_initSW k) (take 8 dx) (take 11 (drop 8 dx)) (drop 27 dx) = (tag, ct)" by fastforce
  have t: "length tag = 16" using s by (auto simp: siv_seal_def Let_def)
  have qi: "buf_inv q" "28 \<le> buf_l q" using q(2) by (auto simp: armor_ready_def buf_size_def)
  let ?w = "take 8 tag @ take 11 (drop 8 dx) @ drop 8 tag @ ct"
  obtain p1 where p1: "armor_aes (k0, p_initSW k) q = Inr p1" "wire_ok q ?w p1"
    using armor_aes_data [OF qi, of k0 "p_initSW k", folded dx_def] s by auto
  have w18: "?w ! 18 = dx ! 18" using t x18(2) by (simp add: nth_append)
  have "restored p (packet_dearmor env' key' (Some (k0, p_initSW k)) privateKey p2)" if r: "relayed (buf_data p1) p2" for p2
  proof -
    obtain y where y: "buf_inv p2" "y AND 0xf8 = dx ! 18 AND 0xf8" "buf_data p2 = ?w[18 := y]"
      using r p1(2) w18 by (auto simp: relayed_def wire_ok_def)
    have l: "28 \<le> buf_l p2" using length_data [OF y(1)] y(3) t x18(2) s by (auto simp: siv_seal_def Let_def)
    have "buf_data p2 ! 18 = y" using y(3) t x18(2) by simp
    note f = relayed_flags [OF y(1) l this y(2) [unfolded x18(1)] fl(1,2)]
    obtain p3 where "dearmor_aes (k0, p_initSW k) p2 = Inr (True, p3)" "buf_inv p3" "drop 27 (buf_data p3) = drop 27 dx" "take 10 (drop 8 (buf_data p3)) = take 10 (drop 8 dx)"
      using dearmor_relayed_aes [OF y(1) x18(2) hops y(2) s y(3)] by blast
    then show ?thesis using restored_patch [OF dx p(3)] by (simp add: packet_dearmor_def f)
  qed
  then show ?thesis using q(1) p1(1,2) by (auto simp: packet_armor_def wire_ok_def)
qed


lemma armor_ephemeral:
  assumes "armor_ready env key p" "length (ae_tmp env') = 64" "length (ae_buf env') = 16" "buf_size p + 32 \<le> buf_capacity p"
    "ae_ephemeral env = (priv, pub)" "length pub = 32" "ae_agree env' privateKey pub = ae_agree env priv publicKey"
  shows "\<exists>p1. packet_armor env key False True aesKeys publicKey p = Inr p1 \<and> buf_inv p1 \<and>
    (\<forall>p2. relayed (buf_data p1) p2 \<longrightarrow> restored p (packet_dearmor env' key aesKeys privateKey p2))"
proof -
  obtain q where q: "packet_setExtendedArmor True p = Inr q" "armor_ready env key q" "buf_capacity q = buf_capacity p" "buf_l q = buf_l p"
    "cipher_flags 0 (buf_data q) = patch 18 [(extended_flag True (buf_data p ! 18) AND 0xc7) OR (push_bit 3 (of_nat 0) AND 0x38)] (buf_data p)"
    using armor_flagged [OF assms(1), of True] by metis
  define dx where "dx = cipher_flags (if False then 1 else 0) (buf_data q)"
  define x where "x = (extended_flag True (buf_data p ! 18) AND 0xc7) OR (push_bit 3 (of_nat 0) AND 0x38)"
  have dx: "dx = patch 18 [x] (buf_data p)" using q(5) by (simp add: dx_def x_def)
  define w where "w = salsa_wire key False dx"
  obtain p0 where p0: "armor_salsa env key False q = Inr p0" "wire_ok q w p0" "length dx = buf_l q" "28 \<le> length dx" "length w = buf_l q" "w ! 18 = dx ! 18"
    using armor_salsa_ready [OF q(2) dx_def] unfolding w_def by metis
  have i: "buf_inv p0" "buf_capacity p0 = buf_capacity p" "buf_data p0 = w" "buf_l p0 = buf_l p"
    using p0(2,5) wire_l [OF p0(2)] q(3,4) by (auto simp: wire_ok_def)
  have c: "28 \<le> buf_l p0" "buf_l p0 + 32 \<le> buf_capacity p0" using i p0(3,4) q(4) assms(4) by (auto simp: buf_size_def)
  let ?k = "ae_agree env priv publicKey"
  let ?e = "take 19 w @ ctr_stream (aes_ek (p_initSW ?k)) (take 12 w @ le_bytes 4 (0 :: u32)) (drop 19 w) @ pub"
  obtain p1 where p1: "armor_extended env publicKey p0 = Inr p1" "buf_inv p1" "buf_data p1 = ?e"
    using armor_extended_data [OF i(1) c assms(5,6), of publicKey] i(3) by auto
  have "28 \<le> length (buf_data p)" using assms(1) by (auto simp: armor_ready_def buf_size_def length_data)
  then have x18: "dx ! 18 = x" by (simp add: dx nth_patch)
  have e18: "?e ! 18 = x" "28 \<le> length w" "length ?e = length w + 32" using p0 x18 assms(6) by (simp_all add: nth_append)
  have "(0 :: nat) < 8" by simp
  note fl = armor_flags [OF this, of True "buf_data p ! 18", folded x_def]
  have "restored p (packet_dearmor env' key aesKeys privateKey p2)" if r: "relayed (buf_data p1) p2" for p2
  proof -
    obtain y where y: "buf_inv p2" "y AND 0xf8 = x AND 0xf8" "buf_data p2 = ?e[18 := y]"
      using r p1(3) e18(1) by (auto simp: relayed_def)
    have l: "60 \<le> buf_l p2" "28 \<le> buf_l p2" using length_data [OF y(1)] y(3) e18(2,3) by simp_all
    have "buf_data p2 ! 18 = y" using y(3) e18(2,3) by simp
    note f = relayed_flags [OF y(1) l(2) this y(2) fl(1,2)]
    obtain p3 where p3: "dearmor_extended env' privateKey p2 = Inr p3" "buf_inv p3" "buf_data p3 = w[18 := y]"
      using dearmor_extended_data [OF y(1) e18(2) assms(6,7) y(3)] by blast
    have "armor_ready env' key p" using assms(1-3) by (simp add: armor_ready_def)
    from salsa_restored [OF this p3(2) y(2) [folded x18] p3(3) [unfolded w_def] dx]
    show ?thesis using l(1) p3(1) by (simp add: packet_dearmor_def f buf_size_def)
  qed
  then show ?thesis using q(1) p0(1) p1(1,2) by (auto simp: packet_armor_def)
qed

lemma rearm_flags:
  assumes "armor_ready env key p'" "buf_data p' ! 18 = x" "x AND 0x80 = 0"
  obtains q where "packet_setExtendedArmor False p' = Inr q" "armor_ready env key q" "cipher_flags (unat (drop_bit 3 (x AND 0x38))) (buf_data q) = buf_data p'"
proof -
  let ?c = "unat (drop_bit 3 (x AND 0x38))"
  obtain q where q: "packet_setExtendedArmor False p' = Inr q" "armor_ready env key q"
    "cipher_flags ?c (buf_data q) = patch 18 [(extended_flag False (buf_data p' ! 18) AND 0xc7) OR (push_bit 3 (of_nat ?c) AND 0x38)] (buf_data p')"
    using armor_flagged [OF assms(1), of False] by metis
  have f: "extended_flag False x = x" using extended_bits(3) [OF assms(3)] by simp
  have l: "18 < length (buf_data p')" using assms(1) by (auto simp: armor_ready_def length_data buf_size_def)
  have "patch 18 [x] (buf_data p') = buf_data p'"
    using id_take_nth_drop [OF l] assms(2) by (simp add: patch_def)
  then have "cipher_flags ?c (buf_data q) = buf_data p'" unfolding q(3) assms(2) f same_cipher .
  then show ?thesis using that q(1,2) by blast
qed

lemma salsa_rewire:
  assumes "length key = 32" "28 \<le> length d" "salsa_mac key d (drop 27 d) = take 8 (drop 19 d)"
  shows "salsa_wire key e (take 27 d @ (if e then salsa_payload key d (drop 27 d) else drop 27 d)) = d"
proof -
  let ?b = "if e then salsa_payload key d (drop 27 d) else drop 27 d"
  let ?d = "take 27 d @ ?b"
  have "same_header ?d d" using assms(2) by (auto simp: same_header_def nth_append)
  note h = salsa_cong [OF this, of key]
  have b: "drop 27 ?d = ?b" "take 19 ?d = take 19 d" using assms(2) by simp_all
  have "salsa_wire key e ?d = take 19 d @ take 8 (drop 19 d) @ drop 27 d"
    unfolding salsa_wire_def Let_def b using h assms(3) by (cases e) (simp_all add: salsa_payload_twice)
  also have "\<dots> = d" using append_take_drop_id [of 8 "drop 19 d"] append_take_drop_id [of 19 d] by simp
  finally show ?thesis .
qed

lemma relayed_self: "buf_inv p \<Longrightarrow> relayed (buf_data p) p"
  by (auto simp: relayed_def intro!: exI [of _ "buf_data p ! 18"])

lemma cryptField_twice:
  assumes "buf_inv p" "8 \<le> start" "start + len \<le> buf_l p" "length key = 32" "length tmp = 64" "length tmp' = 64"
  shows "\<exists>p1 p2. packet_cryptField tmp key start len p = Inr p1 \<and> packet_cryptField tmp' key start len p1 = Inr p2 \<and> buf_data p2 = buf_data p"
proof -
  let ?d = "buf_data p" and ?iv = "\<lambda>d. (take 8 d)[7 := take 8 d ! 7 AND 0xf8]"
  let ?f = "\<lambda>m. map2 (XOR) m (salsa20_blocks 6 key (?iv ?d) 0 ((length m + 63) div 64))"
  have l: "length ?d = buf_l p" by (rule length_data [OF assms(1)])
  have c: "snd (crypt12 t (salsa20_init key (?iv ?d)) m) = ?f m" if "length t = 64" for t m
    using crypt12_stream [of key "?iv ?d" t 0 m] assms(2-4) that l by (simp add: init_expand)
  have f: "length (?f m) = length m" "?f (?f m) = m" for m by (simp_all add: min_def blocks_cover xor_stream_twice)
  define b where "b = ?f (take len (drop start ?d))"
  have b: "length b = len" "?f b = take len (drop start ?d)"
    using f(1) [of "take len (drop start ?d)"] assms(3) l f(2) [of "take len (drop start ?d)"] unfolding b_def by (simp, blast)
  let ?p1 = "buf_upd start b p"
  have p1: "packet_cryptField tmp key start len p = Inr ?p1"
    using assms(1,2,3) b(1) c [OF assms(5)] by (simp add: packet_cryptField_def raw_data b_def)
  have i: "buf_inv ?p1" "buf_l ?p1 = buf_l p" "buf_data ?p1 = patch start b ?d" using assms(1-3) l b(1) by simp_all
  have t: "take 8 (patch start b ?d) = take 8 ?d" "take len (drop start (patch start b ?d)) = b"
    using assms(2,3) l b(1) by (simp_all add: patch_def)
  have "packet_cryptField tmp' key start len ?p1 = Inr (buf_upd start (take len (drop start ?d)) ?p1)"
    using assms(2,3) l i c [OF assms(6)] b by (simp add: packet_cryptField_def raw_data t)
  moreover have "buf_data (buf_upd start (take len (drop start ?d)) ?p1) = ?d"
  proof -
    have "buf_data (buf_upd start (take len (drop start ?d)) ?p1) = patch start (take len (drop start ?d)) (patch start b ?d)" using i assms(3) l by simp
    also have "\<dots> = take start ?d @ take len (drop start ?d) @ drop (start + len) ?d" using b(1) assms(3) l by (simp add: patch_def)
    also have "\<dots> = ?d" using append_take_drop_id [of len "drop start ?d"] by (simp add: add.commute)
    finally show ?thesis .
  qed
  ultimately show ?thesis using p1 by blast
qed

text \<open>C5: A packet armored by \<open>armor\<close>, with any of the cipher suites or the ephemeral key of an encrypted \<open>HELLO\<close>, is accepted by a receiver with the same keys and its payload and addresses are restored, also when
  relays have changed the hop count. For the ephemeral key the two sides must agree on a secret, and AES authenticates the hop count the sender starts from, so it must be zero.\<close>

theorem armor_roundtrip:
  assumes "armor_ready env key p" "length (ae_tmp env') = 64" "length (ae_buf env') = 16"
    and "aesKeys = None \<or> \<not> encryptPayload \<or> (\<exists>k0 k. aesKeys = Some (k0, p_initSW k)) \<and> packet_hops p = Inr 0"
    and "extendedArmor \<Longrightarrow> \<not> encryptPayload \<and> buf_size p + 32 \<le> buf_capacity p \<and> ae_ephemeral env = (priv, pub) \<and> length pub = 32
      \<and> ae_agree env' privateKey pub = ae_agree env priv publicKey"
  shows "\<exists>p1. packet_armor env key encryptPayload extendedArmor aesKeys publicKey p = Inr p1 \<and> buf_inv p1 \<and>
    (\<forall>p2. relayed (buf_data p1) p2 \<longrightarrow> restored p (packet_dearmor env' key aesKeys privateKey p2))"
proof (cases extendedArmor)
  case True
  then show ?thesis using armor_ephemeral [OF assms(1-3), of priv pub privateKey publicKey aesKeys] assms(5) by auto
next
  case False
  show ?thesis
  proof (cases "aesKeys = None \<or> \<not> encryptPayload")
    case True
    then show ?thesis using armor_plain [OF assms(1-3), of aesKeys encryptPayload] False by auto
  next
    case e: False
    then obtain k0 k where "aesKeys = Some (k0, p_initSW k)" "packet_hops p = Inr 0" using assms(4) by auto
    then show ?thesis using armor_with_aes [OF assms(1), of k0 k] e False by auto
  qed
qed

theorem armor_roundtrip_witness:
  "let env = \<lparr>ae_agree = xor_block, ae_ephemeral = (replicate 32 1, replicate 32 1), ae_tmp = replicate 64 3, ae_buf = replicate 16 4\<rparr>;
       p = \<lparr>buf_b = replicate 100 0, buf_l = 40\<rparr> in
   \<exists>p1. packet_armor env (replicate 32 7) False True None (replicate 32 2) p = Inr p1 \<and> restored p (packet_dearmor env (replicate 32 7) None (replicate 32 2) p1)"
proof -
  define env where "env = \<lparr>ae_agree = xor_block, ae_ephemeral = (replicate 32 1 :: bytes, replicate 32 1 :: bytes), ae_tmp = replicate 64 3, ae_buf = replicate 16 4\<rparr>"
  define p :: buffer where "p = \<lparr>buf_b = replicate 100 0, buf_l = 40\<rparr>"
  have "armor_ready env (replicate 32 7) p" "length (ae_tmp env) = 64" "length (ae_buf env) = 16"
    by (simp_all add: armor_ready_def env_def p_def buf_inv_def buf_capacity_def buf_size_def)
  from armor_roundtrip [OF this, of None False True "replicate 32 1" "replicate 32 1" "replicate 32 2" "replicate 32 2"]
  show ?thesis unfolding env_def [symmetric] p_def [symmetric] Let_def
    using relayed_self by (auto simp: env_def p_def buf_size_def buf_capacity_def)
qed

text \<open>C6: \<open>dearmor\<close> accepts a packet of a Salsa20/Poly1305 suite that has no extended armor, which is every such packet but an encrypted HELLO, only if it is authentic: arming the packet it leaves behind with the same key gives back exactly the bytes that were received.\<close>

theorem dearmor_authentic:
  assumes "armor_ready env key p" "length (ae_tmp env') = 64" "length (ae_buf env') = 16"
    "packet_cipher p = Inr c" "c \<noteq> CIPHER_AES_GMAC_SIV" "packet_extendedArmor p = Inr False" "packet_dearmor env key aesKeys privateKey p = Inr (True, p')"
  shows "\<exists>p''. packet_armor env' key (c = CIPHER_POLY1305_SALSA2012) False None publicKey p' = Inr p'' \<and> buf_data p'' = buf_data p"
proof -
  let ?d = "buf_data p" and ?e = "c = 1"
  let ?b = "if ?e then salsa_payload key ?d (drop 27 ?d) else drop 27 ?d"
  have p: "buf_inv p" "28 \<le> buf_l p" "length key = 32" "length (ae_tmp env) = 64" "length (ae_buf env) = 16" "length ?d = buf_l p"
    using assms(1) by (auto simp: armor_ready_def buf_size_def length_data)
  have x: "c = unat (drop_bit 3 (?d ! 18 AND 0x38))" "?d ! 18 AND 0x80 = 0" using flags_read(1,2) [OF p(1,2) refl] assms(4,6) by simp_all
  have c: "c = 0 \<or> c = 1" "dearmor_salsa env key ?e p = Inr (True, p')"
    using assms(5,7) unfolding packet_dearmor_def assms(4,6) by (auto split: if_splits)
  then have m: "salsa_mac key ?d (drop 27 ?d) = take 8 (drop 19 ?d)" "p' = (if ?e then buf_upd 27 (salsa_payload key ?d (drop 27 ?d)) p else p)"
    unfolding dearmor_salsa_data [OF p(1-5)] by (auto split: if_splits)
  have d': "buf_data p' = take 27 ?d @ ?b" "buf_inv p'" "buf_l p' = buf_l p" using m(2) p by (auto simp: patch_def)
  have r: "armor_ready env' key p'" using d' p assms(2,3) by (simp add: armor_ready_def buf_size_def)
  have "buf_data p' ! 18 = ?d ! 18" using d'(1) p by (simp add: nth_append)
  then obtain q where q: "packet_setExtendedArmor False p' = Inr q" "armor_ready env' key q" "cipher_flags c (buf_data q) = buf_data p'"
    using rearm_flags [OF r _ x(2)] x(1) by metis
  have "buf_data p' = cipher_flags (if ?e then 1 else 0) (buf_data q)" using q(3) c(1) by auto
  then obtain p1 where "armor_salsa env' key ?e q = Inr p1" "wire_ok q (salsa_wire key ?e (buf_data p')) p1" using armor_salsa_ready [OF q(2)] by metis
  moreover have "salsa_wire key ?e (buf_data p') = ?d" unfolding d'(1) using salsa_rewire [OF p(3) _ m(1)] p by simp
  ultimately show ?thesis using q(1) by (simp add: packet_armor_def wire_ok_def)
qed

theorem dearmor_authentic_witness:
  "let env = \<lparr>ae_agree = xor_block, ae_ephemeral = ([], []), ae_tmp = replicate 64 3, ae_buf = replicate 16 4\<rparr>;
       p = \<lparr>buf_b = replicate 40 0, buf_l = 40\<rparr> in
   \<exists>p1 p' p''. packet_armor env (replicate 32 7) False False None [] p = Inr p1 \<and> packet_dearmor env (replicate 32 7) None [] p1 = Inr (True, p')
     \<and> packet_armor env (replicate 32 7) False False None [] p' = Inr p'' \<and> buf_data p'' = buf_data p1"
proof -
  define env where "env = \<lparr>ae_agree = xor_block, ae_ephemeral = ([] :: bytes, [] :: bytes), ae_tmp = replicate 64 3, ae_buf = replicate 16 4\<rparr>"
  define p :: buffer where "p = \<lparr>buf_b = replicate 40 0, buf_l = 40\<rparr>"
  define key :: bytes where "key = replicate 32 7"
  have r: "armor_ready env key p" "length (ae_tmp env) = 64" "length (ae_buf env) = 16"
    by (simp_all add: armor_ready_def env_def p_def key_def buf_inv_def buf_capacity_def buf_size_def)
  have x: "buf_data p ! 18 = 0" by (simp add: p_def buf_data_def)
  obtain q where q: "packet_setExtendedArmor False p = Inr q" "armor_ready env key q" "cipher_flags 0 (buf_data q) = buf_data p"
    using rearm_flags [OF r(1) x] by auto
  have "buf_data p = cipher_flags (if False then 1 else 0) (buf_data q)" using q(3) by simp
  then obtain p1 where p1: "armor_salsa env key False q = Inr p1" "wire_ok q (salsa_wire key False (buf_data p)) p1" "salsa_wire key False (buf_data p) ! 18 = buf_data p ! 18"
    "length (salsa_wire key False (buf_data p)) = buf_l q" "28 \<le> buf_l q" by (rule armor_salsa_ready [OF q(2)]) simp
  have i: "buf_inv p1" "28 \<le> buf_l p1" "buf_data p1 ! 18 = 0" using p1 wire_l [OF p1(2)] x by (auto simp: wire_ok_def)
  have a: "packet_armor env key False False None [] p = Inr p1" using q(1) p1(1) by (simp add: packet_armor_def)
  have f: "packet_cipher p1 = Inr 0" "packet_extendedArmor p1 = Inr False" using flags_read [OF i] by simp_all
  have "restored p (packet_dearmor env key None [] p1)"
    using armor_plain [OF r, of None False "[]" "[]"] a relayed_self by auto
  then obtain p' where p': "packet_dearmor env key None [] p1 = Inr (True, p')" by (auto simp: restored_def)
  have "armor_ready env key p1" using i r by (simp add: armor_ready_def buf_size_def)
  from dearmor_authentic [OF this r(2,3) f(1) _ f(2) p', of "[]"]
  show ?thesis unfolding env_def [symmetric] p_def [symmetric] key_def [symmetric] Let_def using a p' by auto
qed

end
