(* ===== verification/ZT_Multicaster.thy ===== *)
theory ZT_Multicaster
  imports ZT_Network ZT_Packet "HOL-Library.Multiset"
begin

text \<open>
  \<^verbatim>\<open>node/Multicaster.hpp\<close>, \<^verbatim>\<open>node/Multicaster.cpp\<close>, \<^verbatim>\<open>node/OutboundMulticast.hpp\<close> and \<^verbatim>\<open>node/OutboundMulticast.cpp\<close>: the members known of every multicast group, the answers to gather
  requests, the sending of multicast frames, at once or from a queue that waits for more members, and the cleaning of both. What other components answer during an operation are the fields of
  \<open>mc_env\<close>: the random numbers the node draws, the filter of the network, compression, and the paths to replicators; what is asked of them is the list of events an operation returns.
\<close>

unbundle bit_operations_syntax

section \<open>State\<close>

type_synonym mc_key = "u64 \<times> multicastgroup"

definition mc_hash :: "mc_key \<Rightarrow> u32" where
  "mc_hash k = mg_hashCode (snd k) XOR ucast (fst k XOR drop_bit 32 (fst k))"

record mc_member =
  mm_address :: address
  mm_timestamp :: u64

record outbound_multicast =
  om_timestamp :: u64
  om_nwid :: u64
  om_macSrc :: mac
  om_macDest :: mac
  om_limit :: nat
  om_etherType :: nat
  om_packet :: buffer
  om_alreadySentTo :: "address list"
  om_frameData :: bytes

record mc_group =
  gs_lastExplicitGather :: u64
  gs_txQueue :: "outbound_multicast list"
  gs_members :: "mc_member list"

type_synonym multicaster = "(mc_key, mc_group) hashtable"

definition mc_group_new :: mc_group where
  "mc_group_new = \<lparr>gs_lastExplicitGather = 0, gs_txQueue = [], gs_members = []\<rparr>"

definition mc_new :: "(nat \<Rightarrow> bool) \<Rightarrow> multicaster result" where
  "mc_new alloc = ht_new alloc 32"

text \<open>This node, the time, the allocator, memory and random bytes for a new packet, the random numbers drawn in an operation, whether the network is joined and its filter lets the frame
  pass to an address, compression, the latency of the path to a live peer, the upstream, whether the node saves bandwidth, and the network of a gather request.\<close>

record mc_env =
  me_self :: address
  me_now :: u64
  me_alloc :: "nat \<Rightarrow> bool"
  me_mem :: bytes
  me_iv :: bytes
  me_prng :: "nat \<Rightarrow> u64"
  me_passes :: "address \<Rightarrow> bool"
  me_compress :: "buffer \<Rightarrow> buffer"
  me_latency :: "address \<Rightarrow> nat option"
  me_upstream :: "address option"
  me_lowBandwidth :: bool
  me_network :: "network option"

datatype mc_event =
    SendFrame address bytes
  | SendGather address bytes
  | SendReplicate address bytes

abbreviation (input) VERB_MULTICAST_GATHER :: u8 where "VERB_MULTICAST_GATHER \<equiv> 0x0d"
abbreviation (input) VERB_MULTICAST_FRAME :: u8 where "VERB_MULTICAST_FRAME \<equiv> 0x0e"
abbreviation (input) MULTICAST_TRANSMIT_TIMEOUT :: nat where "MULTICAST_TRANSMIT_TIMEOUT \<equiv> 5000"
abbreviation (input) MULTICAST_LIKE_EXPIRE :: nat where "MULTICAST_LIKE_EXPIRE \<equiv> 600000"
abbreviation (input) MULTICAST_EXPLICIT_GATHER_DELAY :: nat where "MULTICAST_EXPLICIT_GATHER_DELAY \<equiv> 60000"
abbreviation (input) MC_TX_QUEUE_SIZE :: nat where "MC_TX_QUEUE_SIZE \<equiv> 32"
abbreviation (input) MAX_MTU :: nat where "MAX_MTU \<equiv> 10000"

section \<open>A multicast on its way out\<close>

definition packet_default :: "bytes \<Rightarrow> bytes \<Rightarrow> buffer result" where
  "packet_default mem iv = bindE (buf_new_size mem MIN_PACKET_LENGTH) (bseq [packet_newIV iv, \<lambda>p. buf_index_set p IDX_FLAGS 0])"

text \<open>The members the constructor leaves uninitialised are zero.\<close>

definition om_new :: "mc_env \<Rightarrow> outbound_multicast result" where
  "om_new E = bindE (packet_default (me_mem E) (me_iv E)) (\<lambda>p.
    Inr \<lparr>om_timestamp = 0, om_nwid = 0, om_macSrc = 0, om_macDest = 0, om_limit = 0, om_etherType = 0, om_packet = p, om_alreadySentTo = [], om_frameData = []\<rparr>)"

text \<open>The appends up to the first that throws.\<close>

fun append_until :: "(buffer \<Rightarrow> buffer result) list \<Rightarrow> buffer \<Rightarrow> buffer \<times> fault option" where
  "append_until [] b = (b, None)"
| "append_until (f # fs) b = (case f b of Inl e \<Rightarrow> (b, Some e) | Inr b' \<Rightarrow> append_until fs b')"

text \<open>The packet of a multicast frame is built in place: when it does not fit, the object keeps what was appended.\<close>

definition om_init :: "mc_env \<Rightarrow> u64 \<Rightarrow> nat \<Rightarrow> nat \<Rightarrow> mac \<Rightarrow> multicastgroup \<Rightarrow> nat \<Rightarrow> bytes \<Rightarrow> outbound_multicast \<Rightarrow> outbound_multicast \<times> fault option" where
  "om_init E nwid limit gatherLimit src dest etherType payload om =
    (let frameLen = (if length payload < MAX_MTU then length payload else MAX_MTU);
         flags = ((if src \<noteq> 0 then 4 else 0) OR (if gatherLimit \<noteq> 0 then 2 else 0) :: u8);
         om = om\<lparr>om_timestamp := me_now E, om_nwid := nwid, om_macSrc := (if src \<noteq> 0 then src else mac_fromAddress (me_self E) nwid),
                 om_macDest := mg_mac dest, om_limit := limit, om_etherType := etherType\<rparr>;
         (p, err) = append_until
           ([packet_setSource (me_self E), packet_setVerb VERB_MULTICAST_FRAME, buf_append 8 nwid, buf_append 1 flags]
            @ (if gatherLimit \<noteq> 0 then [buf_append 4 (of_nat gatherLimit :: u32)] else [])
            @ (if src \<noteq> 0 then [mac_appendTo src] else [])
            @ [mac_appendTo (mg_mac dest), buf_append 4 (mg_adi dest), buf_append 2 (of_nat etherType :: u16), buf_append_bytes payload frameLen])
           (om_packet om) in
     case err of
       Some e \<Rightarrow> (om\<lparr>om_packet := p\<rparr>, Some e)
     | None \<Rightarrow> (om\<lparr>om_packet := me_compress E p, om_frameData := take frameLen payload\<rparr>, None))"

definition om_expired :: "u64 \<Rightarrow> outbound_multicast \<Rightarrow> bool" where
  "om_expired now om \<longleftrightarrow> unat (now - om_timestamp om) \<ge> MULTICAST_TRANSMIT_TIMEOUT"

definition om_atLimit :: "outbound_multicast \<Rightarrow> bool" where
  "om_atLimit om \<longleftrightarrow> length (om_alreadySentTo om) \<ge> om_limit om"

definition om_sendOnly :: "mc_env \<Rightarrow> address \<Rightarrow> outbound_multicast \<Rightarrow> (outbound_multicast \<times> mc_event list) result" where
  "om_sendOnly E toAddr om =
    (if me_passes E toAddr then
       bindE (bseq [packet_newIV (me_iv E), packet_setDestination toAddr] (om_packet om)) (\<lambda>p.
         Inr (om\<lparr>om_packet := p\<rparr>, [SendFrame toAddr (buf_data p)]))
     else Inr (om, []))"

definition om_logAsSent :: "address \<Rightarrow> outbound_multicast \<Rightarrow> outbound_multicast" where
  "om_logAsSent toAddr om = om\<lparr>om_alreadySentTo := om_alreadySentTo om @ [toAddr]\<rparr>"

definition om_sendAndLog :: "mc_env \<Rightarrow> address \<Rightarrow> outbound_multicast \<Rightarrow> (outbound_multicast \<times> mc_event list) result" where
  "om_sendAndLog E toAddr om = om_sendOnly E toAddr (om_logAsSent toAddr om)"

definition om_sendIfNew :: "mc_env \<Rightarrow> address \<Rightarrow> outbound_multicast \<Rightarrow> (outbound_multicast \<times> mc_event list) result" where
  "om_sendIfNew E toAddr om = (if toAddr \<notin> set (om_alreadySentTo om) then om_sendAndLog E toAddr om else Inr (om, []))"

section \<open>Members of a group\<close>

text \<open>The queued multicasts are sent to a new member, and leave the queue when they have reached enough members.\<close>

fun add_tx :: "mc_env \<Rightarrow> address \<Rightarrow> outbound_multicast list \<Rightarrow> (outbound_multicast list \<times> mc_event list) result" where
  "add_tx E member [] = Inr ([], [])"
| "add_tx E member (tx # q) =
    (if om_atLimit tx then add_tx E member q
     else bindE (om_sendIfNew E member tx) (\<lambda>(tx, ev).
       bindE (add_tx E member q) (\<lambda>(q, ev'). Inr (if om_atLimit tx then q else tx # q, ev @ ev'))))"

definition member_bound :: "address \<Rightarrow> mc_member list \<Rightarrow> nat" where
  "member_bound a ms = length (takeWhile (\<lambda>m. mm_address m < a) ms)"

definition group_add :: "mc_env \<Rightarrow> address \<Rightarrow> mc_group \<Rightarrow> (mc_group \<times> mc_event list) result" where
  "group_add E member gs =
    (if member = me_self E then Inr (gs, [])
     else let ms = gs_members gs; i = member_bound member ms in
       if i < length ms \<and> mm_address (ms ! i) = member then Inr (gs\<lparr>gs_members := ms[i := (ms ! i)\<lparr>mm_timestamp := me_now E\<rparr>]\<rparr>, [])
       else bindE (add_tx E member (gs_txQueue gs)) (\<lambda>(q, ev).
         Inr (gs\<lparr>gs_members := take i ms @ [\<lparr>mm_address = member, mm_timestamp = me_now E\<rparr>] @ drop i ms, gs_txQueue := q\<rparr>, ev)))"

definition mc_add :: "mc_env \<Rightarrow> u64 \<Rightarrow> multicastgroup \<Rightarrow> address \<Rightarrow> multicaster \<Rightarrow> (multicaster \<times> mc_event list) result" where
  "mc_add E nwid mg member mc =
    (let (gs, t) = ht_index mc_hash (me_alloc E) mc_group_new (nwid, mg) mc in
     bindE (group_add E member gs) (\<lambda>(gs, ev). Inr (ht_set mc_hash (me_alloc E) (nwid, mg) gs t, ev)))"

fun group_add_all :: "mc_env \<Rightarrow> address list \<Rightarrow> mc_group \<Rightarrow> (mc_group \<times> mc_event list) result" where
  "group_add_all E [] gs = Inr (gs, [])"
| "group_add_all E (a # as) gs =
    bindE (group_add E a gs) (\<lambda>(gs, ev). bindE (group_add_all E as gs) (\<lambda>(gs, ev'). Inr (gs, ev @ ev')))"

fun read_addresses :: "nat \<Rightarrow> bytes \<Rightarrow> address list result" where
  "read_addresses 0 bs = Inr []"
| "read_addresses (Suc n) bs =
    bindE (mem_read bs 0 5) (\<lambda>f. bindE (address_setTo f 5) (\<lambda>a. bindE (read_addresses n (drop 5 bs)) (\<lambda>as. Inr (a # as))))"

definition mc_addMultiple :: "mc_env \<Rightarrow> u64 \<Rightarrow> multicastgroup \<Rightarrow> bytes \<Rightarrow> nat \<Rightarrow> multicaster \<Rightarrow> (multicaster \<times> mc_event list) result" where
  "mc_addMultiple E nwid mg addresses addressCount mc =
    (let (gs, t) = ht_index mc_hash (me_alloc E) mc_group_new (nwid, mg) mc in
     bindE (read_addresses addressCount addresses) (\<lambda>as.
     bindE (group_add_all E as gs) (\<lambda>(gs, ev). Inr (ht_set mc_hash (me_alloc E) (nwid, mg) gs t, ev))))"

fun remove_member :: "address \<Rightarrow> mc_member list \<Rightarrow> mc_member list" where
  "remove_member a [] = []"
| "remove_member a (m # ms) = (if mm_address m = a then ms else m # remove_member a ms)"

definition mc_remove :: "(nat \<Rightarrow> bool) \<Rightarrow> u64 \<Rightarrow> multicastgroup \<Rightarrow> address \<Rightarrow> multicaster \<Rightarrow> multicaster" where
  "mc_remove alloc nwid mg member mc =
    (case ht_get mc_hash mc (nwid, mg) of
       None \<Rightarrow> mc
     | Some s \<Rightarrow> ht_set mc_hash alloc (nwid, mg) (s\<lparr>gs_members := remove_member member (gs_members s)\<rparr>) mc)"

definition mc_getMembers :: "u64 \<Rightarrow> multicastgroup \<Rightarrow> nat \<Rightarrow> multicaster \<Rightarrow> address list" where
  "mc_getMembers nwid mg limit mc =
    (case ht_get mc_hash mc (nwid, mg) of None \<Rightarrow> [] | Some s \<Rightarrow> take (max 1 limit) (rev (map mm_address (gs_members s))))"

section \<open>Gathering\<close>

text \<open>The scan for a member that was not picked yet, from a random position on.\<close>

partial_function (option) gather_scan :: "address list \<Rightarrow> address list \<Rightarrow> u32 \<Rightarrow> address option" where
  "gather_scan as picked rptr =
    (let a = as ! (unat rptr mod length as) in
     if a \<in> set picked then gather_scan as picked (rptr + 1) else Some a)"

definition gather_put :: "address \<Rightarrow> buffer \<Rightarrow> buffer result" where
  "gather_put a b =
    bindE (buf_appendField 5 b) (\<lambda>(p, b).
    bindE (mem_write (buf_b b) p (address_octets a)) (\<lambda>m. Inr (b\<lparr>buf_b := m\<rparr>)))"

abbreviation (input) PICKED_SIZE :: nat where "PICKED_SIZE \<equiv> 2006"

function gather_loop :: "mc_env \<Rightarrow> address \<Rightarrow> nat \<Rightarrow> address list \<Rightarrow> address list \<Rightarrow> nat \<Rightarrow> buffer \<Rightarrow> (nat \<times> buffer) result option" where
  "gather_loop E queryingPeer limit as picked added b =
    (if added < limit \<and> length picked < length as \<and> buf_size b + 5 \<le> MAX_PACKET_LENGTH then
       (case gather_scan as picked (ucast (me_prng E (length picked))) of
          None \<Rightarrow> None
        | Some a \<Rightarrow>
            if length picked \<ge> PICKED_SIZE then Some (Inl UndefinedBehaviour)
            else if queryingPeer \<noteq> a then
              (case gather_put a b of
                 Inl e \<Rightarrow> Some (Inl e)
               | Inr b' \<Rightarrow> gather_loop E queryingPeer limit as (picked @ [a]) (added + 1) b')
            else gather_loop E queryingPeer limit as (picked @ [a]) added b)
     else Some (Inr (added, b)))"
  by pat_completeness auto
termination
  by (relation "measure (\<lambda>(E, q, limit, as, picked, added, b). length as - length picked)") auto

definition gather_self :: "mc_env \<Rightarrow> multicastgroup \<Rightarrow> bool" where
  "gather_self E mg = (case me_network E of None \<Rightarrow> False | Some nw \<Rightarrow> subscribedToMulticastGroup mg True nw)"

definition gather_finish :: "nat \<Rightarrow> nat \<Rightarrow> nat \<times> buffer \<Rightarrow> (nat \<times> buffer) result" where
  "gather_finish totalAt totalKnown = (\<lambda>(added, b).
    bindE (buf_setAt 4 b totalAt (of_nat totalKnown :: u32)) (\<lambda>b.
    bindE (buf_setAt 2 b (totalAt + 4) (of_nat added :: u16)) (\<lambda>b. Inr (added, b))))"

definition mc_gather :: "mc_env \<Rightarrow> address \<Rightarrow> u64 \<Rightarrow> multicastgroup \<Rightarrow> buffer \<Rightarrow> nat \<Rightarrow> multicaster \<Rightarrow> (nat \<times> buffer) result option" where
  "mc_gather E queryingPeer nwid mg appendTo limit mc =
    (if limit = 0 then Some (Inr (0, appendTo))
     else
       let limit = min limit 0xffff; totalAt = buf_size appendTo in
       case bindE (buf_addSize 4 appendTo) (\<lambda>b. bindE (buf_addSize 2 b) (\<lambda>b.
              if gather_self E mg then bindE (address_appendTo (me_self E) b) (\<lambda>b. Inr (1, b)) else Inr (0, b))) of
         Inl e \<Rightarrow> Some (Inl e)
       | Inr (known, b) \<Rightarrow>
           let ms = (case ht_get mc_hash mc (nwid, mg) of None \<Rightarrow> [] | Some s \<Rightarrow> map mm_address (gs_members s)) in
           map_option (\<lambda>r. bindE r (gather_finish totalAt (known + length ms))) (gather_loop E queryingPeer limit ms [] known b))"

section \<open>Sending\<close>

text \<open>The live replicator with the lowest latency, below 0xffff.\<close>

fun best_replicator :: "mc_env \<Rightarrow> address list \<Rightarrow> nat \<Rightarrow> address option \<Rightarrow> address option" where
  "best_replicator E [] latency best = best"
| "best_replicator E (a # as) latency best =
    (case me_latency E a of
       None \<Rightarrow> best_replicator E as latency best
     | Some l \<Rightarrow> if l < latency then best_replicator E as l (Some a) else best_replicator E as latency best)"

definition chosen_replicator :: "mc_env \<Rightarrow> networkconfig \<Rightarrow> address option" where
  "chosen_replicator E nc =
    (let rs = nc_multicastReplicators nc in
     if \<not> nc_isActiveBridge nc (me_self E) \<and> rs \<noteq> [] \<and> me_self E \<notin> set rs then best_replicator E rs 0xffff None else None)"

definition replicate_packet :: "mc_env \<Rightarrow> address \<Rightarrow> u64 \<Rightarrow> multicastgroup \<Rightarrow> mac \<Rightarrow> nat \<Rightarrow> bytes \<Rightarrow> buffer result" where
  "replicate_packet E to nwid mg src etherType data =
    bindE (packet_new (me_mem E) (me_iv E) to (me_self E) VERB_MULTICAST_FRAME) (\<lambda>p.
    bindE (bseq [buf_append 8 nwid, buf_append 1 (0x0c :: u8), mac_appendTo (if src \<noteq> 0 then src else mac_fromAddress (me_self E) nwid),
                 mac_appendTo (mg_mac mg), buf_append 4 (mg_adi mg), buf_append 2 (of_nat etherType :: u16), buf_append_bytes data (length data)] p) (\<lambda>p.
    Inr (me_compress E p)))"

text \<open>The random permutation of the indexes of the members: the positions from the last down are exchanged with one not above them. \<open>n\<close> counts the random numbers drawn.\<close>

definition exchange :: "nat \<Rightarrow> nat \<Rightarrow> 'a list \<Rightarrow> 'a list" where
  "exchange i j xs = xs[j := xs ! i, i := xs ! j]"

fun shuffle_indexes :: "(nat \<Rightarrow> u64) \<Rightarrow> nat \<Rightarrow> nat \<Rightarrow> nat list \<Rightarrow> nat list \<times> nat" where
  "shuffle_indexes r 0 n xs = (xs, n)"
| "shuffle_indexes r (Suc i) n xs = (let j = unat (ucast (r n) :: u32) mod (Suc i + 1) in shuffle_indexes r i (n + 1) (exchange (Suc i) j xs))"

text \<open>The shuffle of the addresses that are asked for members exchanges the positions that two random entries name.\<close>

fun shuffle_contacts :: "(nat \<Rightarrow> u64) \<Rightarrow> nat \<Rightarrow> nat \<Rightarrow> nat list \<Rightarrow> nat list" where
  "shuffle_contacts r n 0 xs = xs"
| "shuffle_contacts r n (Suc k) xs =
    (let x = r n;
         x1 = xs ! (unat (ucast x :: u32) mod length xs);
         x2 = xs ! (unat (ucast (drop_bit 32 x) :: u32) mod length xs) in
     shuffle_contacts r (n + 1) k (exchange x1 x2 xs))"

definition gather_peers :: "mc_env \<Rightarrow> nat \<Rightarrow> u64 \<Rightarrow> networkconfig \<Rightarrow> address list" where
  "gather_peers E n nwid nc =
    (let first = (case me_upstream E of None \<Rightarrow> [] | Some a \<Rightarrow> [a]) @ [address_of (drop_bit 24 nwid)];
         ac = nc_alwaysContactAddresses nc in
     first @ take (16 - length first) (map ((!) ac) (shuffle_contacts (me_prng E) n (length ac div 2) [0..<length ac])))"

definition gather_packet :: "mc_env \<Rightarrow> address \<Rightarrow> u64 \<Rightarrow> com \<Rightarrow> multicastgroup \<Rightarrow> nat \<Rightarrow> buffer result" where
  "gather_packet E to nwid com mg gatherLimit =
    bindE (packet_new (me_mem E) (me_iv E) to (me_self E) VERB_MULTICAST_GATHER)
      (bseq ([buf_append 8 nwid, buf_append 1 (if com_isSet com then 1 else 0 :: u8), mac_appendTo (mg_mac mg), buf_append 4 (mg_adi mg),
              buf_append 4 (of_nat gatherLimit :: u32)]
             @ (if com_isSet com then [com_serialize com] else [])))"

text \<open>Steps that emit events up to the first that throws.\<close>

fun each_until :: "('a \<Rightarrow> 's \<Rightarrow> ('s \<times> mc_event list) result) \<Rightarrow> 'a list \<Rightarrow> 's \<Rightarrow> 's \<times> mc_event list \<times> fault option" where
  "each_until f [] s = (s, [], None)"
| "each_until f (a # as) s =
    (case f a s of
       Inl e \<Rightarrow> (s, [], Some e)
     | Inr (s', ev) \<Rightarrow> (case each_until f as s' of (s'', ev', err) \<Rightarrow> (s'', ev @ ev', err)))"

text \<open>The loops over the members and the bridges: up to \<open>n\<close> addresses that satisfy a test.\<close>

fun pick_addresses :: "(address \<Rightarrow> bool) \<Rightarrow> nat \<Rightarrow> address list \<Rightarrow> address list" where
  "pick_addresses P 0 as = []"
| "pick_addresses P (Suc n) [] = []"
| "pick_addresses P (Suc n) (a # as) = (if P a then a # pick_addresses P n as else pick_addresses P (Suc n) as)"

definition one_pass_targets :: "address \<Rightarrow> networkconfig \<Rightarrow> address \<Rightarrow> address list \<Rightarrow> address list" where
  "one_pass_targets self nc origin members =
    (let bridges = nc_activeBridges nc in
     filter (\<lambda>a. a \<noteq> self \<and> a \<noteq> origin) bridges
     @ pick_addresses (\<lambda>a. a \<notin> set bridges \<and> a \<noteq> origin) (nc_multicastLimit nc) members)"

definition queued_targets :: "address \<Rightarrow> networkconfig \<Rightarrow> address list \<Rightarrow> address list" where
  "queued_targets self nc members =
    (let bridges = nc_activeBridges nc; limit = nc_multicastLimit nc; bs = pick_addresses (\<lambda>a. a \<noteq> self) limit bridges in
     bs @ pick_addresses (\<lambda>a. a \<notin> set bridges) (limit - length bs) members)"

text \<open>Enough members are known: the frame is sent at once. The group does not change.\<close>

definition send_one_pass :: "mc_env \<Rightarrow> u64 \<Rightarrow> networkconfig \<Rightarrow> address \<Rightarrow> multicastgroup \<Rightarrow> mac \<Rightarrow> nat \<Rightarrow> bytes \<Rightarrow> address list \<Rightarrow> mc_event list \<times> fault option" where
  "send_one_pass E nwid nc origin mg src etherType data members =
    (case om_new E of
       Inl e \<Rightarrow> ([], Some e)
     | Inr om \<Rightarrow>
         (case om_init E nwid (nc_multicastLimit nc) 1 src mg etherType data om of
            (om, Some e) \<Rightarrow> ([], Some e)
          | (om, None) \<Rightarrow> snd (each_until (om_sendOnly E) (one_pass_targets (me_self E) nc origin members) om)))"

text \<open>Too few members are known: after asking for more, the frame is queued and sent to those known.\<close>

definition explicit_gather :: "mc_env \<Rightarrow> nat \<Rightarrow> u64 \<Rightarrow> networkconfig \<Rightarrow> multicastgroup \<Rightarrow> nat \<Rightarrow> mc_group \<Rightarrow> mc_group \<times> mc_event list \<times> fault option" where
  "explicit_gather E n nwid nc mg gatherLimit gs =
    (if gs_members gs = [] \<or> sint (me_now E - gs_lastExplicitGather gs) \<ge> int (MULTICAST_EXPLICIT_GATHER_DELAY * (if me_lowBandwidth E then 3 else 1)) then
       each_until (\<lambda>a gs. bindE (gather_packet E a nwid (nc_com nc) mg gatherLimit) (\<lambda>p. Inr (gs, [SendGather a (buf_data p)])))
         (gather_peers E n nwid nc) (gs\<lparr>gs_lastExplicitGather := me_now E\<rparr>)
     else (gs, [], None))"

definition queue_multicast :: "mc_env \<Rightarrow> u64 \<Rightarrow> networkconfig \<Rightarrow> address \<Rightarrow> multicastgroup \<Rightarrow> mac \<Rightarrow> nat \<Rightarrow> bytes \<Rightarrow> address list \<Rightarrow> nat \<Rightarrow> mc_group \<Rightarrow>
    mc_group \<times> mc_event list \<times> fault option" where
  "queue_multicast E nwid nc origin mg src etherType data members gatherLimit gs =
    (case om_new E of
       Inl e \<Rightarrow> (gs, [], Some e)
     | Inr om \<Rightarrow>
         (case om_init E nwid (nc_multicastLimit nc) gatherLimit src mg etherType data om of
            (om, Some e) \<Rightarrow> (gs\<lparr>gs_txQueue := gs_txQueue gs @ [om]\<rparr>, [], Some e)
          | (om, None) \<Rightarrow>
              (case each_until (om_sendAndLog E) (queued_targets (me_self E) nc members) (if origin \<noteq> 0 then om_logAsSent origin om else om) of
                 (om, ev, err) \<Rightarrow> (gs\<lparr>gs_txQueue := gs_txQueue gs @ [om]\<rparr>, ev, err))))"

definition send_queued :: "mc_env \<Rightarrow> nat \<Rightarrow> u64 \<Rightarrow> networkconfig \<Rightarrow> address \<Rightarrow> multicastgroup \<Rightarrow> mac \<Rightarrow> nat \<Rightarrow> bytes \<Rightarrow> address list \<Rightarrow> mc_group \<Rightarrow> mc_group \<times> mc_event list \<times> fault option" where
  "send_queued E n nwid nc origin mg src etherType data members gs =
    (let gs = gs\<lparr>gs_txQueue := drop (length (gs_txQueue gs) - (MC_TX_QUEUE_SIZE - 1)) (gs_txQueue gs)\<rparr>;
         gatherLimit = nc_multicastLimit nc - length (gs_members gs) + 1 in
     case explicit_gather E n nwid nc mg gatherLimit gs of
       (gs, ev, Some e) \<Rightarrow> (gs, ev, Some e)
     | (gs, ev, None) \<Rightarrow>
         (case queue_multicast E nwid nc origin mg src etherType data members gatherLimit gs of (gs, ev', err) \<Rightarrow> (gs, ev @ ev', err)))"

text \<open>The whole of \<open>send\<close>: an exception on the way through the group is swallowed, one of the replicator's packet is not.\<close>

definition mc_send :: "mc_env \<Rightarrow> u64 \<Rightarrow> networkconfig \<Rightarrow> address \<Rightarrow> multicastgroup \<Rightarrow> mac \<Rightarrow> nat \<Rightarrow> bytes \<Rightarrow> multicaster \<Rightarrow> (multicaster \<times> mc_event list) result" where
  "mc_send E nwid nc origin mg src etherType data mc =
    (case chosen_replicator E nc of
       Some a \<Rightarrow> bindE (replicate_packet E a nwid mg src etherType data) (\<lambda>p. Inr (mc, [SendReplicate a (buf_data p)]))
     | None \<Rightarrow>
         let (gs, t) = ht_index mc_hash (me_alloc E) mc_group_new (nwid, mg) mc;
             n = length (gs_members gs);
             (indexes, drawn) = (if n \<noteq> 0 then shuffle_indexes (me_prng E) (n - 1) 0 [0..<n] else ([], 0));
             members = map (\<lambda>i. mm_address (gs_members gs ! i)) indexes;
             (gs, ev, err) =
               (if n \<ge> nc_multicastLimit nc then (gs, send_one_pass E nwid nc origin mg src etherType data members)
                else send_queued E drawn nwid nc origin mg src etherType data members gs) in
         if err = Some UndefinedBehaviour then Inl UndefinedBehaviour
         else Inr (ht_set mc_hash (me_alloc E) (nwid, mg) gs t, ev))"

section \<open>Cleaning\<close>

text \<open>What is left of a group, \<open>None\<close> when it is erased.\<close>

definition clean_group :: "u64 \<Rightarrow> mc_group \<Rightarrow> mc_group option" where
  "clean_group now s =
    (let q = filter (\<lambda>tx. \<not> (om_expired now tx \<or> om_atLimit tx)) (gs_txQueue s);
         ms = filter (\<lambda>m. sint (now - mm_timestamp m) < int MULTICAST_LIKE_EXPIRE) (gs_members s) in
     if ms = [] \<and> q = [] then None else Some (s\<lparr>gs_txQueue := q, gs_members := ms\<rparr>))"

fun clean_groups :: "nat \<Rightarrow> (nat \<Rightarrow> bool) \<Rightarrow> u64 \<Rightarrow> multicaster \<Rightarrow> (mc_key, mc_group) ht_iter \<Rightarrow> multicaster option" where
  "clean_groups 0 alloc now t it = None"
| "clean_groups (Suc n) alloc now t it =
    (case ht_next t it of
       (None, _) \<Rightarrow> Some t
     | (Some (k, s), it') \<Rightarrow>
         (case clean_group now s of
            None \<Rightarrow> clean_groups n alloc now (snd (ht_erase mc_hash k t)) it'
          | Some s' \<Rightarrow> clean_groups n alloc now (ht_set mc_hash alloc k s' t) it'))"

definition mc_clean :: "(nat \<Rightarrow> bool) \<Rightarrow> u64 \<Rightarrow> multicaster \<Rightarrow> multicaster option" where
  "mc_clean alloc now mc = clean_groups (ht_size mc + 1) alloc now mc (ht_iterator mc)"

section \<open>The invariant and the gather loop\<close>

definition group_inv :: "address \<Rightarrow> mc_group \<Rightarrow> bool" where
  "group_inv self gs \<longleftrightarrow> sorted_wrt (<) (map mm_address (gs_members gs)) \<and> self \<notin> set (map mm_address (gs_members gs)) \<and> length (gs_txQueue gs) \<le> 32"

definition mc_inv :: "address \<Rightarrow> multicaster \<Rightarrow> bool" where
  "mc_inv self mc \<longleftrightarrow> ht_inv mc_hash mc \<and> (\<forall>k gs. ht_get mc_hash mc k = Some gs \<longrightarrow> group_inv self gs)"

definition members_of :: "multicaster \<Rightarrow> mc_key \<Rightarrow> address list" where
  "members_of mc k = (case ht_get mc_hash mc k of None \<Rightarrow> [] | Some gs \<Rightarrow> map mm_address (gs_members gs))"

definition octets :: "address list \<Rightarrow> bytes" where
  "octets as = concat (map address_octets as)"

definition picked_ok :: "address \<Rightarrow> address list \<Rightarrow> buffer \<Rightarrow> bool" where
  "picked_ok q picked b \<longleftrightarrow> 5 * length picked \<le> buf_l b + (if q \<in> set picked then 5 else 0)"

lemma member_split:
  assumes "sorted_wrt (<) (map mm_address ms)"
  shows "take (member_bound a ms) ms = filter (\<lambda>m. mm_address m < a) ms \<and> drop (member_bound a ms) ms = filter (\<lambda>m. \<not> mm_address m < a) ms"
proof -
  have "sorted_wrt (\<lambda>x y. mm_address y < a \<longrightarrow> mm_address x < a) ms"
    using assms unfolding sorted_wrt_map by (rule sorted_wrt_mono_rel [rotated]) auto
  from takeWhile_closed [OF this] show ?thesis unfolding member_bound_def split_takeWhile by blast
qed

lemma member_found:
  assumes "sorted_wrt (<) (map mm_address ms)"
  shows "(member_bound a ms < length ms \<and> mm_address (ms ! member_bound a ms) = a) \<longleftrightarrow> a \<in> mm_address ` set ms"
proof
  assume "member_bound a ms < length ms \<and> mm_address (ms ! member_bound a ms) = a"
  then show "a \<in> mm_address ` set ms" using nth_mem by force
next
  let ?i = "member_bound a ms"
  assume "a \<in> mm_address ` set ms"
  then obtain m where m: "m \<in> set ms" "mm_address m = a" by auto
  then have md: "m \<in> set (drop ?i ms)" using member_split [OF assms, of a] by simp
  then have i: "?i < length ms" by (metis drop_all empty_iff empty_set not_le)
  obtain r where r: "drop ?i ms = ms ! ?i # r" using i by (metis Cons_nth_drop_Suc)
  have s: "sorted_wrt (<) (map mm_address (drop ?i ms))" using assms by (simp add: drop_map [symmetric] sorted_wrt_drop)
  have "ms ! ?i \<in> set (drop ?i ms)" using r by simp
  then have "\<not> mm_address (ms ! ?i) < a" using member_split [OF assms, of a] by simp
  moreover have "mm_address (ms ! ?i) \<le> a" using md s m(2) unfolding r by auto
  ultimately show "?i < length ms \<and> mm_address (ms ! ?i) = a" using i by auto
qed

lemma sorted_insert:
  assumes "sorted_wrt (<) (map mm_address ms)" "mm_address m \<notin> mm_address ` set ms"
  shows "sorted_wrt (<) (map mm_address (take (member_bound (mm_address m) ms) ms @ [m] @ drop (member_bound (mm_address m) ms) ms))"
proof -
  have s: "sorted_wrt (<) (map mm_address (filter P ms))" for P using assms(1) unfolding sorted_wrt_map by (rule sorted_wrt_filter)
  have "mm_address m < mm_address x" if "x \<in> set ms" "\<not> mm_address x < mm_address m" for x
    using that assms(2) by (metis image_eqI linorder_neqE)
  then show ?thesis using member_split [OF assms(1), of "mm_address m"] s by (auto simp: sorted_wrt_append)
qed

lemma om_send_queue:
  assumes "add_tx E a q = Inr (q', ev)"
  shows "length q' \<le> length q"
  using assms
proof (induction q arbitrary: q' ev)
  case (Cons tx q)
  then show ?case by (fastforce simp: bindE_eq_Inr split: if_splits)
qed simp

lemma group_add_inv:
  assumes "group_inv (me_self E) gs" "group_add E a gs = Inr (gs', ev)"
  shows "group_inv (me_self E) gs' \<and> set (map mm_address (gs_members gs')) = set (map mm_address (gs_members gs)) \<union> ({a} - {me_self E})"
proof (cases "a = me_self E")
  case True
  then show ?thesis using assms by (simp add: group_add_def)
next
  case False
  let ?ms = "gs_members gs" and ?m = "\<lparr>mm_address = a, mm_timestamp = me_now E\<rparr>"
  let ?i = "member_bound a ?ms"
  have s: "sorted_wrt (<) (map mm_address ?ms)" using assms(1) by (simp add: group_inv_def)
  show ?thesis
  proof (cases "?i < length ?ms \<and> mm_address (?ms ! ?i) = a")
    case True
    then have "map mm_address (?ms[?i := (?ms ! ?i)\<lparr>mm_timestamp := me_now E\<rparr>]) = map mm_address ?ms"
      by (simp add: map_update list_update_same_conv)
    moreover have "a \<in> mm_address ` set ?ms" using True member_found [OF s] by blast
    ultimately show ?thesis using assms True False by (auto simp: group_add_def Let_def group_inv_def simp del: set_map) (auto simp: set_map)
  next
    case nf: False
    then obtain q where q: "add_tx E a (gs_txQueue gs) = Inr (q, ev)" "gs' = gs\<lparr>gs_members := take ?i ?ms @ [?m] @ drop ?i ?ms, gs_txQueue := q\<rparr>"
      using assms(2) False by (auto simp: group_add_def Let_def bindE_eq_Inr)
    have "a \<notin> mm_address ` set ?ms" using nf member_found [OF s] by blast
    then have "sorted_wrt (<) (map mm_address (gs_members gs'))" using sorted_insert [OF s, of ?m] q(2) by simp
    moreover have "set (take ?i ?ms) \<union> set (drop ?i ?ms) = set ?ms" by (metis append_take_drop_id set_append)
    then have "set (map mm_address (gs_members gs')) = set (map mm_address ?ms) \<union> {a}" using q(2) by auto
    ultimately show ?thesis using assms(1) False q om_send_queue [OF q(1)] by (auto simp: group_inv_def)
  qed
qed

lemma index_get:
  assumes "ht_inv hc t" "ht_index hc alloc d k t = (v, t')"
  shows "v = (case ht_get hc t k of None \<Rightarrow> d | Some w \<Rightarrow> w)" "ht_inv hc t'" "ht_get hc t' = (ht_get hc t)(k \<mapsto> v)"
proof -
  have g: "chain_get k (ht_t t ! (unat (hc k) mod ht_bc t)) = ht_get hc t k" by (simp add: ht_get_def)
  show "v = (case ht_get hc t k of None \<Rightarrow> d | Some w \<Rightarrow> w)" "ht_inv hc t'" "ht_get hc t' = (ht_get hc t)(k \<mapsto> v)"
    using assms ht_insert_new_spec [OF assms(1), of k alloc d] by (auto simp: ht_index_def g split: option.splits)
qed

lemma mc_index:
  assumes "mc_inv self mc" "ht_index mc_hash alloc mc_group_new k mc = (gs, t)"
  shows "group_inv self gs" "ht_inv mc_hash t" "map mm_address (gs_members gs) = members_of mc k"
    "\<And>gs'. group_inv self gs' \<Longrightarrow> mc_inv self (ht_set mc_hash alloc k gs' t) \<and> ht_get mc_hash (ht_set mc_hash alloc k gs' t) = (ht_get mc_hash mc)(k \<mapsto> gs')"
proof -
  have i: "ht_inv mc_hash mc" using assms(1) by (simp add: mc_inv_def)
  note g = index_get [OF i assms(2)]
  have "group_inv self mc_group_new" by (simp add: group_inv_def mc_group_new_def)
  moreover have "\<forall>gs. ht_get mc_hash mc k = Some gs \<longrightarrow> group_inv self gs" using assms(1) unfolding mc_inv_def by blast
  ultimately show "group_inv self gs" "map mm_address (gs_members gs) = members_of mc k"
    using g(1) by (auto simp: members_of_def mc_group_new_def split: option.splits)
  show "ht_inv mc_hash t" by (rule g(2))
  show "mc_inv self (ht_set mc_hash alloc k gs' t) \<and> ht_get mc_hash (ht_set mc_hash alloc k gs' t) = (ht_get mc_hash mc)(k \<mapsto> gs')" if "group_inv self gs'" for gs'
    using ht_set_spec [OF g(2), of alloc k gs'] g(3) that assms(1) by (auto simp: mc_inv_def)
qed

lemma mc_add_inv:
  assumes "mc_inv (me_self E) mc" "mc_add E nwid mg a mc = Inr (mc', ev)"
  shows "mc_inv (me_self E) mc' \<and> set (members_of mc' (nwid, mg)) = set (members_of mc (nwid, mg)) \<union> ({a} - {me_self E})
    \<and> (\<forall>k. k \<noteq> (nwid, mg) \<longrightarrow> ht_get mc_hash mc' k = ht_get mc_hash mc k)"
proof -
  obtain gs t where t: "ht_index mc_hash (me_alloc E) mc_group_new (nwid, mg) mc = (gs, t)" by fastforce
  obtain gs' where gs': "group_add E a gs = Inr (gs', ev)" "mc' = ht_set mc_hash (me_alloc E) (nwid, mg) gs' t"
    using assms(2) t by (auto simp: mc_add_def bindE_eq_Inr)
  note i = mc_index [OF assms(1) t]
  note a = group_add_inv [OF i(1) gs'(1)]
  show ?thesis using a i(3) i(4) [of gs'] gs'(2) by (auto simp: members_of_def)
qed

section \<open>The scan ends\<close>

lemma scan_returns:
  assumes "i < length as" "as ! i \<notin> set picked" "length as < 2 ^ 32"
  shows "\<exists>a \<in> set as. a \<notin> set picked \<and> gather_scan as picked rptr = Some a"
proof (induction "unat (of_nat i - rptr :: u32)" arbitrary: rptr rule: less_induct)
  case less
  let ?a = "as ! (unat rptr mod length as)"
  show ?case
  proof (cases "?a \<in> set picked")
    case False
    then show ?thesis using assms(1) 
      by (auto simp: gather_scan.simps [of as picked rptr] Let_def intro!: bexI [of _ ?a] nth_mem mod_less_divisor)
  next
    case True
    have "rptr \<noteq> of_nat i"
    proof
      assume "rptr = of_nat i"
      then have "unat rptr = i" using assms(1,3) by (simp add: unat_of_nat)
      then show False using True assms(1,2) by simp
    qed
    then have "of_nat i - rptr \<noteq> 0" by simp
    then have "unat (of_nat i - rptr - 1) < unat (of_nat i - rptr)" by (rule measure_unat)
    then have "unat (of_nat i - (rptr + 1)) < unat (of_nat i - rptr)" by (simp add: diff_diff_eq)
    from less [OF this] show ?thesis using True by (simp add: gather_scan.simps [of as picked rptr] Let_def)
  qed
qed

lemma length_octets [simp]: "length (address_octets a) = 5"
  by (simp add: address_octets_def)

lemma gather_put_data:
  assumes "buf_inv b" "buf_l b + 5 \<le> buf_capacity b"
  shows "gather_put a b = Inr (buf_put (address_octets a) b)"
proof -
  have "uadd (buf_l b) 5 = buf_l b + 5" using uadd_l [OF assms(1), of 5] by simp
  then show ?thesis using assms by (simp add: gather_put_def buf_appendField_def mem_write_def buf_put_def buf_capacity_def)
qed

lemma length_octets_all [simp]: "length (octets as) = 5 * length as"
  by (induction as) (simp_all add: octets_def)

lemma octets_simps [simp]: "octets [] = []" "octets (a # as) = address_octets a @ octets as"
  by (simp_all add: octets_def)

lemma gather_loop_spec:
  assumes "buf_inv b" "buf_capacity b = 10024" "distinct as" "length as < 2 ^ 32" "distinct picked" "set picked \<subseteq> set as" "picked_ok q picked b" "added \<le> limit"
  shows "\<exists>res. gather_loop E q limit as picked added b = Some (Inr (added + length res, buf_put (octets res) b)) \<and> buf_fits (octets res) b \<and> distinct res
    \<and> set res \<subseteq> set as - set picked - {q} \<and> added + length res \<le> limit
    \<and> (added + length res = limit \<or> buf_l b + 5 * length res + 5 > 10024 \<or> set as \<subseteq> set picked \<union> set res \<union> {q})"
  using assms
proof (induction "length as - length picked" arbitrary: picked added b rule: less_induct)
  case less
  show ?case
  proof (cases "added < limit \<and> length picked < length as \<and> buf_l b + 5 \<le> 10024")
    case False
    have "length picked = length as \<Longrightarrow> set picked = set as"
      using less.prems(3,5,6) by (metis card_subset_eq distinct_card finite_set)
    moreover have "length picked \<le> length as" using less.prems(3,5,6) by (metis card_mono distinct_card finite_set)
    ultimately show ?thesis using False less.prems
      by (intro exI [of _ "[]"]) (auto simp: gather_loop.simps [of E q limit as picked added b] buf_size_def buf_fits_def buf_inv_def)
  next
    case True
    have "card (set picked) < card (set as)" using True less.prems(3,5) by (simp add: distinct_card)
    then have "\<not> set as \<subseteq> set picked" by (metis card_mono finite_set not_le)
    then obtain i where "i < length as" "as ! i \<notin> set picked" by (auto simp: in_set_conv_nth subset_iff)
    then obtain a where a: "a \<in> set as" "a \<notin> set picked" "gather_scan as picked (ucast (me_prng E (length picked))) = Some a"
      using scan_returns [OF _ _ less.prems(4)] by blast
    have p: "length picked < 2006" using True less.prems(7) by (auto simp: picked_ok_def split: if_splits)
    have m: "length as - length (picked @ [a]) < length as - length picked" using True by auto
    have d: "distinct (picked @ [a])" "set (picked @ [a]) \<subseteq> set as" using a less.prems(5,6) by auto
    show ?thesis
    proof (cases "q = a")
      case q: True
      have "picked_ok q (picked @ [a]) b" using less.prems(7) a(2) q by (auto simp: picked_ok_def)
      from less.hyps [OF m less.prems(1-4) d this less.prems(8)] show ?thesis
        using True a p q by (force simp: gather_loop.simps [of E q limit as picked added b] buf_size_def)
    next
      case q: False
      let ?b = "buf_put (address_octets a) b"
      have f: "buf_fits (address_octets a) b" using True less.prems(2) by (simp add: buf_fits_def)
      have b: "buf_inv ?b" "buf_capacity ?b = 10024" "buf_l ?b = buf_l b + 5" using less.prems(1,2) f by simp_all
      have "picked_ok q (picked @ [a]) ?b" using less.prems(7) q b(3) by (auto simp: picked_ok_def)
      from less.hyps [OF m b(1,2) less.prems(3,4) d this, of "added + 1"] True
      obtain res where res: "gather_loop E q limit as (picked @ [a]) (added + 1) ?b = Some (Inr (added + 1 + length res, buf_put (octets res) ?b))" "buf_fits (octets res) ?b"
        "distinct res" "set res \<subseteq> set as - set (picked @ [a]) - {q}" "added + 1 + length res \<le> limit"
        "added + 1 + length res = limit \<or> buf_l ?b + 5 * length res + 5 > 10024 \<or> set as \<subseteq> set (picked @ [a]) \<union> set res \<union> {q}" by auto
      have "gather_loop E q limit as picked added b = Some (Inr (added + 1 + length res, buf_put (octets res) ?b))"
        using True a(3) p q gather_put_data [OF less.prems(1), of a] less.prems(2) res(1)
        by (simp add: gather_loop.simps [of E q limit as picked added b] buf_size_def)
      then show ?thesis
        using res(2-6) f a(1,2) q b(3) less.prems(1) by (intro exI [of _ "a # res"]) auto
    qed
  qed
qed

lemma patch_counts:
  assumes "length u = 6" "length x = 4" "length y = 2"
  shows "patch (length d + 4) y (patch (length d) x (d @ u @ r)) = d @ x @ y @ r"
  using assms by (simp add: patch_def)

lemma gather_finish_data:
  assumes "buf_inv b" "buf_data b = d @ u @ r" "length u = 6"
  shows "\<exists>b'. gather_finish (length d) known (n, b) = Inr (n, b') \<and> buf_inv b' \<and> buf_data b' = d @ be_bytes 4 (of_nat known :: u32) @ be_bytes 2 (of_nat n :: u16) @ r"
proof -
  have l: "buf_l b = length d + 6 + length r" using buf_data_length [OF assms(1)] assms(2,3) by simp
  let ?x = "be_bytes 4 (of_nat known :: u32)" and ?y = "be_bytes 2 (of_nat n :: u16)"
  let ?b = "buf_upd (length d + 4) ?y (buf_upd (length d) ?x b)"
  have "gather_finish (length d) known (n, b) = Inr (n, ?b)"
    using assms(1) l by (simp add: gather_finish_def buf_setAt_upd del: be_bytes_numeral)
  moreover have "buf_data ?b = d @ ?x @ ?y @ r"
    using assms l patch_counts [of u ?x ?y d r] by (simp del: be_bytes_numeral)
  ultimately show ?thesis using assms(1) l by (simp del: be_bytes_numeral)
qed

section \<open>The answer to a gather request\<close>

text \<open>This node, when it answers for itself.\<close>

definition selfs :: "mc_env \<Rightarrow> multicastgroup \<Rightarrow> address list" where
  "selfs E mg = (if gather_self E mg then [me_self E] else [])"

declare gather_loop.simps [simp del]

lemma octets_append [simp]: "octets (as @ bs) = octets as @ octets bs"
  by (simp add: octets_def)

lemma addSize_data:
  assumes "buf_inv b" "buf_l b + n \<le> buf_capacity b" "n < 2 ^ 31"
  shows "\<exists>u b'. buf_addSize n b = Inr b' \<and> buf_inv b' \<and> buf_capacity b' = buf_capacity b \<and> buf_l b' = buf_l b + n \<and> length u = n \<and> buf_data b' = buf_data b @ u"
proof -
  let ?b = "b\<lparr>buf_l := buf_l b + n\<rparr>"
  have "uadd n (buf_l b) = buf_l b + n" "uadd (buf_l b) n = buf_l b + n" using uadd_l [OF assms(1,3)] by (simp_all add: uadd_def add.commute)
  then have "buf_addSize n b = Inr ?b" using assms(2) by (simp add: buf_addSize_def)
  moreover have "buf_inv ?b" using assms(1,2) by (simp add: buf_inv_def buf_capacity_def)
  moreover have "buf_data ?b = buf_data b @ take n (drop (buf_l b) (buf_b b))" by (simp add: buf_data_def take_add)
  ultimately show ?thesis using assms(2) by (intro exI [of _ "take n (drop (buf_l b) (buf_b b))"] exI [of _ ?b]) (simp add: buf_capacity_def)
qed

lemma gather_head:
  assumes "buf_inv b" "buf_capacity b = 10024" "buf_l b + 11 \<le> 10024"
  shows "\<exists>u b'. bindE (buf_addSize 4 b) (\<lambda>b. bindE (buf_addSize 2 b) (\<lambda>b.
              if gather_self E mg then bindE (address_appendTo (me_self E) b) (\<lambda>b. Inr (1, b)) else Inr (0, b)))
            = Inr (if gather_self E mg then 1 else 0 :: nat, b') \<and> buf_inv b' \<and> buf_capacity b' = 10024 \<and> length u = 6
      \<and> buf_data b' = buf_data b @ u @ octets (if gather_self E mg then [me_self E] else []) \<and> buf_l b' = buf_l b + 6 + (if gather_self E mg then 5 else 0)"
proof -
  obtain u b1 where 1: "buf_addSize 4 b = Inr b1" "buf_inv b1" "buf_capacity b1 = 10024" "buf_l b1 = buf_l b + 4" "length u = 4" "buf_data b1 = buf_data b @ u"
    using addSize_data [OF assms(1), of 4] assms(2,3) by auto
  obtain v b2 where 2: "buf_addSize 2 b1 = Inr b2" "buf_inv b2" "buf_capacity b2 = 10024" "buf_l b2 = buf_l b + 6" "length v = 2" "buf_data b2 = buf_data b @ u @ v"
    using addSize_data [OF 1(2), of 2] 1 assms(3) by auto
  show ?thesis
  proof (cases "gather_self E mg")
    case True
    have f: "buf_fits (be_bytes 5 (me_self E)) b2" using 2 assms(3) by (simp add: buf_fits_def)
    then have "address_appendTo (me_self E) b2 = Inr (buf_put (be_bytes 5 (me_self E)) b2)" using emitsD [OF emits_address 2(2)] by simp
    then show ?thesis using True 1 2 f
      by (intro exI [of _ "u @ v"] exI [of _ "buf_put (be_bytes 5 (me_self E)) b2"]) (simp add: address_octets_be del: be_bytes_numeral)
  next
    case False
    then show ?thesis using 1 2 by (intro exI [of _ "u @ v"] exI [of _ b2]) simp
  qed
qed

lemma group_members_of:
  "(case ht_get mc_hash mc k of None \<Rightarrow> [] | Some s \<Rightarrow> map mm_address (gs_members s)) = members_of mc k"
  by (simp add: members_of_def)

lemma members_of_props:
  assumes "mc_inv self mc"
  shows "distinct (members_of mc k)" "self \<notin> set (members_of mc k)"
proof -
  have "distinct (members_of mc k) \<and> self \<notin> set (members_of mc k)"
  proof (cases "ht_get mc_hash mc k")
    case (Some gs)
    then have "group_inv self gs" using assms unfolding mc_inv_def by blast
    then show ?thesis using Some by (auto simp: members_of_def group_inv_def strict_sorted_iff)
  qed (simp add: members_of_def)
  then show "distinct (members_of mc k)" "self \<notin> set (members_of mc k)" by simp_all
qed

text \<open>C15: a gather request always gets an answer, although the scan for a member that was not picked yet is a loop without a bound of its own. The answer holds the number of known members, the number of
  addresses it returns and the addresses: as many as asked for at most, without repetition, only members, and this node when it is subscribed, never the peer that asks, and when fewer are returned than
  asked for, the packet is full or all members are in it.\<close>

theorem gather_correct:
  assumes "mc_inv (me_self E) mc" "length (members_of mc (nwid, mg)) < 2 ^ 32" "0 < limit"
    "buf_inv b" "buf_capacity b = MAX_PACKET_LENGTH" "buf_l b + 11 \<le> MAX_PACKET_LENGTH"
  shows "\<exists>as b'. mc_gather E q nwid mg b limit mc = Some (Inr (length as, b')) \<and> buf_inv b'
    \<and> buf_data b' = buf_data b @ be_bytes 4 (of_nat (length (selfs E mg) + length (members_of mc (nwid, mg))) :: u32) @ be_bytes 2 (of_nat (length as) :: u16) @ octets as
    \<and> distinct as \<and> length as \<le> min limit 0xffff \<and> set (selfs E mg) \<subseteq> set as \<and> set as \<subseteq> set (selfs E mg) \<union> (set (members_of mc (nwid, mg)) - {q})
    \<and> (length as = min limit 0xffff \<or> buf_l b' + 5 > MAX_PACKET_LENGTH \<or> set (members_of mc (nwid, mg)) - {q} \<subseteq> set as)"
proof -
  let ?ms = "members_of mc (nwid, mg)"
  let ?n = "if gather_self E mg then 1 else 0 :: nat"
  have n: "length (selfs E mg) = ?n" by (simp add: selfs_def)
  have le: "?n \<le> min limit 0xffff" using assms(3) by simp
  obtain u b1 where b1: "bindE (buf_addSize 4 b) (\<lambda>b. bindE (buf_addSize 2 b) (\<lambda>b.
        if gather_self E mg then bindE (address_appendTo (me_self E) b) (\<lambda>b. Inr (1, b)) else Inr (0, b))) = Inr (?n, b1)"
      "buf_inv b1" "buf_capacity b1 = 10024" "length u = 6" "buf_data b1 = buf_data b @ u @ octets (selfs E mg)"
    using gather_head [OF assms(4-6), of E mg] unfolding selfs_def by blast
  note m = members_of_props [OF assms(1), of "(nwid, mg)"]
  obtain res where res: "gather_loop E q (min limit 0xffff) ?ms [] ?n b1 = Some (Inr (?n + length res, buf_put (octets res) b1))" "buf_fits (octets res) b1" "distinct res"
      "set res \<subseteq> set ?ms - {q}" "?n + length res \<le> min limit 0xffff"
      "?n + length res = min limit 0xffff \<or> buf_l b1 + 5 * length res + 5 > 10024 \<or> set ?ms \<subseteq> set res \<union> {q}"
    using gather_loop_spec [OF b1(2,3) m(1) assms(2), of "[]" q ?n "min limit 0xffff" E] le by (auto simp: picked_ok_def simp del: min.bounded_iff)
  obtain b' where b': "gather_finish (length (buf_data b)) (?n + length ?ms) (?n + length res, buf_put (octets res) b1) = Inr (?n + length res, b')" "buf_inv b'"
      "buf_data b' = buf_data b @ be_bytes 4 (of_nat (?n + length ?ms) :: u32) @ be_bytes 2 (of_nat (?n + length res) :: u16) @ octets (selfs E mg @ res)"
    using gather_finish_data [of "buf_put (octets res) b1" "buf_data b" u "octets (selfs E mg @ res)" "?n + length ?ms" "?n + length res"] b1 res(2) by (auto simp: octets_def)
  have "buf_l b' = buf_l b1 + 5 * length res"
    using buf_data_length [OF b'(2)] buf_data_length [OF b1(2)] b1(4) unfolding b'(3) b1(5) by (simp add: octets_append del: be_bytes_numeral)
  moreover have "mc_gather E q nwid mg b limit mc = Some (Inr (length (selfs E mg @ res), b'))"
    using assms(3,4) b1(1) res(1) b'(1) by (simp add: mc_gather_def Let_def buf_size_def group_members_of n)
  ultimately show ?thesis
    using b'(2,3) res(3-6) m(2) n by (intro exI [of _ "selfs E mg @ res"] exI [of _ b']) (auto simp: selfs_def split: if_splits)
qed

section \<open>What cleaning and sending keep\<close>

definition group_fresh :: "u64 \<Rightarrow> mc_group \<Rightarrow> bool" where
  "group_fresh now s \<longleftrightarrow> (\<forall>m \<in> set (gs_members s). sint (now - mm_timestamp m) < int MULTICAST_LIKE_EXPIRE)
    \<and> (\<forall>tx \<in> set (gs_txQueue s). \<not> om_expired now tx \<and> \<not> om_atLimit tx) \<and> (gs_members s \<noteq> [] \<or> gs_txQueue s \<noteq> [])"

text \<open>The addresses a frame, or a gather request, is sent to.\<close>

fun event_to :: "mc_event \<Rightarrow> address" where
  "event_to (SendFrame a p) = a"
| "event_to (SendGather a p) = a"
| "event_to (SendReplicate a p) = a"

definition frame_ok :: "outbound_multicast \<Rightarrow> bool" where
  "frame_ok om \<longleftrightarrow> buf_inv (om_packet om) \<and> 28 \<le> buf_l (om_packet om)"

text \<open>The bytes of the packet of a multicast frame before compression: the header, of which the destination and the authentication code are what the memory held, and the payload; and the bytes sent to an address.\<close>

definition multicast_bytes :: "mc_env \<Rightarrow> u64 \<Rightarrow> nat \<Rightarrow> mac \<Rightarrow> multicastgroup \<Rightarrow> nat \<Rightarrow> bytes \<Rightarrow> bytes" where
  "multicast_bytes E nwid gatherLimit src mg etherType data =
    take 8 (me_iv E) @ take 5 (drop 8 (me_mem E)) @ be_bytes 5 (me_self E) @ [0] @ take 8 (drop 19 (me_mem E)) @ [VERB_MULTICAST_FRAME]
    @ be_bytes 8 nwid @ [(if src \<noteq> 0 then 4 else 0) + (if gatherLimit \<noteq> 0 then 2 else 0)]
    @ (if gatherLimit \<noteq> 0 then be_bytes 4 (of_nat gatherLimit :: u32) else []) @ (if src \<noteq> 0 then be_bytes 6 src else [])
    @ be_bytes 6 (mg_mac mg) @ be_bytes 4 (mg_adi mg) @ be_bytes 2 (of_nat etherType :: u16) @ data"

definition addressed :: "mc_env \<Rightarrow> address \<Rightarrow> bytes \<Rightarrow> bytes" where
  "addressed E a p = take 8 (me_iv E) @ be_bytes 5 a @ drop 13 p"

text \<open>What is relied on of memory, random bytes and compression.\<close>

definition mc_env_ok :: "mc_env \<Rightarrow> bool" where
  "mc_env_ok E \<longleftrightarrow> length (me_mem E) = MAX_PACKET_LENGTH \<and> 8 \<le> length (me_iv E) \<and> (\<forall>p. buf_inv p \<and> 28 \<le> buf_l p \<longrightarrow> buf_inv (me_compress E p) \<and> 28 \<le> buf_l (me_compress E p))"

section \<open>Cleaning\<close>

lemma clean_groups_spec:
  assumes "ht_inv mc_hash t" "length (it_rest t it) < n"
    and "\<forall>(k, s) \<in> set (it_rest t it). ht_get mc_hash t k = Some s" "distinct (map fst (it_rest t it))"
  shows "\<exists>t'. clean_groups n alloc now t it = Some t' \<and> ht_inv mc_hash t'
    \<and> (\<forall>k. ht_get mc_hash t' k = (if k \<in> fst ` set (it_rest t it) then Option.bind (ht_get mc_hash t k) (clean_group now) else ht_get mc_hash t k))"
  using assms
proof (induction n arbitrary: t it)
  case (Suc n)
  have len: "length (ht_t t) = ht_bc t" using Suc.prems(1) by (simp add: ht_inv_def)
  obtain r it' where r: "ht_next t it = (r, it')" by force
  show ?case
  proof (cases "it_rest t it")
    case Nil
    then show ?thesis using ht_next_spec [OF len, of it] r Suc.prems by auto
  next
    case (Cons b bs)
    obtain k v where b: "b = (k, v)" by (cases b)
    have n: "r = Some (k, v)" "it_rest t it' = bs" using ht_next_spec [OF len, of it] r Cons b by auto
    have kv: "ht_get mc_hash t k = Some v" using Suc.prems(3) Cons b by simp
    have kbs: "k \<notin> fst ` set bs" using Suc.prems(4) Cons b by simp
    define t1 where "t1 = (case clean_group now v of None \<Rightarrow> snd (ht_erase mc_hash k t) | Some v' \<Rightarrow> ht_set mc_hash alloc k v' t)"
    have t1: "ht_inv mc_hash t1" "it_rest t1 it' = bs" "ht_get mc_hash t1 = (ht_get mc_hash t)(k := clean_group now v)"
      using ht_erase_spec [OF Suc.prems(1), of k] erase_rest [OF Suc.prems(1), of k it'] set_rest [OF Suc.prems(1) kv, of it' alloc]
        ht_set_spec [OF Suc.prems(1), of alloc k] kbs n(2) by (auto simp: t1_def split: option.splits)
    have "\<forall>(k, s) \<in> set (it_rest t1 it'). ht_get mc_hash t1 k = Some s" using Suc.prems(3) Cons kbs t1(2,3) by force
    moreover have "distinct (map fst (it_rest t1 it'))" "length (it_rest t1 it') < n" using Suc.prems(2,4) Cons t1(2) by auto
    ultimately obtain t' where t': "clean_groups n alloc now t1 it' = Some t'" "ht_inv mc_hash t'"
        "\<And>x. ht_get mc_hash t' x = (if x \<in> fst ` set bs then Option.bind (ht_get mc_hash t1 x) (clean_group now) else ht_get mc_hash t1 x)"
      using Suc.IH [OF t1(1), of it'] t1(2) by auto
    have "clean_groups (Suc n) alloc now t it = Some t'" using t'(1) r n(1) by (simp add: t1_def split: option.splits)
    moreover have "ht_get mc_hash t' x = (if x \<in> fst ` set (it_rest t it) then Option.bind (ht_get mc_hash t x) (clean_group now) else ht_get mc_hash t x)" for x
      using t'(3) [of x] t1(3) kv kbs Cons b by auto
    ultimately show ?thesis using t'(2) by blast
  qed
qed simp

lemma mc_clean_spec:
  assumes "ht_inv mc_hash mc"
  shows "\<exists>mc'. mc_clean alloc now mc = Some mc' \<and> ht_inv mc_hash mc' \<and> (\<forall>k. ht_get mc_hash mc' k = Option.bind (ht_get mc_hash mc k) (clean_group now))"
proof -
  have "length (ht_t mc) = ht_bc mc" "0 < ht_bc mc" using assms by (auto simp: ht_inv_def)
  then obtain c cs where c: "ht_t mc = c # cs" by (cases "ht_t mc") auto
  have rest: "it_rest mc (ht_iterator mc) = concat (ht_t mc)" by (simp add: it_rest_def ht_iterator_def c)
  have "\<forall>(k, s) \<in> set (it_rest mc (ht_iterator mc)). ht_get mc_hash mc k = Some s" unfolding rest using ht_get_iff [OF assms] by blast
  from clean_groups_spec [OF assms _ this, of "ht_size mc + 1" alloc now] ht_distinct [OF assms]
  obtain mc' where mc': "mc_clean alloc now mc = Some mc'" "ht_inv mc_hash mc'"
    "\<And>k. ht_get mc_hash mc' k = (if k \<in> fst ` set (concat (ht_t mc)) then Option.bind (ht_get mc_hash mc k) (clean_group now) else ht_get mc_hash mc k)"
    using assms unfolding rest mc_clean_def by (auto simp: ht_size_def ht_inv_def simp del: clean_groups.simps)
  have "k \<notin> fst ` set (concat (ht_t mc)) \<Longrightarrow> ht_get mc_hash mc k = None" for k
    using ht_get_iff [OF assms, of k] by (cases "ht_get mc_hash mc k") force+
  then show ?thesis using mc' by (auto intro!: exI [of _ mc'])
qed

lemma clean_group_inv:
  assumes "group_inv self s" "clean_group now s = Some s'"
  shows "group_inv self s' \<and> (gs_members s' \<noteq> [] \<or> gs_txQueue s' \<noteq> [])"
proof -
  let ?P = "\<lambda>m. sint (now - mm_timestamp m) < int MULTICAST_LIKE_EXPIRE"
  have "sorted_wrt (<) (map mm_address (filter ?P (gs_members s)))"
    using assms(1) unfolding group_inv_def sorted_wrt_map by (blast intro: sorted_wrt_filter)
  moreover have "length (filter (\<lambda>tx. \<not> (om_expired now tx \<or> om_atLimit tx)) (gs_txQueue s)) \<le> 32"
    using assms(1) by (auto simp: group_inv_def intro: order.trans [OF length_filter_le])
  ultimately show ?thesis using assms by (auto simp: clean_group_def Let_def group_inv_def split: if_splits)
qed

text \<open>C17: the cleaning of the multicaster ends, although it erases and changes the groups it iterates over; it keeps the invariant, leaves of each group the members that are not expired, in their order,
  and the queued multicasts that can still be sent, and no group with neither.\<close>

theorem mc_clean_correct:
  assumes "mc_inv self mc"
  shows "\<exists>mc'. mc_clean alloc now mc = Some mc' \<and> mc_inv self mc'
    \<and> (\<forall>k. case ht_get mc_hash mc' k of
          Some s' \<Rightarrow> group_fresh now s' \<and> (\<exists>s. ht_get mc_hash mc k = Some s \<and> s' = s\<lparr>gs_txQueue := filter (\<lambda>tx. \<not> om_expired now tx \<and> \<not> om_atLimit tx) (gs_txQueue s),
              gs_members := filter (\<lambda>m. sint (now - mm_timestamp m) < int MULTICAST_LIKE_EXPIRE) (gs_members s)\<rparr>)
        | None \<Rightarrow> case ht_get mc_hash mc k of None \<Rightarrow> True | Some s \<Rightarrow>
              filter (\<lambda>m. sint (now - mm_timestamp m) < int MULTICAST_LIKE_EXPIRE) (gs_members s) = [] \<and> filter (\<lambda>tx. \<not> om_expired now tx \<and> \<not> om_atLimit tx) (gs_txQueue s) = [])"
proof -
  obtain mc' where mc': "mc_clean alloc now mc = Some mc'" "ht_inv mc_hash mc'" "\<And>k. ht_get mc_hash mc' k = Option.bind (ht_get mc_hash mc k) (clean_group now)"
    using mc_clean_spec [of mc alloc now] assms by (auto simp: mc_inv_def)
  have "group_inv self s'" if s': "ht_get mc_hash mc' k = Some s'" for k s'
  proof -
    obtain s where "ht_get mc_hash mc k = Some s" "clean_group now s = Some s'" using s' mc'(3) [of k] by (auto simp: bind_eq_Some_conv)
    then show ?thesis using assms clean_group_inv unfolding mc_inv_def by blast
  qed
  then have "mc_inv self mc'" using mc'(2) by (simp add: mc_inv_def)
  then show ?thesis
    using mc'(1,3) by (intro exI [of _ mc']) (auto simp: clean_group_def Let_def group_fresh_def split: option.splits if_splits)
qed

section \<open>Shuffles\<close>

lemma exchange_mset: "i < length xs \<Longrightarrow> j < length xs \<Longrightarrow> mset (exchange i j xs) = mset xs"
  by (simp add: exchange_def mset_swap)

lemma shuffle_indexes_mset:
  "i < length xs \<Longrightarrow> mset (fst (shuffle_indexes r i n xs)) = mset xs"
proof (induction i arbitrary: n xs)
  case (Suc i)
  let ?j = "unat (ucast (r n) :: u32) mod (Suc i + 1)"
  have j: "?j < length xs" using Suc.prems by (metis Suc_eq_plus1 less_trans_Suc mod_less_divisor not_less_eq zero_less_Suc)
  have "length (exchange (Suc i) ?j xs) = length xs" by (simp add: exchange_def)
  then show ?case using Suc.IH [of "exchange (Suc i) ?j xs" "n + 1"] Suc.prems exchange_mset [OF Suc.prems j] by (simp add: Let_def)
qed simp

lemma addressed_patch:
  "8 \<le> length (me_iv E) \<Longrightarrow> 28 \<le> length d \<Longrightarrow> patch 8 (be_bytes 5 a) (patch 0 (take 8 (me_iv E)) d) = addressed E a d"
  by (simp add: patch_def addressed_def min_def del: be_bytes_numeral)

lemma om_sendOnly_ok:
  assumes "frame_ok om" "8 \<le> length (me_iv E)"
  shows "\<exists>om' ev. om_sendOnly E a om = Inr (om', ev) \<and> frame_ok om' \<and> drop 13 (buf_data (om_packet om')) = drop 13 (buf_data (om_packet om))
    \<and> ev = (if me_passes E a then [SendFrame a (addressed E a (buf_data (om_packet om)))] else [])"
proof (cases "me_passes E a")
  case True
  let ?p = "buf_upd 8 (be_bytes 5 a) (buf_upd 0 (take 8 (me_iv E)) (om_packet om))"
  have p: "buf_inv (om_packet om)" "28 \<le> buf_l (om_packet om)" using assms(1) by (simp_all add: frame_ok_def)
  then have "om_sendOnly E a om = Inr (om\<lparr>om_packet := ?p\<rparr>, [SendFrame a (buf_data ?p)])"
    using True assms(2) by (simp add: om_sendOnly_def packet_newIV_def packet_setDestination_def buf_upd_eqs address_octets_be min_def del: be_bytes_numeral)
  moreover have "buf_data ?p = addressed E a (buf_data (om_packet om))"
    using p assms(2) addressed_patch [of E "buf_data (om_packet om)" a] by (simp add: min_def del: be_bytes_numeral)
  moreover have "buf_inv ?p" "28 \<le> buf_l ?p" using p assms(2) by (simp_all add: min_def del: be_bytes_numeral)
  ultimately show ?thesis using True assms(2) by (simp add: frame_ok_def addressed_def min_def del: be_bytes_numeral)
next
  case False
  then show ?thesis using assms(1) by (simp add: om_sendOnly_def)
qed

lemma addressed_cong: "drop 13 d = drop 13 d' \<Longrightarrow> addressed E a d = addressed E a d'"
  by (simp add: addressed_def)

lemma each_until_sent:
  assumes "frame_ok om" "8 \<le> length (me_iv E)" "f = om_sendOnly E \<or> f = om_sendAndLog E"
  shows "\<exists>om' ev. each_until f as om = (om', ev, None) \<and> ev = map (\<lambda>a. SendFrame a (addressed E a (buf_data (om_packet om)))) (filter (me_passes E) as)"
  using assms(1)
proof (induction as arbitrary: om)
  case (Cons a as)
  obtain om1 ev1 where 1: "f a om = Inr (om1, ev1)" "frame_ok om1" "drop 13 (buf_data (om_packet om1)) = drop 13 (buf_data (om_packet om))"
      "ev1 = (if me_passes E a then [SendFrame a (addressed E a (buf_data (om_packet om)))] else [])"
    using om_sendOnly_ok [OF Cons.prems assms(2), of a] om_sendOnly_ok [OF _ assms(2), of "om_logAsSent a om" a] Cons.prems assms(3)
    by (auto simp: om_sendAndLog_def frame_ok_def om_logAsSent_def)
  from Cons.IH [OF 1(2)] 1 addressed_cong [OF 1(3)] show ?case by auto
qed simp

lemma each_until_frames:
  assumes "frame_ok om" "8 \<le> length (me_iv E)" "f = om_sendOnly E \<or> f = om_sendAndLog E"
  shows "\<exists>om' ev. each_until f as om = (om', ev, None) \<and> map event_to ev = filter (me_passes E) as"
  using each_until_sent [OF assms, of as] by (auto simp: comp_def)

lemma append_until_bseq: "bseq fs b = Inr b' \<Longrightarrow> append_until fs b = (b', None)"
  by (induction fs b rule: append_until.induct) (auto simp: bindE_eq_Inr)

lemma om_new_ok:
  assumes "mc_env_ok E"
  shows "\<exists>om. om_new E = Inr om \<and> buf_inv (om_packet om) \<and> buf_l (om_packet om) = 28 \<and> buf_capacity (om_packet om) = 10024
    \<and> buf_data (om_packet om) = patch 18 [0] (patch 0 (take 8 (me_iv E)) (take 28 (me_mem E)))"
proof -
  define b0 where "b0 = \<lparr>buf_b = me_mem E, buf_l = 28\<rparr>"
  have b0: "buf_inv b0" "buf_l b0 = 28" "buf_capacity b0 = 10024" "buf_data b0 = take 28 (me_mem E)"
    using assms by (simp_all add: b0_def buf_inv_def buf_capacity_def mc_env_ok_def buf_data_def)
  have "8 \<le> length (me_iv E)" "length (me_mem E) = 10024" using assms by (simp_all add: mc_env_ok_def)
  then show ?thesis using b0
    by (simp add: om_new_def packet_default_def buf_new_size_def b0_def [symmetric] packet_newIV_def buf_upd_eqs min_def)
qed

lemma emits_optional: "emits f xs \<Longrightarrow> emits (bseq (if c then [f] else [])) (if c then xs else [])"
  by (simp add: emits_bseq_single emits_bseq_Nil)

lemma emits_frame:
  assumes "length data \<le> 9900"
  shows "emits (bseq ([buf_append 8 nwid, buf_append 1 flags]
            @ (if gatherLimit \<noteq> 0 then [buf_append 4 (of_nat gatherLimit :: u32)] else [])
            @ (if src \<noteq> 0 then [mac_appendTo src] else [])
            @ [mac_appendTo (mg_mac dest), buf_append 4 (mg_adi dest), buf_append 2 (of_nat etherType :: u16), buf_append_bytes data (length data)]))
    ((be_bytes 8 nwid @ be_bytes 1 flags) @ (if gatherLimit \<noteq> 0 then be_bytes 4 (of_nat gatherLimit :: u32) else []) @ (if src \<noteq> 0 then be_bytes 6 src else [])
      @ (be_bytes 6 (mg_mac dest) @ be_bytes 4 (mg_adi dest) @ be_bytes 2 (of_nat etherType :: u16) @ take (length data) data))"
  using assms by (intro emits_bseq_append emits_bseq_Cons emits_bseq_single emits_append emits_mac emits_append_bytes emits_optional) simp_all

lemma header_pieces:
  assumes "length a = 8" "length b = 5" "length c = 5" "length x = 1" "length d = 8" "length y = 1" "length iv = 8" "length s = 5"
  shows "patch 27 [v] (patch 13 s (patch 18 [0] (patch 0 iv (a @ b @ c @ x @ d @ y)))) = iv @ b @ s @ [0] @ d @ [v]"
  using assms by (simp add: patch_def)

lemma header_patches:
  assumes "length iv = 8" "28 \<le> length m" "length s = 5"
  shows "patch 27 [v] (patch 13 s (patch 18 [0] (patch 0 iv (take 28 m)))) = iv @ take 5 (drop 8 m) @ s @ [0] @ take 8 (drop 19 m) @ [v]"
proof -
  have "take 28 m = take 8 m @ take 5 (drop 8 m) @ take 5 (drop 13 m) @ take 1 (drop 18 m) @ take 8 (drop 19 m) @ take 1 (drop 27 m)"
    using take_add [of 8 20 m] take_add [of 5 15 "drop 8 m"] take_add [of 5 10 "drop 13 m"] take_add [of 1 9 "drop 18 m"] take_add [of 8 1 "drop 19 m"] by simp
  moreover have "length (take 8 m) = 8" "length (take 5 (drop 8 m)) = 5" "length (take 5 (drop 13 m)) = 5" "length (take 1 (drop 18 m)) = 1"
    "length (take 8 (drop 19 m)) = 8" "length (take 1 (drop 27 m)) = 1" using assms(2) by simp_all
  ultimately show ?thesis using header_pieces [of "take 8 m"] assms(1,3) by metis
qed

lemma om_init_ok:
  assumes "mc_env_ok E" "length data \<le> 9900" "om_new E = Inr om"
  shows "\<exists>om' p. om_init E nwid limit gatherLimit src mg etherType data om = (om', None) \<and> frame_ok om'
    \<and> om_packet om' = me_compress E p \<and> buf_data p = multicast_bytes E nwid gatherLimit src mg etherType data"
proof -
  let ?p = "om_packet om"
  have E: "length (me_mem E) = 10024" "8 \<le> length (me_iv E)" using assms(1) by (simp_all add: mc_env_ok_def)
  have p: "buf_inv ?p" "buf_l ?p = 28" "buf_capacity ?p = 10024" "buf_data ?p = patch 18 [0] (patch 0 (take 8 (me_iv E)) (take 28 (me_mem E)))"
    using om_new_ok [OF assms(1)] assms(3) by auto
  let ?q = "buf_upd 27 [VERB_MULTICAST_FRAME] (buf_upd 13 (be_bytes 5 (me_self E)) ?p)"
  have q: "buf_inv ?q" "buf_l ?q = 28" "buf_capacity ?q = 10024" using p by simp_all
  have qd: "buf_data ?q = take 8 (me_iv E) @ take 5 (drop 8 (me_mem E)) @ be_bytes 5 (me_self E) @ [0] @ take 8 (drop 19 (me_mem E)) @ [VERB_MULTICAST_FRAME]"
    using p E header_patches [of "take 8 (me_iv E)" "me_mem E" "be_bytes 5 (me_self E)" VERB_MULTICAST_FRAME] by (simp add: min_def del: be_bytes_numeral)
  let ?flags = "((if src \<noteq> 0 then 4 else 0) OR (if gatherLimit \<noteq> 0 then 2 else 0) :: u8)"
  let ?fs = "[buf_append 8 nwid, buf_append 1 ?flags]
            @ (if gatherLimit \<noteq> 0 then [buf_append 4 (of_nat gatherLimit :: u32)] else [])
            @ (if src \<noteq> 0 then [mac_appendTo src] else [])
            @ [mac_appendTo (mg_mac mg), buf_append 4 (mg_adi mg), buf_append 2 (of_nat etherType :: u16), buf_append_bytes data (length data)]"
  define bs where "bs = (be_bytes 8 nwid @ be_bytes 1 ?flags) @ (if gatherLimit \<noteq> 0 then be_bytes 4 (of_nat gatherLimit :: u32) else []) @ (if src \<noteq> 0 then be_bytes 6 src else [])
      @ (be_bytes 6 (mg_mac mg) @ be_bytes 4 (mg_adi mg) @ be_bytes 2 (of_nat etherType :: u16) @ take (length data) data)"
  have e: "emits (bseq ?fs) bs" unfolding bs_def by (rule emits_frame [OF assms(2)])
  have f: "buf_fits bs ?q" using q assms(2) by (simp add: buf_fits_def bs_def)
  have "be_bytes 1 ?flags = [(if src \<noteq> 0 then 4 else 0) + (if gatherLimit \<noteq> 0 then 2 else 0)]" by simp
  then have d: "buf_data (buf_put bs ?q) = multicast_bytes E nwid gatherLimit src mg etherType data"
    using q f qd unfolding multicast_bytes_def bs_def by (simp del: be_bytes_numeral)
  have "bseq ?fs ?q = Inr (buf_put bs ?q)" using emitsD [OF e q(1)] f by simp
  then have "bseq ([packet_setSource (me_self E), packet_setVerb VERB_MULTICAST_FRAME] @ ?fs) ?p = Inr (buf_put bs ?q)"
    using p by (simp add: packet_setSource_def packet_setVerb_def buf_upd_eqs address_octets_be del: be_bytes_numeral)
  then have "append_until ([packet_setSource (me_self E), packet_setVerb VERB_MULTICAST_FRAME] @ ?fs) ?p = (buf_put bs ?q, None)" by (rule append_until_bseq)
  moreover have "frame_ok (om''\<lparr>om_packet := me_compress E (buf_put bs ?q), om_frameData := d\<rparr>)" for om'' d
    using assms(1) q f by (simp add: frame_ok_def mc_env_ok_def)
  moreover have "(if length data < MAX_MTU then length data else MAX_MTU) = length data" using assms(2) by simp
  ultimately show ?thesis using d unfolding om_init_def Let_def by (simp del: append_until.simps be_bytes_numeral) blast
qed

lemma pick_addresses_filter: "pick_addresses P n as = take n (filter P as)"
  by (induction P n as rule: pick_addresses.induct) simp_all

section \<open>Who receives a multicast\<close>

definition shuffled_members :: "mc_env \<Rightarrow> mc_group \<Rightarrow> address list" where
  "shuffled_members E gs = (let n = length (gs_members gs) in
    map (\<lambda>i. mm_address (gs_members gs ! i)) (if n \<noteq> 0 then fst (shuffle_indexes (me_prng E) (n - 1) 0 [0..<n]) else []))"

definition group_of :: "multicaster \<Rightarrow> mc_key \<Rightarrow> mc_group" where
  "group_of mc k = (case ht_get mc_hash mc k of None \<Rightarrow> mc_group_new | Some gs \<Rightarrow> gs)"

lemma shuffled_members_mset: "mset (shuffled_members E gs) = mset (map mm_address (gs_members gs))"
proof (cases "gs_members gs = []")
  case False
  let ?n = "length (gs_members gs)"
  have "mset (fst (shuffle_indexes (me_prng E) (?n - 1) 0 [0..<?n])) = mset [0..<?n]" using False by (intro shuffle_indexes_mset) simp
  then have "mset (shuffled_members E gs) = mset (map (\<lambda>i. mm_address (gs_members gs ! i)) [0..<?n])"
    using False unfolding shuffled_members_def Let_def mset_map by simp
  also have "map (\<lambda>i. mm_address (gs_members gs ! i)) [0..<?n] = map mm_address (gs_members gs)"
    by (rule nth_equalityI) simp_all
  finally show ?thesis .
qed (simp add: shuffled_members_def)

lemma group_of_props:
  assumes "mc_inv self mc"
  shows "group_inv self (group_of mc k)" "map mm_address (gs_members (group_of mc k)) = members_of mc k"
proof -
  have "ht_get mc_hash mc k = Some gs \<Longrightarrow> group_inv self gs" for gs using assms unfolding mc_inv_def by blast
  then show "group_inv self (group_of mc k)" by (auto simp: group_of_def group_inv_def mc_group_new_def split: option.splits)
  show "map mm_address (gs_members (group_of mc k)) = members_of mc k" by (auto simp: group_of_def members_of_def mc_group_new_def split: option.splits)
qed

text \<open>The group is read and written through the reference the index operation returns; what happens to it is one of two functions of its members in random order.\<close>

lemma send_group:
  assumes "mc_inv (me_self E) mc" "chosen_replicator E nc = None"
    "\<And>n. (if nc_multicastLimit nc \<le> length (members_of mc (nwid, mg)) then (group_of mc (nwid, mg), send_one_pass E nwid nc origin mg src etherType data (shuffled_members E (group_of mc (nwid, mg))))
      else send_queued E n nwid nc origin mg src etherType data (shuffled_members E (group_of mc (nwid, mg))) (group_of mc (nwid, mg))) = (gs', ev, None)"
    "group_inv (me_self E) gs'"
  shows "\<exists>mc'. mc_send E nwid nc origin mg src etherType data mc = Inr (mc', ev) \<and> mc_inv (me_self E) mc' \<and> ht_get mc_hash mc' = (ht_get mc_hash mc)((nwid, mg) \<mapsto> gs')"
proof -
  obtain gs t where t: "ht_index mc_hash (me_alloc E) mc_group_new (nwid, mg) mc = (gs, t)" by fastforce
  note i = mc_index [OF assms(1) t]
  have g: "gs = group_of mc (nwid, mg)" using index_get(1) [OF _ t] assms(1) by (simp add: mc_inv_def group_of_def)
  let ?n = "length (gs_members gs)"
  have n: "length (members_of mc (nwid, mg)) = ?n" unfolding i(3) [symmetric] by simp
  let ?s = "if ?n \<noteq> 0 then shuffle_indexes (me_prng E) (?n - 1) 0 [0..<?n] else ([], 0)"
  have "map (\<lambda>i. mm_address (gs_members gs ! i)) (fst ?s) = shuffled_members E gs" by (simp add: shuffled_members_def Let_def)
  then have "mc_send E nwid nc origin mg src etherType data mc =
      (case (if nc_multicastLimit nc \<le> ?n then (gs, send_one_pass E nwid nc origin mg src etherType data (shuffled_members E gs))
             else send_queued E (snd ?s) nwid nc origin mg src etherType data (shuffled_members E gs) gs) of
         (gs', ev, err) \<Rightarrow> if err = Some UndefinedBehaviour then Inl UndefinedBehaviour else Inr (ht_set mc_hash (me_alloc E) (nwid, mg) gs' t, ev))"
    unfolding mc_send_def assms(2) by (simp only: option.case t Let_def case_prod_beta prod.sel)
  also have "\<dots> = Inr (ht_set mc_hash (me_alloc E) (nwid, mg) gs' t, ev)" unfolding g using assms(3) [of "snd ?s"] unfolding n g by simp
  finally show ?thesis using i(4) [OF assms(4)] by blast
qed

lemma shuffled_members_props:
  assumes "mc_inv (me_self E) mc"
  shows "distinct (shuffled_members E (group_of mc k))" "set (shuffled_members E (group_of mc k)) = set (members_of mc k)"
    "length (shuffled_members E (group_of mc k)) = length (members_of mc k)"
proof -
  have ms: "mset (shuffled_members E (group_of mc k)) = mset (members_of mc k)"
    using shuffled_members_mset [of E "group_of mc k"] group_of_props(2) [OF assms] by simp
  then show "set (shuffled_members E (group_of mc k)) = set (members_of mc k)" "length (shuffled_members E (group_of mc k)) = length (members_of mc k)"
    by (metis mset_eq_setD, metis mset_eq_length)
  show "distinct (shuffled_members E (group_of mc k))" using members_of_props(1) [OF assms, of k] mset_eq_imp_distinct_iff [OF ms] by simp
qed

lemma members_of_upd:
  "mc_inv self mc \<Longrightarrow> ht_get mc_hash mc' = (ht_get mc_hash mc)(k \<mapsto> gs') \<Longrightarrow> map mm_address (gs_members gs') = members_of mc k \<Longrightarrow> members_of mc' = members_of mc"
  by (auto simp: members_of_def fun_eq_iff)


text \<open>C35: when too few members are known, the frame of another node that this node replicates goes to every known member that the filter admits, the node it came from included: the log of the addresses
  that have it is written but not read on this path.\<close>

theorem queued_multicast_echo:
  assumes "mc_env_ok E" "length data \<le> 9900" "mc_inv (me_self E) mc" "chosen_replicator E nc = None" "nc_activeBridges nc = []"
    "length (members_of mc (nwid, mg)) < nc_multicastLimit nc"
    "ht_get mc_hash mc (nwid, mg) = Some gs" "sint (me_now E - gs_lastExplicitGather gs) < int MULTICAST_EXPLICIT_GATHER_DELAY"
    "origin \<in> set (members_of mc (nwid, mg))" "me_passes E origin"
  shows "\<exists>mc' ev. mc_send E nwid nc origin mg src etherType data mc = Inr (mc', ev) \<and> mc_inv (me_self E) mc' \<and> set (map event_to ev) = {a \<in> set (members_of mc (nwid, mg)). me_passes E a}
    \<and> origin \<in> set (map event_to ev)"
proof -
  let ?k = "(nwid, mg)"
  have gs: "group_of mc ?k = gs" using assms(7) by (simp add: group_of_def)
  let ?ms = "shuffled_members E gs" and ?l = "nc_multicastLimit nc" and ?gl = "nc_multicastLimit nc - length (gs_members gs) + 1"
  note d = shuffled_members_props [OF assms(3), of ?k, unfolded gs] and g = group_of_props [OF assms(3), of ?k, unfolded gs]
  have ne: "gs_members gs \<noteq> []" using assms(9) g(2) by (metis empty_iff empty_set list.simps(8))
  let ?q = "drop (length (gs_txQueue gs) - (MC_TX_QUEUE_SIZE - 1)) (gs_txQueue gs)"
  obtain om where om: "om_new E = Inr om" using om_new_ok [OF assms(1)] by blast
  obtain om1 where om1: "om_init E nwid ?l ?gl src mg etherType data om = (om1, None)" "frame_ok om1" using om_init_ok [OF assms(1,2) om] by blast
  let ?om = "if origin \<noteq> 0 then om_logAsSent origin om1 else om1"
  have "frame_ok ?om" using om1(2) by (simp add: frame_ok_def om_logAsSent_def)
  then obtain om2 ev where ev: "each_until (om_sendAndLog E) ?ms ?om = (om2, ev, None)" "map event_to ev = filter (me_passes E) ?ms"
    using each_until_frames [of ?om E "om_sendAndLog E" ?ms] assms(1) unfolding mc_env_ok_def by blast
  have t: "queued_targets (me_self E) nc ?ms = ?ms" using d(3) assms(5,6) by (simp add: queued_targets_def Let_def pick_addresses_filter)
  let ?gs = "gs\<lparr>gs_txQueue := ?q @ [om2]\<rparr>"
  have "queue_multicast E nwid nc origin mg src etherType data ?ms ?gl (gs\<lparr>gs_txQueue := ?q\<rparr>) = (?gs, ev, None)"
    using om om1(1) ev(1) t by (simp add: queue_multicast_def)
  moreover have "sint (me_now E - gs_lastExplicitGather gs) < int (MULTICAST_EXPLICIT_GATHER_DELAY * (if me_lowBandwidth E then 3 else 1))" using assms(8) by simp
  ultimately have "send_queued E n nwid nc origin mg src etherType data ?ms gs = (?gs, ev, None)" for n
    using ne by (simp add: send_queued_def Let_def explicit_gather_def)
  moreover have "group_inv (me_self E) ?gs" using g(1) by (auto simp: group_inv_def)
  ultimately obtain mc' where "mc_send E nwid nc origin mg src etherType data mc = Inr (mc', ev)" "mc_inv (me_self E) mc'"
    using send_group [OF assms(3,4), of nwid mg origin src etherType data ?gs ev] assms(6) unfolding gs by auto
  moreover have "set (map event_to ev) = {a \<in> set (members_of mc ?k). me_passes E a}" unfolding ev(2) using d(2) by auto
  ultimately show ?thesis using assms(9,10) by blast
qed

section \<open>Examples\<close>

definition mc_env1 :: mc_env where
  "mc_env1 = \<lparr>me_self = 9, me_now = 1000, me_alloc = (\<lambda>_. True), me_mem = replicate 10024 0, me_iv = replicate 8 0, me_prng = of_nat, me_passes = (\<lambda>_. True), me_compress = (\<lambda>p. p),
     me_latency = (\<lambda>_. None), me_upstream = None, me_lowBandwidth = False, me_network = Some net_w0\<rparr>"

definition mc1 :: multicaster where
  "mc1 = \<lparr>ht_t = [[((0x1000000, BROADCAST), \<lparr>gs_lastExplicitGather = 900, gs_txQueue = [],
     gs_members = [\<lparr>mm_address = 3, mm_timestamp = 900\<rparr>, \<lparr>mm_address = 4, mm_timestamp = 950\<rparr>, \<lparr>mm_address = 5, mm_timestamp = 990\<rparr>]\<rparr>)]], ht_bc = 1, ht_s = 1\<rparr>"

lemma mc1_get: "ht_get mc_hash mc1 k = (if k = (0x1000000, BROADCAST) then Some \<lparr>gs_lastExplicitGather = 900, gs_txQueue = [],
     gs_members = [\<lparr>mm_address = 3, mm_timestamp = 900\<rparr>, \<lparr>mm_address = 4, mm_timestamp = 950\<rparr>, \<lparr>mm_address = 5, mm_timestamp = 990\<rparr>]\<rparr> else None)"
  by (auto simp: mc1_def ht_get_def)

lemma mc1_members: "members_of mc1 (0x1000000, BROADCAST) = [3, 4, 5]"
  by (simp add: members_of_def mc1_get)

lemma mc1_inv: "mc_inv 9 mc1"
proof -
  have "ht_inv mc_hash mc1" by (simp add: ht_inv_def mc1_def)
  then show ?thesis unfolding mc_inv_def by (simp add: mc1_get group_inv_def)
qed

lemma mc_env1_ok: "mc_env_ok mc_env1"
  by (simp add: mc_env_ok_def mc_env1_def)

lemma mc_env1_sel: "me_self mc_env1 = 9" "me_now mc_env1 = 1000" "me_passes mc_env1 a" "me_network mc_env1 = Some net_w0"
  by (simp_all add: mc_env1_def)

lemma nconf1_plain: "chosen_replicator mc_env1 (nconf1\<lparr>nc_multicastLimit := n\<rparr>) = None" "nc_activeBridges (nconf1\<lparr>nc_multicastLimit := n\<rparr>) = []"
  by (simp_all add: chosen_replicator_def nc_multicastReplicators_def nc_activeBridges_def nconf1_def)

theorem gather_correct_witness:
  "\<exists>as b'. mc_gather mc_env1 4 0x1000000 BROADCAST \<lparr>buf_b = replicate 10024 0, buf_l = 28\<rparr> 10 mc1 = Some (Inr (length as, b')) \<and> set as = {9, 3, 5 :: address} \<and> distinct as
    \<and> buf_data b' = replicate 28 0 @ [0, 0, 0, 4] @ be_bytes 2 (of_nat (length as) :: u16) @ octets as"
proof -
  let ?b = "\<lparr>buf_b = replicate 10024 (0::u8), buf_l = 28\<rparr>"
  have s: "selfs mc_env1 BROADCAST = [9]"
    by (simp add: selfs_def gather_self_def mc_env1_def net_w0_def subscribedToMulticastGroup_def binary_search_def lower_bound_def)
  have "mc_inv (me_self mc_env1) mc1" "length (members_of mc1 (0x1000000, BROADCAST)) < 2 ^ 32" "0 < (10 :: nat)"
    "buf_inv ?b" "buf_capacity ?b = MAX_PACKET_LENGTH" "buf_l ?b + 11 \<le> MAX_PACKET_LENGTH"
    using mc1_inv mc1_members by (simp_all add: mc_env1_sel buf_inv_def buf_capacity_def)
  from gather_correct [OF this, of 4] obtain as b' where a: "mc_gather mc_env1 4 0x1000000 BROADCAST ?b 10 mc1 = Some (Inr (length as, b'))" "buf_inv b'" "distinct as"
      "set [9] \<subseteq> set as" "set as \<subseteq> set [9] \<union> (set [3, 4, 5] - {4})" "buf_data b' = buf_data ?b @ be_bytes 4 (of_nat (length [9::address] + length [3, 4, 5 :: address]) :: u32) @ be_bytes 2 (of_nat (length as) :: u16) @ octets as"
      "length as = 10 \<or> buf_l b' + 5 > 10024 \<or> set [3, 4, 5] - {4} \<subseteq> set as"
    unfolding s mc1_members by auto
  have "card (set as) \<le> card {9, 3, 5 :: address}" using a(5) by (intro card_mono) auto
  then have l: "length as \<le> 3" using a(3) by (simp add: distinct_card)
  have "length (buf_data b') = 34 + 5 * length as" unfolding a(6) by (simp add: buf_data_def del: be_bytes_numeral)
  then have "buf_l b' \<le> 49" using l buf_data_length [OF a(2)] by simp
  then have sub: "set [3, 4, 5] - {4} \<subseteq> set as" using a(7) l by linarith
  have "3 \<in> set as" "5 \<in> set as" by (rule subsetD [OF sub], simp)+
  moreover have "9 \<in> set as" using a(4) by simp
  ultimately have "set as = {9, 3, 5}" using a(5) by auto
  moreover have "buf_data b' = replicate 28 0 @ [0, 0, 0, 4] @ be_bytes 2 (of_nat (length as) :: u16) @ octets as"
    unfolding a(6) by (simp add: buf_data_def min_def)
  ultimately show ?thesis using a(1,3) by blast
qed

theorem mc_clean_correct_witness:
  "\<exists>mc'. mc_clean (\<lambda>_. True) 600950 mc1 = Some mc' \<and> mc_inv 9 mc' \<and> members_of mc' (0x1000000, BROADCAST) = [5]"
proof -
  obtain mc' where m: "mc_clean (\<lambda>_. True) 600950 mc1 = Some mc'" "mc_inv 9 mc'" "case ht_get mc_hash mc' (0x1000000, BROADCAST) of
          Some s' \<Rightarrow> group_fresh 600950 s' \<and> (\<exists>s. ht_get mc_hash mc1 (0x1000000, BROADCAST) = Some s \<and> s' = s\<lparr>gs_txQueue := filter (\<lambda>tx. \<not> om_expired 600950 tx \<and> \<not> om_atLimit tx) (gs_txQueue s),
              gs_members := filter (\<lambda>m. sint (600950 - mm_timestamp m) < int MULTICAST_LIKE_EXPIRE) (gs_members s)\<rparr>)
        | None \<Rightarrow> case ht_get mc_hash mc1 (0x1000000, BROADCAST) of None \<Rightarrow> True | Some s \<Rightarrow>
              filter (\<lambda>m. sint (600950 - mm_timestamp m) < int MULTICAST_LIKE_EXPIRE) (gs_members s) = [] \<and> filter (\<lambda>tx. \<not> om_expired 600950 tx \<and> \<not> om_atLimit tx) (gs_txQueue s) = []"
    using mc_clean_correct [OF mc1_inv, of "\<lambda>_. True" 600950] by blast
  from m(3) have "members_of mc' (0x1000000, BROADCAST) = [5]" by (simp add: mc1_get members_of_def split: option.splits)
  then show ?thesis using m(1,2) by blast
qed


theorem queued_multicast_echo_witness:
  "\<exists>mc' ev. mc_send mc_env1 0x1000000 (nconf1\<lparr>nc_multicastLimit := 32\<rparr>) 3 BROADCAST 0 0x800 [1, 2] mc1 = Inr (mc', ev) \<and> 3 \<in> set (map event_to ev)"
proof -
  let ?nc = "nconf1\<lparr>nc_multicastLimit := 32\<rparr>"
  have h: "length [1, 2 :: u8] \<le> 9900" "mc_inv (me_self mc_env1) mc1" "length (members_of mc1 (0x1000000, BROADCAST)) < nc_multicastLimit ?nc"
    "sint (me_now mc_env1 - gs_lastExplicitGather (group_of mc1 (0x1000000, BROADCAST))) < int MULTICAST_EXPLICIT_GATHER_DELAY"
    "ht_get mc_hash mc1 (0x1000000, BROADCAST) = Some (group_of mc1 (0x1000000, BROADCAST))" "3 \<in> set (members_of mc1 (0x1000000, BROADCAST))"
    using mc1_inv by (simp_all add: mc_env1_sel mc1_members mc1_get group_of_def)
  from queued_multicast_echo [where src = 0 and etherType = "0x800", OF mc_env1_ok h(1,2) nconf1_plain h(3,5,4,6)] show ?thesis by (auto simp: mc_env1_sel)
qed

section \<open>Steps\<close>

text \<open>The operations on the multicaster, in any order.\<close>

inductive mc_step :: "address \<Rightarrow> multicaster \<Rightarrow> multicaster \<Rightarrow> bool" for self where
  "me_self E = self \<Longrightarrow> mc_add E nwid mg a mc = Inr (mc', ev) \<Longrightarrow> mc_step self mc mc'"
| "me_self E = self \<Longrightarrow> mc_addMultiple E nwid mg addresses n mc = Inr (mc', ev) \<Longrightarrow> mc_step self mc mc'"
| "mc_step self mc (mc_remove alloc nwid mg a mc)"
| "me_self E = self \<Longrightarrow> mc_send E nwid nc origin mg src etherType data mc = Inr (mc', ev) \<Longrightarrow> mc_step self mc mc'"
| "mc_clean alloc now mc = Some mc' \<Longrightarrow> mc_step self mc mc'"

lemma group_add_all_inv:
  "group_inv (me_self E) gs \<Longrightarrow> group_add_all E as gs = Inr (gs', ev) \<Longrightarrow> group_inv (me_self E) gs'"
proof (induction as arbitrary: gs ev)
  case (Cons a as)
  then show ?case using group_add_inv by (fastforce simp: bindE_eq_Inr)
qed simp

lemma remove_member_sublist: "\<exists>xs ys. ms = xs @ ys \<and> (remove_member a ms = ms \<or> (\<exists>m zs. ys = m # zs \<and> remove_member a ms = xs @ zs))"
proof (induction ms)
  case (Cons m ms)
  then obtain xs ys where "ms = xs @ ys" "remove_member a ms = ms \<or> (\<exists>m zs. ys = m # zs \<and> remove_member a ms = xs @ zs)" by blast
  then show ?case by (cases "mm_address m = a") (auto intro: exI [of _ "m # xs"] exI [of _ "[]"])
qed simp

lemma remove_member_inv:
  assumes "group_inv self s"
  shows "group_inv self (s\<lparr>gs_members := remove_member a (gs_members s)\<rparr>)"
proof -
  obtain xs ys where "gs_members s = xs @ ys" "remove_member a (gs_members s) = gs_members s \<or> (\<exists>m zs. ys = m # zs \<and> remove_member a (gs_members s) = xs @ zs)"
    using remove_member_sublist by blast
  then show ?thesis using assms by (auto simp: group_inv_def sorted_wrt_append)
qed

lemma each_until_keep:
  assumes "\<And>a s s' ev. f a s = Inr (s', ev) \<Longrightarrow> s' = s" "each_until f as s = (s', ev, err)"
  shows "s' = s"
  using assms(2)
proof (induction as arbitrary: ev)
  case (Cons a as)
  show ?case
  proof (cases "f a s")
    case (Inr r)
    then obtain ev1 where f: "f a s = Inr (s, ev1)" using assms(1) by (metis surj_pair)
    obtain s2 ev2 err2 where "each_until f as s = (s2, ev2, err2)" by (metis surj_pair)
    then show ?thesis using Cons.IH Cons.prems f by auto
  qed (use Cons.prems in simp)
qed simp

lemma explicit_gather_keep:
  assumes "explicit_gather E n nwid nc mg gl gs = (gs', ev, err)"
  shows "gs_members gs' = gs_members gs \<and> gs_txQueue gs' = gs_txQueue gs"
proof (cases "gs_members gs = [] \<or> sint (me_now E - gs_lastExplicitGather gs) \<ge> int (MULTICAST_EXPLICIT_GATHER_DELAY * (if me_lowBandwidth E then 3 else 1))")
  case True
  let ?f = "\<lambda>a gs. bindE (gather_packet E a nwid (nc_com nc) mg gl) (\<lambda>p. Inr (gs, [SendGather a (buf_data p)]))"
  have "each_until ?f (gather_peers E n nwid nc) (gs\<lparr>gs_lastExplicitGather := me_now E\<rparr>) = (gs', ev, err)"
    using assms unfolding explicit_gather_def if_P [OF True] .
  from each_until_keep [OF _ this] have "gs' = gs\<lparr>gs_lastExplicitGather := me_now E\<rparr>" by (auto simp: bindE_eq_Inr)
  then show ?thesis by simp
qed (use assms in \<open>simp add: explicit_gather_def\<close>)

lemma queue_multicast_keep:
  assumes "queue_multicast E nwid nc origin mg src etherType data members gl gs = (gs', ev, err)"
  shows "gs_members gs' = gs_members gs \<and> length (gs_txQueue gs') \<le> length (gs_txQueue gs) + 1"
  using assms by (auto simp: queue_multicast_def split: sum.splits prod.splits option.splits)

lemma send_queued_inv:
  assumes "group_inv self gs" "send_queued E n nwid nc origin mg src etherType data members gs = (gs', ev, err)"
  shows "group_inv self gs'"
proof -
  let ?gl = "nc_multicastLimit nc - length (gs_members gs) + 1"
  let ?gs = "gs\<lparr>gs_txQueue := drop (length (gs_txQueue gs) - (MC_TX_QUEUE_SIZE - 1)) (gs_txQueue gs)\<rparr>"
  obtain g1 ev1 e1 where 1: "explicit_gather E n nwid nc mg ?gl ?gs = (g1, ev1, e1)" by (metis surj_pair)
  note k1 = explicit_gather_keep [OF 1]
  have q: "length (gs_txQueue g1) \<le> 31" using k1 assms(1) by (auto simp: group_inv_def)
  obtain g2 ev2 e2 where 2: "queue_multicast E nwid nc origin mg src etherType data members ?gl g1 = (g2, ev2, e2)" by (metis surj_pair)
  note k2 = queue_multicast_keep [OF 2]
  have "gs' = g1 \<or> gs' = g2" using assms(2) 1 2 by (auto simp: send_queued_def Let_def split: option.splits)
  then show ?thesis using assms(1) k1 k2 q by (auto simp: group_inv_def)
qed

lemma mc_send_inv:
  assumes "mc_inv (me_self E) mc" "mc_send E nwid nc origin mg src etherType data mc = Inr (mc', ev)"
  shows "mc_inv (me_self E) mc'"
proof (cases "chosen_replicator E nc")
  case None
  obtain gs t where t: "ht_index mc_hash (me_alloc E) mc_group_new (nwid, mg) mc = (gs, t)" by fastforce
  note i = mc_index [OF assms(1) t]
  let ?n = "length (gs_members gs)"
  let ?s = "if ?n \<noteq> 0 then shuffle_indexes (me_prng E) (?n - 1) 0 [0..<?n] else ([], 0)"
  let ?ms = "map (\<lambda>i. mm_address (gs_members gs ! i)) (fst ?s)"
  let ?r = "if nc_multicastLimit nc \<le> ?n then (gs, send_one_pass E nwid nc origin mg src etherType data ?ms) else send_queued E (snd ?s) nwid nc origin mg src etherType data ?ms gs"
  obtain g ev1 e where r: "?r = (g, ev1, e)" by (metis surj_pair)
  have "mc_send E nwid nc origin mg src etherType data mc =
    (case ?r of (gs', ev', e) \<Rightarrow> if e = Some UndefinedBehaviour then Inl UndefinedBehaviour else Inr (ht_set mc_hash (me_alloc E) (nwid, mg) gs' t, ev'))"
    unfolding mc_send_def None by (simp only: option.case t Let_def case_prod_beta prod.sel)
  then have mc': "mc' = ht_set mc_hash (me_alloc E) (nwid, mg) g t" using assms(2) unfolding r by (simp split: if_split_asm)
  have "group_inv (me_self E) g"
  proof (cases "nc_multicastLimit nc \<le> ?n")
    case True
    then show ?thesis using r i(1) by simp
  next
    case False
    then show ?thesis using send_queued_inv [OF i(1)] r by (simp only: if_False)
  qed
  then show ?thesis using i(4) mc' by blast
qed (use assms in \<open>auto simp: mc_send_def bindE_eq_Inr\<close>)

lemma mc_step_inv:
  assumes "mc_step self mc mc'" "mc_inv self mc"
  shows "mc_inv self mc'"
  using assms
proof (cases rule: mc_step.cases)
  case (1 E nwid mg a ev)
  then show ?thesis using mc_add_inv assms(2) by blast
next
  case (2 E nwid mg addresses n ev)
  obtain gs t where t: "ht_index mc_hash (me_alloc E) mc_group_new (nwid, mg) mc = (gs, t)" by fastforce
  obtain as gs' where "group_add_all E as gs = Inr (gs', ev)" "mc' = ht_set mc_hash (me_alloc E) (nwid, mg) gs' t"
    using 2 t by (auto simp: mc_addMultiple_def bindE_eq_Inr)
  then show ?thesis using mc_index [OF assms(2) t] group_add_all_inv 2(1) by blast
next
  case (3 alloc nwid mg a)
  show ?thesis
  proof (cases "ht_get mc_hash mc (nwid, mg)")
    case (Some s)
    have i: "ht_inv mc_hash mc" "group_inv self s" using assms(2) Some unfolding mc_inv_def by blast+
    then show ?thesis
      using 3 Some ht_set_spec [OF i(1), of alloc "(nwid, mg)"] remove_member_inv [OF i(2)] assms(2) by (simp add: mc_remove_def mc_inv_def)
  qed (use 3 assms(2) in \<open>simp add: mc_remove_def\<close>)
next
  case (4 E nwid nc origin mg src etherType data ev)
  then show ?thesis using mc_send_inv assms(2) by blast
next
  case (5 alloc now)
  obtain mc1 where m: "mc_clean alloc now mc = Some mc1" "ht_inv mc_hash mc1" "\<And>k. ht_get mc_hash mc1 k = Option.bind (ht_get mc_hash mc k) (clean_group now)"
    using mc_clean_spec [of mc alloc now] assms(2) by (auto simp: mc_inv_def)
  have "group_inv self s'" if "ht_get mc_hash mc1 k = Some s'" for k s'
    using that m(3) [of k] assms(2) clean_group_inv unfolding mc_inv_def by (metis bind_eq_Some_conv)
  then show ?thesis using 5 m(1,2) by (simp add: mc_inv_def)
qed

lemma add_to_new:
  assumes "mc_inv (me_self E) mc" "gs_txQueue (group_of mc (nwid, mg)) = []"
  shows "\<exists>mc' ev. mc_add E nwid mg a mc = Inr (mc', ev) \<and> gs_txQueue (group_of mc' (nwid, mg)) = []"
proof -
  obtain gs t where t: "ht_index mc_hash (me_alloc E) mc_group_new (nwid, mg) mc = (gs, t)" by fastforce
  have g: "gs = group_of mc (nwid, mg)" using index_get(1) [OF _ t] assms(1) by (simp add: mc_inv_def group_of_def)
  then have "gs_txQueue gs = []" using assms(2) by simp
  then have "\<exists>gs' ev. group_add E a gs = Inr (gs', ev) \<and> gs_txQueue gs' = []" by (simp add: group_add_def Let_def)
  then obtain gs' ev where gs': "group_add E a gs = Inr (gs', ev)" "gs_txQueue gs' = []" by blast
  have "group_inv (me_self E) gs'" using group_add_inv [OF mc_index(1) [OF assms(1) t] gs'(1)] by blast
  then have "ht_get mc_hash (ht_set mc_hash (me_alloc E) (nwid, mg) gs' t) (nwid, mg) = Some gs'" using mc_index(4) [OF assms(1) t] by simp
  then show ?thesis using t gs' by (simp add: mc_add_def group_of_def)
qed

text \<open>C18: whatever members are added, removed, cleaned and sent to, from a new multicaster on: the members of every group are in strictly increasing order of their addresses, as the binary search for the
  place of a new member relies on, so no member is there twice; the node itself is never one; and no more than 32 multicasts are queued.\<close>

theorem mc_members_sorted:
  assumes "mc_new alloc = Inr mc0" "(mc_step self)\<^sup>*\<^sup>* mc0 mc"
  shows "\<forall>k. case ht_get mc_hash mc k of None \<Rightarrow> True | Some gs \<Rightarrow>
      sorted_wrt (<) (map mm_address (gs_members gs)) \<and> self \<notin> set (map mm_address (gs_members gs)) \<and> length (gs_txQueue gs) \<le> 32"
proof -
  have "ht_inv mc_hash mc0" "ht_get mc_hash mc0 k = None" for k
    using assms(1) ht_new_inv [of 32 mc_hash] by (auto simp: mc_new_def ht_new_def ht_get_def split: if_splits)
  then have 0: "mc_inv self mc0" by (simp add: mc_inv_def)
  from assms(2) have "mc_inv self mc" by induction (use 0 mc_step_inv in blast)+
  then have "ht_get mc_hash mc k = Some gs \<Longrightarrow> group_inv self gs" for k gs unfolding mc_inv_def by blast
  then show ?thesis unfolding group_inv_def by (auto split: option.splits)
qed

theorem mc_members_sorted_witness:
  "\<exists>mc0 mc mc' ev ev'. mc_new (\<lambda>_. True) = Inr mc0 \<and> mc_add mc_env1 7 BROADCAST 5 mc0 = Inr (mc, ev) \<and> mc_add mc_env1 7 BROADCAST 4 mc = Inr (mc', ev')
     \<and> (case ht_get mc_hash mc' (7, BROADCAST) of None \<Rightarrow> False | Some gs \<Rightarrow> set (map mm_address (gs_members gs)) = {4, 5} \<and> sorted_wrt (<) (map mm_address (gs_members gs)))"
proof -
  obtain mc0 where 0: "mc_new (\<lambda>_. True) = Inr mc0" by (simp add: mc_new_def ht_new_def)
  have i: "ht_inv mc_hash mc0" "ht_get mc_hash mc0 k = None" for k
    using 0 ht_new_inv [of 32 mc_hash] by (auto simp: mc_new_def ht_new_def ht_get_def)
  then have inv0: "mc_inv (me_self mc_env1) mc0" by (simp add: mc_inv_def)
  obtain mc ev where 1: "mc_add mc_env1 7 BROADCAST 5 mc0 = Inr (mc, ev)" "gs_txQueue (group_of mc (7, BROADCAST)) = []"
    using add_to_new [OF inv0, of 7 BROADCAST 5] i(2) by (auto simp: group_of_def mc_group_new_def)
  note a1 = mc_add_inv [OF inv0 1(1)]
  obtain mc' ev' where 2: "mc_add mc_env1 7 BROADCAST 4 mc = Inr (mc', ev')" using add_to_new [OF conjunct1 [OF a1] 1(2)] by blast
  note a2 = mc_add_inv [OF conjunct1 [OF a1] 2]
  have m: "set (members_of mc' (7, BROADCAST)) = {4, 5}" using a1 a2 i(2) by (auto simp: mc_env1_sel members_of_def)
  have "mc_step 9 mc0 mc" "mc_step 9 mc mc'" using mc_step.intros(1) [OF mc_env1_sel(1)] 1(1) 2 by blast+
  then have "(mc_step 9)\<^sup>*\<^sup>* mc0 mc'" by auto
  from mc_members_sorted [OF 0 this, rule_format, of "(7, BROADCAST)"] m
  have "case ht_get mc_hash mc' (7, BROADCAST) of None \<Rightarrow> False | Some gs \<Rightarrow> set (map mm_address (gs_members gs)) = {4, 5} \<and> sorted_wrt (<) (map mm_address (gs_members gs))"
    by (simp add: members_of_def split: option.splits)
  with 0 1(1) 2 show ?thesis by blast
qed

end
