(* ===== verification/Spec2Isabelle.thy ===== *)
theory Spec2Isabelle
  imports ZT_ConfigUpdate ZT_Dictionary ZT_Reassembly ZT_Armor ZT_Multicaster
begin

text \<open>
  A verification of the ZeroTier node core, \<^verbatim>\<open>src/ZeroTierOne/node\<close>, as it is built for the ESP32: a 32-bit little-endian target, so \<^verbatim>\<open>unsigned int\<close>, \<^verbatim>\<open>unsigned long\<close> and
  \<^verbatim>\<open>size_t\<close> have 32 bits, without type punning, without hardware ciphers and without link aggregation.

  \<^bold>\<open>The program.\<close> A node joins virtual Ethernet networks. \<^emph>\<open>Switch\<close> receives datagrams from the wire, puts fragmented packets together, relays what is for others and queues what
  cannot be sent or decoded until the identity of a peer is known. A \<^emph>\<open>Packet\<close> is a bounded \<^emph>\<open>Buffer\<close> with a header, encrypted and authenticated by its armor. Each \<^emph>\<open>Network\<close> has a configuration, which comes
  from its controller in signed chunks of a \<^emph>\<open>Dictionary\<close>, and a record of each member (\<^emph>\<open>Membership\<close>) with the credentials the member has shown: a certificate of membership, tags, capabilities, certificates of
  ownership, and the revocations of these. Frames pass the flow rules of the network and of the capabilities in both directions. \<^emph>\<open>Multicaster\<close> keeps the members of multicast groups and distributes multicast frames
  to them.

  \<^bold>\<open>The theories\<close>, bottom up. Definitions keep the names of the functions they translate, with the class in front where names would clash (\<open>mc_\<close> for Multicaster, \<open>om_\<close> for OutboundMulticast, \<open>ht_\<close> for Hashtable,
  \<open>nc_\<close> for NetworkConfig, \<open>mb_\<close> for Membership, \<open>nw_\<close> for Network, \<open>buf_\<close> for Buffer).
  \<^item> \<open>ZT_Prelude\<close>: machine integers, memory with bounds, faults (exceptions and undefined behaviour as values), the error monad \<open>bindE\<close>, byte orders.
  \<^item> \<open>ZT_Utils\<close> (\<^verbatim>\<open>Utils.hpp\<close>, \<^verbatim>\<open>Utils.cpp\<close>): hex and number conversions, constant-time comparison, bounded copies, byte order.
  \<^item> \<open>ZT_Buffer\<close> (\<^verbatim>\<open>Buffer.hpp\<close>) and \<open>ZT_Codec\<close>: the buffer with its 32-bit bounds arithmetic; no sequence of operations within its hypotheses leaves the array. The codec theory states what it means that a
    writer emits and a reader parses given bytes; the locales of a wire format and of a signed one are interpreted for the credentials.
  \<^item> \<open>ZT_Addressing\<close> (\<^verbatim>\<open>Address.hpp\<close>, \<^verbatim>\<open>MAC.hpp\<close>, \<^verbatim>\<open>MulticastGroup.hpp\<close>), \<open>ZT_InetAddress\<close> (\<^verbatim>\<open>InetAddress.hpp\<close>, \<^verbatim>\<open>InetAddress.cpp\<close>).
  \<^item> \<open>ZT_Hashtable\<close> (\<^verbatim>\<open>Hashtable.hpp\<close>): the chained hash table refines a finite map, whether or not the bucket array can be grown, for any hash function; the map interface is a locale which the tables of the other
    components use through its interpretation; iteration ends and delivers each entry once, also when the entry delivered is erased.
  \<^item> \<open>ZT_Credentials\<close>, \<open>ZT_Capability\<close> (\<^verbatim>\<open>Tag\<close>, \<^verbatim>\<open>CertificateOfOwnership\<close>, \<^verbatim>\<open>Revocation\<close>, \<^verbatim>\<open>CertificateOfMembership\<close>, \<^verbatim>\<open>Capability\<close>, each \<^verbatim>\<open>.hpp\<close> and \<^verbatim>\<open>.cpp\<close>): wire formats with round trips, signing
    and verification; what a signature covers; which certificates agree.
  \<^item> \<open>ZT_NetworkConfig\<close>, \<open>ZT_Membership\<close> (\<^verbatim>\<open>NetworkConfig\<close>, \<^verbatim>\<open>Membership\<close>): every reachable record of a member holds verified credentials only, a revoked credential stays revoked, cleaning ends and keeps what is valid.
  \<^item> \<open>ZT_Rules\<close> (\<^verbatim>\<open>_doZtFilter\<close> of \<^verbatim>\<open>Network.cpp\<close>): the evaluation of rules, its equivalence with the first matching set of rules, and that it reads within the frame on the rules described there.
  \<^item> \<open>ZT_Network\<close> (\<^verbatim>\<open>Network.hpp\<close>, \<^verbatim>\<open>Network.cpp\<close>): filtering with capabilities, credential intake, bridge routes, multicast subscriptions, cleaning; a frame comes in only when the rules or a valid capability let it.
  \<^item> \<open>ZT_Dictionary\<close> (\<^verbatim>\<open>Dictionary.hpp\<close>), \<open>ZT_ConfigUpdate\<close> (\<^verbatim>\<open>handleConfigChunk\<close>, \<^verbatim>\<open>setConfiguration\<close>): chunks give the configuration that was sent, and only what the controller signed is applied.
  \<^item> \<open>ZT_Packet\<close> (\<^verbatim>\<open>Packet.hpp\<close>), \<open>ZT_Switch\<close> (\<^verbatim>\<open>Switch.hpp\<close>, \<^verbatim>\<open>Switch.cpp\<close>), \<open>ZT_Reassembly\<close>: packets and fragments; reception, relaying, WHOIS requests, the send queue and the timer; a packet is put together from its
    datagrams in any order.
  \<^item> \<open>ZT_Salsa20\<close>, \<open>ZT_Poly1305\<close>, \<open>ZT_AES\<close>, \<open>ZT_GMACSIV\<close>, \<open>ZT_Armor\<close>: the ciphers and authenticators of the 32-bit build, each equal to its mathematical definition, and the armor of packets: what is armored is dearmored
    to the same packet, and what dearmors carries the right authentication code.
  \<^item> \<open>ZT_Multicaster\<close> (\<^verbatim>\<open>Multicaster\<close>, \<^verbatim>\<open>OutboundMulticast\<close>): the members of groups stay sorted and free of this node, gather requests are answered, frames reach the members without repetition, cleaning ends.

  \<^bold>\<open>Conventions.\<close> An operation that may throw returns a sum, \<open>Inl\<close> with the fault; reading or writing outside of an object is the fault \<open>UndefinedBehaviour\<close>, so a theorem that an operation returns \<open>Inr\<close> says it is free of it.
  Operations that change state take and return records. Effects on other components are lists of events. State machines are step relations over all operations, and invariants are proved by induction over them. The theorems
  that describe errors show inputs on which the code does what its authors cannot have meant.

  \<^bold>\<open>Bounds and fuel.\<close> The loops over a hash table that erases while it is iterated (\<open>clean_loop\<close>, \<open>clean_members\<close>, \<open>clean_groups\<close>) take the size of the table and one more as fuel and are proved to return; the loop of
  \<open>learnBridgeRoute\<close> takes 2 and is proved to return; \<open>requestWhois\<close> recurses at most three deep, which is proved to be enough; the member scan of \<open>gather\<close> is a partial function that is proved to return.

  \<^bold>\<open>Parameters.\<close> Identities and the verification of signatures (\<open>ce_identity\<close>), key agreement, random bytes and numbers, the outcome of memory allocation, compression, the interface of the host, and what peers, paths and the
  topology answer. What is assumed of them is stated with the theorem and holds for the concrete functions of its witness.

  \<^bold>\<open>Not modelled.\<close> The handlers of \<^verbatim>\<open>IncomingPacket.cpp\<close>, \<^verbatim>\<open>Peer\<close>, \<^verbatim>\<open>Path\<close>, \<^verbatim>\<open>Topology\<close>, \<^verbatim>\<open>World\<close>, \<^verbatim>\<open>SelfAwareness\<close>, \<^verbatim>\<open>Identity\<close> and \<^verbatim>\<open>Node\<close>: their state is mostly sockets, time and keys, and the models above
  take their answers as parameters. Elliptic curves, SHA-512 and LZ4 are third-party algorithms of their own. \<^verbatim>\<open>Bond\<close>, \<^verbatim>\<open>Trace\<close>, \<^verbatim>\<open>Metrics\<close>, \<^verbatim>\<open>PacketMultiplexer\<close> and the hardware ciphers are not in the ESP32 build. Locks are
  not modelled: the models are of the critical sections. Of \<^verbatim>\<open>Network\<close>, \<^verbatim>\<open>Switch\<close>, \<^verbatim>\<open>NetworkConfig\<close> and \<^verbatim>\<open>Membership\<close> the pushing of credentials, local Ethernet frames with their queueing disciplines and the translation of
  configurations to and from dictionaries are left out. The ESP32 application and port are input and output.
\<close>

end
